(* ===== verification/Prelude.thy ===== *)
theory Prelude
  imports Main "HOL-Library.Word" "HOL-Library.Char_ord" "HOL-Library.List_Lexorder"
begin

text \<open>
  Shared vocabulary of the development: the machine types of the C++ sources, the ways a
  program step can go wrong, the bytes of a \<open>char\<close>, and the lemmas on words, lists and
  results that several components use.

  \<^item> \<open>unsigned int\<close>, \<open>int\<close> and their relatives are words; a signed value is the same
    word read with \<^const>\<open>sint\<close>.
  \<^item> \<open>std::string\<close> is \<^typ>\<open>string\<close>. With \<open>Char_ord\<close> and \<open>List_Lexorder\<close> its order
    \<open><\<close> is the byte-wise lexicographic order of \<open>std::string::compare\<close>.
  \<^item> A step that can abort returns \<open>fault + 'a\<close>: \<open>VERIFY\<close> (include/lang/verify.h) is
    \<open>Verify_failed\<close>, \<open>exit(1)\<close> is \<open>Exited\<close>, an access outside an object is
    \<open>Undefined\<close>.
\<close>

named_theorems codec_simps "unfolding rules for the wire format"
named_theorems result_simps "rewrite rules for steps that may fault"

type_synonym byte = "8 word"
type_synonym u16 = "16 word"
type_synonym u32 = "32 word"
type_synonym u64 = "64 word"
type_synonym cint = "32 word"

datatype fault = Verify_failed | Exited | Undefined

type_synonym 'a result = "fault + 'a"

definition rbind :: "'a result \<Rightarrow> ('a \<Rightarrow> 'b result) \<Rightarrow> 'b result" where
  "rbind r f = (case r of Inl e \<Rightarrow> Inl e | Inr x \<Rightarrow> f x)"

definition VERIFY :: "bool \<Rightarrow> unit result" where
  "VERIFY b = (if b then Inr () else Inl Verify_failed)"

definition byte_of_char :: "char \<Rightarrow> byte" where
  "byte_of_char c = of_char c"

definition char_of_byte :: "byte \<Rightarrow> char" where
  "char_of_byte b = char_of (unat b)"

subsection \<open>Results\<close>

lemma rbind_simps [simp, result_simps]:
  "rbind (Inr x) f = f x"
  "rbind (Inl e) f = Inl e"
  by (simp_all add: rbind_def)

lemma rbind_eq_Inr [result_simps]:
  "rbind r f = Inr y \<longleftrightarrow> (\<exists>x. r = Inr x \<and> f x = Inr y)"
  by (cases r) auto

lemma rbind_assoc: "rbind (rbind r f) g = rbind r (\<lambda>x. rbind (f x) g)"
  by (cases r) auto

lemma VERIFY_simps [simp, result_simps]:
  "VERIFY True = Inr ()"
  "VERIFY False = Inl Verify_failed"
  by (simp_all add: VERIFY_def)

lemma VERIFY_eq_Inr [result_simps]: "VERIFY b = Inr u \<longleftrightarrow> b"
  by (simp add: VERIFY_def)

subsection \<open>Characters and bytes\<close>

lemma char_of_byte_of_char [simp]: "char_of_byte (byte_of_char c) = c"
proof -
  have "(of_char c :: nat) < 256" by simp
  then have "unat (of_nat (of_char c :: nat) :: byte) = (of_char c :: nat)"
    by (simp add: unat_of_nat)
  then have "unat (of_char c :: byte) = (of_char c :: nat)"
    by (metis of_nat_of_char)
  then show ?thesis by (simp add: char_of_byte_def byte_of_char_def)
qed

lemma map_char_of_byte_of_char [simp]: "map (char_of_byte \<circ> byte_of_char) s = s"
  by (simp add: map_idI)

lemma byte_of_char_of_byte [simp]: "byte_of_char (char_of_byte b) = b"
proof -
  have "unat b < 256" using unsigned_less [of b] by simp
  then have "(of_char (char_of (unat b)) :: nat) = unat b" by simp
  then have "of_nat (of_char (char_of (unat b)) :: nat) = b" by simp
  then show ?thesis
    by (simp only: byte_of_char_def char_of_byte_def of_nat_of_char)
qed

lemma map_byte_of_char_of_byte [simp]: "map (byte_of_char \<circ> char_of_byte) bs = bs"
  by (simp add: map_idI)

subsection \<open>Lists\<close>

lemma take_drop_split: "drop i xs = ys @ zs \<Longrightarrow> take (length ys) (drop i xs) = ys"
  by simp

lemma drop_eq_ConsD: "drop i xs = y # ys \<Longrightarrow> i < length xs \<and> xs ! i = y \<and> drop (Suc i) xs = ys"
  by (metis drop_Suc drop_eq_Nil linorder_not_less list.distinct(1) list.sel(3) nth_via_drop tl_drop)

lemma drop_eq_appendD: "drop i xs = ys @ zs \<Longrightarrow> drop (i + length ys) xs = zs"
  by (metis add.commute append_eq_conv_conj drop_drop)

end
