(* ===== verification/Marshall.thy ===== *)
theory Marshall
  imports Prelude
begin

text \<open>
  The wire format: class \<open>marshall\<close> and class \<open>unmarshall\<close> of include/rpc/marshall.h with
  their out-of-line members in src/rpc/rpc.cc.

  A \<open>marshall\<close> is a growing buffer: \<open>_buf\<close> (\<open>None\<close> after \<open>take_buf\<close>), its capacity
  \<open>_capa\<close> and the write position \<open>_ind\<close>. The bytes that \<open>malloc\<close> and \<open>realloc\<close> hand out
  are not specified by C++; the record carries them as \<open>m_mem\<close>, one byte per offset, and no
  theorem constrains it. \<open>_capa\<close> and \<open>_ind\<close> are \<open>int\<close> in the source and natural numbers here, which is the same as
  long as they are below \<open>2\<^sup>3\<^sup>1\<close>; theory \<open>Codec\<close> shows that contents below \<open>2\<^sup>3\<^sup>0\<close> bytes keep them there. A write outside the buffer is the fault \<open>Undefined\<close>, so the
  absence of that fault is memory safety. Allocation itself is taken to succeed.

  An \<open>unmarshall\<close> is a received buffer with a read position and a sticky failure flag.

  The checksum variant (\<open>RPC_CHECKSUMMING\<close>) is not compiled in, so a header is 24 bytes:
  the larger of the two header structs (20 and 8 bytes) and the 4 bytes of the PDU size.
\<close>

unbundle bit_operations_syntax

section \<open>Headers and constants\<close>

record req_header =
  rq_xid :: cint
  rq_proc :: cint
  rq_clt_nonce :: u32
  rq_srv_nonce :: u32
  rq_xid_rep :: cint

record reply_header =
  rp_xid :: cint
  rp_ret :: cint

definition static_max :: "nat \<Rightarrow> nat \<Rightarrow> nat" where
  "static_max A B = (if A > B then A else B)"

definition static_min :: "nat \<Rightarrow> nat \<Rightarrow> nat" where
  "static_min A B = (if A < B then A else B)"

definition rpc_sz_t_size :: nat where
  "rpc_sz_t_size = 4"

definition DEFAULT_RPC_SZ :: nat where
  "DEFAULT_RPC_SZ = 1024"

definition RPC_HEADER_SZ :: nat where
  "RPC_HEADER_SZ = static_max (5 * 4) (2 * 4) + rpc_sz_t_size"

lemma RPC_HEADER_SZ_eq [simp]: "RPC_HEADER_SZ = 24"
  by (simp add: RPC_HEADER_SZ_def static_max_def rpc_sz_t_size_def)

lemma size_consts [simp]: "rpc_sz_t_size = 4" "DEFAULT_RPC_SZ = 1024"
  by (simp_all add: rpc_sz_t_size_def DEFAULT_RPC_SZ_def)

section \<open>class marshall\<close>

record marshall =
  m_mem :: "nat \<Rightarrow> byte"
  m_buf :: "byte list option"
  m_capa :: nat
  m_ind :: nat

definition marshall_new :: "(nat \<Rightarrow> byte) \<Rightarrow> marshall" where
  "marshall_new mem =
     \<lparr>m_mem = mem, m_buf = Some (map mem [0..<DEFAULT_RPC_SZ]),
      m_capa = DEFAULT_RPC_SZ, m_ind = RPC_HEADER_SZ\<rparr>"

text \<open>\<open>VERIFY(_buf != NULL); _buf = realloc(_buf, _capa)\<close> after \<open>_capa\<close> was set to \<open>c\<close>.\<close>

definition marshall_realloc :: "nat \<Rightarrow> marshall \<Rightarrow> marshall result" where
  "marshall_realloc c m =
     (case m_buf m of
        None \<Rightarrow> Inl Verify_failed
      | Some b \<Rightarrow> Inr (m\<lparr>m_capa := c,
          m_buf := Some (take c b @ map (m_mem m) [length b..<c])\<rparr>))"

text \<open>\<open>memcpy(_buf + i, p, n)\<close>: undefined on a null buffer and past its end.\<close>

definition marshall_poke :: "nat \<Rightarrow> byte list \<Rightarrow> marshall \<Rightarrow> marshall result" where
  "marshall_poke i p m =
     (case m_buf m of
        None \<Rightarrow> Inl Undefined
      | Some b \<Rightarrow>
          (if i + length p \<le> length b
           then Inr (m\<lparr>m_buf := Some (take i b @ p @ drop (i + length p) b)\<rparr>)
           else Inl Undefined))"

definition marshall_rawbyte :: "byte \<Rightarrow> marshall \<Rightarrow> marshall result" where
  "marshall_rawbyte x m =
     rbind (if m_ind m \<ge> m_capa m then marshall_realloc (2 * m_capa m) m else Inr m) (\<lambda>m.
     rbind (marshall_poke (m_ind m) [x] m) (\<lambda>m.
     Inr (m\<lparr>m_ind := m_ind m + 1\<rparr>)))"

definition marshall_rawbytes :: "byte list \<Rightarrow> marshall \<Rightarrow> marshall result" where
  "marshall_rawbytes p m =
     (let n = length p in
      rbind (if m_ind m + n > m_capa m
             then marshall_realloc
                    (if m_capa m > n then 2 * m_capa m else m_capa m + n) m
             else Inr m) (\<lambda>m.
      rbind (marshall_poke (m_ind m) p m) (\<lambda>m.
      Inr (m\<lparr>m_ind := m_ind m + n\<rparr>))))"

definition marshall_get_content :: "marshall \<Rightarrow> string result" where
  "marshall_get_content m =
     (case m_buf m of
        None \<Rightarrow> Inl Undefined
      | Some b \<Rightarrow>
          (if RPC_HEADER_SZ \<le> m_ind m \<and> m_ind m \<le> length b
           then Inr (map char_of_byte
                  (take (m_ind m - RPC_HEADER_SZ) (drop RPC_HEADER_SZ b)))
           else Inl Undefined))"

definition marshall_str :: "marshall \<Rightarrow> string result" where
  "marshall_str m = marshall_get_content m"

definition marshall_pack :: "cint \<Rightarrow> marshall \<Rightarrow> marshall result" where
  "marshall_pack x m =
     rbind (marshall_rawbyte (ucast (drop_bit 24 x AND 0xff)) m) (\<lambda>m.
     rbind (marshall_rawbyte (ucast (drop_bit 16 x AND 0xff)) m) (\<lambda>m.
     rbind (marshall_rawbyte (ucast (drop_bit 8 x AND 0xff)) m) (\<lambda>m.
     marshall_rawbyte (ucast (x AND 0xff)) m)))"

definition pack_req_header :: "req_header \<Rightarrow> marshall \<Rightarrow> marshall result" where
  "pack_req_header h m =
     (let saved_sz = m_ind m in
      rbind (marshall_pack (rq_xid h) (m\<lparr>m_ind := rpc_sz_t_size\<rparr>)) (\<lambda>m.
      rbind (marshall_pack (rq_proc h) m) (\<lambda>m.
      rbind (marshall_pack (rq_clt_nonce h) m) (\<lambda>m.
      rbind (marshall_pack (rq_srv_nonce h) m) (\<lambda>m.
      rbind (marshall_pack (rq_xid_rep h) m) (\<lambda>m.
      Inr (m\<lparr>m_ind := saved_sz\<rparr>)))))))"

definition pack_reply_header :: "reply_header \<Rightarrow> marshall \<Rightarrow> marshall result" where
  "pack_reply_header h m =
     (let saved_sz = m_ind m in
      rbind (marshall_pack (rp_xid h) (m\<lparr>m_ind := rpc_sz_t_size\<rparr>)) (\<lambda>m.
      rbind (marshall_pack (rp_ret h) m) (\<lambda>m.
      Inr (m\<lparr>m_ind := saved_sz\<rparr>))))"

definition marshall_take_buf :: "marshall \<Rightarrow> (byte list option \<times> nat) \<times> marshall" where
  "marshall_take_buf m = ((m_buf m, m_ind m), m\<lparr>m_buf := None, m_ind := 0\<rparr>)"

subsection \<open>operator<<\<close>

definition put_bool :: "bool \<Rightarrow> marshall \<Rightarrow> marshall result" where
  "put_bool x m = marshall_rawbyte (if x then 1 else 0) m"

definition put_uchar :: "byte \<Rightarrow> marshall \<Rightarrow> marshall result" where
  "put_uchar x m = marshall_rawbyte x m"

definition put_char :: "char \<Rightarrow> marshall \<Rightarrow> marshall result" where
  "put_char x m = put_uchar (byte_of_char x) m"

definition put_ushort :: "u16 \<Rightarrow> marshall \<Rightarrow> marshall result" where
  "put_ushort x m =
     rbind (marshall_rawbyte (ucast (drop_bit 8 x AND 0xff)) m) (\<lambda>m.
     marshall_rawbyte (ucast (x AND 0xff)) m)"

definition put_short :: "u16 \<Rightarrow> marshall \<Rightarrow> marshall result" where
  "put_short x m = put_ushort x m"

definition put_uint :: "u32 \<Rightarrow> marshall \<Rightarrow> marshall result" where
  "put_uint x m =
     rbind (marshall_rawbyte (ucast (drop_bit 24 x AND 0xff)) m) (\<lambda>m.
     rbind (marshall_rawbyte (ucast (drop_bit 16 x AND 0xff)) m) (\<lambda>m.
     rbind (marshall_rawbyte (ucast (drop_bit 8 x AND 0xff)) m) (\<lambda>m.
     marshall_rawbyte (ucast (x AND 0xff)) m)))"

definition put_int :: "cint \<Rightarrow> marshall \<Rightarrow> marshall result" where
  "put_int x m = put_uint x m"

definition put_string :: "string \<Rightarrow> marshall \<Rightarrow> marshall result" where
  "put_string s m =
     rbind (put_uint (of_nat (length s)) m) (\<lambda>m.
     marshall_rawbytes (map byte_of_char s) m)"

definition put_ulonglong :: "u64 \<Rightarrow> marshall \<Rightarrow> marshall result" where
  "put_ulonglong x m =
     rbind (put_uint (ucast (drop_bit 32 x)) m) (\<lambda>m.
     put_uint (ucast x) m)"

fun put_each :: "('a \<Rightarrow> marshall \<Rightarrow> marshall result) \<Rightarrow> 'a list \<Rightarrow> marshall \<Rightarrow> marshall result" where
  "put_each put [] m = Inr m"
| "put_each put (x # xs) m = rbind (put x m) (put_each put xs)"

definition put_vector :: "('a \<Rightarrow> marshall \<Rightarrow> marshall result) \<Rightarrow> 'a list \<Rightarrow> marshall \<Rightarrow> marshall result" where
  "put_vector put v m = rbind (put_uint (of_nat (length v)) m) (put_each put v)"

text \<open>
  A \<open>std::map<A, B>\<close> is the list of its entries in iteration order, which is the order of
  the keys.
\<close>

definition put_map :: "('a \<Rightarrow> marshall \<Rightarrow> marshall result) \<Rightarrow> ('b \<Rightarrow> marshall \<Rightarrow> marshall result)
    \<Rightarrow> ('a \<times> 'b) list \<Rightarrow> marshall \<Rightarrow> marshall result" where
  "put_map puta putb d m =
     rbind (put_uint (of_nat (length d)) m)
       (put_each (\<lambda>(a, b) m. rbind (puta a m) (putb b)) d)"

section \<open>class unmarshall\<close>

record unmarshall =
  u_buf :: "byte list"
  u_sz :: nat
  u_ind :: nat
  u_ok :: bool

definition unmarshall_new :: unmarshall where
  "unmarshall_new = \<lparr>u_buf = [], u_sz = 0, u_ind = 0, u_ok = False\<rparr>"

definition unmarshall_buf :: "byte list \<Rightarrow> nat \<Rightarrow> unmarshall" where
  "unmarshall_buf b sz = \<lparr>u_buf = b, u_sz = sz, u_ind = 0, u_ok = True\<rparr>"

definition unmarshall_take_content :: "(nat \<Rightarrow> byte) \<Rightarrow> string \<Rightarrow> unmarshall \<Rightarrow> unmarshall" where
  "unmarshall_take_content mem s u =
     (let sz = length s + RPC_HEADER_SZ;
          b = take sz (u_buf u) @ map mem [length (u_buf u)..<sz]
      in u\<lparr>u_sz := sz, u_ind := RPC_HEADER_SZ, u_ok := True,
           u_buf := take RPC_HEADER_SZ b @ map byte_of_char s\<rparr>)"

definition unmarshall_string :: "(nat \<Rightarrow> byte) \<Rightarrow> string \<Rightarrow> unmarshall" where
  "unmarshall_string mem s = unmarshall_take_content mem s unmarshall_new"

definition unmarshall_okdone :: "unmarshall \<Rightarrow> bool" where
  "unmarshall_okdone u = (if u_ok u \<and> u_ind u = u_sz u then True else False)"

text \<open>
  \<open>rawbyte\<close> reads a plain (signed) \<open>char\<close> and returns it as \<open>unsigned int\<close>, which sign
  extends it; every caller masks the result.
\<close>

definition unmarshall_rawbyte :: "unmarshall \<Rightarrow> (u32 \<times> unmarshall) result" where
  "unmarshall_rawbyte u =
     (if u_ind u \<ge> u_sz u then Inr (0, u\<lparr>u_ok := False\<rparr>)
      else if u_ind u < length (u_buf u)
      then Inr (scast (u_buf u ! u_ind u), u\<lparr>u_ind := u_ind u + 1\<rparr>)
      else Inl Undefined)"

text \<open>
  The bounds test of \<open>rawbytes\<close> adds an \<open>int\<close> and an \<open>unsigned int\<close>: the sum is an
  \<open>unsigned int\<close> and wraps.
\<close>

definition unmarshall_rawbytes :: "string \<Rightarrow> u32 \<Rightarrow> unmarshall \<Rightarrow> (string \<times> unmarshall) result" where
  "unmarshall_rawbytes ss n u =
     (if of_nat (u_ind u) + n > (of_nat (u_sz u) :: u32) then Inr (ss, u\<lparr>u_ok := False\<rparr>)
      else if u_ind u + unat n \<le> length (u_buf u)
      then (let ss = map char_of_byte (take (unat n) (drop (u_ind u) (u_buf u))) in
            rbind (VERIFY (length ss = unat n)) (\<lambda>_.
            Inr (ss, u\<lparr>u_ind := u_ind u + unat n\<rparr>)))
      else Inl Undefined)"

definition unmarshall_unpack :: "unmarshall \<Rightarrow> (cint \<times> unmarshall) result" where
  "unmarshall_unpack u =
     rbind (unmarshall_rawbyte u) (\<lambda>(b, u). let x = push_bit 24 (b AND 0xff) in
     rbind (unmarshall_rawbyte u) (\<lambda>(b, u). let x = x OR push_bit 16 (b AND 0xff) in
     rbind (unmarshall_rawbyte u) (\<lambda>(b, u). let x = x OR push_bit 8 (b AND 0xff) in
     rbind (unmarshall_rawbyte u) (\<lambda>(b, u). Inr (x OR (b AND 0xff), u)))))"

definition unmarshall_take_buf :: "unmarshall \<Rightarrow> (byte list \<times> nat) \<times> unmarshall" where
  "unmarshall_take_buf u =
     ((u_buf u, u_sz u), u\<lparr>u_sz := 0, u_ind := 0, u_buf := []\<rparr>)"

definition unmarshall_take_in :: "unmarshall \<Rightarrow> unmarshall \<Rightarrow> unmarshall \<times> unmarshall" where
  "unmarshall_take_in u another =
     (let ((b, sz), another) = unmarshall_take_buf another
      in (u\<lparr>u_buf := b, u_sz := sz, u_ind := RPC_HEADER_SZ,
             u_ok := (if sz \<ge> RPC_HEADER_SZ then True else False)\<rparr>, another))"

definition unpack_req_header :: "unmarshall \<Rightarrow> (req_header \<times> unmarshall) result" where
  "unpack_req_header u =
     rbind (unmarshall_unpack (u\<lparr>u_ind := rpc_sz_t_size\<rparr>)) (\<lambda>(xid, u).
     rbind (unmarshall_unpack u) (\<lambda>(proc, u).
     rbind (unmarshall_unpack u) (\<lambda>(clt_nonce, u).
     rbind (unmarshall_unpack u) (\<lambda>(srv_nonce, u).
     rbind (unmarshall_unpack u) (\<lambda>(xid_rep, u).
     Inr (\<lparr>rq_xid = xid, rq_proc = proc, rq_clt_nonce = clt_nonce,
           rq_srv_nonce = srv_nonce, rq_xid_rep = xid_rep\<rparr>,
          u\<lparr>u_ind := RPC_HEADER_SZ\<rparr>))))))"

definition unpack_reply_header :: "unmarshall \<Rightarrow> (reply_header \<times> unmarshall) result" where
  "unpack_reply_header u =
     rbind (unmarshall_unpack (u\<lparr>u_ind := rpc_sz_t_size\<rparr>)) (\<lambda>(xid, u).
     rbind (unmarshall_unpack u) (\<lambda>(ret, u).
     Inr (\<lparr>rp_xid = xid, rp_ret = ret\<rparr>, u\<lparr>u_ind := RPC_HEADER_SZ\<rparr>)))"

subsection \<open>operator>>\<close>

definition get_bool :: "unmarshall \<Rightarrow> (bool \<times> unmarshall) result" where
  "get_bool u = rbind (unmarshall_rawbyte u) (\<lambda>(b, u). Inr (b \<noteq> 0, u))"

definition get_uchar :: "unmarshall \<Rightarrow> (byte \<times> unmarshall) result" where
  "get_uchar u = rbind (unmarshall_rawbyte u) (\<lambda>(b, u). Inr (ucast b, u))"

definition get_char :: "unmarshall \<Rightarrow> (char \<times> unmarshall) result" where
  "get_char u = rbind (unmarshall_rawbyte u) (\<lambda>(b, u). Inr (char_of_byte (ucast b), u))"

definition get_ushort :: "unmarshall \<Rightarrow> (u16 \<times> unmarshall) result" where
  "get_ushort u =
     rbind (unmarshall_rawbyte u) (\<lambda>(b, u). let x = ucast (push_bit 8 (b AND 0xff)) in
     rbind (unmarshall_rawbyte u) (\<lambda>(b, u). Inr (x OR ucast (b AND 0xff), u)))"

definition get_short :: "unmarshall \<Rightarrow> (u16 \<times> unmarshall) result" where
  "get_short u =
     rbind (unmarshall_rawbyte u) (\<lambda>(b, u). let x = ucast (push_bit 8 (b AND 0xff)) in
     rbind (unmarshall_rawbyte u) (\<lambda>(b, u). Inr (x OR ucast (b AND 0xff), u)))"

definition get_uint :: "unmarshall \<Rightarrow> (u32 \<times> unmarshall) result" where
  "get_uint u =
     rbind (unmarshall_rawbyte u) (\<lambda>(b, u). let x = push_bit 24 (b AND 0xff) in
     rbind (unmarshall_rawbyte u) (\<lambda>(b, u). let x = x OR push_bit 16 (b AND 0xff) in
     rbind (unmarshall_rawbyte u) (\<lambda>(b, u). let x = x OR push_bit 8 (b AND 0xff) in
     rbind (unmarshall_rawbyte u) (\<lambda>(b, u). Inr (x OR (b AND 0xff), u)))))"

definition get_int :: "unmarshall \<Rightarrow> (cint \<times> unmarshall) result" where
  "get_int u =
     rbind (unmarshall_rawbyte u) (\<lambda>(b, u). let x = push_bit 24 (b AND 0xff) in
     rbind (unmarshall_rawbyte u) (\<lambda>(b, u). let x = x OR push_bit 16 (b AND 0xff) in
     rbind (unmarshall_rawbyte u) (\<lambda>(b, u). let x = x OR push_bit 8 (b AND 0xff) in
     rbind (unmarshall_rawbyte u) (\<lambda>(b, u). Inr (x OR (b AND 0xff), u)))))"

definition get_ulonglong :: "unmarshall \<Rightarrow> (u64 \<times> unmarshall) result" where
  "get_ulonglong u =
     rbind (get_uint u) (\<lambda>(h, u).
     rbind (get_uint u) (\<lambda>(l, u).
     Inr (ucast l OR push_bit 32 (ucast h), u)))"

text \<open>The string that is read into keeps its old value \<open>s\<close> when the read fails.\<close>

definition get_string :: "string \<Rightarrow> unmarshall \<Rightarrow> (string \<times> unmarshall) result" where
  "get_string s u =
     rbind (get_uint u) (\<lambda>(sz, u).
     if u_ok u then unmarshall_rawbytes s sz u else Inr (s, u))"

fun get_each :: "(unmarshall \<Rightarrow> ('a \<times> unmarshall) result) \<Rightarrow> nat \<Rightarrow> unmarshall
    \<Rightarrow> ('a list \<times> unmarshall) result" where
  "get_each get 0 u = Inr ([], u)"
| "get_each get (Suc n) u =
     rbind (get u) (\<lambda>(z, u). rbind (get_each get n u) (\<lambda>(zs, u). Inr (z # zs, u)))"

definition get_vector :: "(unmarshall \<Rightarrow> ('a \<times> unmarshall) result) \<Rightarrow> unmarshall
    \<Rightarrow> ('a list \<times> unmarshall) result" where
  "get_vector get u = rbind (get_uint u) (\<lambda>(n, u). get_each get (unat n) u)"

text \<open>\<open>d[a] = b\<close> on a \<open>std::map\<close>, kept as its sorted list of entries.\<close>

fun map_set :: "'a::linorder \<Rightarrow> 'b \<Rightarrow> ('a \<times> 'b) list \<Rightarrow> ('a \<times> 'b) list" where
  "map_set a b [] = [(a, b)]"
| "map_set a b ((a', b') # d) =
     (if a < a' then (a, b) # (a', b') # d
      else if a = a' then (a, b) # d
      else (a', b') # map_set a b d)"

definition get_map :: "(unmarshall \<Rightarrow> ('a::linorder \<times> unmarshall) result)
    \<Rightarrow> (unmarshall \<Rightarrow> ('b \<times> unmarshall) result) \<Rightarrow> unmarshall
    \<Rightarrow> (('a \<times> 'b) list \<times> unmarshall) result" where
  "get_map geta getb u =
     rbind (get_uint u) (\<lambda>(n, u).
     rbind (get_each (\<lambda>u. rbind (geta u) (\<lambda>(a, u).
                          rbind (getb u) (\<lambda>(b, u). Inr ((a, b), u)))) (unat n) u) (\<lambda>(es, u).
     Inr (foldl (\<lambda>d (a, b). map_set a b d) [] es, u)))"

end
