(* ===== verification/Codec.thy ===== *)
theory Codec
  imports Marshall
begin

text \<open>
  Correctness of the wire format. \<open>m_inv\<close> is the representation invariant of a
  \<open>marshall\<close>, \<open>m_content\<close> the byte string it stands for; \<open>u_at u bs\<close> says that an
  \<open>unmarshall\<close> is in order and has exactly \<open>bs\<close> left to read. The locale \<open>codec\<close> is the
  contract of a pair of \<open>operator<<\<close> and \<open>operator>>\<close>: the first appends an encoding of
  the value, the second reads that encoding back and stops right after it. Every pair of
  operators in the sources is an interpretation of it.
\<close>

unbundle bit_operations_syntax

section \<open>Invariant and abstraction\<close>

definition m_inv :: "marshall \<Rightarrow> bool" where
  "m_inv m = (case m_buf m of
       None \<Rightarrow> False
     | Some b \<Rightarrow> length b = m_capa m \<and> RPC_HEADER_SZ \<le> m_ind m \<and> m_ind m \<le> m_capa m \<and>
         DEFAULT_RPC_SZ \<le> m_capa m \<and> m_capa m \<le> max DEFAULT_RPC_SZ (2 * m_ind m))"

definition m_bytes :: "marshall \<Rightarrow> byte list" where
  "m_bytes m = (case m_buf m of None \<Rightarrow> [] | Some b \<Rightarrow> take (m_ind m) b)"

definition m_content :: "marshall \<Rightarrow> byte list" where
  "m_content m = drop RPC_HEADER_SZ (m_bytes m)"

definition u_at :: "unmarshall \<Rightarrow> byte list \<Rightarrow> bool" where
  "u_at u bs = (u_ok u \<and> u_sz u = length (u_buf u) \<and> u_ind u \<le> u_sz u \<and>
     u_sz u < 2 ^ 32 \<and> drop (u_ind u) (u_buf u) = bs)"

definition m_appends :: "(marshall \<Rightarrow> marshall result) \<Rightarrow> byte list \<Rightarrow> bool" where
  "m_appends f bs = (\<forall>m. m_inv m \<longrightarrow>
     (\<exists>m'. f m = Inr m' \<and> m_inv m' \<and> m_bytes m' = m_bytes m @ bs))"

definition u_reads :: "(unmarshall \<Rightarrow> ('a \<times> unmarshall) result) \<Rightarrow> 'a \<Rightarrow> byte list \<Rightarrow> bool" where
  "u_reads get x bs = (\<forall>u rest. u_at u (bs @ rest) \<longrightarrow>
     (\<exists>u'. get u = Inr (x, u') \<and> u_at u' rest))"

section \<open>The writer\<close>

lemma m_invE:
  assumes "m_inv m"
  obtains b where "m_buf m = Some b" "length b = m_capa m" "24 \<le> m_ind m" "m_ind m \<le> m_capa m"
    "1024 \<le> m_capa m" "m_capa m \<le> max 1024 (2 * m_ind m)"
  using assms by (auto simp: m_inv_def split: option.splits)

lemma m_inv_new: "m_inv (marshall_new mem)"
  by (simp add: m_inv_def marshall_new_def)

lemma m_content_new [simp]: "m_content (marshall_new mem) = []"
  by (simp add: m_content_def m_bytes_def marshall_new_def)

lemma marshall_rawbytes_ok:
  assumes "m_inv m"
  shows "\<exists>m'. marshall_rawbytes p m = Inr m' \<and> m_inv m' \<and> m_bytes m' = m_bytes m @ p \<and>
    m_mem m' = m_mem m"
proof -
  from assms obtain b where b: "m_buf m = Some b" "length b = m_capa m" "24 \<le> m_ind m"
    "m_ind m \<le> m_capa m" "1024 \<le> m_capa m" "m_capa m \<le> max 1024 (2 * m_ind m)"
    by (rule m_invE)
  then show ?thesis
    by (auto simp: marshall_rawbytes_def marshall_realloc_def marshall_poke_def m_inv_def
        m_bytes_def Let_def min_def)
qed

lemma marshall_rawbyte_ok:
  assumes "m_inv m"
  shows "\<exists>m'. marshall_rawbyte x m = Inr m' \<and> m_inv m' \<and> m_bytes m' = m_bytes m @ [x] \<and>
    m_mem m' = m_mem m"
proof -
  from assms obtain b where b: "m_buf m = Some b" "length b = m_capa m" "24 \<le> m_ind m"
    "m_ind m \<le> m_capa m" "1024 \<le> m_capa m" "m_capa m \<le> max 1024 (2 * m_ind m)"
    by (rule m_invE)
  then show ?thesis
    by (auto simp: marshall_rawbyte_def marshall_realloc_def marshall_poke_def m_inv_def
        m_bytes_def Let_def min_def)
qed

section \<open>Composing writers and readers\<close>

lemma and_255 [simp]: "(x::'a::len word) AND 255 = take_bit 8 x"
  by (simp add: take_bit_eq_mask mask_numeral)

lemma byte_scast_mask [simp]: "take_bit 8 (scast (b :: byte) :: u32) = ucast b"
proof (rule bit_word_eqI)
  fix n
  show "bit (take_bit 8 (scast b :: u32)) n \<longleftrightarrow> bit (ucast b :: u32) n" if "n < LENGTH(32)"
    using that by (cases "n = 7"; cases "n < 7")
      (auto simp: bit_simps min_def not_le dest: bit_imp_le_length)
qed

lemma m_appendsI:
  assumes "\<And>m. m_inv m \<Longrightarrow> \<exists>m'. f m = Inr m' \<and> m_inv m' \<and> m_bytes m' = m_bytes m @ bs"
  shows "m_appends f bs"
  using assms by (simp add: m_appends_def)

lemma m_appends_seq:
  assumes "m_appends f as" "m_appends g bs"
  shows "m_appends (\<lambda>m. rbind (f m) g) (as @ bs)"
proof (rule m_appendsI)
  fix m assume "m_inv m"
  with assms(1) obtain m1 where m1: "f m = Inr m1" "m_inv m1" "m_bytes m1 = m_bytes m @ as"
    unfolding m_appends_def by blast
  with assms(2) obtain m2 where "g m1 = Inr m2" "m_inv m2" "m_bytes m2 = m_bytes m1 @ bs"
    unfolding m_appends_def by blast
  with m1 show "\<exists>m'. rbind (f m) g = Inr m' \<and> m_inv m' \<and> m_bytes m' = m_bytes m @ as @ bs"
    by simp
qed

lemma m_appends_Cons:
  assumes "m_appends f [a]" "m_appends g bs"
  shows "m_appends (\<lambda>m. rbind (f m) g) (a # bs)"
  using m_appends_seq [OF assms] by simp

lemma m_appends_rawbyte: "m_appends (marshall_rawbyte x) [x]"
  by (rule m_appendsI) (use marshall_rawbyte_ok in blast)

lemma m_appends_rawbytes: "m_appends (marshall_rawbytes p) p"
  by (rule m_appendsI) (use marshall_rawbytes_ok in blast)

lemma u_readsD:
  assumes "u_reads get x bs" "u_at u (bs @ rest)"
  obtains u' where "get u = Inr (x, u')" "u_at u' rest"
  using assms unfolding u_reads_def by blast

lemma u_reads_seq:
  assumes "u_reads f x as" "u_reads (g x) y bs"
  shows "u_reads (\<lambda>u. rbind (f u) (\<lambda>(x, u). g x u)) y (as @ bs)"
  unfolding u_reads_def
proof (intro allI impI)
  fix u rest assume "u_at u ((as @ bs) @ rest)"
  then obtain u1 where "f u = Inr (x, u1)" "u_at u1 (bs @ rest)"
    using assms(1) by (auto elim: u_readsD)
  with assms(2) show "\<exists>u'. rbind (f u) (\<lambda>(x, u). g x u) = Inr (y, u') \<and> u_at u' rest"
    by (auto elim: u_readsD)
qed

lemma u_reads_Cons:
  assumes "u_reads f x [a]" "u_reads (g x) y bs"
  shows "u_reads (\<lambda>u. rbind (f u) (\<lambda>(x, u). g x u)) y (a # bs)"
  using u_reads_seq [where g = g, OF assms] by simp

lemma u_reads_return: "u_reads (\<lambda>u. Inr (x, u)) x []"
  by (simp add: u_reads_def)

lemma u_reads_rawbyte: "u_reads unmarshall_rawbyte (scast b) [b]"
  by (auto simp: u_reads_def u_at_def unmarshall_rawbyte_def dest: drop_eq_ConsD)

lemma u_reads_rawbytes:
  assumes "length bs < 2 ^ 32"
  shows "u_reads (unmarshall_rawbytes s (of_nat (length bs))) (map char_of_byte bs) bs"
  unfolding u_reads_def
proof (intro allI impI)
  fix u rest assume u: "u_at u (bs @ rest)"
  have len: "unat (of_nat (length bs) :: u32) = length bs"
    using assms by (simp add: unat_of_nat)
  have le: "u_ind u + length bs \<le> length (u_buf u)"
  proof -
    have "length (u_buf u) - u_ind u = length bs + length rest"
      using u by (metis length_append length_drop u_at_def)
    with u show ?thesis unfolding u_at_def by linarith
  qed
  have "unat ((of_nat (u_ind u) :: u32) + of_nat (length bs)) = u_ind u + length bs"
    using le u by (simp flip: of_nat_add add: unat_of_nat u_at_def)
  moreover have "unat (of_nat (u_sz u) :: u32) = length (u_buf u)"
    using u by (simp add: unat_of_nat u_at_def)
  ultimately have "\<not> of_nat (u_ind u) + of_nat (length bs) > (of_nat (u_sz u) :: u32)"
    using le by (simp add: word_less_nat_alt)
  with u len le show "\<exists>u'. unmarshall_rawbytes s (of_nat (length bs)) u = Inr (map char_of_byte bs, u') \<and> u_at u' rest"
    by (auto simp: unmarshall_rawbytes_def Let_def u_at_def dest: drop_eq_appendD)
qed

section \<open>Encodings and the codec contract\<close>

definition enc_bool :: "bool \<Rightarrow> byte list" where
  "enc_bool x = [if x then 1 else 0]"
definition enc_uchar :: "byte \<Rightarrow> byte list" where
  "enc_uchar x = [x]"
definition enc_char :: "char \<Rightarrow> byte list" where
  "enc_char x = [byte_of_char x]"
definition enc_ushort :: "u16 \<Rightarrow> byte list" where
  "enc_ushort x = [ucast (drop_bit 8 x AND 0xff), ucast (x AND 0xff)]"
definition enc_uint :: "u32 \<Rightarrow> byte list" where
  "enc_uint x = [ucast (drop_bit 24 x AND 0xff), ucast (drop_bit 16 x AND 0xff),
     ucast (drop_bit 8 x AND 0xff), ucast (x AND 0xff)]"
definition enc_ulonglong :: "u64 \<Rightarrow> byte list" where
  "enc_ulonglong x = enc_uint (ucast (drop_bit 32 x)) @ enc_uint (ucast x)"
definition enc_string :: "string \<Rightarrow> byte list" where
  "enc_string s = enc_uint (of_nat (length s)) @ map byte_of_char s"
definition enc_vector :: "('a \<Rightarrow> byte list) \<Rightarrow> 'a list \<Rightarrow> byte list" where
  "enc_vector enc v = enc_uint (of_nat (length v)) @ concat (map enc v)"
definition enc_pair :: "('a \<Rightarrow> byte list) \<Rightarrow> ('b \<Rightarrow> byte list) \<Rightarrow> 'a \<times> 'b \<Rightarrow> byte list" where
  "enc_pair enca encb p = enca (fst p) @ encb (snd p)"

definition wire_size :: "'a list \<Rightarrow> bool" where
  "wire_size xs = (length xs < 2 ^ 32)"

lemma u_at_string:
  "RPC_HEADER_SZ + length bs < 2 ^ 32 \<Longrightarrow> u_at (unmarshall_string mem (map char_of_byte bs)) bs"
  by (simp add: unmarshall_string_def unmarshall_take_content_def unmarshall_new_def u_at_def Let_def)

lemma marshall_str_content: "m_inv m \<Longrightarrow> marshall_str m = Inr (map char_of_byte (m_content m))"
  by (auto simp: marshall_str_def marshall_get_content_def m_content_def m_bytes_def
      drop_take elim!: m_invE)

lemma m_content_append:
  "m_inv m \<Longrightarrow> m_bytes m' = m_bytes m @ bs \<Longrightarrow> m_content m' = m_content m @ bs"
  by (auto simp: m_content_def m_bytes_def elim!: m_invE)

lemma u_at_Nil_okdone: "u_at u [] \<Longrightarrow> unmarshall_okdone u"
  by (auto simp: u_at_def unmarshall_okdone_def)

locale codec =
  fixes put :: "'a \<Rightarrow> marshall \<Rightarrow> marshall result"
    and get :: "unmarshall \<Rightarrow> ('a \<times> unmarshall) result"
    and enc :: "'a \<Rightarrow> byte list"
    and valid :: "'a \<Rightarrow> bool"
  assumes put_appends: "valid x \<Longrightarrow> m_appends (put x) (enc x)"
    and get_reads: "valid x \<Longrightarrow> u_reads get x (enc x)"
begin

lemma enc_prefix_free:
  assumes "valid x" "valid y" "enc x @ r = enc y @ s" "length (enc x @ r) < 2 ^ 32"
  shows "x = y \<and> r = s"
proof -
  let ?u = "\<lparr>u_buf = enc x @ r, u_sz = length (enc x @ r), u_ind = 0, u_ok = True\<rparr>"
  have "u_at ?u (enc x @ r)" "u_at ?u (enc y @ s)"
    using assms(3,4) by (auto simp: u_at_def)
  then obtain ux uy where "get ?u = Inr (x, ux)" "u_at ux r" "get ?u = Inr (y, uy)" "u_at uy s"
    using get_reads assms(1,2) by (metis u_readsD)
  then show ?thesis by (auto simp: u_at_def)
qed

lemma put_str_get:
  assumes "valid x" "RPC_HEADER_SZ + length (enc x) < 2 ^ 32"
  shows "\<exists>m s u. put x (marshall_new mem) = Inr m \<and> marshall_str m = Inr s \<and>
    get (unmarshall_string mem' s) = Inr (x, u) \<and> unmarshall_okdone u"
proof -
  obtain m where m: "put x (marshall_new mem) = Inr m" "m_inv m" "m_content m = enc x"
    using put_appends [OF assms(1)] m_inv_new [of mem] m_content_append [OF m_inv_new [of mem]]
    unfolding m_appends_def by auto
  obtain u where u: "get (unmarshall_string mem' (map char_of_byte (enc x))) = Inr (x, u)" "u_at u []"
    using get_reads [OF assms(1)] u_at_string [OF assms(2)]
    by (metis append_Nil2 u_readsD)
  show ?thesis
    using m u marshall_str_content [OF m(2)] u_at_Nil_okdone by auto
qed

end

section \<open>The operators meet the contract\<close>

lemma u32_bytes:
  "push_bit 24 (ucast (ucast (take_bit 8 (drop_bit 24 x) :: u32) :: byte)) OR
   push_bit 16 (ucast (ucast (take_bit 8 (drop_bit 16 x)) :: byte)) OR
   push_bit 8 (ucast (ucast (take_bit 8 (drop_bit 8 x)) :: byte)) OR
   ucast (ucast (take_bit 8 x) :: byte) = (x :: u32)"
proof (rule bit_word_eqI)
  fix n
  assume "n < LENGTH(32)"
  then show "bit (push_bit 24 (ucast (ucast (take_bit 8 (drop_bit 24 x) :: u32) :: byte)) OR
     push_bit 16 (ucast (ucast (take_bit 8 (drop_bit 16 x)) :: byte)) OR
     push_bit 8 (ucast (ucast (take_bit 8 (drop_bit 8 x)) :: byte)) OR
     ucast (ucast (take_bit 8 x) :: byte) :: u32) n = bit x n"
    by (cases "n < 8"; cases "n < 16"; cases "n < 24") (auto simp: bit_simps not_less)
qed

lemma u16_bytes:
  "ucast (push_bit 8 (ucast (ucast (take_bit 8 (drop_bit 8 x) :: u16) :: byte)) :: u32) OR
   ucast (ucast (ucast (take_bit 8 x) :: byte) :: u32) = (x :: u16)"
proof (rule bit_word_eqI)
  fix n
  assume "n < LENGTH(16)"
  then show "bit (ucast (push_bit 8 (ucast (ucast (take_bit 8 (drop_bit 8 x) :: u16) :: byte)) :: u32) OR
     ucast (ucast (ucast (take_bit 8 x) :: byte) :: u32) :: u16) n = bit x n"
    by (cases "n < 8") (auto simp: bit_simps not_less)
qed

lemma u64_words:
  "ucast (ucast (x::u64) :: u32) OR push_bit 32 (ucast (ucast (drop_bit 32 x) :: u32)) = x"
proof (rule bit_word_eqI)
  fix n
  assume "n < LENGTH(64)"
  then show "bit (ucast (ucast x :: u32) OR push_bit 32 (ucast (ucast (drop_bit 32 x) :: u32)) :: u64) n = bit x n"
    by (cases "n < 32") (auto simp: bit_simps not_less)
qed

lemma ucast_scast_byte [simp]: "ucast (scast (b :: byte) :: u32) = b"
proof (rule bit_word_eqI)
  fix n
  assume "n < LENGTH(8)"
  then show "bit (ucast (scast b :: u32) :: byte) n = bit b n"
    by (cases "n = 7"; cases "n < 7") (auto simp: bit_simps min_def)
qed

lemma scast_byte_eq_0 [simp]: "(scast (b :: byte) :: u32) = 0 \<longleftrightarrow> b = 0"
  by (metis ucast_scast_byte signed_0 unsigned_0)

lemma put_uint_appends: "m_appends (put_uint x) (enc_uint x)"
proof -
  have eq: "put_uint x = (\<lambda>m.
     rbind (marshall_rawbyte (ucast (drop_bit 24 x AND 0xff)) m) (\<lambda>m.
     rbind (marshall_rawbyte (ucast (drop_bit 16 x AND 0xff)) m) (\<lambda>m.
     rbind (marshall_rawbyte (ucast (drop_bit 8 x AND 0xff)) m) (\<lambda>m.
     marshall_rawbyte (ucast (x AND 0xff)) m))))"
    by (rule ext) (simp add: put_uint_def)
  show ?thesis
    unfolding eq enc_uint_def by (intro m_appends_Cons m_appends_rawbyte)
qed

lemma get_uint_reads: "u_reads get_uint x (enc_uint x)"
proof -
  let ?b = "\<lambda>n. ucast (drop_bit n x AND 0xff) :: byte"
  have "u_reads get_uint
      (push_bit 24 (scast (?b 24) AND 0xff) OR push_bit 16 (scast (?b 16) AND 0xff) OR
       push_bit 8 (scast (?b 8) AND 0xff) OR (scast (ucast (x AND 0xff) :: byte) AND 0xff))
      [?b 24, ?b 16, ?b 8, ucast (x AND 0xff)]"
    unfolding get_uint_def [abs_def] Let_def or.assoc
    by (rule u_reads_Cons [OF u_reads_rawbyte])+ (rule u_reads_return)
  then show ?thesis by (simp add: enc_uint_def u32_bytes or.assoc)
qed


lemma get_int_eq: "get_int = get_uint" and unmarshall_unpack_eq: "unmarshall_unpack = get_uint"
  by (rule ext, simp add: get_int_def unmarshall_unpack_def get_uint_def)+

lemma put_int_eq: "put_int = put_uint" and marshall_pack_eq: "marshall_pack = put_uint"
  by (rule ext, rule ext, simp add: put_int_def marshall_pack_def put_uint_def)+

interpretation bool_codec: codec put_bool get_bool enc_bool "\<lambda>_. True"
proof
  fix x
  show "m_appends (put_bool x) (enc_bool x)"
    unfolding put_bool_def [abs_def] enc_bool_def by (rule m_appends_rawbyte)
  have "u_reads get_bool (scast (if x then 1 else 0 :: byte) \<noteq> (0::u32)) [if x then 1 else 0]"
    unfolding get_bool_def [abs_def] by (rule u_reads_Cons [OF u_reads_rawbyte u_reads_return])
  then show "u_reads get_bool x (enc_bool x)"
    by (cases x) (simp_all add: enc_bool_def)
qed

interpretation uchar_codec: codec put_uchar get_uchar enc_uchar "\<lambda>_. True"
proof
  fix x
  show "m_appends (put_uchar x) (enc_uchar x)"
    unfolding put_uchar_def [abs_def] enc_uchar_def by (rule m_appends_rawbyte)
  have "u_reads get_uchar (ucast (scast x :: u32)) [x]"
    unfolding get_uchar_def [abs_def] by (rule u_reads_Cons [OF u_reads_rawbyte u_reads_return])
  then show "u_reads get_uchar x (enc_uchar x)" by (simp add: enc_uchar_def)
qed

interpretation char_codec: codec put_char get_char enc_char "\<lambda>_. True"
proof
  fix x
  show "m_appends (put_char x) (enc_char x)"
    unfolding put_char_def [abs_def] put_uchar_def enc_char_def by (rule m_appends_rawbyte)
  have "u_reads get_char (char_of_byte (ucast (scast (byte_of_char x) :: u32))) [byte_of_char x]"
    unfolding get_char_def [abs_def] by (rule u_reads_Cons [OF u_reads_rawbyte u_reads_return])
  then show "u_reads get_char x (enc_char x)" by (simp add: enc_char_def)
qed

lemma put_ushort_appends: "m_appends (put_ushort x) (enc_ushort x)"
  unfolding put_ushort_def [abs_def] enc_ushort_def by (intro m_appends_Cons m_appends_rawbyte)

lemma get_ushort_reads: "u_reads get_ushort x (enc_ushort x)"
proof -
  let ?h = "ucast (drop_bit 8 x AND 0xff) :: byte" and ?l = "ucast (x AND 0xff) :: byte"
  have "u_reads get_ushort
      (ucast (push_bit 8 (scast ?h AND 0xff) :: u32) OR ucast (scast ?l AND 0xff :: u32)) [?h, ?l]"
    unfolding get_ushort_def [abs_def] Let_def
    by (rule u_reads_Cons [OF u_reads_rawbyte])+ (rule u_reads_return)
  then show ?thesis by (simp add: enc_ushort_def u16_bytes)
qed

interpretation ushort_codec: codec put_ushort get_ushort enc_ushort "\<lambda>_. True"
  by unfold_locales (rule put_ushort_appends, rule get_ushort_reads)

lemma short_eq: "put_short = put_ushort" "get_short = get_ushort"
  by (rule ext, rule ext, simp add: put_short_def)
    (rule ext, simp add: get_short_def get_ushort_def)

interpretation short_codec: codec put_short get_short enc_ushort "\<lambda>_. True"
  unfolding short_eq by (rule ushort_codec.codec_axioms)

interpretation uint_codec: codec put_uint get_uint enc_uint "\<lambda>_. True"
  by unfold_locales (rule put_uint_appends, rule get_uint_reads)

interpretation int_codec: codec put_int get_int enc_uint "\<lambda>_. True"
  unfolding put_int_eq get_int_eq by (rule uint_codec.codec_axioms)

interpretation ulonglong_codec: codec put_ulonglong get_ulonglong enc_ulonglong "\<lambda>_. True"
proof
  fix x
  show "m_appends (put_ulonglong x) (enc_ulonglong x)"
    unfolding put_ulonglong_def [abs_def] enc_ulonglong_def
    by (intro m_appends_seq put_uint_appends)
  let ?h = "ucast (drop_bit 32 x) :: u32" and ?l = "ucast x :: u32"
  have "u_reads get_ulonglong (ucast ?l OR push_bit 32 (ucast ?h)) (enc_uint ?h @ enc_uint ?l @ [])"
    unfolding get_ulonglong_def [abs_def]
    by (rule u_reads_seq [OF get_uint_reads])+ (rule u_reads_return)
  then show "u_reads get_ulonglong x (enc_ulonglong x)"
    by (simp add: enc_ulonglong_def u64_words)
qed

lemma u_reads_cong: "u_reads f x bs \<Longrightarrow> (\<And>u rest. u_at u (bs @ rest) \<Longrightarrow> g u = f u) \<Longrightarrow> u_reads g x bs"
  by (auto simp: u_reads_def)

interpretation string_codec: codec put_string "get_string s0" enc_string wire_size for s0
proof
  fix s :: string
  assume "wire_size s"
  then have len: "length (map byte_of_char s) < 2 ^ 32" by (simp add: wire_size_def)
  have "m_appends (put_string s) (enc_uint (of_nat (length s)) @ map byte_of_char s)"
    unfolding put_string_def [abs_def] by (intro m_appends_seq put_uint_appends m_appends_rawbytes)
  then show "m_appends (put_string s) (enc_string s)" by (simp add: enc_string_def)
  have "u_reads (get_string s0) (map char_of_byte (map byte_of_char s))
      (enc_uint (of_nat (length s)) @ map byte_of_char s)"
    unfolding get_string_def [abs_def]
    by (rule u_reads_seq [OF get_uint_reads], rule u_reads_cong [OF u_reads_rawbytes [OF len]])
      (simp add: u_at_def)
  then show "u_reads (get_string s0) s (enc_string s)" by (simp add: enc_string_def)
qed

lemma put_each_appends:
  assumes "\<And>x. x \<in> set xs \<Longrightarrow> m_appends (put x) (enc x)"
  shows "m_appends (put_each put xs) (concat (map enc xs))"
  using assms
proof (induction xs)
  case Nil
  then show ?case by (simp add: m_appends_def)
next
  case (Cons x xs)
  have "put_each put (x # xs) = (\<lambda>m. rbind (put x m) (put_each put xs))" by (rule ext) simp
  with Cons show ?case by (simp add: m_appends_seq)
qed

lemma get_each_reads:
  assumes "\<And>x. x \<in> set xs \<Longrightarrow> u_reads get x (enc x)"
  shows "u_reads (get_each get (length xs)) xs (concat (map enc xs))"
  using assms
proof (induction xs)
  case Nil
  then show ?case by (simp add: u_reads_def)
next
  case (Cons x xs)
  have "u_reads (\<lambda>u. rbind (get u) (\<lambda>(z, u). rbind (get_each get (length xs) u)
      (\<lambda>(zs, u). Inr (z # zs, u)))) (x # xs) (enc x @ concat (map enc xs) @ [])"
    using Cons by (intro u_reads_seq [where x = x] u_reads_seq [where x = xs] u_reads_return) auto
  then show ?case by (simp add: get_each.simps(2) [abs_def])
qed

lemma unat_wire_size: "wire_size xs \<Longrightarrow> unat (of_nat (length xs) :: u32) = length xs"
  by (simp add: wire_size_def unat_of_nat)

lemma codec_vector:
  assumes "codec put get enc valid"
  shows "codec (put_vector put) (get_vector get) (enc_vector enc)
    (\<lambda>v. wire_size v \<and> list_all valid v)"
proof
  fix v :: "'a list"
  assume "wire_size v \<and> list_all valid v"
  then have v: "unat (of_nat (length v) :: u32) = length v" "\<And>x. x \<in> set v \<Longrightarrow> valid x"
    by (auto simp: unat_wire_size list_all_iff)
  show "m_appends (put_vector put v) (enc_vector enc v)"
    unfolding put_vector_def [abs_def] enc_vector_def
    by (intro m_appends_seq put_uint_appends put_each_appends codec.put_appends [OF assms] v)
  have "u_reads (get_each get (unat (of_nat (length v) :: u32))) v (concat (map enc v))"
    unfolding v(1) by (intro get_each_reads codec.get_reads [OF assms] v)
  then show "u_reads (get_vector get) v (enc_vector enc v)"
    unfolding get_vector_def [abs_def] enc_vector_def by (rule u_reads_seq [OF get_uint_reads])
qed

subsection \<open>Maps\<close>

lemma map_set_snoc:
  "\<forall>k \<in> fst ` set d. k < a \<Longrightarrow> map_set a b d = d @ [(a, b)]"
  by (induction d) auto

lemma foldl_map_set:
  "sorted_wrt (<) (map fst (d @ es)) \<Longrightarrow>
    foldl (\<lambda>d (a, b). map_set a b d) d es = d @ (es :: ('a::linorder \<times> 'b) list)"
proof (induction es arbitrary: d)
  case Nil
  then show ?case by simp
next
  case (Cons e es)
  obtain a b where e: "e = (a, b)" by (cases e)
  have "map_set a b d = d @ [(a, b)]"
    using Cons.prems e by (intro map_set_snoc) (auto simp: sorted_wrt_append)
  with Cons e show ?case by simp
qed

lemma codec_map:
  assumes "codec puta geta enca valida" "codec putb getb encb validb"
  shows "codec (put_map puta putb) (get_map geta getb) (enc_vector (enc_pair enca encb))
    (\<lambda>d. wire_size d \<and> sorted_wrt (<) (map fst d) \<and>
       list_all (\<lambda>(a, b). valida a \<and> validb b) d)"
proof
  fix d :: "('a::linorder \<times> 'b) list"
  let ?put = "\<lambda>(a, b) m. rbind (puta a m) (putb b)"
  let ?get = "\<lambda>u. rbind (geta u) (\<lambda>(a, u). rbind (getb u) (\<lambda>(b, u). Inr ((a, b), u)))"
  assume "wire_size d \<and> sorted_wrt (<) (map fst d) \<and> list_all (\<lambda>(a, b). valida a \<and> validb b) d"
  then have d: "unat (of_nat (length d) :: u32) = length d" "sorted_wrt (<) (map fst d)"
    "\<And>a b. (a, b) \<in> set d \<Longrightarrow> valida a \<and> validb b"
    by (auto simp: unat_wire_size list_all_iff)
  have put: "m_appends (?put p) (enc_pair enca encb p)" if "p \<in> set d" for p
    using d(3) that unfolding enc_pair_def
    by (cases p) (auto intro!: m_appends_seq codec.put_appends [OF assms(1)] codec.put_appends [OF assms(2)])
  have get: "u_reads ?get p (enc_pair enca encb p)" if "p \<in> set d" for p
  proof -
    have "u_reads ?get (fst p, snd p) (enca (fst p) @ encb (snd p) @ [])"
      using d(3) [of "fst p" "snd p"] that
      by (intro u_reads_seq [OF codec.get_reads [OF assms(1)]] u_reads_seq [OF codec.get_reads [OF assms(2)]]
          u_reads_return) auto
    then show ?thesis by (simp add: enc_pair_def)
  qed
  show "m_appends (put_map puta putb d) (enc_vector (enc_pair enca encb) d)"
    unfolding put_map_def [abs_def] enc_vector_def
    by (intro m_appends_seq put_uint_appends put_each_appends put)
  have each: "u_reads (get_each ?get (unat (of_nat (length d) :: u32))) d
      (concat (map (enc_pair enca encb) d))"
    unfolding d(1) by (intro get_each_reads get)
  have "u_reads (get_map geta getb) (foldl (\<lambda>d (a, b). map_set a b d) [] d)
      (enc_uint (of_nat (length d)) @ concat (map (enc_pair enca encb) d) @ [])"
    unfolding get_map_def [abs_def]
    by (rule u_reads_seq [OF get_uint_reads]) (rule u_reads_seq [OF each], rule u_reads_return)
  then show "u_reads (get_map geta getb) d (enc_vector (enc_pair enca encb) d)"
    using foldl_map_set [of "[]" d] d(2) by (simp add: enc_vector_def)
qed

interpretation string_vector_codec: codec "put_vector put_string" "get_vector (get_string [])"
  "enc_vector enc_string" "\<lambda>v. wire_size v \<and> list_all wire_size v"
  by (rule codec_vector) (rule string_codec.codec_axioms)

interpretation uint_string_map_codec: codec "put_map put_uint put_string"
  "get_map get_uint (get_string [])" "enc_vector (enc_pair enc_uint enc_string)"
  "\<lambda>d. wire_size d \<and> sorted_wrt (<) (map fst d) \<and> list_all (\<lambda>(a, b). True \<and> wire_size b) d"
  by (rule codec_map) (rule uint_codec.codec_axioms string_codec.codec_axioms)+

section \<open>Headers\<close>

lemma marshall_rawbyte_over:
  assumes "m_buf m = Some (as @ c # cs)" "m_capa m = length (as @ c # cs)" "m_ind m = length as"
  shows "marshall_rawbyte x m = Inr (m\<lparr>m_buf := Some (as @ x # cs), m_ind := length as + 1\<rparr>)"
  using assms by (simp add: marshall_rawbyte_def marshall_poke_def)

lemma marshall_pack_over:
  assumes m: "m_buf m = Some (as @ bs @ cs)" "m_capa m = length (as @ bs @ cs)" "m_ind m = length as"
    and bs: "length bs = 4"
  shows "marshall_pack x m = Inr (m\<lparr>m_buf := Some (as @ enc_uint x @ cs), m_ind := length as + 4\<rparr>)"
proof -
  obtain b0 b1 b2 b3 where bs: "bs = [b0, b1, b2, b3]"
    using bs by (auto simp: numeral_eq_Suc length_Suc_conv)
  show ?thesis
    using m unfolding marshall_pack_def bs
    by (simp add: marshall_rawbyte_over [where as = as]
        marshall_rawbyte_over [where as = "as @ [_]", simplified]
        marshall_rawbyte_over [where as = "as @ [_, _]", simplified]
        marshall_rawbyte_over [where as = "as @ [_, _, _]", simplified] enc_uint_def)
qed

lemma split_at:
  assumes "n \<le> length xs" obtains ys zs where "xs = ys @ zs" "length ys = n"
  using assms that [of "take n xs" "drop n xs"] by simp

definition enc_req_header :: "req_header \<Rightarrow> byte list" where
  "enc_req_header h = enc_uint (rq_xid h) @ enc_uint (rq_proc h) @ enc_uint (rq_clt_nonce h) @
     enc_uint (rq_srv_nonce h) @ enc_uint (rq_xid_rep h)"

lemma length_enc_uint [simp]: "length (enc_uint x) = 4"
  by (simp add: enc_uint_def)

lemma pack_req_header_over:
  assumes m: "m_buf m = Some (as @ bs @ cs)" "m_capa m = length (as @ bs @ cs)"
    and len: "length as = 4" "length bs = 20"
  shows "pack_req_header h m = Inr (m\<lparr>m_buf := Some (as @ enc_req_header h @ cs)\<rparr>)"
proof -
  obtain b0 r0 where r0: "bs = b0 @ r0" "length b0 = 4" using len split_at [of 4 bs] by auto
  obtain b1 r1 where r1: "r0 = b1 @ r1" "length b1 = 4" using len r0 split_at [of 4 r0] by auto
  obtain b2 r2 where r2: "r1 = b2 @ r2" "length b2 = 4" using len r0 r1 split_at [of 4 r1] by auto
  obtain b3 b4 where r3: "r2 = b3 @ b4" "length b3 = 4" using len r0 r1 r2 split_at [of 4 r2] by auto
  have "length b4 = 4" using len r0 r1 r2 r3 by simp
  note eqs = r0(1) r1(1) r2(1) r3(1)
  note lens = r0(2) r1(2) r2(2) r3(2) \<open>length b4 = 4\<close>
  show ?thesis
    using m len(1) lens unfolding pack_req_header_def Let_def eqs
    by (simp add: marshall_pack_over [where as = as and bs = b0]
        marshall_pack_over [where as = "as @ enc_uint (rq_xid h)" and bs = b1]
        marshall_pack_over [where as = "as @ enc_uint (rq_xid h) @ enc_uint (rq_proc h)" and bs = b2]
        marshall_pack_over [where as = "as @ enc_uint (rq_xid h) @ enc_uint (rq_proc h) @
          enc_uint (rq_clt_nonce h)" and bs = b3]
        marshall_pack_over [where as = "as @ enc_uint (rq_xid h) @ enc_uint (rq_proc h) @
          enc_uint (rq_clt_nonce h) @ enc_uint (rq_srv_nonce h)" and bs = b4 and cs = cs]
        enc_req_header_def)
qed

definition enc_reply_header :: "reply_header \<Rightarrow> byte list" where
  "enc_reply_header h = enc_uint (rp_xid h) @ enc_uint (rp_ret h)"

lemma pack_reply_header_over:
  assumes m: "m_buf m = Some (as @ bs @ cs)" "m_capa m = length (as @ bs @ cs)"
    and len: "length as = 4" "length bs = 8"
  shows "pack_reply_header h m = Inr (m\<lparr>m_buf := Some (as @ enc_reply_header h @ cs)\<rparr>)"
proof -
  obtain b0 b1 where bs: "bs = b0 @ b1" "length b0 = 4" using len split_at [of 4 bs] by auto
  then have "length b1 = 4" using len by simp
  with bs(2) show ?thesis
    using m len(1) unfolding pack_reply_header_def Let_def bs(1)
    by (simp add: marshall_pack_over [where as = as and bs = b0]
        marshall_pack_over [where as = "as @ enc_uint (rp_xid h)" and bs = b1 and cs = cs]
        enc_reply_header_def)
qed

lemma u_reads_unpack: "u_reads unmarshall_unpack x (enc_uint x)"
  by (simp add: unmarshall_unpack_eq get_uint_reads)

lemma length_enc_headers [simp]:
  "length (enc_req_header h) = 20" "length (enc_reply_header r) = 8"
  by (simp_all add: enc_req_header_def enc_reply_header_def)

lemma u_at_skip:
  assumes "u_buf u = as @ bs" "u_sz u = length (u_buf u)" "u_sz u < 2 ^ 32" "u_ok u" "length as = n"
  shows "u_at (u\<lparr>u_ind := n\<rparr>) bs"
  using assms by (simp add: u_at_def)

lemma u_at_unfold: "u_at u bs \<Longrightarrow> u_ok u \<and> u_sz u = length (u_buf u) \<and> u_sz u < 2 ^ 32"
  by (simp add: u_at_def)

lemma rawbyte_frame: "unmarshall_rawbyte u = Inr (b, u') \<Longrightarrow> u_buf u' = u_buf u \<and> u_sz u' = u_sz u"
  by (auto simp: unmarshall_rawbyte_def split: if_splits)

lemma unpack_frame: "unmarshall_unpack u = Inr (x, u') \<Longrightarrow> u_buf u' = u_buf u \<and> u_sz u' = u_sz u"
  by (auto simp: unmarshall_unpack_def rbind_eq_Inr Let_def dest!: rawbyte_frame)

lemma get_uint_frame: "get_uint u = Inr (x, u') \<Longrightarrow> u_buf u' = u_buf u \<and> u_sz u' = u_sz u"
  by (auto simp: get_uint_def rbind_eq_Inr Let_def dest!: rawbyte_frame)

lemma unpack_req_header_reads:
  assumes "u_buf u = as @ enc_req_header h @ cs" "length as = 4" "u_sz u = length (u_buf u)"
    "u_sz u < 2 ^ 32" "u_ok u"
  shows "\<exists>u'. unpack_req_header u = Inr (h, u') \<and> u_at u' cs"
proof -
  have "u_at (u\<lparr>u_ind := 4\<rparr>) (enc_uint (rq_xid h) @ enc_uint (rq_proc h) @ enc_uint (rq_clt_nonce h) @
      enc_uint (rq_srv_nonce h) @ enc_uint (rq_xid_rep h) @ cs)"
    using assms by (intro u_at_skip [where as = as]) (simp_all add: enc_req_header_def)
  then obtain u1 where u1: "unmarshall_unpack (u\<lparr>u_ind := 4\<rparr>) = Inr (rq_xid h, u1)"
    "u_at u1 (enc_uint (rq_proc h) @ enc_uint (rq_clt_nonce h) @
      enc_uint (rq_srv_nonce h) @ enc_uint (rq_xid_rep h) @ cs)"
    by (rule u_readsD [OF u_reads_unpack])
  obtain u2 where u2: "unmarshall_unpack u1 = Inr (rq_proc h, u2)"
    "u_at u2 (enc_uint (rq_clt_nonce h) @ enc_uint (rq_srv_nonce h) @ enc_uint (rq_xid_rep h) @ cs)"
    using u1(2) by (rule u_readsD [OF u_reads_unpack])
  obtain u3 where u3: "unmarshall_unpack u2 = Inr (rq_clt_nonce h, u3)"
    "u_at u3 (enc_uint (rq_srv_nonce h) @ enc_uint (rq_xid_rep h) @ cs)"
    using u2(2) by (rule u_readsD [OF u_reads_unpack])
  obtain u4 where u4: "unmarshall_unpack u3 = Inr (rq_srv_nonce h, u4)"
    "u_at u4 (enc_uint (rq_xid_rep h) @ cs)"
    using u3(2) by (rule u_readsD [OF u_reads_unpack])
  obtain u5 where u5: "unmarshall_unpack u4 = Inr (rq_xid_rep h, u5)" "u_at u5 cs"
    using u4(2) by (rule u_readsD [OF u_reads_unpack])
  have "u_buf u5 = u_buf u"
    using unpack_frame u1(1) u2(1) u3(1) u4(1) u5(1) by fastforce
  then have "u_at (u5\<lparr>u_ind := 24\<rparr>) cs"
    using assms u5(2) by (intro u_at_skip [where as = "as @ enc_req_header h"]) (auto dest: u_at_unfold)
  then show ?thesis
    by (simp add: unpack_req_header_def u1 u2 u3 u4 u5)
qed

lemma unpack_reply_header_reads:
  assumes "u_buf u = as @ enc_reply_header h @ bs @ cs" "length as = 4" "length bs = 12"
    "u_sz u = length (u_buf u)" "u_sz u < 2 ^ 32" "u_ok u"
  shows "\<exists>u'. unpack_reply_header u = Inr (h, u') \<and> u_at u' cs"
proof -
  have "u_at (u\<lparr>u_ind := 4\<rparr>) (enc_uint (rp_xid h) @ enc_uint (rp_ret h) @ bs @ cs)"
    using assms by (intro u_at_skip [where as = as]) (simp_all add: enc_reply_header_def)
  then obtain u1 where u1: "unmarshall_unpack (u\<lparr>u_ind := 4\<rparr>) = Inr (rp_xid h, u1)"
    "u_at u1 (enc_uint (rp_ret h) @ bs @ cs)"
    by (rule u_readsD [OF u_reads_unpack])
  obtain u2 where u2: "unmarshall_unpack u1 = Inr (rp_ret h, u2)" "u_at u2 (bs @ cs)"
    using u1(2) by (rule u_readsD [OF u_reads_unpack])
  have "u_buf u2 = u_buf u" using unpack_frame u1(1) u2(1) by fastforce
  then have "u_at (u2\<lparr>u_ind := 24\<rparr>) cs"
    using assms u2(2) by (intro u_at_skip [where as = "as @ enc_reply_header h @ bs"]) (auto dest: u_at_unfold)
  then show ?thesis
    by (simp add: unpack_reply_header_def u1 u2)
qed

lemma m_inv_split:
  assumes "m_inv m" "4 + n \<le> 24"
  obtains as bs cs where "m_buf m = Some (as @ bs @ cs)" "m_capa m = length (as @ bs @ cs)"
    "length as = 4" "length bs = n" "length (as @ bs @ cs) \<ge> m_ind m" "m_ind m \<ge> 24"
proof -
  obtain b where b: "m_buf m = Some b" "length b = m_capa m" "24 \<le> m_ind m" "m_ind m \<le> m_capa m"
    using assms(1) by (rule m_invE)
  obtain as r where r: "b = as @ r" "length as = 4" using b split_at [of 4 b] by auto
  obtain bs cs where "r = bs @ cs" "length bs = n" using b r assms(2) split_at [of n r] by auto
  with b r that show ?thesis by auto
qed

section \<open>Properties of the wire format\<close>

lemma length_m_bytes: "m_inv m \<Longrightarrow> length (m_bytes m) = m_ind m"
  by (auto simp: m_bytes_def elim!: m_invE)

text \<open>
  C28. A request header packed into any well-formed buffer leaves the arguments alone, and
  the receiver of the buffer's bytes unpacks exactly that header and is then positioned at
  the first byte of the arguments.
\<close>

theorem req_header_roundtrip:
  assumes "m_inv m" "m_ind m < 2 ^ 32"
  shows "\<exists>m' u. pack_req_header h m = Inr m' \<and> m_inv m' \<and> m_content m' = m_content m \<and>
    unpack_req_header (unmarshall_buf (m_bytes m') (m_ind m')) = Inr (h, u) \<and>
    u_at u (m_content m)"
proof -
  obtain as bs cs where m: "m_buf m = Some (as @ bs @ cs)" "m_capa m = length (as @ bs @ cs)"
    and len: "length as = 4" "length bs = 20"
    and ind: "length (as @ bs @ cs) \<ge> m_ind m" "m_ind m \<ge> 24"
    using assms(1) by (rule m_inv_split [where n = 20]) simp
  let ?m = "m\<lparr>m_buf := Some (as @ enc_req_header h @ cs)\<rparr>"
  let ?cs = "take (m_ind m - 24) cs"
  have bytes: "m_bytes ?m = as @ enc_req_header h @ ?cs"
    using len ind by (simp add: m_bytes_def)
  have inv: "m_inv ?m" using assms(1) m len by (auto simp: m_inv_def)
  have content: "m_content ?m = ?cs" "m_content m = ?cs"
    using m len ind bytes by (simp_all add: m_content_def m_bytes_def)
  have "\<exists>u'. unpack_req_header (unmarshall_buf (m_bytes ?m) (m_ind m)) = Inr (h, u') \<and> u_at u' ?cs"
    using assms(2) len ind bytes
    by (intro unpack_req_header_reads [where as = as]) (simp_all add: unmarshall_buf_def)
  with pack_req_header_over [OF m len] inv content show ?thesis by auto
qed

theorem req_header_roundtrip_witness:
  "\<exists>m' u. pack_req_header \<lparr>rq_xid = 7, rq_proc = 1, rq_clt_nonce = 9, rq_srv_nonce = 0, rq_xid_rep = 6\<rparr>
      (marshall_new (\<lambda>_. 0)) = Inr m' \<and> m_inv m' \<and> m_content m' = m_content (marshall_new (\<lambda>_. 0)) \<and>
    unpack_req_header (unmarshall_buf (m_bytes m') (m_ind m')) =
      Inr (\<lparr>rq_xid = 7, rq_proc = 1, rq_clt_nonce = 9, rq_srv_nonce = 0, rq_xid_rep = 6\<rparr>, u) \<and>
    u_at u (m_content (marshall_new (\<lambda>_. 0)))"
  by (rule req_header_roundtrip [OF m_inv_new]) (simp add: marshall_new_def)

text \<open>
  A reply header packed into any well-formed buffer leaves the results alone, and the
  receiver unpacks exactly that header and is then positioned at the first byte of the
  results, skipping the unused rest of the 24-byte header.
\<close>

theorem reply_header_roundtrip:
  assumes "m_inv m" "m_ind m < 2 ^ 32"
  shows "\<exists>m' u. pack_reply_header h m = Inr m' \<and> m_inv m' \<and> m_content m' = m_content m \<and>
    unpack_reply_header (unmarshall_buf (m_bytes m') (m_ind m')) = Inr (h, u) \<and>
    u_at u (m_content m)"
proof -
  obtain as bs0 cs0 where m: "m_buf m = Some (as @ bs0 @ cs0)" "m_capa m = length (as @ bs0 @ cs0)"
    and len: "length as = 4" "length bs0 = 8"
    and ind: "length (as @ bs0 @ cs0) \<ge> m_ind m" "m_ind m \<ge> 24"
    using assms(1) by (rule m_inv_split [where n = 8]) simp
  obtain bs cs where cs: "cs0 = bs @ cs" "length bs = 12"
    using len ind split_at [of 12 cs0] by auto
  let ?m = "m\<lparr>m_buf := Some (as @ enc_reply_header h @ cs0)\<rparr>"
  let ?cs = "take (m_ind m - 24) cs"
  have bytes: "m_bytes ?m = as @ enc_reply_header h @ bs @ ?cs"
    using len ind cs by (simp add: m_bytes_def)
  have inv: "m_inv ?m" using assms(1) m len by (auto simp: m_inv_def)
  have content: "m_content ?m = ?cs" "m_content m = ?cs"
    using m len ind bytes cs by (simp_all add: m_content_def m_bytes_def)
  have "\<exists>u'. unpack_reply_header (unmarshall_buf (m_bytes ?m) (m_ind m)) = Inr (h, u') \<and> u_at u' ?cs"
    using assms(2) len ind cs bytes
    by (intro unpack_reply_header_reads [where as = as and bs = bs]) (simp_all add: unmarshall_buf_def)
  with pack_reply_header_over [OF m len] inv content show ?thesis by auto
qed

theorem reply_header_roundtrip_witness:
  "\<exists>m' u. pack_reply_header \<lparr>rp_xid = 7, rp_ret = 0\<rparr> (marshall_new (\<lambda>_. 0)) = Inr m' \<and>
    m_inv m' \<and> m_content m' = m_content (marshall_new (\<lambda>_. 0)) \<and>
    unpack_reply_header (unmarshall_buf (m_bytes m') (m_ind m')) = Inr (\<lparr>rp_xid = 7, rp_ret = 0\<rparr>, u) \<and>
    u_at u (m_content (marshall_new (\<lambda>_. 0)))"
  by (rule reply_header_roundtrip [OF m_inv_new]) (simp add: marshall_new_def)

text \<open>
  A vector of strings (the reply of the RPC \<open>rsm_client_protocol::members\<close>) written
  into a fresh \<open>marshall\<close> and read from the resulting string comes back unchanged, with the
  whole input consumed and the reader still in order, whatever bytes fresh memory holds.
\<close>

theorem string_vector_roundtrip:
  assumes "wire_size v" "list_all wire_size v"
    and "RPC_HEADER_SZ + length (enc_vector enc_string v) < 2 ^ 32"
  shows "\<exists>m s u. put_vector put_string v (marshall_new mem) = Inr m \<and> marshall_str m = Inr s \<and>
    get_vector (get_string []) (unmarshall_string mem' s) = Inr (v, u) \<and> unmarshall_okdone u"
  using string_vector_codec.put_str_get assms by blast

theorem string_vector_roundtrip_witness:
  "\<exists>m s u. put_vector put_string [''10'', []] (marshall_new (\<lambda>_. 0)) = Inr m \<and> marshall_str m = Inr s \<and>
    get_vector (get_string []) (unmarshall_string (\<lambda>_. 1) s) = Inr ([''10'', []], u) \<and> unmarshall_okdone u"
  by (rule string_vector_roundtrip)
    (simp_all add: wire_size_def enc_vector_def enc_string_def)

text \<open>
  A \<open>std::map\<close> from integers to strings survives the same trip: the reader rebuilds
  it entry by entry with \<open>d[a] = b\<close> and obtains the same entries in the same order.
\<close>

theorem uint_string_map_roundtrip:
  assumes "wire_size d" "sorted_wrt (<) (map fst d)" "list_all (\<lambda>(a, b). wire_size b) d"
    and "RPC_HEADER_SZ + length (enc_vector (enc_pair enc_uint enc_string) d) < 2 ^ 32"
  shows "\<exists>m s u. put_map put_uint put_string d (marshall_new mem) = Inr m \<and> marshall_str m = Inr s \<and>
    get_map get_uint (get_string []) (unmarshall_string mem' s) = Inr (d, u) \<and> unmarshall_okdone u"
proof -
  have "list_all (\<lambda>(a, b). True \<and> wire_size b) d" using assms(3) by (simp add: list_all_iff)
  then show ?thesis using uint_string_map_codec.put_str_get [of d mem mem'] assms by blast
qed

theorem uint_string_map_roundtrip_witness:
  "\<exists>m s u. put_map put_uint put_string [(1, ''a''), (2, ''b'')] (marshall_new (\<lambda>_. 0)) = Inr m \<and>
    marshall_str m = Inr s \<and>
    get_map get_uint (get_string []) (unmarshall_string (\<lambda>_. 1) s) = Inr ([(1, ''a''), (2, ''b'')], u) \<and>
    unmarshall_okdone u"
  by (rule uint_string_map_roundtrip)
    (simp_all add: wire_size_def enc_vector_def enc_string_def enc_pair_def)

text \<open>
  C27. Growing the buffer is memory safe and never overflows: appending any sequence of
  byte strings to a well-formed buffer succeeds without a write outside the allocation,
  appends exactly those bytes, and the capacity stays within twice the size (or the initial
  1024), so that the \<open>int\<close> \<open>_capa\<close> cannot overflow while the message is below 2^30 bytes.
\<close>

theorem marshall_growth_safe:
  assumes "m_inv m"
  shows "\<exists>m'. put_each marshall_rawbytes ps m = Inr m' \<and> m_bytes m' = m_bytes m @ concat ps \<and>
    m_ind m' = m_ind m + length (concat ps) \<and> m_capa m' \<le> max 1024 (2 * m_ind m') \<and>
    (m_ind m' < 2 ^ 30 \<longrightarrow> m_capa m' < 2 ^ 31)"
proof -
  have "m_appends (put_each marshall_rawbytes ps) (concat (map (\<lambda>p. p) ps))"
    by (rule put_each_appends) (rule m_appends_rawbytes)
  then obtain m' where m': "put_each marshall_rawbytes ps m = Inr m'" "m_inv m'"
    "m_bytes m' = m_bytes m @ concat ps"
    using assms by (auto simp: m_appends_def)
  then have "m_ind m' = m_ind m + length (concat ps)"
    using assms length_m_bytes by (metis length_append)
  with m' show ?thesis by (auto elim!: m_invE)
qed

theorem marshall_growth_safe_witness:
  "\<exists>m'. put_each marshall_rawbytes [replicate 2000 7, [8]] (marshall_new (\<lambda>_. 0)) = Inr m' \<and>
    m_bytes m' = m_bytes (marshall_new (\<lambda>_. 0)) @ concat [replicate 2000 7, [8]] \<and>
    m_ind m' = m_ind (marshall_new (\<lambda>_. 0)) + length (concat [replicate 2000 (7::byte), [8]]) \<and>
    m_capa m' \<le> max 1024 (2 * m_ind m') \<and> (m_ind m' < 2 ^ 30 \<longrightarrow> m_capa m' < 2 ^ 31)"
  by (rule marshall_growth_safe [OF m_inv_new])

text \<open>
  Reading \<open>n\<close> bytes from a received buffer stays inside the buffer whenever the sum of
  the position and \<open>n\<close> does not wrap: it either takes exactly the next \<open>n\<close> bytes or
  leaves the target string alone and raises the failure flag.
\<close>

theorem unmarshall_rawbytes_in_bounds:
  assumes "u_sz u = length (u_buf u)" "u_sz u < 2 ^ 32" "u_ind u + unat n < 2 ^ 32"
  shows "unmarshall_rawbytes ss n u =
    (if u_ind u + unat n \<le> u_sz u
     then Inr (map char_of_byte (take (unat n) (drop (u_ind u) (u_buf u))), u\<lparr>u_ind := u_ind u + unat n\<rparr>)
     else Inr (ss, u\<lparr>u_ok := False\<rparr>))"
proof -
  have "unat ((of_nat (u_ind u) :: u32) + n) = u_ind u + unat n"
    using assms(3) by (simp add: unat_word_ariths unat_of_nat)
  moreover have "unat (of_nat (u_sz u) :: u32) = u_sz u"
    using assms(2) by (simp add: unat_of_nat)
  ultimately have "of_nat (u_ind u) + n > (of_nat (u_sz u) :: u32) \<longleftrightarrow> u_ind u + unat n > u_sz u"
    by (simp add: word_less_nat_alt)
  with assms(1) show ?thesis
    by (auto simp: unmarshall_rawbytes_def Let_def)
qed

theorem unmarshall_rawbytes_in_bounds_witness:
  "unmarshall_rawbytes [] 2 \<lparr>u_buf = [65, 66, 67], u_sz = 3, u_ind = 1, u_ok = True\<rparr> =
    Inr (map char_of_byte [66, 67], \<lparr>u_buf = [65, 66, 67], u_sz = 3, u_ind = 3, u_ok = True\<rparr>)"
  using unmarshall_rawbytes_in_bounds
    [of "\<lparr>u_buf = [65, 66, 67], u_sz = 3, u_ind = 1, u_ok = True\<rparr>" 2 "[]"]
  by simp

text \<open>
  C39. The bounds test of \<open>unmarshall::rawbytes\<close> wraps. When a string is read from a buffer of less than
  \<open>2 ^ 32\<close> bytes, and its length field takes the position behind the field to \<open>2 ^ 32\<close> or further, then the
  test lets it pass and the copy reads outside the buffer; with any other length field it does not.
  A peer can do this to every handler that takes a string.
\<close>

theorem get_string_wraps:
  assumes "u_at u (enc_uint n @ rest)"
  shows "get_string s u = Inl Undefined \<longleftrightarrow> 2 ^ 32 \<le> u_ind u + 4 + unat n"
proof -
  obtain u' where u': "get_uint u = Inr (n, u')" "u_at u' rest"
    using u_readsD [OF get_uint_reads assms] by blast
  let ?p = "u_ind u + 4" and ?l = "length (u_buf u)"
  have f: "u_buf u' = u_buf u" "u_ok u'" "u_sz u' = ?l" "?l < 2 ^ 32"
    using get_uint_frame [OF u'(1)] u'(2) assms by (auto simp: u_at_def)
  have d: "drop (u_ind u') (u_buf u) = rest" "drop (u_ind u) (u_buf u) = enc_uint n @ rest" "u_ind u' \<le> ?l" "u_ind u \<le> ?l"
    using u'(2) assms f(1) by (auto simp: u_at_def)
  have "?l - u_ind u' = length rest" "?l - u_ind u = 4 + length rest"
    using arg_cong [OF d(1), of length] arg_cong [OF d(2), of length] by simp_all
  then have p: "u_ind u' = ?p" "?p \<le> ?l" using d(3,4) by linarith+
  have n: "unat n < 2 ^ 32" using unsigned_less [of n, where ?'a = nat] by simp
  have "unat (of_nat ?p + n) = (?p + unat n) mod 2 ^ 32" by (simp add: unat_word_ariths unat_of_nat mod_add_left_eq)
  also have "\<dots> = (if 2 ^ 32 \<le> ?p + unat n then ?p + unat n - 2 ^ 32 else ?p + unat n)"
    using n p(2) f(4) by (simp add: mod_if le_mod_geq)
  finally have test: "of_nat ?p + n > (of_nat ?l :: u32) \<longleftrightarrow> ?p + unat n < 2 ^ 32 \<and> ?l < ?p + unat n"
    using n p(2) f(4) by (auto simp: word_less_nat_alt unat_of_nat simp del: of_nat_add)
  have "get_string s u = unmarshall_rawbytes s n u'" using u'(1) f(2) by (simp add: get_string_def)
  also have "\<dots> = Inl Undefined \<longleftrightarrow> \<not> of_nat ?p + n > (of_nat ?l :: u32) \<and> ?l < ?p + unat n"
    unfolding unmarshall_rawbytes_def f(1,3) p(1) Let_def VERIFY_def by (simp add: min_def)
  also have "\<dots> \<longleftrightarrow> 2 ^ 32 \<le> ?p + unat n" unfolding test using f(4) by linarith
  finally show ?thesis .
qed

text \<open>A request of 32 bytes with length field \<open>0xfffffff0\<close>.\<close>

theorem get_string_wraps_witness:
  "get_string [] (\<lparr>u_buf = replicate 24 0 @ enc_uint 0xfffffff0 @ [65, 66, 67, 68],
     u_sz = 32, u_ind = 24, u_ok = True\<rparr>) = Inl Undefined"
  using get_string_wraps [of "\<lparr>u_buf = replicate 24 0 @ enc_uint 0xfffffff0 @ [65, 66, 67, 68],
     u_sz = 32, u_ind = 24, u_ok = True\<rparr>" "0xfffffff0" "[65, 66, 67, 68]" "[]"]
  by (simp add: u_at_def)

end
