(* ===== verification/Paxos_Protocol.thy ===== *)
theory Paxos_Protocol
  imports Codec
begin

text \<open>
  The messages of Paxos (include/paxos/paxos_protocol.h): proposal numbers with the order the
  sources give them, the arguments and results of the three calls, and their marshalling.
  Proposal numbers are a linear order (type class \<open>linorder\<close>), and every message type is a \<open>codec\<close>.
\<close>

section \<open>Data\<close>

datatype prop_t = prop_t (prop_n: u32) (prop_m: string)

record preparearg =
  pa_instance :: u32
  pa_n :: prop_t

record prepareres =
  pr_oldinstance :: bool
  pr_accept :: bool
  pr_n_a :: prop_t
  pr_v_a :: string

record acceptarg =
  aa_instance :: u32
  aa_n :: prop_t
  aa_v :: string

record decidearg =
  da_instance :: u32
  da_v :: string

definition paxos_OK :: int where
  "paxos_OK = 0"

definition paxos_ERR :: int where
  "paxos_ERR = 1"

definition prop_gt :: "prop_t \<Rightarrow> prop_t \<Rightarrow> bool" where
  "prop_gt a b = (prop_n a > prop_n b \<or> (prop_n a = prop_n b \<and> prop_m a > prop_m b))"

definition prop_ge :: "prop_t \<Rightarrow> prop_t \<Rightarrow> bool" where
  "prop_ge a b = (prop_n a > prop_n b \<or> (prop_n a = prop_n b \<and> prop_m a \<ge> prop_m b))"

section \<open>Marshalling\<close>

definition put_prop_t :: "prop_t \<Rightarrow> marshall \<Rightarrow> marshall result" where
  "put_prop_t a m = rbind (put_uint (prop_n a) m) (put_string (prop_m a))"

definition get_prop_t :: "prop_t \<Rightarrow> unmarshall \<Rightarrow> (prop_t \<times> unmarshall) result" where
  "get_prop_t a u =
     rbind (get_uint u) (\<lambda>(n, u).
     rbind (get_string (prop_m a) u) (\<lambda>(m, u).
     Inr (prop_t n m, u)))"

definition put_preparearg :: "preparearg \<Rightarrow> marshall \<Rightarrow> marshall result" where
  "put_preparearg a m = rbind (put_uint (pa_instance a) m) (put_prop_t (pa_n a))"

definition get_preparearg :: "preparearg \<Rightarrow> unmarshall \<Rightarrow> (preparearg \<times> unmarshall) result" where
  "get_preparearg a u =
     rbind (get_uint u) (\<lambda>(i, u).
     rbind (get_prop_t (pa_n a) u) (\<lambda>(n, u).
     Inr (\<lparr>pa_instance = i, pa_n = n\<rparr>, u)))"

definition put_prepareres :: "prepareres \<Rightarrow> marshall \<Rightarrow> marshall result" where
  "put_prepareres r m =
     rbind (put_bool (pr_oldinstance r) m) (\<lambda>m.
     rbind (put_bool (pr_accept r) m) (\<lambda>m.
     rbind (put_prop_t (pr_n_a r) m)
     (put_string (pr_v_a r))))"

definition get_prepareres :: "prepareres \<Rightarrow> unmarshall \<Rightarrow> (prepareres \<times> unmarshall) result" where
  "get_prepareres r u =
     rbind (get_bool u) (\<lambda>(ol, u).
     rbind (get_bool u) (\<lambda>(ac, u).
     rbind (get_prop_t (pr_n_a r) u) (\<lambda>(n, u).
     rbind (get_string (pr_v_a r) u) (\<lambda>(v, u).
     Inr (\<lparr>pr_oldinstance = ol, pr_accept = ac, pr_n_a = n, pr_v_a = v\<rparr>, u)))))"

definition put_acceptarg :: "acceptarg \<Rightarrow> marshall \<Rightarrow> marshall result" where
  "put_acceptarg a m =
     rbind (put_uint (aa_instance a) m) (\<lambda>m.
     rbind (put_prop_t (aa_n a) m)
     (put_string (aa_v a)))"

definition get_acceptarg :: "acceptarg \<Rightarrow> unmarshall \<Rightarrow> (acceptarg \<times> unmarshall) result" where
  "get_acceptarg a u =
     rbind (get_uint u) (\<lambda>(i, u).
     rbind (get_prop_t (aa_n a) u) (\<lambda>(n, u).
     rbind (get_string (aa_v a) u) (\<lambda>(v, u).
     Inr (\<lparr>aa_instance = i, aa_n = n, aa_v = v\<rparr>, u))))"

definition put_decidearg :: "decidearg \<Rightarrow> marshall \<Rightarrow> marshall result" where
  "put_decidearg a m = rbind (put_uint (da_instance a) m) (put_string (da_v a))"

definition get_decidearg :: "decidearg \<Rightarrow> unmarshall \<Rightarrow> (decidearg \<times> unmarshall) result" where
  "get_decidearg a u =
     rbind (get_uint u) (\<lambda>(i, u).
     rbind (get_string (da_v a) u) (\<lambda>(v, u).
     Inr (\<lparr>da_instance = i, da_v = v\<rparr>, u)))"

section \<open>Proposal numbers are linearly ordered\<close>

instantiation prop_t :: linorder
begin

definition less_eq_prop_t :: "prop_t \<Rightarrow> prop_t \<Rightarrow> bool" where
  "a \<le> b = prop_ge b a"

definition less_prop_t :: "prop_t \<Rightarrow> prop_t \<Rightarrow> bool" where
  "a < b = prop_gt b a"

instance
  by standard (auto simp: less_eq_prop_t_def less_prop_t_def prop_ge_def prop_gt_def
      intro: prop_t.expand)

end

lemma prop_gt_iff [simp]: "prop_gt a b \<longleftrightarrow> b < a"
  by (simp add: less_prop_t_def)

lemma prop_ge_iff [simp]: "prop_ge a b \<longleftrightarrow> b \<le> a"
  by (simp add: less_eq_prop_t_def)

lemma prop_less_fst: "prop_n a < prop_n b \<Longrightarrow> a < b"
  unfolding less_prop_t_def prop_gt_def by simp

lemma prop_less_n: "a < b \<Longrightarrow> prop_n a \<le> prop_n b"
  unfolding less_prop_t_def prop_gt_def by auto

section \<open>The messages meet the codec contract\<close>

definition enc_prop_t :: "prop_t \<Rightarrow> byte list" where
  "enc_prop_t a = enc_uint (prop_n a) @ enc_string (prop_m a)"

abbreviation prop_fits :: "prop_t \<Rightarrow> bool" where
  "prop_fits a \<equiv> wire_size (prop_m a)"

lemmas get_string_reads = string_codec.get_reads
lemmas put_string_appends = string_codec.put_appends

interpretation prop_t_codec: codec put_prop_t "get_prop_t a0" enc_prop_t prop_fits for a0
proof
  fix a assume a: "prop_fits a"
  show "m_appends (put_prop_t a) (enc_prop_t a)"
    unfolding put_prop_t_def [abs_def] enc_prop_t_def
    by (intro m_appends_seq put_uint_appends put_string_appends a)
  have "u_reads (get_prop_t a0) (prop_t (prop_n a) (prop_m a))
      (enc_uint (prop_n a) @ enc_string (prop_m a) @ [])"
    unfolding get_prop_t_def [abs_def]
    by (rule u_reads_seq [OF get_uint_reads] u_reads_seq [OF get_string_reads [OF a]] u_reads_return)+
  then show "u_reads (get_prop_t a0) a (enc_prop_t a)" by (simp add: enc_prop_t_def)
qed

definition enc_preparearg :: "preparearg \<Rightarrow> byte list" where
  "enc_preparearg a = enc_uint (pa_instance a) @ enc_prop_t (pa_n a)"

interpretation preparearg_codec:
  codec put_preparearg "get_preparearg a0" enc_preparearg "\<lambda>a. prop_fits (pa_n a)" for a0
proof
  fix a :: preparearg assume a: "prop_fits (pa_n a)"
  show "m_appends (put_preparearg a) (enc_preparearg a)"
    unfolding put_preparearg_def [abs_def] enc_preparearg_def
    by (intro m_appends_seq put_uint_appends prop_t_codec.put_appends a)
  have "u_reads (get_preparearg a0) \<lparr>pa_instance = pa_instance a, pa_n = pa_n a\<rparr>
      (enc_uint (pa_instance a) @ enc_prop_t (pa_n a) @ [])"
    unfolding get_preparearg_def [abs_def]
    by (rule u_reads_seq [OF get_uint_reads] u_reads_seq [OF prop_t_codec.get_reads [OF a]]
        u_reads_return)+
  then show "u_reads (get_preparearg a0) a (enc_preparearg a)" by (cases a) (simp add: enc_preparearg_def)
qed

definition enc_prepareres :: "prepareres \<Rightarrow> byte list" where
  "enc_prepareres r = enc_bool (pr_oldinstance r) @ enc_bool (pr_accept r) @
     enc_prop_t (pr_n_a r) @ enc_string (pr_v_a r)"

interpretation prepareres_codec: codec put_prepareres "get_prepareres r0" enc_prepareres
  "\<lambda>r. prop_fits (pr_n_a r) \<and> wire_size (pr_v_a r)" for r0
proof
  fix r :: prepareres assume r: "prop_fits (pr_n_a r) \<and> wire_size (pr_v_a r)"
  show "m_appends (put_prepareres r) (enc_prepareres r)"
    unfolding put_prepareres_def [abs_def] enc_prepareres_def
    using r by (intro m_appends_seq bool_codec.put_appends prop_t_codec.put_appends
        put_string_appends) auto
  have "u_reads (get_prepareres r0) \<lparr>pr_oldinstance = pr_oldinstance r, pr_accept = pr_accept r,
      pr_n_a = pr_n_a r, pr_v_a = pr_v_a r\<rparr>
      (enc_bool (pr_oldinstance r) @ enc_bool (pr_accept r) @ enc_prop_t (pr_n_a r) @
       enc_string (pr_v_a r) @ [])"
    unfolding get_prepareres_def [abs_def]
    by (rule u_reads_seq [OF bool_codec.get_reads [OF TrueI]]
        u_reads_seq [OF prop_t_codec.get_reads [OF conjunct1 [OF r]]]
        u_reads_seq [OF get_string_reads [OF conjunct2 [OF r]]] u_reads_return)+
  then show "u_reads (get_prepareres r0) r (enc_prepareres r)" by (cases r) (simp add: enc_prepareres_def)
qed

definition enc_acceptarg :: "acceptarg \<Rightarrow> byte list" where
  "enc_acceptarg a = enc_uint (aa_instance a) @ enc_prop_t (aa_n a) @ enc_string (aa_v a)"

interpretation acceptarg_codec: codec put_acceptarg "get_acceptarg a0" enc_acceptarg
  "\<lambda>a. prop_fits (aa_n a) \<and> wire_size (aa_v a)" for a0
proof
  fix a :: acceptarg assume a: "prop_fits (aa_n a) \<and> wire_size (aa_v a)"
  show "m_appends (put_acceptarg a) (enc_acceptarg a)"
    unfolding put_acceptarg_def [abs_def] enc_acceptarg_def
    using a by (intro m_appends_seq put_uint_appends prop_t_codec.put_appends
        put_string_appends) auto
  have "u_reads (get_acceptarg a0) \<lparr>aa_instance = aa_instance a, aa_n = aa_n a, aa_v = aa_v a\<rparr>
      (enc_uint (aa_instance a) @ enc_prop_t (aa_n a) @ enc_string (aa_v a) @ [])"
    unfolding get_acceptarg_def [abs_def]
    by (rule u_reads_seq [OF get_uint_reads]
        u_reads_seq [OF prop_t_codec.get_reads [OF conjunct1 [OF a]]]
        u_reads_seq [OF get_string_reads [OF conjunct2 [OF a]]] u_reads_return)+
  then show "u_reads (get_acceptarg a0) a (enc_acceptarg a)" by (cases a) (simp add: enc_acceptarg_def)
qed

definition enc_decidearg :: "decidearg \<Rightarrow> byte list" where
  "enc_decidearg a = enc_uint (da_instance a) @ enc_string (da_v a)"

interpretation decidearg_codec: codec put_decidearg "get_decidearg a0" enc_decidearg
  "\<lambda>a. wire_size (da_v a)" for a0
proof
  fix a :: decidearg assume a: "wire_size (da_v a)"
  show "m_appends (put_decidearg a) (enc_decidearg a)"
    unfolding put_decidearg_def [abs_def] enc_decidearg_def
    by (intro m_appends_seq put_uint_appends put_string_appends a)
  have "u_reads (get_decidearg a0) \<lparr>da_instance = da_instance a, da_v = da_v a\<rparr>
      (enc_uint (da_instance a) @ enc_string (da_v a) @ [])"
    unfolding get_decidearg_def [abs_def]
    by (rule u_reads_seq [OF get_uint_reads] u_reads_seq [OF get_string_reads [OF a]] u_reads_return)+
  then show "u_reads (get_decidearg a0) a (enc_decidearg a)" by (cases a) (simp add: enc_decidearg_def)
qed

end
