(* ===== verification/Iostream.thy ===== *)
theory Iostream
  imports Prelude
begin

text \<open>
  The part of the C++ standard library that the log (src/log/log.cc) and the view codec
  (src/rsm/config.cc) use: an input stream with its error state, the formatted extractors
  \<open>operator>>\<close> for strings and for \<open>unsigned\<close>, \<open>get\<close> and \<open>getline\<close>, and the decimal output
  of an \<open>unsigned\<close>. An extractor takes the old value of its target, which stays in place when
  the stream is not in a good state.
\<close>

section \<open>Streams\<close>

record istream =
  in_rest :: string
  in_eof :: bool
  in_fail :: bool

definition istream_open :: "string \<Rightarrow> istream" where
  "istream_open f = \<lparr>in_rest = f, in_eof = False, in_fail = False\<rparr>"

definition isspace :: "char \<Rightarrow> bool" where
  "isspace c = (c \<in> {CHR 0x09, CHR 0x0A, CHR 0x0B, CHR 0x0C, CHR 0x0D, CHR 0x20})"

definition isdigit :: "char \<Rightarrow> bool" where
  "isdigit c = (48 \<le> (of_char c :: nat) \<and> (of_char c :: nat) \<le> 57)"

definition in_sentry :: "bool \<Rightarrow> istream \<Rightarrow> bool \<times> istream" where
  "in_sentry skip s =
     (if in_eof s \<or> in_fail s then (False, s\<lparr>in_fail := True\<rparr>)
      else if skip then
        (let r = dropWhile isspace (in_rest s) in
         if r = [] then (False, s\<lparr>in_rest := [], in_eof := True, in_fail := True\<rparr>)
         else (True, s\<lparr>in_rest := r\<rparr>))
      else (True, s))"

definition in_string :: "string \<Rightarrow> istream \<Rightarrow> string \<times> istream" where
  "in_string old s =
     (case in_sentry True s of
        (False, s) \<Rightarrow> (old, s)
      | (True, s) \<Rightarrow>
          let r = dropWhile (\<lambda>c. \<not> isspace c) (in_rest s) in
          (takeWhile (\<lambda>c. \<not> isspace c) (in_rest s), s\<lparr>in_rest := r, in_eof := (r = [])\<rparr>))"

definition digit_value :: "char \<Rightarrow> nat" where
  "digit_value c = of_char c - 48"

definition dec_value :: "string \<Rightarrow> nat" where
  "dec_value ds = foldl (\<lambda>n c. 10 * n + digit_value c) 0 ds"

definition in_unsigned :: "u32 \<Rightarrow> istream \<Rightarrow> u32 \<times> istream" where
  "in_unsigned old s =
     (case in_sentry True s of
        (False, s) \<Rightarrow> (old, s)
      | (True, s) \<Rightarrow>
          let neg = (hd (in_rest s) = CHR ''-'');
              r0 = (if hd (in_rest s) \<in> {CHR ''-'', CHR ''+''} then tl (in_rest s) else in_rest s);
              ds = takeWhile isdigit r0;
              r = dropWhile isdigit r0;
              s = s\<lparr>in_rest := r, in_eof := (r = [])\<rparr> in
          if ds = [] then (0, s\<lparr>in_fail := True\<rparr>)
          else if dec_value ds \<ge> 2 ^ 32 then (- 1, s\<lparr>in_fail := True\<rparr>)
          else (if neg then - of_nat (dec_value ds) else of_nat (dec_value ds), s))"

definition in_get :: "istream \<Rightarrow> char option \<times> istream" where
  "in_get s =
     (case in_sentry False s of
        (False, s) \<Rightarrow> (None, s)
      | (True, s) \<Rightarrow>
          (case in_rest s of
             [] \<Rightarrow> (None, s\<lparr>in_eof := True, in_fail := True\<rparr>)
           | c # r \<Rightarrow> (Some c, s\<lparr>in_rest := r\<rparr>)))"

definition in_getline :: "string \<Rightarrow> istream \<Rightarrow> string \<times> istream" where
  "in_getline old s =
     (case in_sentry False s of
        (False, s) \<Rightarrow> (old, s)
      | (True, s) \<Rightarrow>
          let l = takeWhile (\<lambda>c. c \<noteq> CHR 0x0A) (in_rest s);
              r = dropWhile (\<lambda>c. c \<noteq> CHR 0x0A) (in_rest s) in
          if r = [] then (l, s\<lparr>in_rest := [], in_eof := True, in_fail := (l = [])\<rparr>)
          else (l, s\<lparr>in_rest := tl r\<rparr>))"

fun dec_string :: "nat \<Rightarrow> string" where
  "dec_string n = (if n < 10 then [char_of (48 + n)]
     else dec_string (n div 10) @ [char_of (48 + n mod 10)])"

declare dec_string.simps [simp del]

definition out_unsigned :: "u32 \<Rightarrow> string" where
  "out_unsigned x = dec_string (unat x)"

abbreviation nl :: string where
  "nl \<equiv> [CHR 0x0A]"

section \<open>Decimal numbers are read back\<close>

definition word_ok :: "string \<Rightarrow> bool" where
  "word_ok w = (w \<noteq> [] \<and> list_all (\<lambda>c. \<not> isspace c) w)"

definition line_ok :: "string \<Rightarrow> bool" where
  "line_ok v = list_all (\<lambda>c. c \<noteq> CHR 0x0A) v"

lemma digit_char:
  assumes "d < 10"
  shows "isdigit (char_of (48 + d))" "digit_value (char_of (48 + d)) = d"
  using assms by (simp_all add: isdigit_def digit_value_def)

lemma dec_string_isdigit: "list_all isdigit (dec_string n)"
proof (induction n rule: dec_string.induct)
  case (1 n)
  show ?case
  proof (cases "n < 10")
    case True
    then show ?thesis by (subst dec_string.simps) (simp add: digit_char)
  next
    case False
    with 1 show ?thesis by (subst dec_string.simps) (simp add: digit_char)
  qed
qed

lemma dec_value_snoc: "dec_value (ds @ [c]) = 10 * dec_value ds + digit_value c"
  by (simp add: dec_value_def)

lemma dec_value_dec_string [simp]: "dec_value (dec_string n) = n"
proof (induction n rule: dec_string.induct)
  case (1 n)
  show ?case
  proof (cases "n < 10")
    case True
    then show ?thesis by (subst dec_string.simps) (simp add: dec_value_def digit_char)
  next
    case False
    with 1 show ?thesis by (subst dec_string.simps) (simp add: dec_value_snoc digit_char)
  qed
qed

lemma dec_string_not_Nil [simp]: "dec_string n \<noteq> []"
  by (subst dec_string.simps) simp

lemma isdigit_not_isspace: "isdigit c \<Longrightarrow> \<not> isspace c"
  by (auto simp: isdigit_def isspace_def)

lemma isdigit_not_sign: "isdigit c \<Longrightarrow> c \<noteq> CHR ''-'' \<and> c \<noteq> CHR ''+''"
  by (auto simp: isdigit_def)

lemma dropWhile_isspace_nonspace:
  "w \<noteq> [] \<Longrightarrow> \<not> isspace (hd w) \<Longrightarrow> dropWhile isspace (w @ r) = w @ r"
  by (cases w) auto

lemma takeWhile_stop:
  assumes "list_all P w" "r = [] \<or> \<not> P (hd r)"
  shows "takeWhile P (w @ r) = w" "dropWhile P (w @ r) = r"
  using assms by (induction w) (cases r; auto)+

lemma in_unsigned_dec:
  assumes "r = [] \<or> \<not> isdigit (hd r)"
  shows "in_unsigned old \<lparr>in_rest = out_unsigned x @ r, in_eof = False, in_fail = False\<rparr> =
    (x, \<lparr>in_rest = r, in_eof = (r = []), in_fail = False\<rparr>)"
proof -
  let ?d = "dec_string (unat x)"
  have hd: "isdigit (hd ?d)"
    using dec_string_isdigit [of "unat x"] by (cases ?d) (auto simp del: dec_string.simps)
  have "dec_value ?d < 2 ^ 32" using unsigned_less [of x] by simp
  moreover have "dropWhile isspace (?d @ r) = ?d @ r"
    using hd by (intro dropWhile_isspace_nonspace) (auto dest: isdigit_not_isspace)
  moreover have "hd (?d @ r) = hd ?d" by simp
  ultimately show ?thesis
    using isdigit_not_sign [OF hd] takeWhile_stop [OF dec_string_isdigit assms]
    by (simp add: in_unsigned_def in_sentry_def out_unsigned_def Let_def)
qed

lemma in_string_word:
  assumes "word_ok w" "r = [] \<or> isspace (hd r)"
  shows "in_string old \<lparr>in_rest = w @ r, in_eof = False, in_fail = False\<rparr> =
    (w, \<lparr>in_rest = r, in_eof = (r = []), in_fail = False\<rparr>)"
proof -
  have w: "w \<noteq> []" "list_all (\<lambda>c. \<not> isspace c) w" using assms by (auto simp: word_ok_def)
  then have "dropWhile isspace (w @ r) = w @ r"
    by (intro dropWhile_isspace_nonspace) (cases w; auto)+
  then show ?thesis
    using w takeWhile_stop [OF w(2), of r] assms(2)
    by (simp add: in_string_def in_sentry_def Let_def del: dropWhile_eq_Nil_conv)
qed

lemma in_string_skip:
  assumes "isspace c"
  shows "in_string old \<lparr>in_rest = c # r, in_eof = False, in_fail = False\<rparr> =
    in_string old \<lparr>in_rest = r, in_eof = False, in_fail = False\<rparr>"
  using assms by (simp add: in_string_def in_sentry_def)

lemma in_unsigned_skip:
  assumes "isspace c"
  shows "in_unsigned old \<lparr>in_rest = c # r, in_eof = False, in_fail = False\<rparr> =
    in_unsigned old \<lparr>in_rest = r, in_eof = False, in_fail = False\<rparr>"
  using assms by (simp add: in_unsigned_def in_sentry_def)

lemma in_get_char:
  "in_get \<lparr>in_rest = c # r, in_eof = False, in_fail = False\<rparr> =
    (Some c, \<lparr>in_rest = r, in_eof = False, in_fail = False\<rparr>)"
  by (simp add: in_get_def in_sentry_def)

lemma in_getline_line:
  assumes "line_ok v"
  shows "in_getline old \<lparr>in_rest = v @ CHR 0x0A # r, in_eof = False, in_fail = False\<rparr> =
    (v, \<lparr>in_rest = r, in_eof = False, in_fail = False\<rparr>)"
  using takeWhile_stop [of "\<lambda>c. c \<noteq> CHR 0x0A" v "CHR 0x0A # r"] assms
  by (simp add: in_getline_def in_sentry_def line_ok_def Let_def del: dropWhile_eq_Nil_conv)

lemma in_string_end:
  "in_string old \<lparr>in_rest = [], in_eof = e, in_fail = f\<rparr> =
    (old, \<lparr>in_rest = [], in_eof = True, in_fail = True\<rparr>) \<or> e \<or> f"
  by (auto simp: in_string_def in_sentry_def)

lemma in_string_shorter:
  assumes "in_string old s = (w, s')" "\<not> in_fail s'"
  shows "length (in_rest s') < length (in_rest s)"
proof -
  let ?r = "dropWhile isspace (in_rest s)"
  have r: "?r \<noteq> []" "in_rest s' = dropWhile (\<lambda>c. \<not> isspace c) ?r"
    using assms by (auto simp: in_string_def in_sentry_def Let_def split: if_splits)
  then have "\<not> isspace (hd ?r)" by (simp add: hd_dropWhile)
  then have "in_rest s' = dropWhile (\<lambda>c. \<not> isspace c) (tl ?r)"
    using r by (cases ?r) auto
  then have "length (in_rest s') \<le> length (tl ?r)" by (metis length_dropWhile_le)
  also have "\<dots> < length ?r" using r by simp
  also have "\<dots> \<le> length (in_rest s)" by (rule length_dropWhile_le)
  finally show ?thesis .
qed

end
