(* ===== verification/Paxos.thy ===== *)
theory Paxos
  imports Paxos_Protocol Iostream
begin

text \<open>
  Paxos as src/paxos/paxos.cc and src/log/log.cc have it. The acceptor is a record of its
  fields together with the contents of its log file (an absent file reads like an empty one).
  Its handlers take the request and give the status, the reply and the new acceptor;
  \<open>commit_wo\<close> ends with the upcall \<open>cfg->paxos_commit\<close>, which is given out as a list of
  instances and values in the order of the calls. The proposer is a record too; the calls it
  makes to the acceptors of the cluster go through the fields of a \<open>px_env\<close>, functions on a
  world of any type.
\<close>

section \<open>Node sets\<close>

fun print_members :: "string list \<Rightarrow> string" where
  "print_members [] = []"
| "print_members [x] = x"
| "print_members (x # y # xs) = x @ '','' @ print_members (y # xs)"

fun isamember :: "string \<Rightarrow> string list \<Rightarrow> bool" where
  "isamember m [] = False"
| "isamember m (x # xs) = (if x = m then True else isamember m xs)"

fun count_members :: "string list \<Rightarrow> string list \<Rightarrow> nat" where
  "count_members [] l2 = 0"
| "count_members (x # l1) l2 = (if isamember x l2 then 1 else 0) + count_members l1 l2"

definition majority :: "string list \<Rightarrow> string list \<Rightarrow> bool" where
  "majority l1 l2 = (count_members l1 l2 \<ge> length l1 div 2 + 1)"

section \<open>Acceptor state\<close>

record acceptor =
  acc_me :: string
  acc_cfg :: bool
  n_h :: prop_t
  n_a :: prop_t
  v_a :: string
  instance_h :: u32
  acc_values :: "u32 \<rightharpoonup> string"
  acc_log :: string

type_synonym upcalls = "(u32 \<times> string) list"

definition value_at :: "u32 \<Rightarrow> acceptor \<Rightarrow> string" where
  "value_at i a = (case acc_values a i of None \<Rightarrow> [] | Some v \<Rightarrow> v)"

definition acceptor_value :: "u32 \<Rightarrow> acceptor \<Rightarrow> string \<times> acceptor" where
  "acceptor_value i a = (value_at i a, a\<lparr>acc_values := (acc_values a)(i \<mapsto> value_at i a)\<rparr>)"

section \<open>The log\<close>

definition loginstance :: "u32 \<Rightarrow> string \<Rightarrow> acceptor \<Rightarrow> acceptor" where
  "loginstance i v a = a\<lparr>acc_log := acc_log a @
     ''done'' @ '' '' @ out_unsigned i @ '' '' @ v @ nl\<rparr>"

definition logprop :: "prop_t \<Rightarrow> acceptor \<Rightarrow> acceptor" where
  "logprop n a = a\<lparr>acc_log := acc_log a @
     ''propseen'' @ '' '' @ out_unsigned (prop_n n) @ '' '' @ prop_m n @ nl\<rparr>"

definition logaccept :: "prop_t \<Rightarrow> string \<Rightarrow> acceptor \<Rightarrow> acceptor" where
  "logaccept n v a = a\<lparr>acc_log := acc_log a @
     ''accepted'' @ '' '' @ out_unsigned (prop_n n) @ '' '' @ prop_m n @ '' '' @ v @ nl\<rparr>"

definition read_done :: "u32 \<Rightarrow> acceptor \<Rightarrow> istream \<Rightarrow> u32 \<times> acceptor \<times> istream" where
  "read_done inst a s =
     (let (inst, s) = in_unsigned inst s;
          (_, s) = in_get s;
          (v, s) = in_getline [] s in
      (inst, a\<lparr>acc_values := (acc_values a)(inst \<mapsto> v), instance_h := inst, v_a := [],
               n_h := prop_t 0 (prop_m (n_h a)), n_a := prop_t 0 (prop_m (n_a a))\<rparr>, s))"

definition read_propseen :: "acceptor \<Rightarrow> istream \<Rightarrow> acceptor \<times> istream" where
  "read_propseen a s =
     (let (n, s) = in_unsigned (prop_n (n_h a)) s;
          (m, s) = in_string (prop_m (n_h a)) s in
      (a\<lparr>n_h := prop_t n m\<rparr>, s))"

definition read_accepted :: "acceptor \<Rightarrow> istream \<Rightarrow> acceptor \<times> istream" where
  "read_accepted a s =
     (let (n, s) = in_unsigned (prop_n (n_a a)) s;
          (m, s) = in_string (prop_m (n_a a)) s;
          (_, s) = in_get s;
          (v, s) = in_getline [] s in
      (a\<lparr>n_a := prop_t n m, v_a := v\<rparr>, s))"

lemma in_get_le: "in_get s = (c, s') \<Longrightarrow> length (in_rest s') \<le> length (in_rest s)"
  by (auto simp: in_get_def in_sentry_def split: if_splits list.splits)

lemma in_getline_le:
  assumes "in_getline old s = (v, s')"
  shows "length (in_rest s') \<le> length (in_rest s)"
proof -
  have "length (tl (dropWhile (\<lambda>c. c \<noteq> CHR 0x0A) (in_rest s))) \<le> length (in_rest s)"
    using length_dropWhile_le [of "\<lambda>c. c \<noteq> CHR 0x0A" "in_rest s"] by simp
  with assms show ?thesis
    by (auto simp: in_getline_def in_sentry_def Let_def simp del: dropWhile_eq_Nil_conv
        split: if_splits)
qed

lemma in_string_le:
  assumes "in_string old s = (v, s')"
  shows "length (in_rest s') \<le> length (in_rest s)"
proof -
  have "length (dropWhile (\<lambda>c. \<not> isspace c) (dropWhile isspace (in_rest s))) \<le> length (in_rest s)"
    using length_dropWhile_le le_trans by blast
  with assms show ?thesis
    by (auto simp: in_string_def in_sentry_def Let_def split: if_splits)
qed

lemma in_unsigned_le: "in_unsigned old s = (v, s') \<Longrightarrow> length (in_rest s') \<le> length (in_rest s)"
proof -
  assume *: "in_unsigned old s = (v, s')"
  let ?r = "dropWhile isspace (in_rest s)"
  have "length (dropWhile isdigit (tl ?r)) \<le> length (in_rest s)"
    "length (dropWhile isdigit ?r) \<le> length (in_rest s)"
    using length_dropWhile_le [of isdigit "tl ?r"] length_dropWhile_le [of isdigit ?r]
      length_dropWhile_le [of isspace "in_rest s"] by auto
  with * show ?thesis
    by (auto simp: in_unsigned_def in_sentry_def Let_def split: if_splits)
qed

lemmas extract_le = in_get_le in_getline_le in_string_le in_unsigned_le

lemma read_done_le: "read_done i a s = (i', a', s') \<Longrightarrow> length (in_rest s') \<le> length (in_rest s)"
  by (auto simp: read_done_def split: prod.splits dest!: extract_le)

lemma read_propseen_le: "read_propseen a s = (a', s') \<Longrightarrow> length (in_rest s') \<le> length (in_rest s)"
  by (auto simp: read_propseen_def split: prod.splits dest!: extract_le)

lemma read_accepted_le: "read_accepted a s = (a', s') \<Longrightarrow> length (in_rest s') \<le> length (in_rest s)"
  by (auto simp: read_accepted_def split: prod.splits dest!: extract_le)

function logread_loop :: "string \<Rightarrow> u32 \<Rightarrow> acceptor \<Rightarrow> istream \<Rightarrow> acceptor result" where
  "logread_loop type inst a s =
     (case in_string type s of (type, s1) \<Rightarrow>
      if in_fail s1 then Inr a
      else if type = ''done'' then
        (case read_done inst a s1 of (inst, a, s2) \<Rightarrow> logread_loop type inst a s2)
      else if type = ''propseen'' then
        (case read_propseen a s1 of (a, s2) \<Rightarrow> logread_loop type inst a s2)
      else if type = ''accepted'' then
        (case read_accepted a s1 of (a, s2) \<Rightarrow> logread_loop type inst a s2)
      else Inl Verify_failed)"
  by pat_completeness auto
termination
  by (relation "measure (\<lambda>(_, _, _, s). length (in_rest s))")
    (auto split: prod.splits dest!: in_string_shorter [OF sym]
      intro: le_less_trans read_done_le read_propseen_le read_accepted_le)

declare logread_loop.simps [simp del]

definition logread :: "u32 \<Rightarrow> acceptor \<Rightarrow> acceptor result" where
  "logread inst a = logread_loop [] inst a (istream_open (acc_log a))"

definition log_restore :: "string \<Rightarrow> acceptor \<Rightarrow> acceptor" where
  "log_restore s a = a\<lparr>acc_log := s\<rparr>"

lemma in_getline_shorter:
  assumes "in_getline old s = (v, s')" "\<not> in_fail s'"
  shows "length (in_rest s') + (if in_eof s' then 0 else 1) <
    length (in_rest s) + (if in_eof s then 0 else 1)"
proof -
  let ?r = "dropWhile (\<lambda>c. c \<noteq> CHR 0x0A) (in_rest s)"
  have "?r \<noteq> [] \<Longrightarrow> length (tl ?r) < length (in_rest s)"
    using length_dropWhile_le [of "\<lambda>c. c \<noteq> CHR 0x0A" "in_rest s"]
    by (cases ?r) (simp_all del: dropWhile_eq_Nil_conv)
  with assms show ?thesis
    by (auto simp: in_getline_def in_sentry_def Let_def simp del: dropWhile_eq_Nil_conv
        split: if_splits)
qed

function log_dump_loop :: "string \<Rightarrow> string \<Rightarrow> istream \<Rightarrow> string" where
  "log_dump_loop v res s =
     (case in_getline v s of (v, s1) \<Rightarrow>
      if in_fail s1 then res else log_dump_loop v (res @ v @ nl) s1)"
  by pat_completeness auto
termination
  by (relation "measure (\<lambda>(_, _, s). length (in_rest s) + (if in_eof s then 0 else 1))")
    (auto simp del: One_nat_def dest!: in_getline_shorter [OF sym])

declare log_dump_loop.simps [simp del]

definition log_dump :: "acceptor \<Rightarrow> string" where
  "log_dump a = log_dump_loop [] [] (istream_open (acc_log a))"

section \<open>Acceptor\<close>

definition acceptor_init :: "bool \<Rightarrow> string \<Rightarrow> string \<Rightarrow> acceptor" where
  "acceptor_init cfg me file =
     \<lparr>acc_me = me, acc_cfg = cfg, n_h = prop_t 0 me, n_a = prop_t 0 me, v_a = [],
      instance_h = 0, acc_values = Map.empty, acc_log = file\<rparr>"

definition acceptor_new ::
    "u32 \<Rightarrow> bool \<Rightarrow> bool \<Rightarrow> string \<Rightarrow> string \<Rightarrow> string \<Rightarrow> acceptor result" where
  "acceptor_new inst cfg first me v file =
     rbind (logread inst (acceptor_init cfg me file)) (\<lambda>a.
     Inr (if instance_h a = 0 \<and> first
          then (loginstance 1 v (a\<lparr>acc_values := (acc_values a)(1 \<mapsto> v)\<rparr>))\<lparr>instance_h := 1\<rparr>
          else a))"

definition preparereq ::
    "preparearg \<Rightarrow> prepareres \<Rightarrow> acceptor \<Rightarrow> int \<times> prepareres \<times> acceptor" where
  "preparereq arg r a =
     (if pa_instance arg \<le> instance_h a then
        (case acceptor_value (pa_instance arg) a of (v, a') \<Rightarrow>
          (paxos_OK, r\<lparr>pr_oldinstance := True, pr_accept := False, pr_v_a := v\<rparr>, a'))
      else if prop_gt (pa_n arg) (n_h a) then
        (paxos_OK, r\<lparr>pr_accept := True, pr_oldinstance := False, pr_n_a := n_a a, pr_v_a := v_a a\<rparr>,
         logprop (pa_n arg) (a\<lparr>n_h := pa_n arg\<rparr>))
      else
        (paxos_OK, r\<lparr>pr_accept := False, pr_oldinstance := False\<rparr>, a))"

definition acceptreq :: "acceptarg \<Rightarrow> acceptor \<Rightarrow> int \<times> bool \<times> acceptor" where
  "acceptreq arg a =
     (if prop_ge (aa_n arg) (n_h a) then
        (paxos_OK, True, logaccept (aa_n arg) (aa_v arg) (a\<lparr>n_a := aa_n arg, v_a := aa_v arg\<rparr>))
      else (paxos_ERR, False, a))"

definition commit_wo :: "u32 \<Rightarrow> string \<Rightarrow> acceptor \<Rightarrow> acceptor \<times> upcalls" where
  "commit_wo i v a =
     (if i > instance_h a then
        let a = a\<lparr>acc_values := (acc_values a)(i \<mapsto> v)\<rparr>;
            a = loginstance i v a;
            a = a\<lparr>instance_h := i, n_h := prop_t 0 (acc_me a), n_a := prop_t 0 (acc_me a), v_a := []\<rparr> in
        (a, if acc_cfg a then [(i, v)] else [])
      else (a, []))"

definition acceptor_commit :: "u32 \<Rightarrow> string \<Rightarrow> acceptor \<Rightarrow> acceptor \<times> upcalls" where
  "acceptor_commit i v a = commit_wo i v a"

definition decidereq :: "decidearg \<Rightarrow> acceptor \<Rightarrow> (int \<times> acceptor \<times> upcalls) result" where
  "decidereq arg a =
     (if da_instance arg = instance_h a + 1 then
        rbind (VERIFY (v_a a = da_v arg)) (\<lambda>_.
        Inr (paxos_OK, commit_wo (da_instance arg) (v_a a) a))
      else if da_instance arg \<le> instance_h a then Inr (paxos_OK, a, [])
      else rbind (VERIFY False) (\<lambda>_. Inr (paxos_OK, a, [])))"

definition acceptor_dump :: "acceptor \<Rightarrow> string" where
  "acceptor_dump a = log_dump a"

definition acceptor_restore :: "u32 \<Rightarrow> string \<Rightarrow> acceptor \<Rightarrow> acceptor result" where
  "acceptor_restore inst s a = logread inst (log_restore s a)"

section \<open>Proposer\<close>

record proposer =
  pro_me :: string
  break1 :: bool
  break2 :: bool
  pro_stable :: bool
  my_n :: prop_t

record 'w px_env =
  env_prepare :: "string \<Rightarrow> string \<Rightarrow> preparearg \<Rightarrow> 'w \<Rightarrow> (int \<times> prepareres) option \<times> 'w"
  env_accept :: "string \<Rightarrow> string \<Rightarrow> acceptarg \<Rightarrow> 'w \<Rightarrow> (int \<times> bool) option \<times> 'w"
  env_decide :: "string \<Rightarrow> string \<Rightarrow> decidearg \<Rightarrow> 'w \<Rightarrow> 'w"
  env_commit :: "u32 \<Rightarrow> string \<Rightarrow> 'w \<Rightarrow> 'w"
  env_n_h :: "'w \<Rightarrow> prop_t"

type_synonym prep = "string list \<times> prop_t \<times> string"

definition proposer_new :: "string \<Rightarrow> proposer" where
  "proposer_new me = \<lparr>pro_me = me, break1 = False, break2 = False, pro_stable = True, my_n = prop_t 0 me\<rparr>"

definition isrunning :: "proposer \<Rightarrow> bool" where
  "isrunning p = (\<not> pro_stable p)"

definition setn :: "prop_t \<Rightarrow> proposer \<Rightarrow> proposer" where
  "setn h p = p\<lparr>my_n := prop_t
     (if prop_n h + 1 > prop_n (my_n p) + 1 then prop_n h + 1 else prop_n (my_n p) + 1)
     (prop_m (my_n p))\<rparr>"

definition prepare_body :: "string \<Rightarrow> (int \<times> prepareres) option \<Rightarrow> prep \<Rightarrow> string + prep" where
  "prepare_body node resp st =
     (case st of (accepts, max_n_a, max_v) \<Rightarrow>
      case resp of
        None \<Rightarrow> Inr st
      | Some (ret, pres) \<Rightarrow>
          if ret \<noteq> paxos_OK then Inr st
          else if pr_oldinstance pres then Inl (pr_v_a pres)
          else if pr_accept pres then
            (if prop_gt (pr_n_a pres) max_n_a
             then Inr (accepts @ [node], pr_n_a pres, pr_v_a pres)
             else Inr (accepts @ [node], max_n_a, max_v))
          else Inr st)"

definition prep_start :: prep where
  "prep_start = ([], prop_t 0 ''0'', [])"

fun prepare_loop ::
    "(string \<Rightarrow> 'w \<Rightarrow> (int \<times> prepareres) option \<times> 'w) \<Rightarrow> string list \<Rightarrow> prep \<Rightarrow> 'w \<Rightarrow> (string + prep) \<times> 'w" where
  "prepare_loop call [] st w = (Inr st, w)"
| "prepare_loop call (node # nodes) st w =
     (case call node w of (resp, w) \<Rightarrow>
      case prepare_body node resp st of
        Inl v \<Rightarrow> (Inl v, w)
      | Inr st \<Rightarrow> prepare_loop call nodes st w)"

definition proposer_prepare ::
    "'w px_env \<Rightarrow> u32 \<Rightarrow> string list \<Rightarrow> string \<Rightarrow> proposer \<Rightarrow> 'w \<Rightarrow> bool \<times> string list \<times> string \<times> 'w" where
  "proposer_prepare env inst nodes v p w =
     (case prepare_loop (\<lambda>node. env_prepare env node (pro_me p) \<lparr>pa_instance = inst, pa_n = my_n p\<rparr>)
        nodes prep_start w of
        (Inl old, w) \<Rightarrow> (False, [], v, env_commit env inst old w)
      | (Inr (accepts, _, max_v), w) \<Rightarrow> (True, accepts, if accepts \<noteq> [] then max_v else v, w))"

definition accept_body :: "string \<Rightarrow> (int \<times> bool) option \<Rightarrow> string list \<Rightarrow> string list" where
  "accept_body node resp accepts =
     (case resp of
        None \<Rightarrow> accepts
      | Some (ret, r) \<Rightarrow> if ret = paxos_OK \<and> r then accepts @ [node] else accepts)"

fun proposer_accept ::
    "'w px_env \<Rightarrow> acceptarg \<Rightarrow> proposer \<Rightarrow> string list \<Rightarrow> string list \<Rightarrow> 'w \<Rightarrow> string list \<times> 'w" where
  "proposer_accept env arg p [] accepts w = (accepts, w)"
| "proposer_accept env arg p (node # nodes) accepts w =
     (case env_accept env node (pro_me p) arg w of (resp, w) \<Rightarrow>
      proposer_accept env arg p nodes (accept_body node resp accepts) w)"

fun proposer_decide :: "'w px_env \<Rightarrow> decidearg \<Rightarrow> proposer \<Rightarrow> string list \<Rightarrow> 'w \<Rightarrow> 'w" where
  "proposer_decide env arg p [] w = w"
| "proposer_decide env arg p (node # nodes) w =
     proposer_decide env arg p nodes (env_decide env node (pro_me p) arg w)"

definition breakpoint1 :: "proposer \<Rightarrow> unit result" where
  "breakpoint1 p = (if break1 p then Inl Exited else Inr ())"

definition breakpoint2 :: "proposer \<Rightarrow> unit result" where
  "breakpoint2 p = (if break2 p then Inl Exited else Inr ())"

definition breakpoint :: "int \<Rightarrow> proposer \<Rightarrow> proposer" where
  "breakpoint b p = (if b = 3 then p\<lparr>break1 := True\<rparr> else if b = 4 then p\<lparr>break2 := True\<rparr> else p)"

definition proposer_run ::
    "'w px_env \<Rightarrow> u32 \<Rightarrow> string list \<Rightarrow> string \<Rightarrow> proposer \<Rightarrow> 'w \<Rightarrow> (bool \<times> proposer \<times> 'w) result" where
  "proposer_run env inst cur_nodes newv p w =
     (if \<not> pro_stable p then Inr (False, p, w)
      else
        let p = setn (env_n_h env w) (p\<lparr>pro_stable := False\<rparr>);
            (ok, accepts, v, w) = proposer_prepare env inst cur_nodes [] p w in
        if ok \<and> majority cur_nodes accepts then
          let v = (if v = [] then newv else v) in
          rbind (breakpoint1 p) (\<lambda>_.
          case proposer_accept env \<lparr>aa_instance = inst, aa_n = my_n p, aa_v = v\<rparr> p accepts [] w of
            (accepts2, w) \<Rightarrow>
              if majority cur_nodes accepts2 then
                rbind (breakpoint2 p) (\<lambda>_.
                Inr (True, p\<lparr>pro_stable := True\<rparr>,
                     proposer_decide env \<lparr>da_instance = inst, da_v = v\<rparr> p accepts2 w))
              else Inr (False, p\<lparr>pro_stable := True\<rparr>, w))
        else Inr (False, p\<lparr>pro_stable := True\<rparr>, w))"

lemma isamember_iff [simp]: "isamember m l \<longleftrightarrow> m \<in> set l"
  by (induction l) auto

end
