(* ===== verification/Paxos_Recovery.thy ===== *)
theory Paxos_Recovery
  imports Paxos
begin

text \<open>
  The log of src/log/log.cc as durable state. A log file is the concatenation of printed
  records; replaying it (\<open>logread\<close>) folds \<open>apply_rec\<close> over those records. Every operation of an
  acceptor keeps the file and the state in step (\<open>recoverable\<close>), so an acceptor that is
  constructed again from its log file has the same durable state, and answers every later
  request the same way. The replay leaves the node name of a proposal with round 0 open
  (\<open>same_prop\<close>): src/log/log.cc resets only the number.
\<close>

section \<open>Records\<close>

datatype logrec = Rdone u32 string | Rprop prop_t | Racc prop_t string

fun print_rec :: "logrec \<Rightarrow> string" where
  "print_rec (Rdone i v) = ''done'' @ '' '' @ out_unsigned i @ '' '' @ v @ nl"
| "print_rec (Rprop n) = ''propseen'' @ '' '' @ out_unsigned (prop_n n) @ '' '' @ prop_m n @ nl"
| "print_rec (Racc n v) =
     ''accepted'' @ '' '' @ out_unsigned (prop_n n) @ '' '' @ prop_m n @ '' '' @ v @ nl"

fun apply_rec :: "logrec \<Rightarrow> acceptor \<Rightarrow> acceptor" where
  "apply_rec (Rdone i v) a = a\<lparr>acc_values := (acc_values a)(i \<mapsto> v), instance_h := i, v_a := [],
     n_h := prop_t 0 (prop_m (n_h a)), n_a := prop_t 0 (prop_m (n_a a))\<rparr>"
| "apply_rec (Rprop n) a = a\<lparr>n_h := n\<rparr>"
| "apply_rec (Racc n v) a = a\<lparr>n_a := n, v_a := v\<rparr>"

fun rec_ok :: "logrec \<Rightarrow> bool" where
  "rec_ok (Rdone i v) = line_ok v"
| "rec_ok (Rprop n) = word_ok (prop_m n)"
| "rec_ok (Racc n v) = (word_ok (prop_m n) \<and> line_ok v)"

abbreviation log_text :: "logrec list \<Rightarrow> string" where
  "log_text rs \<equiv> concat (map print_rec rs)"

abbreviation good_in :: "string \<Rightarrow> istream" where
  "good_in r \<equiv> \<lparr>in_rest = r, in_eof = False, in_fail = False\<rparr>"

lemma isspace_simps [simp]:
  "isspace CHR '' ''" "isspace CHR 0x0A" "\<not> isdigit CHR '' ''"
  by (simp_all add: isspace_def isdigit_def)

lemma word_ok_keywords [simp]: "word_ok ''done''" "word_ok ''propseen''" "word_ok ''accepted''"
  by (simp_all add: word_ok_def isspace_def)

lemma in_string_word' [simp]:
  "word_ok w \<Longrightarrow> isspace c \<Longrightarrow> in_string old (good_in (w @ c # r)) = (w, good_in (c # r))"
  using in_string_word [of w "c # r"] by simp

lemma in_unsigned_dec' [simp]:
  "in_unsigned old (good_in (CHR '' '' # out_unsigned x @ CHR '' '' # r)) = (x, good_in (CHR '' '' # r))"
  using in_unsigned_dec [of "CHR '' '' # r"] by (simp add: in_unsigned_skip)

lemma in_string_space [simp]:
  "word_ok w \<Longrightarrow> isspace c \<Longrightarrow>
    in_string old (good_in (CHR '' '' # w @ c # r)) = (w, good_in (c # r))"
  by (simp add: in_string_skip)

lemma read_done_print:
  "line_ok v \<Longrightarrow> read_done inst a (good_in (CHR '' '' # out_unsigned i @ CHR '' '' # v @ CHR 0x0A # r)) =
    (i, apply_rec (Rdone i v) a, good_in r)"
  by (simp add: read_done_def in_get_char in_getline_line)

lemma read_propseen_print:
  "word_ok (prop_m n) \<Longrightarrow>
    read_propseen a (good_in (CHR '' '' # out_unsigned (prop_n n) @ CHR '' '' # prop_m n @ CHR 0x0A # r)) =
    (apply_rec (Rprop n) a, good_in (CHR 0x0A # r))"
  by (simp add: read_propseen_def)

lemma read_accepted_print:
  "word_ok (prop_m n) \<Longrightarrow> line_ok v \<Longrightarrow>
    read_accepted a (good_in (CHR '' '' # out_unsigned (prop_n n) @ CHR '' '' # prop_m n @
      CHR '' '' # v @ CHR 0x0A # r)) = (apply_rec (Racc n v) a, good_in r)"
  by (simp add: read_accepted_def in_get_char in_getline_line)

section \<open>Replaying a log\<close>

lemma logread_loop_skip:
  "logread_loop ty inst a (good_in (CHR 0x0A # r)) = logread_loop ty inst a (good_in r)"
  by (subst (1 2) logread_loop.simps) (simp add: in_string_skip)

lemma logread_loop_rec:
  assumes "rec_ok r"
  shows "\<exists>ty' inst'. logread_loop ty inst a (good_in (print_rec r @ rest)) =
    logread_loop ty' inst' (apply_rec r a) (good_in rest)"
proof (cases r)
  case (Rdone i v)
  have "in_string ty (good_in (print_rec r @ rest)) =
      (''done'', good_in (CHR '' '' # out_unsigned i @ CHR '' '' # v @ CHR 0x0A # rest))"
    using in_string_word' [of "''done''"] by (simp add: Rdone)
  with Rdone assms show ?thesis
    by (subst logread_loop.simps) (auto simp: read_done_print simp del: apply_rec.simps)
next
  case (Rprop n)
  have "in_string ty (good_in (print_rec r @ rest)) = (''propseen'',
      good_in (CHR '' '' # out_unsigned (prop_n n) @ CHR '' '' # prop_m n @ CHR 0x0A # rest))"
    using in_string_word' [of "''propseen''"] by (simp add: Rprop)
  with Rprop assms show ?thesis
    by (subst logread_loop.simps)
      (auto simp: read_propseen_print logread_loop_skip simp del: apply_rec.simps)
next
  case (Racc n v)
  have "in_string ty (good_in (print_rec r @ rest)) = (''accepted'',
      good_in (CHR '' '' # out_unsigned (prop_n n) @ CHR '' '' # prop_m n @ CHR '' '' # v @ CHR 0x0A # rest))"
    using in_string_word' [of "''accepted''"] by (simp add: Racc)
  with Racc assms show ?thesis
    by (subst logread_loop.simps) (auto simp: read_accepted_print simp del: apply_rec.simps)
qed

lemma logread_loop_text:
  assumes "list_all rec_ok rs"
  shows "logread_loop ty inst a (good_in (log_text rs)) = Inr (fold apply_rec rs a)"
  using assms
proof (induction rs arbitrary: ty inst a)
  case Nil
  then show ?case by (subst logread_loop.simps) (simp add: in_string_def in_sentry_def)
next
  case (Cons r rs)
  then show ?case using logread_loop_rec [of r ty inst a "log_text rs"] by auto
qed

lemma logread_text:
  "acc_log a = log_text rs \<Longrightarrow> list_all rec_ok rs \<Longrightarrow> logread inst a = Inr (fold apply_rec rs a)"
  by (simp add: logread_def istream_open_def logread_loop_text)

lemma fold_apply_rec_frame [simp]:
  "acc_log (fold apply_rec rs a) = acc_log a"
  "acc_me (fold apply_rec rs a) = acc_me a"
  "acc_cfg (fold apply_rec rs a) = acc_cfg a"
proof (induction rs arbitrary: a)
  case (Cons r rs)
  { case 1 from Cons show ?case by (cases r) simp_all }
  { case 2 from Cons show ?case by (cases r) simp_all }
  { case 3 from Cons show ?case by (cases r) simp_all }
qed simp_all

section \<open>Durable state\<close>

definition same_prop :: "prop_t \<Rightarrow> prop_t \<Rightarrow> bool" where
  "same_prop x y = (prop_n x = prop_n y \<and> (prop_n x \<noteq> 0 \<longrightarrow> x = y))"

definition same_durable :: "acceptor \<Rightarrow> acceptor \<Rightarrow> bool" where
  "same_durable a b = (acc_me a = acc_me b \<and> acc_cfg a = acc_cfg b \<and> instance_h a = instance_h b \<and> v_a a = v_a b \<and>
     same_prop (n_h a) (n_h b) \<and> same_prop (n_a a) (n_a b) \<and>
     (\<forall>i. value_at i a = value_at i b))"

definition recoverable :: "acceptor \<Rightarrow> bool" where
  "recoverable a = (\<exists>rs. acc_log a = log_text rs \<and> list_all rec_ok rs \<and>
     same_durable a (fold apply_rec rs (acceptor_init (acc_cfg a) (acc_me a) (acc_log a))))"

datatype acc_op = Prepare_op preparearg prepareres | Accept_op acceptarg | Decide_op decidearg
  | Commit_op u32 string

fun acc_step :: "acc_op \<Rightarrow> acceptor \<Rightarrow> acceptor result" where
  "acc_step (Prepare_op arg r) a = Inr (snd (snd (preparereq arg r a)))"
| "acc_step (Accept_op arg) a = Inr (snd (snd (acceptreq arg a)))"
| "acc_step (Decide_op arg) a = rbind (decidereq arg a) (\<lambda>(_, a, _). Inr a)"
| "acc_step (Commit_op i v) a = Inr (fst (acceptor_commit i v a))"

fun acc_run :: "acc_op list \<Rightarrow> acceptor \<Rightarrow> acceptor result" where
  "acc_run [] a = Inr a"
| "acc_run (op # ops) a = rbind (acc_step op a) (acc_run ops)"

fun op_ok :: "acc_op \<Rightarrow> bool" where
  "op_ok (Prepare_op arg r) = word_ok (prop_m (pa_n arg))"
| "op_ok (Accept_op arg) = (word_ok (prop_m (aa_n arg)) \<and> line_ok (aa_v arg))"
| "op_ok (Decide_op arg) = line_ok (da_v arg)"
| "op_ok (Commit_op i v) = line_ok v"

lemma same_prop_simps [simp]:
  "same_prop x x" "same_prop (prop_t 0 m) (prop_t 0 m')"
  by (simp_all add: same_prop_def)

lemma recoverable_snoc:
  assumes "recoverable a" "rec_ok r" "acc_log b = acc_log a @ print_rec r"
    "acc_me b = acc_me a" "acc_cfg b = acc_cfg a"
    "\<And>c. same_durable a c \<Longrightarrow> same_durable b (apply_rec r c)"
  shows "recoverable b"
proof -
  obtain rs where rs: "acc_log a = log_text rs" "list_all rec_ok rs"
    "same_durable a (fold apply_rec rs (acceptor_init (acc_cfg a) (acc_me a) (acc_log a)))"
    using assms(1) unfolding recoverable_def by blast
  have any_log: "same_durable a (c\<lparr>acc_log := f\<rparr>) \<longleftrightarrow> same_durable a c" for c f
    by (simp add: same_durable_def value_at_def)
  have move: "fold apply_rec qs (c\<lparr>acc_log := f\<rparr>) = (fold apply_rec qs c)\<lparr>acc_log := f\<rparr>" for qs c f
  proof (induction qs arbitrary: c)
    case (Cons q qs)
    have "apply_rec q (c\<lparr>acc_log := f\<rparr>) = (apply_rec q c)\<lparr>acc_log := f\<rparr>" by (cases q) simp_all
    with Cons show ?case by simp
  qed simp
  have "acceptor_init (acc_cfg b) (acc_me b) (acc_log b) =
      (acceptor_init (acc_cfg a) (acc_me a) (acc_log a))\<lparr>acc_log := acc_log b\<rparr>"
    using assms(4,5) by (simp add: acceptor_init_def)
  then have "same_durable a (fold apply_rec rs (acceptor_init (acc_cfg b) (acc_me b) (acc_log b)))"
    using rs(3) by (simp add: move any_log)
  then have "same_durable b
      (fold apply_rec (rs @ [r]) (acceptor_init (acc_cfg b) (acc_me b) (acc_log b)))"
    using assms(6) by simp
  then show ?thesis
    using rs assms(2,3) unfolding recoverable_def by (intro exI [of _ "rs @ [r]"]) simp
qed

lemma recoverable_log_eq:
  assumes "recoverable a" "acc_log b = acc_log a" "acc_me b = acc_me a" "acc_cfg b = acc_cfg a"
    "\<And>c. same_durable a c \<Longrightarrow> same_durable b c"
  shows "recoverable b"
proof -
  obtain rs where "acc_log a = log_text rs" "list_all rec_ok rs"
    "same_durable a (fold apply_rec rs (acceptor_init (acc_cfg a) (acc_me a) (acc_log a)))"
    using assms(1) unfolding recoverable_def by blast
  then show ?thesis
    unfolding recoverable_def using assms(2-) by (intro exI [of _ rs]) simp
qed

lemma recoverable_init: "recoverable (acceptor_init cfg me [])"
  unfolding recoverable_def by (intro exI [of _ "[]"]) (simp add: acceptor_init_def same_durable_def)

lemma value_at_upd [simp]:
  "value_at i (a\<lparr>acc_values := (acc_values a)(j \<mapsto> v)\<rparr>) = (if i = j then v else value_at i a)"
  by (simp add: value_at_def)

lemma value_at_cong: "acc_values a = acc_values b \<Longrightarrow> value_at i a = value_at i b"
  by (simp add: value_at_def)

lemma preparereq_recoverable:
  assumes "recoverable a" "word_ok (prop_m (pa_n arg))"
  shows "recoverable (snd (snd (preparereq arg r a)))"
proof -
  consider (old) "pa_instance arg \<le> instance_h a"
    | (new) "\<not> pa_instance arg \<le> instance_h a" "n_h a < pa_n arg"
    | (rej) "\<not> pa_instance arg \<le> instance_h a" "\<not> n_h a < pa_n arg" by blast
  then show ?thesis
  proof cases
    case old
    then show ?thesis
      by (intro recoverable_log_eq [OF assms(1)])
        (auto simp: preparereq_def acceptor_value_def same_durable_def value_at_def split: option.splits)
  next
    case new
    then show ?thesis
      using assms(2) by (intro recoverable_snoc [OF assms(1), of "Rprop (pa_n arg)"])
        (auto simp: preparereq_def logprop_def same_durable_def value_at_def)
  next
    case rej
    with assms show ?thesis by (simp add: preparereq_def)
  qed
qed

lemma acceptreq_recoverable:
  assumes "recoverable a" "word_ok (prop_m (aa_n arg))" "line_ok (aa_v arg)"
  shows "recoverable (snd (snd (acceptreq arg a)))"
proof (cases "n_h a \<le> aa_n arg")
  case True
  with assms(2,3) show ?thesis
    by (intro recoverable_snoc [OF assms(1), of "Racc (aa_n arg) (aa_v arg)"])
      (auto simp: acceptreq_def logaccept_def same_durable_def value_at_def)
next
  case False
  with assms show ?thesis by (simp add: acceptreq_def)
qed

lemma commit_wo_recoverable:
  assumes "recoverable a" "line_ok v"
  shows "recoverable (fst (commit_wo i v a))"
proof (cases "instance_h a < i")
  case True
  with assms(2) show ?thesis
    by (intro recoverable_snoc [OF assms(1), of "Rdone i v"])
      (auto simp: commit_wo_def loginstance_def same_durable_def value_at_def)
next
  case False
  with assms show ?thesis by (simp add: commit_wo_def)
qed

lemma acc_step_recoverable:
  assumes "recoverable a" "op_ok op" "acc_step op a = Inr b"
  shows "recoverable b"
proof (cases op)
  case (Prepare_op arg r)
  with assms show ?thesis using preparereq_recoverable by auto
next
  case (Accept_op arg)
  with assms show ?thesis using acceptreq_recoverable by auto
next
  case (Commit_op i v)
  with assms show ?thesis using commit_wo_recoverable by (auto simp: acceptor_commit_def)
next
  case (Decide_op arg)
  with assms(3) have "b = a \<or> (v_a a = da_v arg \<and> b = fst (commit_wo (da_instance arg) (v_a a) a))"
    by (auto simp: decidereq_def VERIFY_def split: if_splits prod.splits)
  with Decide_op assms(1,2) show ?thesis using commit_wo_recoverable by auto
qed

lemma acc_run_recoverable:
  "recoverable a \<Longrightarrow> list_all op_ok ops \<Longrightarrow> acc_run ops a = Inr b \<Longrightarrow> recoverable b"
  by (induction ops arbitrary: a) (auto simp: rbind_eq_Inr dest: acc_step_recoverable)

lemma acc_step_frame:
  assumes "acc_step op a = Inr b"
  shows "acc_me b = acc_me a \<and> acc_cfg b = acc_cfg a \<and> instance_h a \<le> instance_h b"
  using assms
  by (cases op) (auto simp: preparereq_def acceptor_value_def logprop_def acceptreq_def logaccept_def
      decidereq_def VERIFY_def commit_wo_def loginstance_def acceptor_commit_def Let_def
      split: if_splits)

lemma acc_run_frame:
  assumes "acc_run ops a = Inr b"
  shows "acc_me b = acc_me a \<and> acc_cfg b = acc_cfg a \<and> instance_h a \<le> instance_h b"
  using assms
  by (induction ops arbitrary: a) (fastforce simp: rbind_eq_Inr dest: acc_step_frame)+

lemma acceptor_new_empty:
  assumes "acceptor_new inst cfg first me v [] = Inr a" "line_ok v"
  shows "recoverable a" "acc_me a = me" "acc_cfg a = cfg" "first \<longrightarrow> instance_h a \<noteq> 0"
proof -
  let ?i = "acceptor_init cfg me []"
  have "logread inst ?i = Inr ?i"
    using logread_text [of ?i "[]" inst] by (simp add: acceptor_init_def)
  then have a: "a = (if first
      then (loginstance 1 v (?i\<lparr>acc_values := (acc_values ?i)(1 \<mapsto> v)\<rparr>))\<lparr>instance_h := 1\<rparr> else ?i)"
    using assms(1) by (auto simp: acceptor_new_def acceptor_init_def)
  show "recoverable a"
  proof (cases first)
    case True
    then show ?thesis
      using assms(2) a by (intro recoverable_snoc [OF recoverable_init, of "Rdone 1 v"])
        (auto simp: loginstance_def acceptor_init_def same_durable_def value_at_def)
  next
    case False
    with a show ?thesis by (simp add: recoverable_init)
  qed
  show "acc_me a = me" "acc_cfg a = cfg" "first \<longrightarrow> instance_h a \<noteq> 0"
    using a by (auto simp: loginstance_def acceptor_init_def)
qed

section \<open>Answers of a restarted acceptor\<close>

datatype acc_reply = Prepare_answer int prepareres | Accept_answer int bool
  | Decide_answer "(int \<times> upcalls) result" | Commit_answer upcalls

fun acc_answer :: "acc_op \<Rightarrow> acceptor \<Rightarrow> acc_reply" where
  "acc_answer (Prepare_op arg r) a = (case preparereq arg r a of (s, r, _) \<Rightarrow> Prepare_answer s r)"
| "acc_answer (Accept_op arg) a = (case acceptreq arg a of (s, r, _) \<Rightarrow> Accept_answer s r)"
| "acc_answer (Decide_op arg) a = Decide_answer (rbind (decidereq arg a) (\<lambda>(s, _, u). Inr (s, u)))"
| "acc_answer (Commit_op i v) a = Commit_answer (snd (acceptor_commit i v a))"

fun acc_answers :: "acc_op list \<Rightarrow> acceptor \<Rightarrow> acc_reply list" where
  "acc_answers [] a = []"
| "acc_answers (op # ops) a =
     acc_answer op a # (case acc_step op a of Inl _ \<Rightarrow> [] | Inr a \<Rightarrow> acc_answers ops a)"

fun same_answer :: "acc_reply \<Rightarrow> acc_reply \<Rightarrow> bool" where
  "same_answer (Prepare_answer s r) (Prepare_answer s' r') =
     (s = s' \<and> pr_oldinstance r = pr_oldinstance r' \<and> pr_accept r = pr_accept r' \<and>
      pr_v_a r = pr_v_a r' \<and> same_prop (pr_n_a r) (pr_n_a r'))"
| "same_answer x y = (x = y)"

fun op_numbered :: "acc_op \<Rightarrow> bool" where
  "op_numbered (Prepare_op arg r) = (prop_n (pa_n arg) \<noteq> 0)"
| "op_numbered (Accept_op arg) = (prop_n (aa_n arg) \<noteq> 0)"
| "op_numbered (Decide_op arg) = True"
| "op_numbered (Commit_op i v) = True"

lemma same_prop_less: "same_prop x y \<Longrightarrow> prop_n n \<noteq> 0 \<Longrightarrow> x < n \<longleftrightarrow> y < n"
  unfolding same_prop_def less_prop_t_def prop_gt_def by (auto simp: word_gt_0)

lemma same_prop_le: "same_prop x y \<Longrightarrow> prop_n n \<noteq> 0 \<Longrightarrow> x \<le> n \<longleftrightarrow> y \<le> n"
  unfolding same_prop_def less_eq_prop_t_def prop_ge_def by (auto simp: word_gt_0)

lemma same_durableD:
  assumes "same_durable a b"
  shows "acc_me b = acc_me a" "acc_cfg b = acc_cfg a" "instance_h b = instance_h a" "v_a b = v_a a"
    "value_at i b = value_at i a" "same_prop (n_h a) (n_h b)" "same_prop (n_a a) (n_a b)"
  using assms by (auto simp: same_durable_def)

lemma same_durable_step:
  assumes "same_durable a b" "op_numbered op"
  shows "same_answer (acc_answer op a) (acc_answer op b) \<and>
    rel_sum (=) same_durable (acc_step op a) (acc_step op b)"
proof -
  note d = same_durableD [OF assms(1)]
  note defs = same_durable_def value_at_def
  show ?thesis
  proof (cases op)
    case (Prepare_op arg r)
    have "n_h a < pa_n arg \<longleftrightarrow> n_h b < pa_n arg"
      using same_prop_less [OF d(6)] assms(2) Prepare_op by simp
    with Prepare_op assms(1) show ?thesis
      by (auto simp: preparereq_def acceptor_value_def logprop_def d defs split: option.splits)
  next
    case (Accept_op arg)
    have "n_h a \<le> aa_n arg \<longleftrightarrow> n_h b \<le> aa_n arg"
      using same_prop_le [OF d(6)] assms(2) Accept_op by simp
    with Accept_op assms(1) show ?thesis
      by (auto simp: acceptreq_def logaccept_def defs)
  next
    case (Decide_op arg)
    with assms(1) show ?thesis
      by (auto simp: decidereq_def commit_wo_def loginstance_def Let_def VERIFY_def defs)
  next
    case (Commit_op i v)
    with assms(1) show ?thesis
      by (auto simp: acceptor_commit_def commit_wo_def loginstance_def Let_def defs)
  qed
qed

lemma same_durable_answers:
  assumes "same_durable a b" "list_all op_numbered ops"
  shows "list_all2 same_answer (acc_answers ops a) (acc_answers ops b)"
  using assms
proof (induction ops arbitrary: a b)
  case (Cons op ops)
  note step = same_durable_step [of a b op]
  show ?case
  proof (cases "acc_step op a")
    case (Inl e)
    with Cons.prems step have "acc_step op b = Inl e" by (cases "acc_step op b") auto
    with Inl Cons.prems step show ?thesis by simp
  next
    case (Inr a')
    with Cons.prems step obtain b' where "acc_step op b = Inr b'" "same_durable a' b'"
      by (cases "acc_step op b") auto
    with Inr Cons step show ?thesis by simp
  qed
qed simp

lemma recoverable_restart:
  assumes "recoverable a" "first \<longrightarrow> instance_h a \<noteq> 0"
  shows "\<exists>b. acceptor_new inst (acc_cfg a) first (acc_me a) v (acc_log a) = Inr b \<and> same_durable a b"
proof -
  let ?i = "acceptor_init (acc_cfg a) (acc_me a) (acc_log a)"
  obtain rs where rs: "acc_log a = log_text rs" "list_all rec_ok rs"
    "same_durable a (fold apply_rec rs ?i)"
    using assms(1) unfolding recoverable_def by blast
  have "logread inst ?i = Inr (fold apply_rec rs ?i)"
    using rs by (intro logread_text) (simp_all add: acceptor_init_def)
  moreover have "instance_h (fold apply_rec rs ?i) = instance_h a"
    using rs(3) by (simp add: same_durable_def)
  ultimately show ?thesis
    using assms(2) rs(3) by (auto simp: acceptor_new_def)
qed

section \<open>Transfer of a log\<close>

lemma dump_loop_lines:
  assumes "list_all line_ok ls"
  shows "log_dump_loop v res (good_in (concat (map (\<lambda>l. l @ nl) ls))) =
    res @ concat (map (\<lambda>l. l @ nl) ls)"
  using assms
proof (induction ls arbitrary: v res)
  case Nil
  then show ?case
    by (subst log_dump_loop.simps) (simp add: in_getline_def in_sentry_def)
next
  case (Cons l ls)
  then show ?case
    by (subst log_dump_loop.simps) (simp add: in_getline_line)
qed

lemma line_ok_append [simp]: "line_ok (a @ b) \<longleftrightarrow> line_ok a \<and> line_ok b"
  by (auto simp: line_ok_def)

lemma line_ok_Cons [simp]: "line_ok (c # b) \<longleftrightarrow> c \<noteq> CHR 0x0A \<and> line_ok b"
  and line_ok_Nil [simp]: "line_ok []"
  by (auto simp: line_ok_def)

lemma word_line_ok: "word_ok w \<Longrightarrow> line_ok w"
  by (auto simp: word_ok_def line_ok_def list_all_iff)

lemma out_unsigned_line_ok [simp]: "line_ok (out_unsigned x)"
  using dec_string_isdigit [of "unat x"]
  by (auto simp: out_unsigned_def line_ok_def list_all_iff isdigit_def)

lemma print_rec_line: "rec_ok r \<Longrightarrow> \<exists>l. print_rec r = l @ nl \<and> line_ok l"
  by (cases r) (auto simp: word_line_ok)

lemma log_text_lines:
  "list_all rec_ok rs \<Longrightarrow> \<exists>ls. log_text rs = concat (map (\<lambda>l. l @ nl) ls) \<and> list_all line_ok ls"
proof (induction rs)
  case Nil
  show ?case by (rule exI [of _ "[]"]) simp
next
  case (Cons r rs)
  then obtain l ls where "print_rec r = l @ nl" "line_ok l"
    "log_text rs = concat (map (\<lambda>l. l @ nl) ls)" "list_all line_ok ls"
    using print_rec_line [of r] by auto
  then show ?case by (intro exI [of _ "l # ls"]) simp
qed

lemma recoverable_dump:
  assumes "recoverable a"
  shows "acceptor_dump a = acc_log a"
proof -
  obtain rs where "acc_log a = log_text rs" "list_all rec_ok rs"
    using assms unfolding recoverable_def by blast
  then show ?thesis
    using log_text_lines [of rs] dump_loop_lines [of _ "[]" "[]"]
    by (auto simp: acceptor_dump_def log_dump_def istream_open_def)
qed

lemma fold_apply_rec_views:
  assumes "acc_values a = acc_values b" "instance_h a = instance_h b"
  shows "acc_values (fold apply_rec rs a) = acc_values (fold apply_rec rs b) \<and>
    instance_h (fold apply_rec rs a) = instance_h (fold apply_rec rs b)"
  using assms
proof (induction rs arbitrary: a b)
  case (Cons r rs)
  have "acc_values (apply_rec r a) = acc_values (apply_rec r b)"
    "instance_h (apply_rec r a) = instance_h (apply_rec r b)"
    using Cons.prems by (cases r; simp)+
  from Cons.IH [OF this] show ?case by simp
qed simp

section \<open>Properties\<close>

text \<open>
  C11. Crash recovery of an acceptor. Take an acceptor that started with an empty log and
  handled any sequence of prepare, accept, decide and commit requests. Constructing it again
  from its log file succeeds, and from then on it answers every sequence of requests like the
  acceptor that never crashed: the same statuses, promises, accepted values, faults and
  upcalls. One thing may differ, which no proposer looks at: the node name in the \<open>n_a\<close> of a promise
  of round 0, that is, when nothing was accepted (\<open>log::logread\<close> resets only the number after a \<open>done\<close>
  record). The requests are well formed, as the rest of the program makes them: node names are words
  without white space, values are single lines, and later proposals have a round above 0.
\<close>

theorem restart_transparent:
  assumes "acceptor_new inst cfg first me v [] = Inr a0" "acc_run ops a0 = Inr a"
    and "list_all op_ok ops" "line_ok v" "list_all op_numbered later"
  shows "\<exists>b. acceptor_new inst' cfg first me v (acc_log a) = Inr b \<and>
    list_all2 same_answer (acc_answers later a) (acc_answers later b)"
proof -
  note new = acceptor_new_empty [OF assms(1,4)] and run = acc_run_frame [OF assms(2)]
  have "recoverable a" using acc_run_recoverable [OF new(1) assms(3,2)] .
  moreover have "first \<longrightarrow> instance_h a \<noteq> 0"
    using new(4) run by auto
  ultimately obtain b where "acceptor_new inst' cfg first me v (acc_log a) = Inr b" "same_durable a b"
    using recoverable_restart [of a first inst' v] new(2,3) run by auto
  then show ?thesis using same_durable_answers assms(5) by blast
qed

text \<open>
  A cluster node that started first, promised one proposal, accepted its value and learned the
  decision, answers a prepare for the next instance the same way after a restart.
\<close>

theorem restart_transparent_witness:
  "\<exists>a0 a b. acceptor_new 0 True True ''1'' ''1 '' [] = Inr a0 \<and>
    acc_run [Prepare_op \<lparr>pa_instance = 2, pa_n = prop_t 1 ''1''\<rparr> undefined,
      Accept_op \<lparr>aa_instance = 2, aa_n = prop_t 1 ''1'', aa_v = ''1 2 ''\<rparr>,
      Decide_op \<lparr>da_instance = 2, da_v = ''1 2 ''\<rparr>] a0 = Inr a \<and>
    instance_h a = 2 \<and> value_at 2 a = ''1 2 '' \<and>
    acceptor_new 7 True True ''1'' ''1 '' (acc_log a) = Inr b \<and>
    list_all2 same_answer
      (acc_answers [Prepare_op \<lparr>pa_instance = 3, pa_n = prop_t 1 ''2''\<rparr> undefined] a)
      (acc_answers [Prepare_op \<lparr>pa_instance = 3, pa_n = prop_t 1 ''2''\<rparr> undefined] b)"
proof -
  let ?ops = "[Prepare_op \<lparr>pa_instance = 2, pa_n = prop_t 1 ''1''\<rparr> undefined,
      Accept_op \<lparr>aa_instance = 2, aa_n = prop_t 1 ''1'', aa_v = ''1 2 ''\<rparr>,
      Decide_op \<lparr>da_instance = 2, da_v = ''1 2 ''\<rparr>]"
  let ?a0 = "(loginstance 1 ''1 '' ((acceptor_init True ''1'' [])\<lparr>acc_values := [1 \<mapsto> ''1 '']\<rparr>))
    \<lparr>instance_h := 1\<rparr>"
  have a0: "acceptor_new 0 True True ''1'' ''1 '' [] = Inr ?a0"
    using logread_text [of "acceptor_init True ''1'' []" "[]" 0]
    by (simp add: acceptor_new_def acceptor_init_def)
  have "prop_t 0 ''1'' < prop_t 1 ''1''" by (rule prop_less_fst) simp
  then have "\<exists>a. acc_run ?ops ?a0 = Inr a \<and> instance_h a = 2 \<and> value_at 2 a = ''1 2 ''"
    by (simp add: acceptor_init_def loginstance_def preparereq_def logprop_def acceptreq_def
        logaccept_def decidereq_def commit_wo_def Let_def value_at_def word_le_nat_alt word_less_nat_alt)
  then obtain a where a: "acc_run ?ops ?a0 = Inr a" "instance_h a = 2" "value_at 2 a = ''1 2 ''"
    by blast
  show ?thesis
    using restart_transparent [OF a0 a(1), of "[Prepare_op \<lparr>pa_instance = 3, pa_n = prop_t 1 ''2''\<rparr> undefined]" 7]
      a0 a by (auto simp: word_ok_def line_ok_def isspace_def)
qed

text \<open>
  C29. State transfer. The log that \<open>acceptor::dump\<close> gives out is the log file itself, and
  \<open>acceptor::restore\<close> of it on a node that knows no instance yet succeeds and gives that node
  the same highest instance and the same value for every instance.
\<close>

theorem log_transfer:
  assumes "acceptor_new inst cfg first me v [] = Inr a0" "acc_run ops a0 = Inr a"
    and "list_all op_ok ops" "line_ok v"
  shows "acceptor_dump a = acc_log a \<and>
    (\<exists>b. acceptor_restore inst' (acceptor_dump a) (acceptor_init cfg' me' f) = Inr b \<and>
      acc_log b = acc_log a \<and> instance_h b = instance_h a \<and> (\<forall>i. value_at i b = value_at i a))"
proof -
  have rec: "recoverable a"
    using acc_run_recoverable [OF acceptor_new_empty(1) [OF assms(1,4)] assms(3,2)] .
  then obtain rs where rs: "acc_log a = log_text rs" "list_all rec_ok rs"
    "same_durable a (fold apply_rec rs (acceptor_init (acc_cfg a) (acc_me a) (acc_log a)))"
    unfolding recoverable_def by blast
  let ?i = "log_restore (acc_log a) (acceptor_init cfg' me' f)"
  have "logread inst' ?i = Inr (fold apply_rec rs ?i)"
    using rs by (intro logread_text) (simp_all add: log_restore_def)
  moreover have "acc_values (fold apply_rec rs ?i) =
      acc_values (fold apply_rec rs (acceptor_init (acc_cfg a) (acc_me a) (acc_log a))) \<and>
    instance_h (fold apply_rec rs ?i) =
      instance_h (fold apply_rec rs (acceptor_init (acc_cfg a) (acc_me a) (acc_log a)))"
    by (rule fold_apply_rec_views) (simp_all add: log_restore_def acceptor_init_def)
  ultimately show ?thesis
    using rs(3) recoverable_dump [OF rec]
    by (simp add: acceptor_restore_def same_durable_def value_at_def log_restore_def)
qed

text \<open>
  The log of the first node of a cluster, transferred to a second node.
\<close>

theorem log_transfer_witness:
  "\<exists>a0 b. acceptor_new 0 True True ''1'' ''1 '' [] = Inr a0 \<and>
    acceptor_restore 0 (acceptor_dump a0) (acceptor_init True ''2'' []) = Inr b \<and>
    instance_h b = 1 \<and> value_at 1 b = ''1 ''"
proof -
  let ?a0 = "(loginstance 1 ''1 '' ((acceptor_init True ''1'' [])\<lparr>acc_values := [1 \<mapsto> ''1 '']\<rparr>))
    \<lparr>instance_h := 1\<rparr>"
  have a0: "acceptor_new 0 True True ''1'' ''1 '' [] = Inr ?a0"
    using logread_text [of "acceptor_init True ''1'' []" "[]" 0]
    by (simp add: acceptor_new_def acceptor_init_def)
  have vals: "instance_h ?a0 = 1" "value_at 1 ?a0 = ''1 ''"
    by (simp_all add: loginstance_def value_at_def)
  have "acc_run [] ?a0 = Inr ?a0" "list_all op_ok []" "line_ok ''1 ''"
    by (simp_all add: line_ok_def)
  from log_transfer [OF a0 this, of 0 True "''2''" "[]"] obtain b where
    "acceptor_restore 0 (acceptor_dump ?a0) (acceptor_init True ''2'' []) = Inr b"
    "instance_h b = instance_h ?a0" "\<forall>i. value_at i b = value_at i ?a0"
    by blast
  with a0 vals show ?thesis by metis
qed

end
