(* ===== verification/Paxos_Cluster.thy ===== *)
theory Paxos_Cluster
  imports Paxos
begin

text \<open>
  A cluster that runs one instance of Paxos: the acceptor and the proposer of every node, where
  each running proposer stands in \<open>proposer::run\<close>, and the messages sent so far. The network
  may delay, drop, reorder and repeat messages: a message stays in \<open>px_net\<close> and may be delivered
  any number of times, and a proposer may give up on a call at any time (\<open>handle::safebind\<close>
  fails or the call times out). The steps are built from the definitions of theory
  \<open>Paxos\<close>: \<open>setn\<close>, \<open>prepare_body\<close>, \<open>accept_body\<close>, \<open>majority\<close> and the handlers.

  The flag \<open>fresh\<close> restricts delivery of an accept request to acceptors that have not yet
  committed the instance of the request, the check that \<open>acceptor::acceptreq\<close> does not make.
\<close>

section \<open>State and steps\<close>

datatype px_msg =
    Prepare_msg string preparearg
  | Prepare_rep string preparearg int prepareres
  | Accept_msg string acceptarg
  | Accept_rep string acceptarg int bool
  | Decide_msg string decidearg

datatype px_phase =
    Idle
  | Preparing "string list" prep string
  | Accepting "string list" "string list" string
  | Deciding "string list" string

record px_sys =
  px_accs :: "string \<Rightarrow> acceptor"
  px_pros :: "string \<Rightarrow> proposer"
  px_phase :: "string \<Rightarrow> px_phase"
  px_net :: "px_msg list"

datatype px_act =
    Start string string
  | Call string
  | Reply_prepare string "(int \<times> prepareres) option"
  | Reply_accept string "(int \<times> bool) option"
  | Next string
  | Deliver_prepare string preparearg prepareres
  | Deliver_accept string acceptarg
  | Deliver_decide string decidearg

definition px_finish :: "string \<Rightarrow> px_sys \<Rightarrow> px_sys" where
  "px_finish p s = s\<lparr>px_pros := (px_pros s)(p := (px_pros s p)\<lparr>pro_stable := True\<rparr>),
     px_phase := (px_phase s)(p := Idle)\<rparr>"

definition px_send :: "px_msg \<Rightarrow> px_sys \<Rightarrow> px_sys" where
  "px_send m s = s\<lparr>px_net := px_net s @ [m]\<rparr>"

definition px_enter :: "string \<Rightarrow> px_phase \<Rightarrow> px_sys \<Rightarrow> px_sys" where
  "px_enter p ph s = s\<lparr>px_phase := (px_phase s)(p := ph)\<rparr>"

definition px_set_acc :: "string \<Rightarrow> acceptor \<Rightarrow> px_sys \<Rightarrow> px_sys" where
  "px_set_acc x a s = s\<lparr>px_accs := (px_accs s)(x := a)\<rparr>"

definition px_start :: "string list \<Rightarrow> string \<Rightarrow> string \<Rightarrow> px_sys \<Rightarrow> px_sys option" where
  "px_start ns p newv s =
     (let q = setn (n_h (px_accs s p)) ((px_pros s p)\<lparr>pro_stable := False\<rparr>) in
      if pro_stable (px_pros s p)
      then Some (px_enter p (Preparing ns prep_start newv) (s\<lparr>px_pros := (px_pros s)(p := q)\<rparr>))
      else None)"

definition px_call :: "u32 \<Rightarrow> string \<Rightarrow> px_sys \<Rightarrow> px_sys option" where
  "px_call i p s =
     (case px_phase s p of
        Preparing (x # xs) st newv \<Rightarrow>
          Some (px_send (Prepare_msg x \<lparr>pa_instance = i, pa_n = my_n (px_pros s p)\<rparr>) s)
      | Accepting (x # xs) accepts v \<Rightarrow>
          Some (px_send (Accept_msg x \<lparr>aa_instance = i, aa_n = my_n (px_pros s p), aa_v = v\<rparr>) s)
      | Deciding (x # xs) v \<Rightarrow>
          Some (px_enter p (Deciding xs v) (px_send (Decide_msg x \<lparr>da_instance = i, da_v = v\<rparr>) s))
      | _ \<Rightarrow> None)"

definition px_reply_prepare ::
    "u32 \<Rightarrow> string \<Rightarrow> (int \<times> prepareres) option \<Rightarrow> px_sys \<Rightarrow> px_sys option" where
  "px_reply_prepare i p resp s =
     (case px_phase s p of
        Preparing (x # xs) st newv \<Rightarrow>
          if (case resp of None \<Rightarrow> True | Some (ret, r) \<Rightarrow>
                Prepare_rep x \<lparr>pa_instance = i, pa_n = my_n (px_pros s p)\<rparr> ret r \<in> set (px_net s))
          then
            (case prepare_body x resp st of
               Inl v \<Rightarrow> Some (px_finish p (px_set_acc p (fst (acceptor_commit i v (px_accs s p))) s))
             | Inr st \<Rightarrow> Some (px_enter p (Preparing xs st newv) s))
          else None
      | _ \<Rightarrow> None)"

definition px_reply_accept ::
    "u32 \<Rightarrow> string \<Rightarrow> (int \<times> bool) option \<Rightarrow> px_sys \<Rightarrow> px_sys option" where
  "px_reply_accept i p resp s =
     (case px_phase s p of
        Accepting (x # xs) accepts v \<Rightarrow>
          if (case resp of None \<Rightarrow> True | Some (ret, r) \<Rightarrow>
                Accept_rep x \<lparr>aa_instance = i, aa_n = my_n (px_pros s p), aa_v = v\<rparr> ret r \<in> set (px_net s))
          then Some (px_enter p (Accepting xs (accept_body x resp accepts) v) s)
          else None
      | _ \<Rightarrow> None)"

definition prepare_value :: "string \<Rightarrow> prep \<Rightarrow> string" where
  "prepare_value newv st = (case st of (accepts, _, max_v) \<Rightarrow>
     let v = (if accepts \<noteq> [] then max_v else []) in if v = [] then newv else v)"

definition px_next :: "string list \<Rightarrow> string \<Rightarrow> px_sys \<Rightarrow> px_sys option" where
  "px_next ns p s =
     (case px_phase s p of
        Preparing [] st newv \<Rightarrow>
          Some (if majority ns (fst st)
                then px_enter p (Accepting (fst st) [] (prepare_value newv st)) s
                else px_finish p s)
      | Accepting [] accepts v \<Rightarrow>
          Some (if majority ns accepts then px_enter p (Deciding accepts v) s else px_finish p s)
      | Deciding [] v \<Rightarrow> Some (px_finish p s)
      | _ \<Rightarrow> None)"

definition px_deliver_prepare :: "string \<Rightarrow> preparearg \<Rightarrow> prepareres \<Rightarrow> px_sys \<Rightarrow> px_sys option" where
  "px_deliver_prepare x arg r s =
     (if Prepare_msg x arg \<in> set (px_net s) then
        (case preparereq arg r (px_accs s x) of (ret, r, a) \<Rightarrow>
          Some (px_set_acc x a (px_send (Prepare_rep x arg ret r) s)))
      else None)"

definition px_deliver_accept :: "bool \<Rightarrow> string \<Rightarrow> acceptarg \<Rightarrow> px_sys \<Rightarrow> px_sys option" where
  "px_deliver_accept fresh x arg s =
     (if Accept_msg x arg \<in> set (px_net s) \<and>
         (fresh \<longrightarrow> instance_h (px_accs s x) + 1 = aa_instance arg) then
        (case acceptreq arg (px_accs s x) of (ret, r, a) \<Rightarrow>
          Some (px_set_acc x a (px_send (Accept_rep x arg ret r) s)))
      else None)"

definition px_deliver_decide :: "string \<Rightarrow> decidearg \<Rightarrow> px_sys \<Rightarrow> px_sys option" where
  "px_deliver_decide x arg s =
     (if Decide_msg x arg \<in> set (px_net s) then
        (case decidereq arg (px_accs s x) of
           Inl _ \<Rightarrow> None
         | Inr (_, a, _) \<Rightarrow> Some (px_set_acc x a s))
      else None)"

text \<open>
  The runs of \<open>proposer::run\<close> that are considered: the code has neither test. The value is not empty; the
  callers \<open>config::add\<close> and \<open>config::remove_wo\<close> print a view that has the node itself (with an empty value,
  the test \<open>v.size() == 0\<close> takes an accepted value for none). The counter of \<open>setn\<close> does not wrap around.
\<close>

definition start_ok :: "string \<Rightarrow> string \<Rightarrow> px_sys \<Rightarrow> bool" where
  "start_ok p newv s =
     (newv \<noteq> [] \<and>
      prop_n (my_n (px_pros s p)) < prop_n (my_n (setn (n_h (px_accs s p)) ((px_pros s p)\<lparr>pro_stable := False\<rparr>))))"

fun px_step :: "bool \<Rightarrow> u32 \<Rightarrow> string list \<Rightarrow> px_act \<Rightarrow> px_sys \<Rightarrow> px_sys option" where
  "px_step fresh i ns (Start p newv) s = (if start_ok p newv s then px_start ns p newv s else None)"
| "px_step fresh i ns (Call p) s = px_call i p s"
| "px_step fresh i ns (Reply_prepare p resp) s = px_reply_prepare i p resp s"
| "px_step fresh i ns (Reply_accept p resp) s = px_reply_accept i p resp s"
| "px_step fresh i ns (Next p) s = px_next ns p s"
| "px_step fresh i ns (Deliver_prepare x arg r) s = px_deliver_prepare x arg r s"
| "px_step fresh i ns (Deliver_accept x arg) s = px_deliver_accept fresh x arg s"
| "px_step fresh i ns (Deliver_decide x arg) s = px_deliver_decide x arg s"

fun px_exec :: "bool \<Rightarrow> u32 \<Rightarrow> string list \<Rightarrow> px_act list \<Rightarrow> px_sys \<Rightarrow> px_sys option" where
  "px_exec fresh i ns [] s = Some s"
| "px_exec fresh i ns (a # as) s =
     (case px_step fresh i ns a s of None \<Rightarrow> None | Some s \<Rightarrow> px_exec fresh i ns as s)"

definition px_initial :: "u32 \<Rightarrow> px_sys \<Rightarrow> bool" where
  "px_initial i s =
     ((\<forall>x. instance_h (px_accs s x) = i - 1 \<and> prop_n (n_h (px_accs s x)) = 0 \<and>
          prop_n (n_a (px_accs s x)) = 0 \<and> v_a (px_accs s x) = []) \<and>
      (\<forall>p. pro_stable (px_pros s p) \<and> prop_m (my_n (px_pros s p)) = p \<and> px_phase s p = Idle) \<and>
      px_net s = [])"

inductive px_reach :: "bool \<Rightarrow> u32 \<Rightarrow> string list \<Rightarrow> px_sys \<Rightarrow> bool"
  for fresh :: bool and i :: u32 and ns :: "string list" where
  initial: "px_initial i s \<Longrightarrow> px_reach fresh i ns s"
| step: "px_reach fresh i ns s \<Longrightarrow> px_step fresh i ns a s = Some s' \<Longrightarrow> px_reach fresh i ns s'"

lemma px_exec_reach: "px_reach fresh i ns s \<Longrightarrow> px_exec fresh i ns as s = Some s' \<Longrightarrow> px_reach fresh i ns s'"
  by (induction as arbitrary: s) (auto split: option.splits intro: px_reach.step)

section \<open>Quorums\<close>

text \<open>
  What the safety argument needs of \<open>proposer::majority\<close>: two sets that pass it share a node.
\<close>

definition chosen :: "('q list \<Rightarrow> bool) \<Rightarrow> ('q \<Rightarrow> 'b \<Rightarrow> 'v \<Rightarrow> bool) \<Rightarrow> 'b \<Rightarrow> 'v \<Rightarrow> bool" where
  "chosen quorum voted b v = (\<exists>Q. quorum Q \<and> (\<forall>x \<in> set Q. voted x b v))"

definition safe_at ::
    "('q list \<Rightarrow> bool) \<Rightarrow> ('q \<Rightarrow> 'b::linorder \<Rightarrow> 'v \<Rightarrow> bool) \<Rightarrow> ('q \<Rightarrow> 'b \<Rightarrow> bool) \<Rightarrow> 'b \<Rightarrow> 'v \<Rightarrow> bool" where
  "safe_at quorum voted promised b v = (\<forall>c < b. \<exists>Q. quorum Q \<and>
     (\<forall>x \<in> set Q. (\<forall>w. voted x c w \<longrightarrow> w = v) \<and> (\<exists>d > c. promised x d)))"

locale quorum_system =
  fixes quorum :: "'q list \<Rightarrow> bool"
  assumes quorums_intersect: "quorum Q \<Longrightarrow> quorum R \<Longrightarrow> \<exists>x. x \<in> set Q \<and> x \<in> set R"
begin

lemma chosen_below:
  assumes "chosen quorum voted b v" "safe_at quorum voted promised c w" "b < c"
  shows "v = w"
proof -
  obtain Q where Q: "quorum Q" "\<forall>x \<in> set Q. voted x b v"
    using assms(1) unfolding chosen_def by blast
  obtain R where R: "quorum R" "\<forall>x \<in> set R. \<forall>u. voted x b u \<longrightarrow> u = w"
    using assms(2,3) unfolding safe_at_def by blast
  show ?thesis using quorums_intersect [OF Q(1) R(1)] Q(2) R(2) by blast
qed

lemma chosen_voted: "chosen quorum voted b v \<Longrightarrow> \<exists>x. voted x b v"
  unfolding chosen_def using quorums_intersect by blast

lemma chosen_agree:
  fixes voted :: "'q \<Rightarrow> 'b::linorder \<Rightarrow> 'v \<Rightarrow> bool"
  assumes "\<And>x b v. voted x b v \<Longrightarrow> safe_at quorum voted promised b v"
    and "\<And>x y b v w. voted x b v \<Longrightarrow> voted y b w \<Longrightarrow> v = w"
    and "chosen quorum voted b v" "chosen quorum voted c w"
  shows "v = w"
proof (cases b c rule: linorder_cases)
  case less
  then show ?thesis using chosen_below chosen_voted assms by metis
next
  case equal
  then show ?thesis using chosen_voted assms by metis
next
  case greater
  then show ?thesis using chosen_below chosen_voted assms by metis
qed

lemma safe_at_quorum:
  assumes "quorum Q" "\<And>x. x \<in> set Q \<Longrightarrow> promised x b"
    and "\<And>x c w. x \<in> set Q \<Longrightarrow> voted x c w \<Longrightarrow> c < b \<Longrightarrow> c \<le> m"
    and "\<And>x w. x \<in> set Q \<Longrightarrow> voted x m w \<Longrightarrow> w = v"
    and "\<And>c. c < m \<Longrightarrow> \<exists>R. quorum R \<and>
      (\<forall>x \<in> set R. (\<forall>w. voted x c w \<longrightarrow> w = v) \<and> (\<exists>d > c. promised x d))"
  shows "safe_at quorum voted promised b v"
  unfolding safe_at_def
proof (intro allI impI)
  fix c assume "c < b"
  show "\<exists>Q. quorum Q \<and> (\<forall>x \<in> set Q. (\<forall>w. voted x c w \<longrightarrow> w = v) \<and> (\<exists>d > c. promised x d))"
  proof (cases "c < m")
    case True
    then show ?thesis by (rule assms(5))
  next
    case False
    with \<open>c < b\<close> assms(1-4) show ?thesis by (metis antisym_conv2 le_less)
  qed
qed

end

lemma count_members_filter: "count_members l1 l2 = length (filter (\<lambda>x. x \<in> set l2) l1)"
  by (induction l1) auto

lemma count_members_disjoint:
  assumes "\<And>x. x \<in> set Q \<Longrightarrow> x \<notin> set R"
  shows "count_members ns Q + count_members ns R \<le> length ns"
  using assms by (induction ns) auto

lemma majority_intersect:
  assumes "majority ns Q" "majority ns R"
  shows "\<exists>x. x \<in> set Q \<and> x \<in> set R"
proof (rule ccontr)
  assume "\<not> ?thesis"
  then have "count_members ns Q + count_members ns R \<le> length ns"
    by (intro count_members_disjoint) blast
  with assms show False by (simp add: majority_def)
qed

interpretation maj: quorum_system "majority ns" for ns
  by unfold_locales (rule majority_intersect)

end
