(* ===== verification/Paxos_Safety.thy ===== *)
theory Paxos_Safety
  imports Paxos_Cluster
begin

text \<open>
  Safety of one Paxos instance. Votes and promises are read off the messages sent so far, which
  only grow. \<open>px_inv\<close> collects what every reachable state satisfies when accept requests are
  only delivered to acceptors still working on the instance: acceptors keep their promises,
  every value asked for is safe at its number, and nothing is committed that was not chosen by
  a majority. Each kind of step has one lemma that it keeps the invariant. The last section
  shows a run of the unrestricted cluster in which two nodes commit different values.
\<close>

section \<open>Votes, promises, safety\<close>

definition px_voted :: "u32 \<Rightarrow> px_sys \<Rightarrow> string \<Rightarrow> prop_t \<Rightarrow> string \<Rightarrow> bool" where
  "px_voted i s x b v =
     (Accept_rep x \<lparr>aa_instance = i, aa_n = b, aa_v = v\<rparr> paxos_OK True \<in> set (px_net s))"

definition px_asked :: "u32 \<Rightarrow> px_sys \<Rightarrow> string \<Rightarrow> prop_t \<Rightarrow> string \<Rightarrow> bool" where
  "px_asked i s x b v = (Accept_msg x \<lparr>aa_instance = i, aa_n = b, aa_v = v\<rparr> \<in> set (px_net s))"

definition px_promise :: "u32 \<Rightarrow> px_sys \<Rightarrow> string \<Rightarrow> prop_t \<Rightarrow> prepareres \<Rightarrow> bool" where
  "px_promise i s x b r =
     (Prepare_rep x \<lparr>pa_instance = i, pa_n = b\<rparr> paxos_OK r \<in> set (px_net s) \<and>
      \<not> pr_oldinstance r \<and> pr_accept r)"

definition px_promised :: "u32 \<Rightarrow> px_sys \<Rightarrow> string \<Rightarrow> prop_t \<Rightarrow> bool" where
  "px_promised i s x b = (\<exists>r. px_promise i s x b r)"

abbreviation px_chosen :: "u32 \<Rightarrow> string list \<Rightarrow> px_sys \<Rightarrow> prop_t \<Rightarrow> string \<Rightarrow> bool" where
  "px_chosen i ns s \<equiv> chosen (majority ns) (px_voted i s)"

abbreviation px_safe :: "u32 \<Rightarrow> string list \<Rightarrow> px_sys \<Rightarrow> prop_t \<Rightarrow> string \<Rightarrow> bool" where
  "px_safe i ns s \<equiv> safe_at (majority ns) (px_voted i s) (px_promised i s)"

definition px_decided :: "u32 \<Rightarrow> string list \<Rightarrow> px_sys \<Rightarrow> string \<Rightarrow> bool" where
  "px_decided i ns s v = (\<exists>b. px_chosen i ns s b v)"

definition px_ext :: "u32 \<Rightarrow> string list \<Rightarrow> px_sys \<Rightarrow> px_sys \<Rightarrow> bool" where
  "px_ext i ns s s' = ((\<forall>x b v. px_voted i s x b v \<longrightarrow> px_voted i s' x b v) \<and>
     (\<forall>x b r. px_promise i s x b r \<longrightarrow> px_promise i s' x b r) \<and>
     (\<forall>b v. px_safe i ns s b v \<longrightarrow> px_safe i ns s' b v))"

section \<open>Invariant\<close>

definition acc_inv :: "u32 \<Rightarrow> string list \<Rightarrow> px_sys \<Rightarrow> string \<Rightarrow> acceptor \<Rightarrow> bool" where
  "acc_inv i ns s x a =
     (if instance_h a = i then px_decided i ns s (value_at i a)
      else instance_h a = i - 1 \<and>
        (\<forall>b r. px_promise i s x b r \<longrightarrow> b \<le> n_h a) \<and>
        (\<forall>b v. px_voted i s x b v \<longrightarrow> b \<le> n_a a) \<and>
        (if prop_n (n_a a) = 0 then v_a a = [] else px_voted i s x (n_a a) (v_a a)))"

fun msg_inv :: "u32 \<Rightarrow> string list \<Rightarrow> px_sys \<Rightarrow> px_msg \<Rightarrow> bool" where
  "msg_inv i ns s (Prepare_msg x a) = (pa_instance a = i \<and> prop_n (pa_n a) \<noteq> 0)"
| "msg_inv i ns s (Prepare_rep x a ret r) =
     (pa_instance a = i \<and> ret = paxos_OK \<and>
      (pr_oldinstance r \<longrightarrow> px_decided i ns s (pr_v_a r)) \<and>
      (\<not> pr_oldinstance r \<and> pr_accept r \<longrightarrow>
         prop_n (pa_n a) \<noteq> 0 \<and>
         (\<forall>c w. px_voted i s x c w \<and> c < pa_n a \<longrightarrow> c \<le> pr_n_a r) \<and>
         (if prop_n (pr_n_a r) = 0 then pr_v_a r = []
          else pr_n_a r < pa_n a \<and> px_voted i s x (pr_n_a r) (pr_v_a r))))"
| "msg_inv i ns s (Accept_msg x a) =
     (aa_instance a = i \<and> aa_v a \<noteq> [] \<and> prop_n (aa_n a) \<noteq> 0 \<and>
      px_safe i ns s (aa_n a) (aa_v a) \<and> px_promised i s x (aa_n a))"
| "msg_inv i ns s (Accept_rep x a ret r) =
     (aa_instance a = i \<and> Accept_msg x a \<in> set (px_net s))"
| "msg_inv i ns s (Decide_msg x a) =
     (da_instance a = i \<and> (\<exists>b. px_chosen i ns s b (da_v a) \<and> px_voted i s x b (da_v a)))"

fun phase_inv :: "u32 \<Rightarrow> string list \<Rightarrow> px_sys \<Rightarrow> prop_t \<Rightarrow> px_phase \<Rightarrow> bool" where
  "phase_inv i ns s b Idle = True"
| "phase_inv i ns s b (Preparing todo (accepts, mn, mv) newv) =
     (prop_n b \<noteq> 0 \<and> newv \<noteq> [] \<and>
      (\<forall>x \<in> set accepts. \<exists>r. px_promise i s x b r \<and> pr_n_a r \<le> mn) \<and>
      (if prop_n mn = 0 then mv = [] else \<exists>x. px_voted i s x mn mv))"
| "phase_inv i ns s b (Accepting todo accepts v) =
     (prop_n b \<noteq> 0 \<and> v \<noteq> [] \<and> px_safe i ns s b v \<and>
      (\<forall>x \<in> set todo. px_promised i s x b) \<and> (\<forall>x \<in> set accepts. px_voted i s x b v))"
| "phase_inv i ns s b (Deciding todo v) =
     (px_chosen i ns s b v \<and> (\<forall>x \<in> set todo. px_voted i s x b v))"

fun phase_asks :: "px_phase \<Rightarrow> string \<Rightarrow> bool" where
  "phase_asks Idle v = True"
| "phase_asks (Preparing todo st newv) v = False"
| "phase_asks (Accepting todo accepts w) v = (v = w)"
| "phase_asks (Deciding todo w) v = (v = w)"

definition num_inv :: "u32 \<Rightarrow> px_sys \<Rightarrow> bool" where
  "num_inv i s =
     ((\<forall>p. prop_m (my_n (px_pros s p)) = p) \<and>
      (\<forall>x b v. px_asked i s x b v \<longrightarrow>
         prop_n b \<le> prop_n (my_n (px_pros s (prop_m b))) \<and>
         (prop_n b = prop_n (my_n (px_pros s (prop_m b))) \<longrightarrow> phase_asks (px_phase s (prop_m b)) v)) \<and>
      (\<forall>x y b v w. px_asked i s x b v \<and> px_asked i s y b w \<longrightarrow> v = w))"

definition px_inv :: "u32 \<Rightarrow> string list \<Rightarrow> px_sys \<Rightarrow> bool" where
  "px_inv i ns s =
     ((\<forall>x. acc_inv i ns s x (px_accs s x)) \<and>
      (\<forall>m \<in> set (px_net s). msg_inv i ns s m) \<and>
      (\<forall>p. phase_inv i ns s (my_n (px_pros s p)) (px_phase s p)) \<and>
      (\<forall>p. pro_stable (px_pros s p) \<longrightarrow> px_phase s p = Idle) \<and>
      num_inv i s)"

lemmas px_state_defs = px_send_def px_enter_def px_set_acc_def px_finish_def

lemma px_same_net:
  assumes "px_net s' = px_net s"
  shows "px_voted i s' = px_voted i s" "px_asked i s' = px_asked i s"
    "px_promise i s' = px_promise i s" "px_promised i s' = px_promised i s"
    "px_decided i ns s' = px_decided i ns s"
  using assms
  by (auto simp: fun_eq_iff px_voted_def px_asked_def px_promise_def px_promised_def px_decided_def
      chosen_def)

lemma px_invD:
  assumes "px_inv i ns s"
  shows "acc_inv i ns s x (px_accs s x)"
    "m \<in> set (px_net s) \<Longrightarrow> msg_inv i ns s m"
    "phase_inv i ns s (my_n (px_pros s p)) (px_phase s p)"
    "pro_stable (px_pros s p) \<Longrightarrow> px_phase s p = Idle"
    "num_inv i s"
  using assms by (auto simp: px_inv_def)

lemma voted_asked: "px_inv i ns s \<Longrightarrow> px_voted i s x b v \<Longrightarrow> px_asked i s x b v"
  by (auto simp: px_voted_def px_asked_def dest!: px_invD(2))

lemma asked_inv:
  assumes "px_inv i ns s" "px_asked i s x b v"
  shows "v \<noteq> []" "prop_n b \<noteq> 0" "px_safe i ns s b v" "px_promised i s x b"
  using px_invD(2) [OF assms(1), of "Accept_msg x \<lparr>aa_instance = i, aa_n = b, aa_v = v\<rparr>"] assms(2)
  by (simp_all add: px_asked_def)

lemma promise_inv:
  assumes "px_inv i ns s" "px_promise i s x b r"
  shows "prop_n b \<noteq> 0" "px_voted i s x c w \<Longrightarrow> c < b \<Longrightarrow> c \<le> pr_n_a r"
    "if prop_n (pr_n_a r) = 0 then pr_v_a r = []
     else pr_n_a r < b \<and> px_voted i s x (pr_n_a r) (pr_v_a r)"
  using px_invD(2) [OF assms(1), of "Prepare_rep x \<lparr>pa_instance = i, pa_n = b\<rparr> paxos_OK r"] assms(2)
  by (auto simp: px_promise_def)

lemma asked_unique:
  "px_inv i ns s \<Longrightarrow> px_asked i s x b v \<Longrightarrow> px_asked i s y b w \<Longrightarrow> v = w"
  using px_invD(5) unfolding num_inv_def by blast

lemma decided_agree:
  assumes "px_inv i ns s" "px_decided i ns s v" "px_decided i ns s w"
  shows "v = w"
proof -
  obtain b c where "px_chosen i ns s b v" "px_chosen i ns s c w"
    using assms(2,3) unfolding px_decided_def by blast
  then show ?thesis
    by (rule maj.chosen_agree [rotated 2])
      (blast intro: asked_inv(3) [OF assms(1)] asked_unique [OF assms(1)] voted_asked [OF assms(1)])+
qed

section \<open>Growing the set of messages\<close>

lemma chosen_mono:
  "(\<And>x b v. voted x b v \<Longrightarrow> voted' x b v) \<Longrightarrow> chosen q voted b v \<Longrightarrow> chosen q voted' b v"
  unfolding chosen_def by blast

lemma safe_at_mono:
  assumes "safe_at q voted promised b v"
    and "\<And>x c. promised x c \<Longrightarrow> promised' x c"
    and "\<And>x c d w. voted' x c w \<Longrightarrow> promised x d \<Longrightarrow> c < d \<Longrightarrow> voted x c w"
  shows "safe_at q voted' promised' b v"
  unfolding safe_at_def
proof (intro allI impI)
  fix c assume "c < b"
  then obtain Q where "q Q"
    and Q: "\<And>x. x \<in> set Q \<Longrightarrow> (\<forall>w. voted x c w \<longrightarrow> w = v) \<and> (\<exists>d > c. promised x d)"
    using assms(1) unfolding safe_at_def by blast
  have "(\<forall>w. voted' x c w \<longrightarrow> w = v) \<and> (\<exists>d > c. promised' x d)" if "x \<in> set Q" for x
    using Q [OF that] assms(2,3) by blast
  with \<open>q Q\<close> show "\<exists>Q. q Q \<and> (\<forall>x \<in> set Q. (\<forall>w. voted' x c w \<longrightarrow> w = v) \<and> (\<exists>d > c. promised' x d))"
    by blast
qed

lemma px_extD:
  assumes "px_ext i ns s s'"
  shows "px_voted i s x b v \<Longrightarrow> px_voted i s' x b v"
    "px_promise i s x b r \<Longrightarrow> px_promise i s' x b r"
    "px_promised i s x b \<Longrightarrow> px_promised i s' x b"
    "px_safe i ns s b v \<Longrightarrow> px_safe i ns s' b v"
    "px_chosen i ns s b v \<Longrightarrow> px_chosen i ns s' b v"
    "px_decided i ns s v \<Longrightarrow> px_decided i ns s' v"
  using assms chosen_mono [of "px_voted i s" "px_voted i s'"]
  unfolding px_ext_def px_promised_def px_decided_def by blast+

lemma phase_inv_ext:
  assumes "px_ext i ns s s'" "phase_inv i ns s b ph"
  shows "phase_inv i ns s' b ph"
proof (cases ph)
  case (Preparing todo st newv)
  obtain accepts mn mv where st: "st = (accepts, mn, mv)" by (cases st)
  show ?thesis
    using assms(2) px_extD(1,2) [OF assms(1)] unfolding Preparing st by (simp split: if_splits) blast+
next
  case (Accepting todo accepts v)
  then show ?thesis using assms(2) px_extD [OF assms(1)] by simp
next
  case (Deciding todo v)
  then show ?thesis using assms(2) px_extD [OF assms(1)] by simp
qed simp

lemma px_ext_same_votes:
  assumes "\<And>m. m \<in> set (px_net s) \<Longrightarrow> m \<in> set (px_net s')"
    and "\<And>x b v. px_voted i s' x b v \<Longrightarrow> px_voted i s x b v"
  shows "px_ext i ns s s'"
proof -
  have v: "px_voted i s' = px_voted i s"
    using assms by (auto simp: fun_eq_iff px_voted_def)
  have p: "px_promise i s x b r \<Longrightarrow> px_promise i s' x b r" for x b r
    using assms(1) by (auto simp: px_promise_def)
  then have "px_promised i s x b \<Longrightarrow> px_promised i s' x b" for x b
    by (auto simp: px_promised_def)
  then have safe: "px_safe i ns s b v \<Longrightarrow> px_safe i ns s' b v" for b v
    using safe_at_mono [of "majority ns" "px_voted i s" "px_promised i s" b v] unfolding v by blast
  show ?thesis unfolding px_ext_def by (intro conjI allI impI; (erule p | erule safe | simp add: v))
qed

lemma msg_inv_ext:
  assumes "px_ext i ns s s'" "msg_inv i ns s m" "set (px_net s) \<subseteq> set (px_net s')"
    and "\<And>x b v. px_voted i s' x b v \<Longrightarrow> px_voted i s x b v"
  shows "msg_inv i ns s' m"
proof -
  have v: "px_voted i s' = px_voted i s"
    using assms(4) px_extD(1) [OF assms(1)] by (auto simp: fun_eq_iff)
  then have "px_decided i ns s' = px_decided i ns s" unfolding px_decided_def [abs_def] by simp
  note eqs = v this
  show ?thesis
  proof (cases m)
    case (Accept_msg x a)
    then show ?thesis using assms(2) px_extD(3,4) [OF assms(1)] by simp
  qed (use assms(2,3) eqs in auto)
qed

lemma acc_inv_ext:
  assumes "px_ext i ns s s'" "acc_inv i ns s x a"
    and "\<And>b v. px_voted i s' x b v \<Longrightarrow> px_voted i s x b v"
    and "\<And>b r. px_promise i s' x b r \<Longrightarrow> px_promise i s x b r"
  shows "acc_inv i ns s' x a"
proof -
  have "px_voted i s' x = px_voted i s x" "px_promise i s' x = px_promise i s x"
    using assms(3,4) px_extD(1,2) [OF assms(1)] by (auto simp: fun_eq_iff)
  with assms(2) show ?thesis
    unfolding acc_inv_def by (simp add: px_extD(6) [OF assms(1)] split: if_splits)
qed

section \<open>Steps keep the invariant\<close>

lemma px_inv_initial:
  assumes "px_initial i s" "i \<noteq> 0"
  shows "px_inv i ns s"
proof -
  have "i - 1 \<noteq> i" by simp
  moreover have "\<not> px_promise i s x b r" "\<not> px_voted i s x b v" "\<not> px_asked i s x b v" for x b r v
    using assms by (simp_all add: px_initial_def px_promise_def px_voted_def px_asked_def)
  ultimately show ?thesis
    using assms by (auto simp: px_inv_def px_initial_def acc_inv_def num_inv_def)
qed

text \<open>A step that sends no message and touches no acceptor.\<close>

lemma px_inv_local:
  assumes "px_inv i ns s" "px_net s' = px_net s" "px_accs s' = px_accs s"
    and "\<And>p. phase_inv i ns s (my_n (px_pros s' p)) (px_phase s' p)"
    and "\<And>p. pro_stable (px_pros s' p) \<Longrightarrow> px_phase s' p = Idle"
    and "num_inv i s'"
  shows "px_inv i ns s'"
proof -
  have ext: "px_ext i ns s s'"
    using assms(2) px_same_net(1) [OF assms(2)] by (intro px_ext_same_votes) simp_all
  note same = px_same_net [OF assms(2)]
  have "acc_inv i ns s' x (px_accs s' x)" for x
    using acc_inv_ext [OF ext px_invD(1) [OF assms(1)]] same assms(3) by simp
  moreover have "msg_inv i ns s' m" if "m \<in> set (px_net s')" for m
    using msg_inv_ext [OF ext px_invD(2) [OF assms(1)]] that same assms(2) by simp
  moreover have "phase_inv i ns s' (my_n (px_pros s' p)) (px_phase s' p)" for p
    using phase_inv_ext [OF ext assms(4)] .
  ultimately show ?thesis using assms(5,6) by (simp add: px_inv_def)
qed

lemma num_inv_phase:
  assumes "num_inv i s" "px_net s' = px_net s"
    and "\<And>q. my_n (px_pros s' q) = my_n (px_pros s q)"
    and "\<And>q v. phase_asks (px_phase s q) v \<Longrightarrow> phase_asks (px_phase s' q) v"
  shows "num_inv i s'"
  using assms(1,3,4) unfolding num_inv_def px_same_net(2) [OF assms(2)] by auto

lemma setn_simps [simp]: "prop_m (my_n (setn h p)) = prop_m (my_n p)" "pro_stable (setn h p) = pro_stable p"
  by (simp_all add: setn_def)

lemma px_inv_start:
  assumes "px_inv i ns s" "px_start ns p newv s = Some s'" "start_ok p newv s"
  shows "px_inv i ns s'"
proof -
  let ?q = "setn (n_h (px_accs s p)) ((px_pros s p)\<lparr>pro_stable := False\<rparr>)"
  have s': "s' = s\<lparr>px_pros := (px_pros s)(p := ?q),
      px_phase := (px_phase s)(p := Preparing ns prep_start newv)\<rparr>"
    and newv: "newv \<noteq> []" and less: "prop_n (my_n (px_pros s p)) < prop_n (my_n ?q)"
    using assms(2,3) by (auto simp: px_start_def start_ok_def px_enter_def Let_def split: if_splits)
  have "prop_n (my_n ?q) \<noteq> 0" using less by auto
  then have "phase_inv i ns s (my_n ?q) (Preparing ns prep_start newv)"
    using newv by (simp add: prep_start_def)
  then have ph: "phase_inv i ns s (my_n (px_pros s' q)) (px_phase s' q)" for q
    using px_invD(3) [OF assms(1)] by (simp add: s')
  have "px_asked i s' = px_asked i s" using s' by (intro px_same_net) simp
  then have "num_inv i s'"
    using px_invD(5) [OF assms(1)] less unfolding num_inv_def by (fastforce simp: s')
  with ph show ?thesis
    using px_invD(4) [OF assms(1)] by (intro px_inv_local [OF assms(1)]) (auto simp: s')
qed

lemma px_inv_next_prepare:
  assumes "px_inv i ns s" "px_phase s p = Preparing todo (accepts, mn, mv) newv" "majority ns accepts"
  defines "v \<equiv> prepare_value newv (accepts, mn, mv)"
  shows "v \<noteq> []" "px_safe i ns s (my_n (px_pros s p)) v"
proof -
  let ?b = "my_n (px_pros s p)"
  have inv: "newv \<noteq> []" "\<And>x. x \<in> set accepts \<Longrightarrow> \<exists>r. px_promise i s x ?b r \<and> pr_n_a r \<le> mn"
    "if prop_n mn = 0 then mv = [] else \<exists>x. px_voted i s x mn mv"
    using px_invD(3) [OF assms(1), of p] assms(2) by auto
  have "accepts \<noteq> []" using maj.quorums_intersect [OF assms(3,3)] by auto
  then have v: "v = (if mv = [] then newv else mv)" by (simp add: v_def prepare_value_def)
  with inv(1) show "v \<noteq> []" by simp
  have below: "c \<le> mn" if x: "x \<in> set accepts" "px_voted i s x c w" "c < ?b" for x c w
    using inv(2) [OF x(1)] promise_inv(2) [OF assms(1) _ x(2,3)] by (meson order_trans)
  have prom: "px_promised i s x ?b" if "x \<in> set accepts" for x
    using inv(2) [OF that] by (auto simp: px_promised_def)
  have num: "prop_n c \<noteq> 0" if "px_voted i s x c w" for x c w
    using asked_inv(2) [OF assms(1) voted_asked [OF assms(1) that]] .
  show "px_safe i ns s ?b v"
  proof (cases "prop_n mn = 0")
    case True
    have none: "\<not> px_voted i s x c w" if "c \<le> mn" for x c w
      using num [of x c w] that True prop_less_n [of c mn] by (auto simp: le_less word_le_0_iff)
    show ?thesis
      unfolding safe_at_def using assms(3) below none prom by blast
  next
    case False
    then obtain y where y: "px_voted i s y mn mv" using inv(3) by auto
    note asked = voted_asked [OF assms(1) y]
    have "v = mv" using v asked_inv(1) [OF assms(1) asked] by simp
    then show ?thesis
    proof (intro maj.safe_at_quorum [OF assms(3), where m = mn])
      show "\<exists>R. majority ns R \<and> (\<forall>x \<in> set R. (\<forall>w. px_voted i s x c w \<longrightarrow> w = v) \<and>
          (\<exists>d > c. px_promised i s x d))" if "c < mn" for c
        using asked_inv(3) [OF assms(1) asked] that \<open>v = mv\<close> unfolding safe_at_def by blast
      show "w = v" if "px_voted i s x mn w" for x w
        using asked_unique [OF assms(1) voted_asked [OF assms(1) that] asked] \<open>v = mv\<close> by simp
    qed (use prom below in auto)
  qed
qed

lemma px_finish_simps [simp]:
  "px_net (px_finish p s) = px_net s" "px_accs (px_finish p s) = px_accs s"
  "my_n (px_pros (px_finish p s) q) = my_n (px_pros s q)"
  "px_phase (px_finish p s) = (px_phase s)(p := Idle)"
  "pro_stable (px_pros (px_finish p s) q) \<longleftrightarrow> q = p \<or> pro_stable (px_pros s q)"
  by (auto simp: px_finish_def)

lemma px_enter_simps [simp]:
  "px_net (px_enter p ph s) = px_net s" "px_accs (px_enter p ph s) = px_accs s"
  "px_pros (px_enter p ph s) = px_pros s" "px_phase (px_enter p ph s) = (px_phase s)(p := ph)"
  by (auto simp: px_enter_def)

lemma px_set_acc_simps [simp]:
  "px_net (px_set_acc x a s) = px_net s" "px_accs (px_set_acc x a s) = (px_accs s)(x := a)"
  "px_pros (px_set_acc x a s) = px_pros s" "px_phase (px_set_acc x a s) = px_phase s"
  by (auto simp: px_set_acc_def)

lemma px_send_simps [simp]:
  "px_net (px_send m s) = px_net s @ [m]" "px_accs (px_send m s) = px_accs s"
  "px_pros (px_send m s) = px_pros s" "px_phase (px_send m s) = px_phase s"
  by (auto simp: px_send_def)

lemma px_inv_finish:
  assumes "px_inv i ns s"
  shows "px_inv i ns (px_finish p s)"
proof (rule px_inv_local [OF assms])
  show "num_inv i (px_finish p s)"
    by (rule num_inv_phase [OF px_invD(5) [OF assms]]) auto
qed (use px_invD(3,4) [OF assms] in auto)

lemma px_inv_enter:
  assumes "px_inv i ns s" "px_phase s p \<noteq> Idle"
    and "phase_inv i ns s (my_n (px_pros s p)) ph"
    and "\<And>v. phase_asks (px_phase s p) v \<Longrightarrow> phase_asks ph v"
  shows "px_inv i ns (px_enter p ph s)"
proof (rule px_inv_local [OF assms(1)])
  show "num_inv i (px_enter p ph s)"
    using assms(4) by (intro num_inv_phase [OF px_invD(5) [OF assms(1)]]) auto
qed (use px_invD(3,4) [OF assms(1)] assms(2,3) in \<open>auto split: if_splits\<close>)

lemma px_inv_next:
  assumes "px_inv i ns s" "px_next ns p s = Some s'"
  shows "px_inv i ns s'"
proof (cases "px_phase s p")
  case (Preparing todo st newv)
  obtain accepts mn mv where st: "st = (accepts, mn, mv)" by (cases st)
  note ph = px_invD(3) [OF assms(1), of p, unfolded Preparing st]
  let ?v = "prepare_value newv (accepts, mn, mv)"
  have s': "s' = (if majority ns accepts then px_enter p (Accepting accepts [] ?v) s else px_finish p s)"
    using assms(2) by (auto simp: px_next_def Preparing st split: list.splits)
  show ?thesis
  proof (cases "majority ns accepts")
    case True
    have "phase_inv i ns s (my_n (px_pros s p)) (Accepting accepts [] ?v)"
      using ph px_inv_next_prepare [OF assms(1) Preparing [unfolded st] True]
      by (auto simp: px_promised_def)
    with True show ?thesis
      using s' by (auto simp: Preparing intro!: px_inv_enter [OF assms(1)])
  next
    case False
    with s' show ?thesis by (simp add: px_inv_finish [OF assms(1)])
  qed
next
  case (Accepting todo accepts v)
  note ph = px_invD(3) [OF assms(1), of p, unfolded Accepting]
  have s': "s' = (if majority ns accepts then px_enter p (Deciding accepts v) s else px_finish p s)"
    using assms(2) by (auto simp: px_next_def Accepting split: list.splits)
  have "majority ns accepts \<Longrightarrow> phase_inv i ns s (my_n (px_pros s p)) (Deciding accepts v)"
    using ph by (auto simp: chosen_def)
  with s' show ?thesis
    by (auto simp: Accepting px_inv_finish [OF assms(1)] intro!: px_inv_enter [OF assms(1)])
next
  case (Deciding todo v)
  then show ?thesis
    using assms(2) px_inv_finish [OF assms(1)] by (auto simp: px_next_def split: list.splits)
next
  case Idle
  then show ?thesis using assms(2) by (simp add: px_next_def)
qed

lemma px_inv_reply_accept:
  assumes "px_inv i ns s" "px_reply_accept i p resp s = Some s'"
  shows "px_inv i ns s'"
proof -
  obtain x xs accepts v where p: "px_phase s p = Accepting (x # xs) accepts v"
    and s': "s' = px_enter p (Accepting xs (accept_body x resp accepts) v) s"
    and resp: "\<And>ret r. resp = Some (ret, r) \<Longrightarrow>
      Accept_rep x \<lparr>aa_instance = i, aa_n = my_n (px_pros s p), aa_v = v\<rparr> ret r \<in> set (px_net s)"
    using assms(2)
    by (auto simp: px_reply_accept_def split: px_phase.splits list.splits if_splits option.splits)
  have "phase_inv i ns s (my_n (px_pros s p)) (Accepting xs (accept_body x resp accepts) v)"
    using px_invD(3) [OF assms(1), of p, unfolded p] resp
    by (auto simp: accept_body_def px_voted_def split: option.splits if_splits)
  then show ?thesis
    unfolding s' by (intro px_inv_enter [OF assms(1)]) (simp_all add: p)
qed

lemma prepare_body_promise:
  assumes "px_inv i ns s" "phase_inv i ns s b (Preparing (x # xs) st newv)"
    "prepare_body x resp st = Inr st'"
    and "\<And>ret r. resp = Some (ret, r) \<Longrightarrow>
      Prepare_rep x \<lparr>pa_instance = i, pa_n = b\<rparr> ret r \<in> set (px_net s)"
  shows "phase_inv i ns s b (Preparing xs st' newv)"
proof -
  obtain accepts mn mv where st: "st = (accepts, mn, mv)" by (cases st)
  note ph = assms(2) [unfolded st]
  show ?thesis
  proof (cases "st' = st")
    case True
    with ph st show ?thesis by simp
  next
    case False
    then obtain r where r: "px_promise i s x b r"
      "st' = (accepts @ [x], if mn < pr_n_a r then (pr_n_a r, pr_v_a r) else (mn, mv))"
      using assms(3,4) st
      by (auto simp: prepare_body_def px_promise_def split: option.splits if_splits)
    note inv = promise_inv(3) [OF assms(1) r(1)]
    show ?thesis
    proof (cases "mn < pr_n_a r")
      case True
      have "\<forall>y \<in> set accepts. \<exists>q. px_promise i s y b q \<and> pr_n_a q \<le> pr_n_a r"
        using ph True by (meson order_trans less_imp_le phase_inv.simps(2))
      with True ph r inv show ?thesis by (auto split: if_splits)
    next
      case False
      with ph r show ?thesis by (auto simp: not_less)
    qed
  qed
qed

lemma px_inv_set_acc:
  assumes "px_inv i ns s" "acc_inv i ns s x a"
  shows "px_inv i ns (px_set_acc x a s)"
proof -
  let ?s = "px_set_acc x a s"
  have net: "px_net ?s = px_net s" by simp
  note same = px_same_net [OF net]
  have ext: "px_ext i ns s ?s" using same by (intro px_ext_same_votes) simp_all
  have "acc_inv i ns ?s y (px_accs ?s y)" for y
    using acc_inv_ext [OF ext, of y] px_invD(1) [OF assms(1), of y] assms(2) same by auto
  moreover have "msg_inv i ns ?s m" if "m \<in> set (px_net ?s)" for m
    using msg_inv_ext [OF ext px_invD(2) [OF assms(1)]] that same net by simp
  moreover have "phase_inv i ns ?s (my_n (px_pros ?s p)) (px_phase ?s p)" for p
    using phase_inv_ext [OF ext px_invD(3) [OF assms(1)]] by simp
  moreover have "num_inv i ?s"
    by (rule num_inv_phase [OF px_invD(5) [OF assms(1)]]) simp_all
  ultimately show ?thesis using px_invD(4) [OF assms(1)] by (simp add: px_inv_def)
qed

text \<open>Sending a message that is neither a vote nor a promise.\<close>

lemma px_inv_send:
  assumes "px_inv i ns s" "msg_inv i ns s m"
    and "\<And>x b v. px_voted i (px_send m s) x b v \<Longrightarrow> px_voted i s x b v"
    and "\<And>x b r. px_promise i (px_send m s) x b r \<Longrightarrow> px_promise i s x b r"
    and "num_inv i (px_send m s)"
  shows "px_inv i ns (px_send m s)"
proof -
  let ?s = "px_send m s"
  have ext: "px_ext i ns s ?s" using assms(3) by (intro px_ext_same_votes) simp_all
  have "acc_inv i ns ?s x (px_accs ?s x)" for x
    using acc_inv_ext [OF ext px_invD(1) [OF assms(1)] assms(3,4)] by simp
  moreover have "msg_inv i ns ?s m'" if "m' \<in> set (px_net ?s)" for m'
  proof -
    have "msg_inv i ns s m'" using that assms(2) px_invD(2) [OF assms(1)] by auto
    then show ?thesis by (rule msg_inv_ext [OF ext]) (use assms(3) in auto)
  qed
  moreover have "phase_inv i ns ?s (my_n (px_pros ?s p)) (px_phase ?s p)" for p
    using phase_inv_ext [OF ext px_invD(3) [OF assms(1)]] by simp
  ultimately show ?thesis using px_invD(4) [OF assms(1)] assms(5) by (simp add: px_inv_def)
qed

lemma num_inv_send:
  assumes "num_inv i s" "\<And>x b v. px_asked i (px_send m s) x b v \<Longrightarrow> px_asked i s x b v"
  shows "num_inv i (px_send m s)"
  using assms unfolding num_inv_def px_send_simps by blast

lemmas px_read_defs = px_voted_def px_promise_def px_asked_def

lemma px_inv_call:
  assumes "px_inv i ns s" "px_call i p s = Some s'"
  shows "px_inv i ns s'"
proof -
  let ?b = "my_n (px_pros s p)"
  note num = px_invD(5) [OF assms(1)]
  show ?thesis
  proof (cases "px_phase s p")
    case (Preparing todo st newv)
    then obtain x where s': "s' = px_send (Prepare_msg x \<lparr>pa_instance = i, pa_n = ?b\<rparr>) s"
      using assms(2) by (auto simp: px_call_def split: list.splits)
    have "prop_n ?b \<noteq> 0"
      using px_invD(3) [OF assms(1), of p, unfolded Preparing] by (cases st) simp
    then show ?thesis
      unfolding s' by (intro px_inv_send [OF assms(1)] num_inv_send [OF num]) (auto simp: px_read_defs)
  next
    case (Deciding todo v)
    then obtain x xs where todo: "todo = x # xs"
      and s': "s' = px_enter p (Deciding xs v) (px_send (Decide_msg x \<lparr>da_instance = i, da_v = v\<rparr>) s)"
      using assms(2) by (auto simp: px_call_def split: list.splits)
    let ?s = "px_send (Decide_msg x \<lparr>da_instance = i, da_v = v\<rparr>) s"
    have ph: "phase_inv i ns s ?b (Deciding (x # xs) v)"
      using px_invD(3) [OF assms(1), of p] Deciding todo by simp
    then have inv: "px_inv i ns ?s"
      by (intro px_inv_send [OF assms(1)] num_inv_send [OF num]) (auto simp: px_read_defs)
    show ?thesis
      unfolding s' using px_invD(3) [OF inv, of p] Deciding todo
      by (intro px_inv_enter [OF inv]) auto
  next
    case (Accepting todo accepts v)
    then obtain x xs where todo: "todo = x # xs"
      and s': "s' = px_send (Accept_msg x \<lparr>aa_instance = i, aa_n = ?b, aa_v = v\<rparr>) s"
      using assms(2) by (auto simp: px_call_def split: list.splits)
    have asked: "px_asked i s' y c w \<longleftrightarrow> px_asked i s y c w \<or> y = x \<and> c = ?b \<and> w = v" for y c w
      by (auto simp: s' px_asked_def)
    have me: "prop_m ?b = p" using num by (simp add: num_inv_def)
    have only: "w = v" if "px_asked i s y ?b w" for y w
      using num that Accepting me unfolding num_inv_def by fastforce
    have "num_inv i s'"
      using num only me Accepting unfolding num_inv_def asked by (auto simp: s')
    moreover have "msg_inv i ns s (Accept_msg x \<lparr>aa_instance = i, aa_n = ?b, aa_v = v\<rparr>)"
      using px_invD(3) [OF assms(1), of p] Accepting todo by simp
    ultimately show ?thesis
      unfolding s' by (intro px_inv_send [OF assms(1)]) (auto simp: px_read_defs)
  next
    case Idle
    then show ?thesis using assms(2) by (simp add: px_call_def)
  qed
qed

lemma commit_wo_inv:
  assumes "acc_inv i ns s x a" "px_decided i ns s v"
  shows "acc_inv i ns s x (fst (commit_wo i v a))"
proof (cases "instance_h a < i")
  case True
  with assms(2) show ?thesis
    by (simp add: commit_wo_def Let_def loginstance_def acc_inv_def value_at_def)
next
  case False
  with assms(1) show ?thesis by (simp add: commit_wo_def)
qed

lemma px_inv_reply_prepare:
  assumes "px_inv i ns s" "px_reply_prepare i p resp s = Some s'"
  shows "px_inv i ns s'"
proof -
  let ?b = "my_n (px_pros s p)"
  obtain x xs st newv where p: "px_phase s p = Preparing (x # xs) st newv"
    and resp: "\<And>ret r. resp = Some (ret, r) \<Longrightarrow>
      Prepare_rep x \<lparr>pa_instance = i, pa_n = ?b\<rparr> ret r \<in> set (px_net s)"
    and s': "s' = (case prepare_body x resp st of
        Inl v \<Rightarrow> px_finish p (px_set_acc p (fst (acceptor_commit i v (px_accs s p))) s)
      | Inr st \<Rightarrow> px_enter p (Preparing xs st newv) s)"
    using assms(2) by (auto simp: px_reply_prepare_def
        split: px_phase.splits list.splits if_splits option.splits sum.splits)
  show ?thesis
  proof (cases "prepare_body x resp st")
    case (Inl v)
    then obtain ret r where "resp = Some (ret, r)" "pr_oldinstance r" "v = pr_v_a r"
      by (auto simp: prepare_body_def split: option.splits prod.splits if_splits)
    then have "px_decided i ns s v"
      using px_invD(2) [OF assms(1) resp] by simp
    then have "px_inv i ns (px_set_acc p (fst (acceptor_commit i v (px_accs s p))) s)"
      unfolding acceptor_commit_def
      by (intro px_inv_set_acc [OF assms(1)] commit_wo_inv px_invD(1) [OF assms(1)])
    then show ?thesis using Inl s' px_inv_finish by simp
  next
    case (Inr st')
    then show ?thesis
      using prepare_body_promise [OF assms(1) px_invD(3) [OF assms(1), of p, unfolded p] Inr resp] s'
      by (auto simp: p intro!: px_inv_enter [OF assms(1)])
  qed
qed

text \<open>A handler: one acceptor changes and its reply is sent.\<close>

lemma px_inv_handle:
  assumes "px_inv i ns s" "px_ext i ns s s'"
    and s': "s' = px_set_acc x a (px_send m s)"
    and "acc_inv i ns s' x a" "msg_inv i ns s' m"
    and "\<And>y b v. y \<noteq> x \<Longrightarrow> px_voted i s' y b v \<Longrightarrow> px_voted i s y b v"
    and "\<And>y b r. y \<noteq> x \<Longrightarrow> px_promise i s' y b r \<Longrightarrow> px_promise i s y b r"
    and "\<And>m'. m' \<in> set (px_net s) \<Longrightarrow> msg_inv i ns s' m'"
    and "\<And>y b v. px_asked i s' y b v \<Longrightarrow> px_asked i s y b v"
  shows "px_inv i ns s'"
proof -
  have "acc_inv i ns s' y (px_accs s' y)" for y
    using acc_inv_ext [OF assms(2) px_invD(1) [OF assms(1), of y] assms(6,7)] assms(4)
    by (cases "y = x") (simp_all add: s')
  moreover have "msg_inv i ns s' m'" if "m' \<in> set (px_net s')" for m'
    using that assms(5,8) by (auto simp: s')
  moreover have "phase_inv i ns s' (my_n (px_pros s' p)) (px_phase s' p)" for p
    using phase_inv_ext [OF assms(2) px_invD(3) [OF assms(1)]] by (simp add: s')
  moreover have "num_inv i s'"
    using px_invD(5) [OF assms(1)] assms(9) unfolding num_inv_def s' px_set_acc_simps px_send_simps
    by blast
  ultimately show ?thesis using px_invD(4) [OF assms(1)] by (simp add: px_inv_def s')
qed

lemma live_acceptor:
  assumes "px_inv i ns s" "instance_h (px_accs s x) \<noteq> i"
  shows "instance_h (px_accs s x) = i - 1"
    and "px_promise i s x b r \<Longrightarrow> b \<le> n_h (px_accs s x)"
    and "px_voted i s x b v \<Longrightarrow> b \<le> n_h (px_accs s x)"
    and "if prop_n (n_a (px_accs s x)) = 0 then v_a (px_accs s x) = []
      else px_voted i s x (n_a (px_accs s x)) (v_a (px_accs s x))"
    and "px_voted i s x b v \<Longrightarrow> b \<le> n_a (px_accs s x)"
proof -
  note acc = px_invD(1) [OF assms(1), of x, unfolded acc_inv_def if_not_P [OF assms(2)]]
  show "instance_h (px_accs s x) = i - 1" using acc by blast
  show p: "b \<le> n_h (px_accs s x)" if "px_promise i s x b r" for b r using acc that by blast
  show "b \<le> n_h (px_accs s x)" if "px_voted i s x b v"
    using asked_inv(4) [OF assms(1) voted_asked [OF assms(1) that]] p by (auto simp: px_promised_def)
  show "if prop_n (n_a (px_accs s x)) = 0 then v_a (px_accs s x) = []
      else px_voted i s x (n_a (px_accs s x)) (v_a (px_accs s x))" using acc by blast
  show "px_voted i s x b v \<Longrightarrow> b \<le> n_a (px_accs s x)" using acc by blast
qed

lemma px_inv_promise:
  assumes "px_inv i ns s" "instance_h (px_accs s x) \<noteq> i" "n_h (px_accs s x) < b" "prop_n b \<noteq> 0"
    and r: "\<not> pr_oldinstance r" "pr_accept r" "pr_n_a r = n_a (px_accs s x)" "pr_v_a r = v_a (px_accs s x)"
    and a: "instance_h a = instance_h (px_accs s x)" "n_h a = b" "n_a a = n_a (px_accs s x)"
      "v_a a = v_a (px_accs s x)"
    and s': "s' = px_set_acc x a (px_send (Prepare_rep x \<lparr>pa_instance = i, pa_n = b\<rparr> paxos_OK r) s)"
  shows "px_inv i ns s'"
proof -
  note live = live_acceptor [OF assms(1,2)]
  have votes: "px_voted i s' = px_voted i s" by (auto simp: fun_eq_iff px_voted_def s')
  have asks: "px_asked i s' = px_asked i s" by (auto simp: fun_eq_iff px_asked_def s')
  have proms: "px_promise i s' y c q \<longleftrightarrow> px_promise i s y c q \<or> y = x \<and> c = b \<and> q = r" for y c q
    using r by (auto simp: px_promise_def s')
  have ext: "px_ext i ns s s'" using votes by (intro px_ext_same_votes) (auto simp: s')
  have na: "n_a (px_accs s x) < b" if "px_voted i s x (n_a (px_accs s x)) v" for v
    using live(3) [OF that] assms(3) by (rule le_less_trans)
  show ?thesis
  proof (rule px_inv_handle [OF assms(1) ext s'])
    have "c \<le> b" if "px_promise i s' x c q" for c q
      using that live(2) [of c q] assms(3) by (auto simp: proms)
    then show "acc_inv i ns s' x a"
      using live(1,4,5) assms(2) by (auto simp: acc_inv_def a votes)
    show "msg_inv i ns s' (Prepare_rep x \<lparr>pa_instance = i, pa_n = b\<rparr> paxos_OK r)"
      using live(4,5) assms(4) na by (auto simp: r votes split: if_splits)
    show "msg_inv i ns s' m" if "m \<in> set (px_net s)" for m
      by (rule msg_inv_ext [OF ext px_invD(2) [OF assms(1) that]]) (simp_all add: votes, auto simp: s')
  qed (auto simp: votes asks proms)
qed

lemma px_inv_vote:
  assumes "px_inv i ns s" "instance_h (px_accs s x) \<noteq> i" "n_h (px_accs s x) \<le> b"
    and asked: "px_asked i s x b v"
    and a: "instance_h a = instance_h (px_accs s x)" "n_h a = n_h (px_accs s x)" "n_a a = b" "v_a a = v"
    and s': "s' = px_set_acc x a
      (px_send (Accept_rep x \<lparr>aa_instance = i, aa_n = b, aa_v = v\<rparr> paxos_OK True) s)"
  shows "px_inv i ns s'"
proof -
  note live = live_acceptor [OF assms(1,2)]
  have votes: "px_voted i s' y c w \<longleftrightarrow> px_voted i s y c w \<or> y = x \<and> c = b \<and> w = v" for y c w
    by (auto simp: px_voted_def s')
  have asks: "px_asked i s' = px_asked i s" by (auto simp: fun_eq_iff px_asked_def s')
  have proms: "px_promise i s' = px_promise i s" by (auto simp: fun_eq_iff px_promise_def s')
  then have promd: "px_promised i s' = px_promised i s" by (simp add: fun_eq_iff px_promised_def)
  have kept: "d \<le> b" if "px_promised i s x d" for d
    using that live(2) assms(3) by (auto simp: px_promised_def intro: order_trans)
  have "px_safe i ns s' c w" if "px_safe i ns s c w" for c w
    by (rule safe_at_mono [OF that]) (use kept in \<open>auto simp: promd votes dest: leD\<close>)
  then have ext: "px_ext i ns s s'" by (simp add: px_ext_def votes proms)
  have sub: "set (px_net s) \<subseteq> set (px_net s')" by (auto simp: s')
  show ?thesis
  proof (rule px_inv_handle [OF assms(1) ext s'])
    have "c \<le> b" if "px_voted i s' x c w" for c w
      using that live(3) [of c w] assms(3) by (auto simp: votes)
    then show "acc_inv i ns s' x a"
      using live(1,2) assms(2) asked_inv(2) [OF assms(1) asked]
      by (auto simp: acc_inv_def a proms votes)
    show "msg_inv i ns s' (Accept_rep x \<lparr>aa_instance = i, aa_n = b, aa_v = v\<rparr> paxos_OK True)"
      using asked sub by (auto simp: px_asked_def)
    show "msg_inv i ns s' m" if "m \<in> set (px_net s)" for m
    proof (cases m)
      case (Prepare_rep y arg ret r)
      have "arg = \<lparr>pa_instance = i, pa_n = pa_n arg\<rparr>" and "ret = paxos_OK"
        using px_invD(2) [OF assms(1) that] Prepare_rep by (cases arg; simp)+
      then have "pa_n arg \<le> b" if "y = x" "\<not> pr_oldinstance r" "pr_accept r"
        using that kept [of "pa_n arg"] \<open>m \<in> set (px_net s)\<close> Prepare_rep
        unfolding px_promised_def px_promise_def by metis
      then show ?thesis
        using px_invD(2) [OF assms(1) that] Prepare_rep px_extD(6) [OF ext]
        by (auto simp: votes split: if_splits)
    next
      case (Decide_msg y arg)
      then show ?thesis
        using px_invD(2) [OF assms(1) that] px_extD(1,5) [OF ext] by (simp only: msg_inv.simps) blast
    next
      case (Accept_msg y arg)
      then show ?thesis
        using px_invD(2) [OF assms(1) that] px_extD(3,4) [OF ext] by auto
    qed (use px_invD(2) [OF assms(1) that] sub in auto)
  qed (auto simp: votes asks proms)
qed

lemma preparearg_eta: "pa_instance arg = i \<Longrightarrow> arg = \<lparr>pa_instance = i, pa_n = pa_n arg\<rparr>"
  by (cases arg) simp

lemma acceptarg_eta: "aa_instance arg = i \<Longrightarrow> arg = \<lparr>aa_instance = i, aa_n = aa_n arg, aa_v = aa_v arg\<rparr>"
  by (cases arg) simp

lemma instance_pred: "(j :: u32) + 1 = i \<Longrightarrow> j = i - 1 \<and> j \<noteq> i"
  by auto

lemma not_le_pred: "(i :: u32) \<noteq> 0 \<Longrightarrow> \<not> i \<le> i - 1"
  using unat_minus_one [of i] unat_gt_0 [of i] by (simp add: word_le_nat_alt)

lemma px_inv_deliver_prepare:
  assumes "px_inv i ns s" "i \<noteq> 0" "px_deliver_prepare x arg r s = Some s'"
  shows "px_inv i ns s'"
proof -
  let ?a = "px_accs s x" and ?b = "pa_n arg"
  have msg: "Prepare_msg x arg \<in> set (px_net s)"
    using assms(3) by (auto simp: px_deliver_prepare_def split: if_splits)
  have i: "pa_instance arg = i" and b: "prop_n ?b \<noteq> 0"
    using px_invD(2) [OF assms(1) msg] by auto
  note eta = preparearg_eta [OF i]
  show ?thesis
  proof (cases "instance_h ?a = i")
    case True
    let ?r = "r\<lparr>pr_oldinstance := True, pr_accept := False, pr_v_a := value_at i ?a\<rparr>"
    let ?a' = "?a\<lparr>acc_values := (acc_values ?a)(i \<mapsto> value_at i ?a)\<rparr>"
    have s': "s' = px_set_acc x ?a' (px_send (Prepare_rep x arg paxos_OK ?r) s)"
      using assms(3) msg True i by (simp add: px_deliver_prepare_def preparereq_def acceptor_value_def)
    have dec: "px_decided i ns s (value_at i ?a)"
      using px_invD(1) [OF assms(1), of x] True by (simp add: acc_inv_def)
    have "px_inv i ns (px_send (Prepare_rep x arg paxos_OK ?r) s)"
      using dec i by (intro px_inv_send [OF assms(1)] num_inv_send [OF px_invD(5) [OF assms(1)]])
        (auto simp: px_read_defs)
    then show ?thesis
      unfolding s' using px_invD(1) [of i ns _ x] True
      by (intro px_inv_set_acc) (fastforce simp: acc_inv_def value_at_def)+
  next
    case False
    then have new: "\<not> i \<le> instance_h ?a"
      using live_acceptor(1) [OF assms(1)] not_le_pred [OF assms(2)] by simp
    show ?thesis
    proof (cases "n_h ?a < ?b")
      case True
      let ?r = "r\<lparr>pr_accept := True, pr_oldinstance := False, pr_n_a := n_a ?a, pr_v_a := v_a ?a\<rparr>"
      have "s' = px_set_acc x (logprop ?b (?a\<lparr>n_h := ?b\<rparr>))
          (px_send (Prepare_rep x \<lparr>pa_instance = i, pa_n = ?b\<rparr> paxos_OK ?r) s)"
        using assms(3) msg new i True
        by (simp add: px_deliver_prepare_def preparereq_def eta [symmetric])
      then show ?thesis
        by (rule px_inv_promise [OF assms(1) False True b, rotated 8]) (simp_all add: logprop_def)
    next
      case reject: False
      let ?s = "px_send (Prepare_rep x arg paxos_OK (r\<lparr>pr_accept := False, pr_oldinstance := False\<rparr>)) s"
      have "s' = ?s"
        using assms(3) msg new reject i
        by (simp add: px_deliver_prepare_def preparereq_def px_set_acc_def px_send_def)
      moreover have "px_inv i ns ?s"
        using i by (intro px_inv_send [OF assms(1)] num_inv_send [OF px_invD(5) [OF assms(1)]])
          (auto simp: px_read_defs)
      ultimately show ?thesis by simp
    qed
  qed
qed

lemma px_inv_deliver_accept:
  assumes "px_inv i ns s" "px_deliver_accept True x arg s = Some s'"
  shows "px_inv i ns s'"
proof -
  let ?a = "px_accs s x" and ?b = "aa_n arg"
  have msg: "Accept_msg x arg \<in> set (px_net s)" and live: "instance_h ?a + 1 = aa_instance arg"
    using assms(2) by (auto simp: px_deliver_accept_def split: if_splits)
  have i: "aa_instance arg = i" using px_invD(2) [OF assms(1) msg] by auto
  have "instance_h ?a \<noteq> i" using instance_pred [OF live] i by simp
  note eta = acceptarg_eta [OF i]
  have asked: "px_asked i s x ?b (aa_v arg)" using msg by (simp add: px_asked_def eta [symmetric])
  show ?thesis
  proof (cases "n_h ?a \<le> ?b")
    case True
    have "s' = px_set_acc x (logaccept ?b (aa_v arg) (?a\<lparr>n_a := ?b, v_a := aa_v arg\<rparr>))
        (px_send (Accept_rep x \<lparr>aa_instance = i, aa_n = ?b, aa_v = aa_v arg\<rparr> paxos_OK True) s)"
      using assms(2) msg live True
      by (simp add: px_deliver_accept_def acceptreq_def eta [symmetric])
    then show ?thesis
      by (rule px_inv_vote [OF assms(1) \<open>instance_h ?a \<noteq> i\<close> True asked, rotated 4])
        (simp_all add: logaccept_def)
  next
    case False
    let ?s = "px_send (Accept_rep x arg paxos_ERR False) s"
    have "s' = ?s"
      using assms(2) msg live False
      by (simp add: px_deliver_accept_def acceptreq_def px_set_acc_def px_send_def)
    moreover have "px_inv i ns ?s"
      using i msg by (intro px_inv_send [OF assms(1)] num_inv_send [OF px_invD(5) [OF assms(1)]])
        (auto simp: px_read_defs)
    ultimately show ?thesis by simp
  qed
qed

text \<open>A decision reaches only nodes that hold the decided value: \<open>decidereq\<close> does not fault.\<close>

lemma decidereq_ok:
  assumes "px_inv i ns s" "i \<noteq> 0" "Decide_msg x arg \<in> set (px_net s)"
  shows "\<exists>a us. decidereq arg (px_accs s x) = Inr (paxos_OK, a, us) \<and> acc_inv i ns s x a"
proof -
  let ?a = "px_accs s x"
  obtain b where dec: "da_instance arg = i" "px_chosen i ns s b (da_v arg)" "px_voted i s x b (da_v arg)"
    using px_invD(2) [OF assms(1,3)] by auto
  show ?thesis
  proof (cases "instance_h ?a = i")
    case True
    then show ?thesis
      using px_invD(1) [OF assms(1), of x] dec(1) by (simp add: decidereq_def)
  next
    case False
    note live = live_acceptor [OF assms(1) False]
    have "prop_n b \<noteq> 0" "b \<le> n_a ?a"
      using asked_inv(2) [OF assms(1) voted_asked [OF assms(1) dec(3)]] live(5) [OF dec(3)] by auto
    then have "prop_n (n_a ?a) \<noteq> 0" using prop_less_n [of b "n_a ?a"] by (auto simp: le_less)
    then have va: "px_voted i s x (n_a ?a) (v_a ?a)" using live(4) by simp
    have "v_a ?a = da_v arg"
    proof (cases "b = n_a ?a")
      case True
      then show ?thesis
        using asked_unique [OF assms(1) voted_asked [OF assms(1) va]] voted_asked [OF assms(1) dec(3)]
        by simp
    next
      case False
      with \<open>b \<le> n_a ?a\<close> have "b < n_a ?a" by simp
      then show ?thesis
        using maj.chosen_below [OF dec(2) asked_inv(3) [OF assms(1) voted_asked [OF assms(1) va]]] by simp
    qed
    moreover have "instance_h ?a + 1 = i" using live(1) by simp
    moreover have "px_decided i ns s (da_v arg)" using dec(2) unfolding px_decided_def by blast
    then have "acc_inv i ns s x (fst (commit_wo i (da_v arg) ?a))"
      by (rule commit_wo_inv [OF px_invD(1) [OF assms(1), of x]])
    ultimately show ?thesis
      using dec(1) by (cases "commit_wo i (da_v arg) ?a") (simp add: decidereq_def)
  qed
qed

lemma px_inv_deliver_decide:
  assumes "px_inv i ns s" "i \<noteq> 0" "px_deliver_decide x arg s = Some s'"
  shows "px_inv i ns s'"
proof -
  have msg: "Decide_msg x arg \<in> set (px_net s)"
    using assms(3) by (auto simp: px_deliver_decide_def split: if_splits)
  from decidereq_ok [OF assms(1,2) msg] obtain a us
    where "decidereq arg (px_accs s x) = Inr (paxos_OK, a, us)" "acc_inv i ns s x a" by blast
  then show ?thesis
    using assms(3) msg px_inv_set_acc [OF assms(1), of x a] by (simp add: px_deliver_decide_def)
qed

lemma px_inv_step:
  assumes "px_inv i ns s" "i \<noteq> 0" "px_step True i ns a s = Some s'"
  shows "px_inv i ns s'"
  using assms
  by (cases a) (auto intro: px_inv_start px_inv_call px_inv_reply_prepare px_inv_reply_accept
      px_inv_next px_inv_deliver_prepare px_inv_deliver_accept px_inv_deliver_decide split: if_splits)

lemma px_reach_inv: "px_reach True i ns s \<Longrightarrow> i \<noteq> 0 \<Longrightarrow> px_inv i ns s"
  by (induction rule: px_reach.induct) (auto intro: px_inv_initial px_inv_step)

section \<open>Concrete runs\<close>

definition px_fresh :: px_sys where
  "px_fresh = \<lparr>px_accs = (\<lambda>x. acceptor_init True x []), px_pros = proposer_new,
     px_phase = (\<lambda>_. Idle), px_net = []\<rparr>"

definition round1_promise :: "string \<Rightarrow> prepareres" where
  "round1_promise x = \<lparr>pr_oldinstance = False, pr_accept = True, pr_n_a = prop_t 0 x, pr_v_a = []\<rparr>"

definition round1_accept :: "string \<Rightarrow> string \<Rightarrow> acceptarg" where
  "round1_accept p v = \<lparr>aa_instance = 1, aa_n = prop_t 1 p, aa_v = v\<rparr>"

definition ask_prepare :: "string \<Rightarrow> string \<Rightarrow> px_act list" where
  "ask_prepare p x = [Call p,
     Deliver_prepare x \<lparr>pa_instance = 1, pa_n = prop_t 1 p\<rparr> (round1_promise x),
     Reply_prepare p (Some (0, round1_promise x))]"

definition ask_accept :: "string \<Rightarrow> string \<Rightarrow> string \<Rightarrow> px_act list" where
  "ask_accept p x v = [Call p, Deliver_accept x (round1_accept p v), Reply_accept p (Some (0, True))]"

definition tell :: "string \<Rightarrow> string \<Rightarrow> string \<Rightarrow> px_act list" where
  "tell p x v = [Call p, Deliver_decide x \<lparr>da_instance = 1, da_v = v\<rparr>]"

definition plain_run :: "px_act list" where
  "plain_run =
     Start ''1'' ''a'' # ask_prepare ''1'' ''1'' @ ask_prepare ''1'' ''2'' @ [Reply_prepare ''1'' None, Next ''1''] @
     ask_accept ''1'' ''1'' ''a'' @ ask_accept ''1'' ''2'' ''a'' @ [Next ''1''] @
     tell ''1'' ''1'' ''a'' @ tell ''1'' ''2'' ''a''"

text \<open>
  Node 1 gets promises from 1 and 2 and the vote of 1; its accept request to 2 is delayed. Node
  3 gets promises, votes and a decision from 2 and 3. Then the delayed request reaches 2.
\<close>

definition split_run :: "px_act list" where
  "split_run =
     Start ''1'' ''a'' # ask_prepare ''1'' ''1'' @ ask_prepare ''1'' ''2'' @ [Reply_prepare ''1'' None, Next ''1''] @
     ask_accept ''1'' ''1'' ''a'' @ [Call ''1''] @
     Start ''3'' ''b'' # Reply_prepare ''3'' None # ask_prepare ''3'' ''2'' @ ask_prepare ''3'' ''3'' @ [Next ''3''] @
     ask_accept ''3'' ''2'' ''b'' @ ask_accept ''3'' ''3'' ''b'' @ [Next ''3''] @
     tell ''3'' ''2'' ''b'' @ tell ''3'' ''3'' ''b'' @
     [Deliver_accept ''2'' (round1_accept ''1'' ''a''), Reply_accept ''1'' (Some (0, True)), Next ''1''] @
     tell ''1'' ''1'' ''a''"

lemma px_fresh_initial: "px_initial 1 px_fresh"
  by (simp add: px_initial_def px_fresh_def acceptor_init_def proposer_new_def)

lemma px_exec_witness:
  assumes "case px_exec fresh 1 ns as px_fresh of None \<Rightarrow> False | Some s \<Rightarrow> P s"
  shows "\<exists>s. px_reach fresh 1 ns s \<and> P s"
  using assms px_exec_reach [OF px_reach.initial [OF px_fresh_initial], of fresh ns as]
  by (auto split: option.splits)

section \<open>Properties\<close>

text \<open>
  C1. Agreement. Any number of proposers compete for one instance of Paxos over a network that
  delays, loses, reorders and repeats messages. Two conditions: accept requests reach only acceptors
  that still work on the instance (without this there is a disagreement, see below), and the values proposed are
  not empty and the counter of proposals does not wrap around (\<open>start_ok\<close>). Then any two nodes that have committed the instance have
  committed the same value, and that value was accepted by a majority under one proposal.
\<close>

theorem paxos_agreement:
  assumes "px_reach True i ns s" "i \<noteq> 0"
    and "instance_h (px_accs s x) = i" "instance_h (px_accs s y) = i"
  shows "value_at i (px_accs s x) = value_at i (px_accs s y) \<and>
    px_decided i ns s (value_at i (px_accs s x))"
proof -
  note inv = px_reach_inv [OF assms(1,2)]
  have "px_decided i ns s (value_at i (px_accs s x))" "px_decided i ns s (value_at i (px_accs s y))"
    using px_invD(1) [OF inv, of x] px_invD(1) [OF inv, of y] assms(3,4) by (simp_all add: acc_inv_def)
  then show ?thesis using decided_agree [OF inv] by blast
qed

text \<open>
  A run of three nodes in which proposer 1 reaches nodes 1 and 2 and both commit its value.
\<close>

theorem paxos_agreement_witness:
  "\<exists>s. px_reach True 1 [''1'', ''2'', ''3''] s \<and>
    instance_h (px_accs s ''1'') = 1 \<and> instance_h (px_accs s ''2'') = 1 \<and>
    value_at 1 (px_accs s ''1'') = ''a'' \<and> value_at 1 (px_accs s ''2'') = ''a''"
proof -
  have "case px_exec True 1 [''1'', ''2'', ''3''] plain_run px_fresh of None \<Rightarrow> False
    | Some s \<Rightarrow> instance_h (px_accs s ''1'') = 1 \<and> instance_h (px_accs s ''2'') = 1 \<and>
        value_at 1 (px_accs s ''1'') = ''a''"
    by code_simp
  from px_exec_witness [OF this] obtain s where s: "px_reach True 1 [''1'', ''2'', ''3''] s"
    "instance_h (px_accs s ''1'') = 1" "instance_h (px_accs s ''2'') = 1"
    "value_at 1 (px_accs s ''1'') = ''a''" by blast
  with paxos_agreement [OF s(1) _ s(2,3)] show ?thesis by auto
qed

text \<open>
  C23. Learning. Under the same conditions the two \<open>VERIFY\<close> checks of \<open>acceptor::decidereq\<close>
  never fail: a decide message reaches only acceptors whose accepted value is the decided one,
  or that have committed the instance already.
\<close>

theorem paxos_decide_safe:
  assumes "px_reach True i ns s" "i \<noteq> 0" "Decide_msg x arg \<in> set (px_net s)"
  shows "\<exists>a us. decidereq arg (px_accs s x) = Inr (paxos_OK, a, us) \<and>
    instance_h a = i \<and> value_at i a = da_v arg"
proof -
  note inv = px_reach_inv [OF assms(1,2)]
  obtain b where arg: "da_instance arg = i" "px_chosen i ns s b (da_v arg)"
    using px_invD(2) [OF inv assms(3)] by auto
  obtain a us where a: "decidereq arg (px_accs s x) = Inr (paxos_OK, a, us)" "acc_inv i ns s x a"
    using decidereq_ok [OF inv assms(2,3)] by blast
  have "instance_h a = i"
  proof (cases "instance_h (px_accs s x) = i")
    case True
    then show ?thesis using a(1) arg(1) by (auto simp: decidereq_def)
  next
    case False
    then have "i = instance_h (px_accs s x) + 1" "instance_h (px_accs s x) < i"
      using live_acceptor(1) [OF inv False] not_le_pred [OF assms(2)] by auto
    then show ?thesis
      using a(1) arg(1) by (auto simp: decidereq_def commit_wo_def Let_def loginstance_def VERIFY_def
          split: if_splits)
  qed
  moreover have "px_decided i ns s (da_v arg)" using arg(2) unfolding px_decided_def by blast
  ultimately show ?thesis
    using a decided_agree [OF inv] by (auto simp: acc_inv_def)
qed

text \<open>
  Node 2 learns the decision of the run above.
\<close>

theorem paxos_decide_safe_witness:
  "\<exists>s a us. px_reach True 1 [''1'', ''2'', ''3''] s \<and>
    decidereq \<lparr>da_instance = 1, da_v = ''a''\<rparr> (px_accs s ''2'') = Inr (paxos_OK, a, us) \<and>
    value_at 1 a = ''a''"
proof -
  have "case px_exec True 1 [''1'', ''2'', ''3''] plain_run px_fresh of None \<Rightarrow> False
    | Some s \<Rightarrow> Decide_msg ''2'' \<lparr>da_instance = 1, da_v = ''a''\<rparr> \<in> set (px_net s)"
    by code_simp
  from px_exec_witness [OF this] obtain s where s: "px_reach True 1 [''1'', ''2'', ''3''] s"
    "Decide_msg ''2'' \<lparr>da_instance = 1, da_v = ''a''\<rparr> \<in> set (px_net s)" by blast
  with paxos_decide_safe [OF s(1) _ s(2)] show ?thesis by auto
qed

text \<open>
  C34. The check that is missing. \<open>acceptor::acceptreq\<close> does not look at the instance of an
  accept request, and \<open>commit_wo\<close> resets the highest proposal seen. An accept request that
  reaches an acceptor after it committed the instance is therefore accepted, and in the cluster
  without the restriction on delivery two nodes can commit different values for the same
  instance.
\<close>

theorem paxos_disagreement:
  "\<exists>s. px_reach False 1 [''1'', ''2'', ''3''] s \<and>
    instance_h (px_accs s ''1'') = 1 \<and> value_at 1 (px_accs s ''1'') = ''a'' \<and>
    instance_h (px_accs s ''2'') = 1 \<and> value_at 1 (px_accs s ''2'') = ''b''"
proof -
  have "case px_exec False 1 [''1'', ''2'', ''3''] split_run px_fresh of None \<Rightarrow> False
    | Some s \<Rightarrow> instance_h (px_accs s ''1'') = 1 \<and> value_at 1 (px_accs s ''1'') = ''a'' \<and>
        instance_h (px_accs s ''2'') = 1 \<and> value_at 1 (px_accs s ''2'') = ''b''"
    by code_simp
  from px_exec_witness [OF this] show ?thesis .
qed

end
