(* ===== verification/Paxos_Run.thy ===== *)
theory Paxos_Run
  imports Paxos_Safety
begin

text \<open>
  \<open>proposer::run\<close> as a whole against the cluster of theory \<open>Paxos_Cluster\<close>. \<open>cluster_env\<close> makes
  the calls of the proposer of one node act on the cluster: a list of fates says of each call
  whether it is lost, executed with its reply lost, or answered. The refinement result: whatever
  the fates, a complete run of \<open>proposer_run\<close> is a sequence of steps of the cluster, so the
  safety results of \<open>Paxos_Safety\<close> hold for the code of \<open>run\<close>, \<open>prepare\<close>, \<open>accept\<close> and \<open>decide\<close>
  in \<open>src/paxos/paxos.cc\<close>.
\<close>

section \<open>The cluster as the proposer's environment\<close>

datatype fate = Lost | Executed | Answered

type_synonym px_world = "px_sys \<times> fate list"

definition next_fate :: "fate list \<Rightarrow> fate \<times> fate list" where
  "next_fate fs = (case fs of [] \<Rightarrow> (Lost, []) | f # fs \<Rightarrow> (f, fs))"

definition cluster_prepare ::
    "prepareres \<Rightarrow> string \<Rightarrow> string \<Rightarrow> preparearg \<Rightarrow> px_world \<Rightarrow> (int \<times> prepareres) option \<times> px_world" where
  "cluster_prepare r0 node me arg w =
     (case w of (s, fs) \<Rightarrow>
      case next_fate fs of (f, fs) \<Rightarrow>
      let s = px_send (Prepare_msg node arg) s in
      if f = Lost then (None, s, fs)
      else
        (case preparereq arg r0 (px_accs s node) of (ret, r, a) \<Rightarrow>
          (if f = Answered then Some (ret, r) else None,
           px_set_acc node a (px_send (Prepare_rep node arg ret r) s), fs)))"

definition cluster_accept ::
    "bool \<Rightarrow> string \<Rightarrow> string \<Rightarrow> acceptarg \<Rightarrow> px_world \<Rightarrow> (int \<times> bool) option \<times> px_world" where
  "cluster_accept fresh node me arg w =
     (case w of (s, fs) \<Rightarrow>
      case next_fate fs of (f, fs) \<Rightarrow>
      let s = px_send (Accept_msg node arg) s in
      if f = Lost \<or> (fresh \<and> instance_h (px_accs s node) + 1 \<noteq> aa_instance arg) then (None, s, fs)
      else
        (case acceptreq arg (px_accs s node) of (ret, r, a) \<Rightarrow>
          (if f = Answered then Some (ret, r) else None,
           px_set_acc node a (px_send (Accept_rep node arg ret r) s), fs)))"

definition cluster_decide :: "string \<Rightarrow> string \<Rightarrow> decidearg \<Rightarrow> px_world \<Rightarrow> px_world" where
  "cluster_decide node me arg w =
     (case w of (s, fs) \<Rightarrow>
      case next_fate fs of (f, fs) \<Rightarrow>
      let s = px_send (Decide_msg node arg) s in
      if f = Lost then (s, fs)
      else
        (case decidereq arg (px_accs s node) of
           Inl _ \<Rightarrow> (s, fs)
         | Inr (_, a, _) \<Rightarrow> (px_set_acc node a s, fs)))"

definition cluster_env :: "bool \<Rightarrow> prepareres \<Rightarrow> string \<Rightarrow> px_world px_env" where
  "cluster_env fresh r0 p =
     \<lparr>env_prepare = cluster_prepare r0, env_accept = cluster_accept fresh, env_decide = cluster_decide,
      env_commit = (\<lambda>i v (s, fs). (px_set_acc p (fst (acceptor_commit i v (px_accs s p))) s, fs)),
      env_n_h = (\<lambda>(s, fs). n_h (px_accs s p))\<rparr>"

section \<open>A run is a sequence of cluster steps\<close>

definition px_steps :: "bool \<Rightarrow> u32 \<Rightarrow> string list \<Rightarrow> px_sys \<Rightarrow> px_sys \<Rightarrow> bool" where
  "px_steps fresh i ns s s' = (\<exists>as. px_exec fresh i ns as s = Some s')"

text \<open>The cluster with proposer \<open>q\<close> of node \<open>p\<close> at a given point of its run.\<close>

definition at_phase :: "string \<Rightarrow> proposer \<Rightarrow> px_phase \<Rightarrow> px_sys \<Rightarrow> px_sys" where
  "at_phase p q ph s = s\<lparr>px_pros := (px_pros s)(p := q), px_phase := (px_phase s)(p := ph)\<rparr>"

lemma at_phase_simps [simp]:
  "px_pros (at_phase p q ph s) p = q" "px_phase (at_phase p q ph s) p = ph"
  "px_accs (at_phase p q ph s) = px_accs s" "px_net (at_phase p q ph s) = px_net s"
  "px_enter p ph' (at_phase p q ph s) = at_phase p q ph' s"
  "px_send m (at_phase p q ph s) = at_phase p q ph (px_send m s)"
  "px_set_acc x a (at_phase p q ph s) = at_phase p q ph (px_set_acc x a s)"
  "px_finish p (at_phase p q ph s) = at_phase p (q\<lparr>pro_stable := True\<rparr>) Idle s"
  by (simp_all add: at_phase_def px_enter_def px_send_def px_set_acc_def px_finish_def)

lemma px_exec_append:
  "px_exec fresh i ns (as @ bs) s =
    (case px_exec fresh i ns as s of None \<Rightarrow> None | Some s \<Rightarrow> px_exec fresh i ns bs s)"
  by (induction as arbitrary: s) (auto split: option.splits)

lemma px_steps_trans [trans]:
  "px_steps fresh i ns s s' \<Longrightarrow> px_steps fresh i ns s' s'' \<Longrightarrow> px_steps fresh i ns s s''"
  unfolding px_steps_def by (metis px_exec_append option.simps(5))

lemma px_steps_refl [simp]: "px_steps fresh i ns s s"
  unfolding px_steps_def by (rule exI [of _ "[]"]) simp

lemma px_steps_one: "px_step fresh i ns a s = Some s' \<Longrightarrow> px_steps fresh i ns s s'"
  unfolding px_steps_def by (rule exI [of _ "[a]"]) simp

lemma px_steps_reach: "px_steps fresh i ns s s' \<Longrightarrow> px_reach fresh i ns s \<Longrightarrow> px_reach fresh i ns s'"
  unfolding px_steps_def using px_exec_reach by blast

lemma cluster_prepare_steps:
  assumes "cluster_prepare r0 x me \<lparr>pa_instance = i, pa_n = my_n q\<rparr> (s, fs) = (resp, s', fs')"
    and "ph = Preparing (x # xs) st newv"
  shows "px_steps fresh i ns (at_phase p q ph s) (at_phase p q ph s') \<and>
    px_step fresh i ns (Reply_prepare p resp) (at_phase p q ph s') =
      Some (case prepare_body x resp st of
          Inl v \<Rightarrow> at_phase p (q\<lparr>pro_stable := True\<rparr>) Idle
            (px_set_acc p (fst (acceptor_commit i v (px_accs s' p))) s')
        | Inr st \<Rightarrow> at_phase p q (Preparing xs st newv) s')"
proof -
  let ?arg = "\<lparr>pa_instance = i, pa_n = my_n q\<rparr>"
  let ?s = "px_send (Prepare_msg x ?arg) s"
  obtain f fs2 where f: "next_fate fs = (f, fs2)" by (cases "next_fate fs")
  obtain ret r a where h: "preparereq ?arg r0 (px_accs s x) = (ret, r, a)" by (metis prod_cases3)
  have call: "px_step fresh i ns (Call p) (at_phase p q ph s) = Some (at_phase p q ph ?s)"
    by (simp add: px_call_def assms(2))
  have deliver: "px_step fresh i ns (Deliver_prepare x ?arg r0) (at_phase p q ph ?s) =
      Some (at_phase p q ph (px_set_acc x a (px_send (Prepare_rep x ?arg ret r) ?s)))"
    by (simp add: px_deliver_prepare_def h)
  show ?thesis
  proof (cases "f = Lost")
    case True
    then have "s' = ?s" "resp = None" using assms(1) f by (auto simp: cluster_prepare_def Let_def)
    then show ?thesis
      using px_steps_one [OF call] by (auto simp: px_reply_prepare_def assms(2) split: sum.splits)
  next
    case False
    then have "s' = px_set_acc x a (px_send (Prepare_rep x ?arg ret r) ?s)"
      "resp = (if f = Answered then Some (ret, r) else None)"
      using assms(1) f h by (auto simp: cluster_prepare_def Let_def)
    then show ?thesis
      using px_steps_trans [OF px_steps_one [OF call] px_steps_one [OF deliver]]
      by (auto simp: px_reply_prepare_def assms(2) split: sum.splits)
  qed
qed

lemma prepare_loop_steps:
  assumes "prepare_loop (\<lambda>node. cluster_prepare r0 node me \<lparr>pa_instance = i, pa_n = my_n q\<rparr>)
      xs st (s, fs) = (res, s', fs')"
  shows "px_steps fresh i ns (at_phase p q (Preparing xs st newv) s)
    (case res of
       Inl v \<Rightarrow> at_phase p (q\<lparr>pro_stable := True\<rparr>) Idle
         (px_set_acc p (fst (acceptor_commit i v (px_accs s' p))) s')
     | Inr st' \<Rightarrow> at_phase p q (Preparing [] st' newv) s')"
  using assms
proof (induction xs arbitrary: st s fs)
  case Nil
  then show ?case by auto
next
  case (Cons x xs)
  let ?call = "\<lambda>node. cluster_prepare r0 node me \<lparr>pa_instance = i, pa_n = my_n q\<rparr>"
  obtain resp s1 fs1 where c: "?call x (s, fs) = (resp, s1, fs1)" by (metis prod_cases3)
  note steps = cluster_prepare_steps [OF c refl, of fresh ns p xs st newv]
  note one = px_steps_trans [OF conjunct1 [OF steps] px_steps_one [OF conjunct2 [OF steps]]]
  show ?case
  proof (cases "prepare_body x resp st")
    case (Inl v)
    then have "res = Inl v" "s' = s1" using Cons.prems c by auto
    with one [unfolded Inl sum.case] show ?thesis by simp
  next
    case (Inr st1)
    then have "prepare_loop ?call xs st1 (s1, fs1) = (res, s', fs')"
      using Cons.prems c by simp
    from px_steps_trans [OF one [unfolded Inr sum.case] Cons.IH [OF this]] show ?thesis .
  qed
qed

lemma cluster_accept_steps:
  assumes "cluster_accept fresh x me \<lparr>aa_instance = i, aa_n = my_n q, aa_v = v\<rparr> (s, fs) = (resp, s', fs')"
  shows "px_steps fresh i ns (at_phase p q (Accepting (x # xs) accepts v) s)
    (at_phase p q (Accepting xs (accept_body x resp accepts) v) s')"
proof -
  let ?arg = "\<lparr>aa_instance = i, aa_n = my_n q, aa_v = v\<rparr>" and ?ph = "Accepting (x # xs) accepts v"
  let ?s = "px_send (Accept_msg x ?arg) s"
  obtain f fs2 where f: "next_fate fs = (f, fs2)" by (cases "next_fate fs")
  obtain ret r a where h: "acceptreq ?arg (px_accs s x) = (ret, r, a)" by (metis prod_cases3)
  have call: "px_step fresh i ns (Call p) (at_phase p q ?ph s) = Some (at_phase p q ?ph ?s)"
    by (simp add: px_call_def)
  have reply: "px_step fresh i ns (Reply_accept p resp) (at_phase p q ?ph s') =
      Some (at_phase p q (Accepting xs (accept_body x resp accepts) v) s')"
    if "resp = None \<or> (\<exists>ret r. resp = Some (ret, r) \<and> Accept_rep x ?arg ret r \<in> set (px_net s'))"
    using that by (auto simp: px_reply_accept_def)
  show ?thesis
  proof (cases "f = Lost \<or> (fresh \<and> instance_h (px_accs s x) + 1 \<noteq> i)")
    case True
    then have s': "s' = ?s" "resp = None" using assms f by (auto simp: cluster_accept_def Let_def)
    show ?thesis
      using px_steps_trans [OF px_steps_one [OF call], folded s', OF px_steps_one [OF reply]] s'(2) by simp
  next
    case False
    then have s': "s' = px_set_acc x a (px_send (Accept_rep x ?arg ret r) ?s)"
      "resp = (if f = Answered then Some (ret, r) else None)"
      using assms f h by (auto simp: cluster_accept_def Let_def)
    have "px_step fresh i ns (Deliver_accept x ?arg) (at_phase p q ?ph ?s) = Some (at_phase p q ?ph s')"
      using False by (auto simp: px_deliver_accept_def h s')
    from px_steps_trans [OF px_steps_trans [OF px_steps_one [OF call] px_steps_one [OF this]]
        px_steps_one [OF reply]] show ?thesis
      using s' by auto
  qed
qed

lemma accept_loop_steps:
  assumes "proposer_accept (cluster_env fresh r0 p) \<lparr>aa_instance = i, aa_n = my_n q, aa_v = v\<rparr> q
      xs accepts (s, fs) = (accepts', s', fs')"
  shows "px_steps fresh i ns (at_phase p q (Accepting xs accepts v) s)
    (at_phase p q (Accepting [] accepts' v) s')"
  using assms
proof (induction xs arbitrary: accepts s fs)
  case (Cons x xs)
  obtain resp s1 fs1 where
    c: "cluster_accept fresh x (pro_me q) \<lparr>aa_instance = i, aa_n = my_n q, aa_v = v\<rparr> (s, fs) = (resp, s1, fs1)"
    by (metis prod_cases3)
  with Cons.prems have "proposer_accept (cluster_env fresh r0 p) \<lparr>aa_instance = i, aa_n = my_n q, aa_v = v\<rparr> q
      xs (accept_body x resp accepts) (s1, fs1) = (accepts', s', fs')"
    by (simp add: cluster_env_def)
  from px_steps_trans [OF cluster_accept_steps [OF c] Cons.IH [OF this]] show ?case .
qed auto

lemma cluster_decide_steps:
  assumes "cluster_decide x me \<lparr>da_instance = i, da_v = v\<rparr> (s, fs) = (s', fs')"
  shows "px_steps fresh i ns (at_phase p q (Deciding (x # xs) v) s) (at_phase p q (Deciding xs v) s')"
proof -
  let ?arg = "\<lparr>da_instance = i, da_v = v\<rparr>" and ?ph = "Deciding xs v"
  let ?s = "px_send (Decide_msg x ?arg) s"
  have call: "px_step fresh i ns (Call p) (at_phase p q (Deciding (x # xs) v) s) = Some (at_phase p q ?ph ?s)"
    by (simp add: px_call_def)
  consider "s' = ?s" | st a us where "decidereq ?arg (px_accs s x) = Inr (st, a, us)" "s' = px_set_acc x a ?s"
    using assms by (auto simp: cluster_decide_def Let_def split: prod.splits if_splits sum.splits)
  then show ?thesis
  proof cases
    case 1
    then show ?thesis using px_steps_one [OF call] by simp
  next
    case 2
    then have "px_step fresh i ns (Deliver_decide x ?arg) (at_phase p q ?ph ?s) = Some (at_phase p q ?ph s')"
      by (simp add: px_deliver_decide_def)
    from px_steps_trans [OF px_steps_one [OF call] px_steps_one [OF this]] show ?thesis .
  qed
qed

lemma decide_loop_steps:
  assumes "proposer_decide (cluster_env fresh r0 p) \<lparr>da_instance = i, da_v = v\<rparr> q xs (s, fs) = (s', fs')"
  shows "px_steps fresh i ns (at_phase p q (Deciding xs v) s) (at_phase p q (Deciding [] v) s')"
  using assms
proof (induction xs arbitrary: s fs)
  case (Cons x xs)
  obtain s1 fs1 where c: "cluster_decide x (pro_me q) \<lparr>da_instance = i, da_v = v\<rparr> (s, fs) = (s1, fs1)"
    by (metis prod.exhaust)
  with Cons.prems have "proposer_decide (cluster_env fresh r0 p) \<lparr>da_instance = i, da_v = v\<rparr> q xs (s1, fs1) = (s', fs')"
    by (simp add: cluster_env_def)
  from px_steps_trans [OF cluster_decide_steps [OF c] Cons.IH [OF this]] show ?case .
qed auto

lemma start_steps:
  assumes "pro_stable (px_pros s p)" "newv \<noteq> []"
    and "q = setn (n_h (px_accs s p)) ((px_pros s p)\<lparr>pro_stable := False\<rparr>)"
    and "prop_n (my_n (px_pros s p)) < prop_n (my_n q)"
  shows "px_steps fresh i ns s (at_phase p q (Preparing ns prep_start newv) s)"
  by (rule px_steps_one [of _ _ _ "Start p newv"])
    (use assms in \<open>auto simp: px_start_def start_ok_def Let_def at_phase_def px_enter_def\<close>)

lemma next_steps:
  "px_steps fresh i ns (at_phase p q (Preparing [] st newv) s)
    (if majority ns (fst st) then at_phase p q (Accepting (fst st) [] (prepare_value newv st)) s
     else at_phase p (q\<lparr>pro_stable := True\<rparr>) Idle s)"
  "px_steps fresh i ns (at_phase p q (Accepting [] accepts v) s)
    (if majority ns accepts then at_phase p q (Deciding accepts v) s
     else at_phase p (q\<lparr>pro_stable := True\<rparr>) Idle s)"
  "px_steps fresh i ns (at_phase p q (Deciding [] v) s) (at_phase p (q\<lparr>pro_stable := True\<rparr>) Idle s)"
  by (rule px_steps_one [of _ _ _ "Next p"]; simp add: px_next_def)+

lemma run_steps:
  assumes run: "proposer_run (cluster_env fresh r0 p) i ns newv (px_pros s p) (s, fs) = Inr (ok, q', s', fs')"
    and start: "pro_stable (px_pros s p)" "newv \<noteq> []"
      "prop_n (my_n (px_pros s p)) < prop_n (my_n (setn (n_h (px_accs s p)) (px_pros s p)))"
  shows "px_steps fresh i ns s (at_phase p q' Idle s')"
    and "ok \<Longrightarrow> \<exists>q v. px_steps fresh i ns s (at_phase p q (Deciding [] v) s')"
proof -
  define q where "q = setn (n_h (px_accs s p)) ((px_pros s p)\<lparr>pro_stable := False\<rparr>)"
  let ?call = "\<lambda>node. cluster_prepare r0 node (pro_me q) \<lparr>pa_instance = i, pa_n = my_n q\<rparr>"
  have n_h: "env_n_h (cluster_env fresh r0 p) (s, fs) = n_h (px_accs s p)" by (simp add: cluster_env_def)
  have "prop_n (my_n (px_pros s p)) < prop_n (my_n q)" using start(3) by (simp add: q_def setn_def split: if_splits)
  note started = start_steps [OF start(1,2) q_def this, of fresh i ns]
  obtain res s1 fs1 where loop: "prepare_loop ?call ns prep_start (s, fs) = (res, s1, fs1)"
    by (metis prod_cases3)
  note prep = px_steps_trans [OF started prepare_loop_steps [OF loop]]
  have env: "env_prepare (cluster_env fresh r0 p) = cluster_prepare r0"
    "env_commit (cluster_env fresh r0 p) j v (t, fs) =
      (px_set_acc p (fst (acceptor_commit j v (px_accs t p))) t, fs)" for j v t fs
    by (simp_all add: cluster_env_def)
  have "px_steps fresh i ns s (at_phase p q' Idle s') \<and>
    (ok \<longrightarrow> (\<exists>q v. px_steps fresh i ns s (at_phase p q (Deciding [] v) s')))"
  proof (cases res)
    case (Inl old)
    then have "q' = q\<lparr>pro_stable := True\<rparr>" "\<not> ok"
      "s' = px_set_acc p (fst (acceptor_commit i old (px_accs s1 p))) s1"
      using run start(1) loop
      by (simp_all add: proposer_run_def proposer_prepare_def n_h env q_def Let_def)
    with prep Inl show ?thesis by simp
  next
    case (Inr st)
    obtain accepts mn mv where st: "st = (accepts, mn, mv)" by (cases st)
    let ?v = "prepare_value newv st"
    let ?arg = "\<lparr>aa_instance = i, aa_n = my_n q, aa_v = ?v\<rparr>"
    obtain accepts2 s2 fs2 where acc: "proposer_accept (cluster_env fresh r0 p) ?arg q accepts [] (s1, fs1) =
        (accepts2, s2, fs2)" by (metis prod_cases3)
    obtain s3 fs3 where dec: "proposer_decide (cluster_env fresh r0 p) \<lparr>da_instance = i, da_v = ?v\<rparr> q
        accepts2 (s2, fs2) = (s3, fs3)" by (metis prod.exhaust)
    note prep' = px_steps_trans [OF prep [unfolded Inr sum.case] next_steps(1), unfolded st fst_conv]
    have out: "(ok, q', s') =
      (if majority ns accepts
       then if majority ns accepts2 then (True, q\<lparr>pro_stable := True\<rparr>, s3)
         else (False, q\<lparr>pro_stable := True\<rparr>, s2)
       else (False, q\<lparr>pro_stable := True\<rparr>, s1))"
      using run start(1) loop Inr st acc dec
      by (auto simp: proposer_run_def proposer_prepare_def n_h env q_def [symmetric] Let_def
          prepare_value_def breakpoint1_def breakpoint2_def split: if_splits)
    show ?thesis
    proof (cases "majority ns accepts")
      case True
      note acc' = px_steps_trans [OF prep' [unfolded if_P [OF True]]
          accept_loop_steps [OF acc [unfolded st]], THEN px_steps_trans, OF next_steps(2)]
      show ?thesis
      proof (cases "majority ns accepts2")
        case True2: True
        note dec' = px_steps_trans [OF acc' [unfolded if_P [OF True2]]
            decide_loop_steps [OF dec [unfolded st]]]
        from dec' px_steps_trans [OF dec' next_steps(3)] out True True2 show ?thesis by auto
      next
        case False
        with acc' out True show ?thesis by auto
      qed
    next
      case False
      with prep' out show ?thesis by auto
    qed
  qed
  then show "px_steps fresh i ns s (at_phase p q' Idle s')"
    "ok \<Longrightarrow> \<exists>q v. px_steps fresh i ns s (at_phase p q (Deciding [] v) s')" by auto
qed

section \<open>Properties\<close>

text \<open>
  C15. \<open>proposer::run\<close> refines the cluster. Whatever happens to its calls, a complete run of
  the proposer of node \<open>p\<close>, with a value that is not empty and a counter \<open>my_n\<close> that does not wrap
  around, from a reachable cluster leads to a reachable cluster. If moreover accept requests reach only
  acceptors that still work on the instance (\<open>fresh\<close>) and \<open>run\<close> returns true, some value has been
  accepted by a majority, and every node that has committed the instance has that value.
\<close>

theorem run_decides:
  assumes "px_reach fresh i ns s" "i \<noteq> 0" "pro_stable (px_pros s p)" "newv \<noteq> []"
    and "prop_n (my_n (px_pros s p)) < prop_n (my_n (setn (n_h (px_accs s p)) (px_pros s p)))"
    and "proposer_run (cluster_env fresh r0 p) i ns newv (px_pros s p) (s, fs) = Inr (ok, q, s', fs')"
  shows "px_reach fresh i ns (at_phase p q Idle s') \<and>
    (fresh \<and> ok \<longrightarrow> (\<exists>v. px_decided i ns s' v \<and>
      (\<forall>x. instance_h (px_accs s' x) = i \<longrightarrow> value_at i (px_accs s' x) = v)))"
proof (intro conjI impI)
  show "px_reach fresh i ns (at_phase p q Idle s')"
    using px_steps_reach [OF run_steps(1) [OF assms(6,3,4,5)] assms(1)] .
  assume "fresh \<and> ok"
  then obtain q1 v where "px_reach True i ns (at_phase p q1 (Deciding [] v) s')"
    using px_steps_reach [OF _ assms(1)] run_steps(2) [OF assms(6,3,4,5)] by auto
  note inv = px_reach_inv [OF this assms(2)]
  have net: "px_net s' = px_net (at_phase p q1 (Deciding [] v) s')" by simp
  note same = px_same_net(5) [OF net]
  have "px_decided i ns (at_phase p q1 (Deciding [] v) s') v"
    using px_invD(3) [OF inv, of p] unfolding px_decided_def by auto
  then show "\<exists>v. px_decided i ns s' v \<and>
      (\<forall>x. instance_h (px_accs s' x) = i \<longrightarrow> value_at i (px_accs s' x) = v)"
    using px_invD(1) [OF inv] decided_agree [OF inv] unfolding same by (auto simp: acc_inv_def)
qed

text \<open>
  Three fresh nodes with every call answered: the run of node 1 returns true and node 2 has
  committed its value.
\<close>

theorem run_decides_witness:
  "\<exists>q s' fs'. proposer_run (cluster_env True (round1_promise []) ''1'') 1 [''1'', ''2'', ''3''] ''a''
      (px_pros px_fresh ''1'') (px_fresh, replicate 9 Answered) = Inr (True, q, s', fs') \<and>
    instance_h (px_accs s' ''2'') = 1 \<and> value_at 1 (px_accs s' ''2'') = ''a'' \<and>
    px_reach True 1 [''1'', ''2'', ''3''] (at_phase ''1'' q Idle s') \<and>
    px_decided 1 [''1'', ''2'', ''3''] s' ''a''"
proof -
  let ?run = "proposer_run (cluster_env True (round1_promise []) ''1'') 1 [''1'', ''2'', ''3''] ''a''
      (px_pros px_fresh ''1'') (px_fresh, replicate 9 Answered)"
  have "case ?run of Inl _ \<Rightarrow> False | Inr (ok, q, s', fs') \<Rightarrow> ok \<and>
      instance_h (px_accs s' ''2'') = 1 \<and> value_at 1 (px_accs s' ''2'') = ''a''"
    by code_simp
  then obtain q s' fs' where run: "?run = Inr (True, q, s', fs')"
    and two: "instance_h (px_accs s' ''2'') = 1" "value_at 1 (px_accs s' ''2'') = ''a''"
    by (auto split: sum.splits)
  have "pro_stable (px_pros px_fresh ''1'')"
    "prop_n (my_n (px_pros px_fresh ''1'')) <
      prop_n (my_n (setn (n_h (px_accs px_fresh ''1'')) (px_pros px_fresh ''1'')))"
    by code_simp+
  from run_decides [OF px_reach.initial [OF px_fresh_initial] _ this(1) _ this(2) run] two
  have "px_reach True 1 [''1'', ''2'', ''3''] (at_phase ''1'' q Idle s')"
    "px_decided 1 [''1'', ''2'', ''3''] s' ''a''" by auto
  with run two show ?thesis by blast
qed

end
