(* ===== verification/Reply_Window.thy ===== *)
theory Reply_Window
  imports Prelude
begin

text \<open>
  The reply window of the RPC server (src/rpc/rpc.cc, \<open>checkduplicate_and_update\<close>,
  \<open>add_reply\<close>, \<open>free_reply_window\<close>): per client nonce the list of requests the server knows of,
  with their replies when finished. The list is a \<open>std::list\<close>. Two accesses of the code leave
  the bounds of that list: \<open>front()\<close> of an empty window, which every first request of a client
  makes and whose result is the parameter \<open>fe\<close> of the model, and the dereference of the
  iterator that \<open>erase\<close> of the last entry returns, which is the fault \<open>Undefined\<close>.
\<close>

section \<open>Data and operations\<close>

record reply_t =
  rt_xid :: u32
  rt_cb_present :: bool
  rt_buf :: "byte list"
  rt_sz :: nat

definition reply_t_new :: "u32 \<Rightarrow> reply_t" where
  "reply_t_new xid = \<lparr>rt_xid = xid, rt_cb_present = False, rt_buf = [], rt_sz = 0\<rparr>"

datatype rpcstate_t = NEW | INPROGRESS | DONE "byte list" nat | FORGOTTEN

type_synonym reply_windows = "u32 \<rightharpoonup> reply_t list"

text \<open>
  \<open>front()\<close> of an empty list is undefined behaviour. \<open>fe\<close> is the number that the implementation at hand reads there
  (libstdc++: the low half of the size field, 0); no result below that takes \<open>fe\<close> as an argument restricts it.
\<close>

definition front_xid :: "u32 \<Rightarrow> reply_t list \<Rightarrow> u32" where
  "front_xid fe w = (case w of [] \<Rightarrow> fe | r # _ \<Rightarrow> rt_xid r)"

definition reply_state :: "reply_t \<Rightarrow> rpcstate_t" where
  "reply_state r = (if rt_cb_present r then DONE (rt_buf r) (rt_sz r) else INPROGRESS)"

text \<open>The first loop: \<open>i\<close> is the position of the iterator.\<close>

function scan_loop :: "u32 \<Rightarrow> u32 \<Rightarrow> reply_t list \<Rightarrow> nat \<Rightarrow> (rpcstate_t option \<times> reply_t list) result" where
  "scan_loop xid xid_rep w i =
     (if i \<ge> length w then Inr (None, w)
      else
        let w = (if rt_xid (w ! i) < xid_rep \<and> rt_cb_present (w ! i)
                 then take i w @ drop (Suc i) w else w) in
        if i \<ge> length w then Inl Undefined
        else if rt_xid (w ! i) = xid then Inr (Some (reply_state (w ! i)), w)
        else scan_loop xid xid_rep w (Suc i))"
  by pat_completeness auto
termination
  by (relation "measure (\<lambda>(_, _, w, i). length w - i)") auto

declare scan_loop.simps [simp del]

text \<open>The second loop and the \<open>push_back\<close> after it.\<close>

fun insert_reply :: "reply_t \<Rightarrow> reply_t list \<Rightarrow> reply_t list" where
  "insert_reply tmp [] = [tmp]"
| "insert_reply tmp (r # w) = (if rt_xid r > rt_xid tmp then tmp # r # w else r # insert_reply tmp w)"

definition checkduplicate_and_update ::
    "u32 \<Rightarrow> u32 \<Rightarrow> u32 \<Rightarrow> u32 \<Rightarrow> reply_windows \<Rightarrow> (rpcstate_t \<times> reply_windows) result" where
  "checkduplicate_and_update fe clt_nonce xid xid_rep ws =
     (case ws clt_nonce of
        None \<Rightarrow> Inr (NEW, ws(clt_nonce \<mapsto> []))
      | Some w \<Rightarrow>
          if front_xid fe w > xid then Inr (FORGOTTEN, ws)
          else
            rbind (scan_loop xid xid_rep w 0) (\<lambda>(r, w).
            Inr (case r of
                   Some st \<Rightarrow> (st, ws(clt_nonce \<mapsto> w))
                 | None \<Rightarrow> (NEW, ws(clt_nonce \<mapsto> insert_reply (reply_t_new xid) w)))))"

fun set_reply :: "u32 \<Rightarrow> byte list \<Rightarrow> nat \<Rightarrow> reply_t list \<Rightarrow> reply_t list" where
  "set_reply xid b sz [] = [(reply_t_new xid)\<lparr>rt_buf := b, rt_sz := sz, rt_cb_present := True\<rparr>]"
| "set_reply xid b sz (r # w) =
     (if rt_xid r = xid then r\<lparr>rt_buf := b, rt_sz := sz, rt_cb_present := True\<rparr> # w
      else r # set_reply xid b sz w)"

definition add_reply :: "u32 \<Rightarrow> u32 \<Rightarrow> byte list \<Rightarrow> nat \<Rightarrow> reply_windows \<Rightarrow> reply_windows" where
  "add_reply clt_nonce xid b sz ws =
     ws(clt_nonce \<mapsto> set_reply xid b sz (case ws clt_nonce of None \<Rightarrow> [] | Some w \<Rightarrow> w))"

definition free_reply_window :: "reply_windows \<Rightarrow> reply_windows" where
  "free_reply_window ws = Map.empty"

text \<open>\<open>rpcs::dispatch\<close> creates the window of a client it has not seen.\<close>

definition create_window :: "u32 \<Rightarrow> reply_windows \<Rightarrow> reply_windows" where
  "create_window clt_nonce ws = (case ws clt_nonce of None \<Rightarrow> ws(clt_nonce \<mapsto> []) | Some _ \<Rightarrow> ws)"

section \<open>The scan as a recursion on the list\<close>

fun scan :: "u32 \<Rightarrow> u32 \<Rightarrow> reply_t list \<Rightarrow> (rpcstate_t option \<times> reply_t list) result" where
  "scan xid xid_rep [] = Inr (None, [])"
| "scan xid xid_rep (r # w) =
     (if rt_xid r < xid_rep \<and> rt_cb_present r
      then (case w of
              [] \<Rightarrow> Inl Undefined
            | q # w \<Rightarrow>
                if rt_xid q = xid then Inr (Some (reply_state q), q # w)
                else rbind (scan xid xid_rep w) (\<lambda>(st, w). Inr (st, q # w)))
      else if rt_xid r = xid then Inr (Some (reply_state r), r # w)
      else rbind (scan xid xid_rep w) (\<lambda>(st, w). Inr (st, r # w)))"

lemma scan_loop_scan:
  "scan_loop xid xid_rep (pre @ w) (length pre) =
    rbind (scan xid xid_rep w) (\<lambda>(st, w). Inr (st, pre @ w))"
proof (induction xid xid_rep w arbitrary: pre rule: scan.induct)
  case (1 xid xid_rep)
  then show ?case by (simp add: scan_loop.simps)
next
  case (2 xid xid_rep r w)
  have snoc: "rbind x (\<lambda>(st, w). Inr (st, (pre @ [q]) @ w)) =
      rbind (rbind x (\<lambda>(st, w). Inr (st, q # w))) (\<lambda>(st, w). Inr (st, pre @ w))"
    for x :: "(rpcstate_t option \<times> reply_t list) result" and q
    by (cases x) auto
  show ?case
  proof (cases "rt_xid r < xid_rep \<and> rt_cb_present r")
    case True
    show ?thesis
    proof (cases w)
      case Nil
      with True show ?thesis by (simp add: scan_loop.simps [of _ _ "pre @ [r]"])
    next
      case (Cons q w')
      have "scan_loop xid xid_rep ((pre @ [q]) @ w') (length (pre @ [q])) =
          rbind (scan xid xid_rep w') (\<lambda>(st, w). Inr (st, (pre @ [q]) @ w))"
        if "rt_xid q \<noteq> xid" using 2(1) [OF True Cons that] .
      with True Cons snoc show ?thesis
        by (subst scan_loop.simps) (auto simp: nth_append Let_def)
    qed
  next
    case False
    have "scan_loop xid xid_rep ((pre @ [r]) @ w) (length (pre @ [r])) =
        rbind (scan xid xid_rep w) (\<lambda>(st, w). Inr (st, (pre @ [r]) @ w))"
      if "rt_xid r \<noteq> xid" using 2(2) [OF False that] .
    with False snoc show ?thesis
      by (subst scan_loop.simps) (auto simp: nth_append Let_def)
  qed
qed

lemma scan_loop_0: "scan_loop xid xid_rep w 0 = scan xid xid_rep w"
  using scan_loop_scan [of xid xid_rep "[]" w] by (cases "scan xid xid_rep w") auto

section \<open>Sorted windows\<close>

definition window_ok :: "reply_t list \<Rightarrow> bool" where
  "window_ok w = sorted_wrt (<) (map rt_xid w)"

lemma window_ok_simps [simp]:
  "window_ok []"
  "window_ok (r # w) \<longleftrightarrow> (\<forall>q \<in> set w. rt_xid r < rt_xid q) \<and> window_ok w"
  by (auto simp: window_ok_def)

lemma scan_subset: "scan xid xid_rep w = Inr (st, w') \<Longrightarrow> set w' \<subseteq> set w"
  by (induction xid xid_rep w arbitrary: st w' rule: scan.induct)
    (fastforce split: if_splits list.splits simp: rbind_eq_Inr)+

lemma scan_ok:
  assumes "scan xid xid_rep w = Inr (st, w')" "window_ok w"
  shows "window_ok w'"
  using assms
proof (induction xid xid_rep w arbitrary: st w' rule: scan.induct)
  case (2 xid xid_rep r w)
  have cons: "window_ok (q # v')"
    if "scan xid xid_rep v = Inr (s, v')" "window_ok v'" "\<forall>p \<in> set v. rt_xid q < rt_xid p" for q v v' s
    using that scan_subset [OF that(1)] by auto
  show ?case
  proof (cases "rt_xid r < xid_rep \<and> rt_cb_present r")
    case True
    then obtain q v where w: "w = q # v" using 2(3) by (cases w) auto
    show ?thesis
    proof (cases "rt_xid q = xid")
      case True
      with \<open>rt_xid r < xid_rep \<and> rt_cb_present r\<close> w 2 show ?thesis by auto
    next
      case False
      then obtain v' where "scan xid xid_rep v = Inr (st, v')" "w' = q # v'"
        using 2(3) True w by (auto simp: rbind_eq_Inr)
      with 2(1) [OF True w False] 2(4) w cons show ?thesis by auto
    qed
  next
    case False
    then show ?thesis
      using 2(2) [OF False] 2(3,4) cons by (auto simp: rbind_eq_Inr split: if_splits)
  qed
qed simp

lemma scan_keeps:
  "scan xid xid_rep w = Inr (st, w') \<Longrightarrow> r \<in> set w \<Longrightarrow>
    \<not> (rt_xid r < xid_rep \<and> rt_cb_present r) \<Longrightarrow> r \<in> set w'"
  by (induction xid xid_rep w arbitrary: st w' rule: scan.induct)
    (fastforce split: if_splits list.splits simp: rbind_eq_Inr)+

lemma scan_found:
  assumes "window_ok w" "r \<in> set w" "xid_rep \<le> rt_xid r"
  shows "\<exists>w'. scan (rt_xid r) xid_rep w = Inr (Some (reply_state r), w')"
  using assms
proof (induction "rt_xid r" xid_rep w rule: scan.induct)
  case (2 xid_rep q w)
  show ?case
  proof (cases "rt_xid q < xid_rep \<and> rt_cb_present q")
    case True
    then have "r \<in> set w" using 2 by auto
    then obtain p w' where w: "w = p # w'" by (cases w) auto
    with 2 True \<open>r \<in> set w\<close> show ?thesis by (cases "rt_xid p = rt_xid r") auto
  next
    case False
    with 2 show ?thesis by (cases "rt_xid q = rt_xid r") auto
  qed
qed simp

lemma scan_none:
  assumes "scan xid xid_rep w = Inr (st, w')" "\<And>r. r \<in> set w \<Longrightarrow> rt_xid r \<noteq> xid"
  shows "st = None"
  using assms by (induction xid xid_rep w arbitrary: st w' rule: scan.induct)
    (fastforce split: if_splits list.splits simp: rbind_eq_Inr)+

lemma scan_defined:
  assumes "window_ok w" "w = [] \<or> xid_rep \<le> rt_xid (last w) \<or> \<not> rt_cb_present (last w)"
  shows "\<exists>st w'. scan xid xid_rep w = Inr (st, w')"
  using assms
proof (induction xid xid_rep w rule: scan.induct)
  case (2 xid xid_rep q w)
  show ?case
  proof (cases "rt_xid q < xid_rep \<and> rt_cb_present q")
    case True
    then obtain p w' where w: "w = p # w'" using 2(4) by (cases w) auto
    with 2 True show ?thesis by (cases "rt_xid p = xid") (auto split: if_splits)
  next
    case False
    with 2 show ?thesis by (cases "rt_xid q = xid") (auto split: if_splits)
  qed
qed simp

lemma insert_reply_set [simp]: "set (insert_reply tmp w) = insert tmp (set w)"
  by (induction w) auto

lemma insert_reply_ok:
  "window_ok w \<Longrightarrow> (\<And>r. r \<in> set w \<Longrightarrow> rt_xid r \<noteq> rt_xid tmp) \<Longrightarrow> window_ok (insert_reply tmp w)"
  by (induction w) (force simp: not_less_iff_gr_or_eq)+

section \<open>Requests of one client\<close>

text \<open>
  What the server does for one client: a request arrives (with its \<open>xid\<close> and the \<open>xid_rep\<close> the
  client sent along), or the handler of a request finishes. \<open>srv_execs\<close> is the sequence of
  requests that were handed to a handler, as client nonce and \<open>xid\<close>.
\<close>

datatype srv_ev = Arrive u32 u32 | Finish u32 "byte list" nat

record srv =
  srv_windows :: reply_windows
  srv_execs :: "(u32 \<times> u32) list"

definition srv_request :: "u32 \<Rightarrow> u32 \<Rightarrow> u32 \<Rightarrow> u32 \<Rightarrow> srv \<Rightarrow> (rpcstate_t \<times> srv) result" where
  "srv_request fe c xid xid_rep s =
     rbind (checkduplicate_and_update fe c xid xid_rep (create_window c (srv_windows s))) (\<lambda>(st, ws).
     Inr (st, s\<lparr>srv_windows := ws, srv_execs := srv_execs s @ (if st = NEW then [(c, xid)] else [])\<rparr>))"

fun srv_event :: "u32 \<Rightarrow> u32 \<Rightarrow> srv_ev \<Rightarrow> srv \<Rightarrow> srv result" where
  "srv_event fe c (Arrive xid xid_rep) s = rbind (srv_request fe c xid xid_rep s) (\<lambda>(_, s). Inr s)"
| "srv_event fe c (Finish xid b sz) s = Inr (s\<lparr>srv_windows := add_reply c xid b sz (srv_windows s)\<rparr>)"

fun srv_events :: "u32 \<Rightarrow> u32 \<Rightarrow> srv_ev list \<Rightarrow> srv \<Rightarrow> srv result" where
  "srv_events fe c [] s = Inr s"
| "srv_events fe c (e # es) s = rbind (srv_event fe c e s) (srv_events fe c es)"

definition srv_new :: srv where
  "srv_new = \<lparr>srv_windows = Map.empty, srv_execs = []\<rparr>"

lemma create_window_Some [simp]: "ws c = Some w \<Longrightarrow> create_window c ws = ws"
  by (simp add: create_window_def)

lemma checkduplicate_Some:
  assumes "ws c = Some w"
  shows "checkduplicate_and_update fe c xid xid_rep ws =
    (if front_xid fe w > xid then Inr (FORGOTTEN, ws)
     else rbind (scan xid xid_rep w) (\<lambda>(r, w).
       Inr (case r of Some st \<Rightarrow> (st, ws(c \<mapsto> w))
            | None \<Rightarrow> (NEW, ws(c \<mapsto> insert_reply (reply_t_new xid) w)))))"
  using assms by (simp add: checkduplicate_and_update_def scan_loop_0)

section \<open>Properties of one request\<close>

text \<open>
  Duplicates are recognised. If the window of a client knows request \<open>xid\<close> (and the client
  does not claim to have its reply), \<open>checkduplicate_and_update\<close> answers \<open>DONE\<close> with exactly the
  stored reply, or \<open>INPROGRESS\<close> when there is none yet, without leaving the bounds of the list;
  the entry stays, the window stays sorted, and no request that is still in progress is lost.
\<close>

theorem duplicate_detected:
  assumes "ws c = Some w" "window_ok w" "r \<in> set w" "xid_rep \<le> rt_xid r"
  shows "\<exists>w'. checkduplicate_and_update fe c (rt_xid r) xid_rep ws =
      Inr (if rt_cb_present r then DONE (rt_buf r) (rt_sz r) else INPROGRESS, ws(c \<mapsto> w')) \<and>
    r \<in> set w' \<and> window_ok w' \<and> set w' \<subseteq> set w \<and>
    (\<forall>q \<in> set w. \<not> rt_cb_present q \<longrightarrow> q \<in> set w')"
proof -
  obtain w' where w': "scan (rt_xid r) xid_rep w = Inr (Some (reply_state r), w')"
    using scan_found [OF assms(2-4)] by blast
  have "\<not> front_xid fe w > rt_xid r"
    using assms(2,3) by (cases w) (auto simp: front_xid_def)
  then have "checkduplicate_and_update fe c (rt_xid r) xid_rep ws = Inr (reply_state r, ws(c \<mapsto> w'))"
    using checkduplicate_Some [of ws c w fe, OF assms(1)] w' by simp
  moreover have "r \<in> set w'" "\<forall>q \<in> set w. \<not> rt_cb_present q \<longrightarrow> q \<in> set w'"
    using scan_keeps [OF w'] assms(3) leD [OF assms(4)] by blast+
  ultimately show ?thesis
    using scan_ok [OF w' assms(2)] scan_subset [OF w'] unfolding reply_state_def by blast
qed

text \<open>
  A window with a finished and an unfinished request; the finished one is asked for again.
\<close>

theorem duplicate_detected_witness:
  "\<exists>w'. checkduplicate_and_update 0 9 4 3
      [9 \<mapsto> [\<lparr>rt_xid = 4, rt_cb_present = True, rt_buf = [1, 2], rt_sz = 2\<rparr>, reply_t_new 5]] =
      Inr (DONE [1, 2] 2, [9 \<mapsto> w']) \<and> reply_t_new 5 \<in> set w'"
proof -
  let ?r = "\<lparr>rt_xid = 4, rt_cb_present = True, rt_buf = [1, 2], rt_sz = 2\<rparr>"
  have "window_ok [?r, reply_t_new 5]" "?r \<in> set [?r, reply_t_new 5]" "3 \<le> rt_xid ?r"
    by (simp_all add: reply_t_new_def word_le_nat_alt word_less_nat_alt)
  from duplicate_detected [of "[9 \<mapsto> [?r, reply_t_new 5]]" 9, OF _ this, of 0]
  show ?thesis by (auto simp: reply_t_new_def)
qed

text \<open>
  New requests are remembered. A request whose \<open>xid\<close> the window does not hold and does not
  exceed, from a client that claims no reply beyond the last request of the window, is \<open>NEW\<close>;
  its entry is added as one in progress, the window stays sorted, every entry that is unfinished
  or not yet acknowledged stays, and nothing else appears.
\<close>

theorem new_request_recorded:
  assumes "ws c = Some w" "window_ok w" "w \<noteq> []"
    and "\<And>r. r \<in> set w \<Longrightarrow> rt_xid r \<noteq> xid" "rt_xid (hd w) \<le> xid" "xid_rep \<le> rt_xid (last w)"
  shows "\<exists>w'. checkduplicate_and_update fe c xid xid_rep ws = Inr (NEW, ws(c \<mapsto> w')) \<and>
    reply_t_new xid \<in> set w' \<and> window_ok w' \<and> set w' \<subseteq> insert (reply_t_new xid) (set w) \<and>
    (\<forall>q \<in> set w. \<not> (rt_xid q < xid_rep \<and> rt_cb_present q) \<longrightarrow> q \<in> set w')"
proof -
  obtain st w1 where w1: "scan xid xid_rep w = Inr (st, w1)"
    using scan_defined [OF assms(2)] assms(6) by blast
  have st: "st = None" using scan_none [OF w1] assms(4) by blast
  have front: "\<not> front_xid fe w > xid" using assms(3,5) by (cases w) (auto simp: front_xid_def)
  have "window_ok (insert_reply (reply_t_new xid) w1)"
    using assms(4) scan_subset [OF w1]
    by (intro insert_reply_ok scan_ok [OF w1 assms(2)]) (auto simp: reply_t_new_def)
  moreover have "checkduplicate_and_update fe c xid xid_rep ws =
      Inr (NEW, ws(c \<mapsto> insert_reply (reply_t_new xid) w1))"
    using checkduplicate_Some [of ws c w fe, OF assms(1)] front w1 st by simp
  moreover have "set (insert_reply (reply_t_new xid) w1) \<subseteq> insert (reply_t_new xid) (set w)"
    using scan_subset [OF w1] by auto
  ultimately show ?thesis
    using scan_keeps [OF w1] by (intro exI [of _ "insert_reply (reply_t_new xid) w1"]) auto
qed

text \<open>
  Request 5 after 4, which is finished but not acknowledged.
\<close>

theorem new_request_recorded_witness:
  "\<exists>w'. checkduplicate_and_update 0 9 5 3
      [9 \<mapsto> [\<lparr>rt_xid = 4, rt_cb_present = True, rt_buf = [1, 2], rt_sz = 2\<rparr>]] =
      Inr (NEW, [9 \<mapsto> w']) \<and> reply_t_new 5 \<in> set w'"
proof -
  let ?r = "\<lparr>rt_xid = 4, rt_cb_present = True, rt_buf = [1, 2], rt_sz = 2\<rparr>"
  have "window_ok [?r]" "[?r] \<noteq> []" "\<And>r. r \<in> set [?r] \<Longrightarrow> rt_xid r \<noteq> 5"
    "rt_xid (hd [?r]) \<le> 5" "3 \<le> rt_xid (last [?r])"
    by (auto simp: word_le_nat_alt)
  from new_request_recorded [of "[9 \<mapsto> [?r]]" 9, OF _ this, of 0]
  show ?thesis by auto
qed

section \<open>A client with one call at a time\<close>

definition client_execs :: "u32 \<Rightarrow> srv \<Rightarrow> u32 list" where
  "client_execs c s = map snd (filter (\<lambda>e. fst e = c) (srv_execs s))"

definition has_reply :: "u32 \<Rightarrow> u32 \<Rightarrow> bool \<Rightarrow> srv \<Rightarrow> bool" where
  "has_reply c xid present s = (case srv_windows s c of None \<Rightarrow> False
     | Some w \<Rightarrow> list_ex (\<lambda>r. rt_xid r = xid \<and> rt_cb_present r = present) w)"

text \<open>
  \<open>seq_reach fe c k s\<close>: client \<open>c\<close> has issued requests 1 to \<open>k\<close>, each after the one before was answered, and the
  server is in state \<open>s\<close>. A request is answered when the server has its reply or refuses it as forgotten; a
  call that the client gave up at its deadline is not. The packet of request \<open>j\<close> carries \<open>xid_rep\<close> = \<open>j - 1\<close>
  and may arrive any number of times, in any order; handlers finish in any order; other clients send
  whatever they like.
\<close>

definition answered :: "u32 \<Rightarrow> u32 \<Rightarrow> nat \<Rightarrow> srv \<Rightarrow> bool" where
  "answered fe c k s =
     (has_reply c (of_nat k) True s \<or> (\<exists>s'. srv_request fe c (of_nat k) (of_nat (k - 1)) s = Inr (FORGOTTEN, s')))"

inductive seq_reach :: "u32 \<Rightarrow> u32 \<Rightarrow> nat \<Rightarrow> srv \<Rightarrow> bool" for fe c :: u32 where
  start: "seq_reach fe c 0 srv_new"
| issue: "seq_reach fe c k s \<Longrightarrow> k = 0 \<or> answered fe c k s \<Longrightarrow> Suc k < 2 ^ 32 - 1 \<Longrightarrow>
    seq_reach fe c (Suc k) s"
| arrive: "seq_reach fe c k s \<Longrightarrow> 1 \<le> j \<Longrightarrow> j \<le> k \<Longrightarrow>
    srv_request fe c (of_nat j) (of_nat (j - 1)) s = Inr (st, s') \<Longrightarrow> seq_reach fe c k s'"
| finish: "seq_reach fe c k s \<Longrightarrow> has_reply c xid False s \<Longrightarrow>
    srv_event fe c (Finish xid b sz) s = Inr s' \<Longrightarrow> seq_reach fe c k s'"
| other: "seq_reach fe c k s \<Longrightarrow> d \<noteq> c \<Longrightarrow> srv_event fe d e s = Inr s' \<Longrightarrow> seq_reach fe c k s'"

text \<open>
  The executed requests are \<open>lo\<close> to \<open>m\<close>: requests below \<open>lo\<close> find an empty window whose \<open>front()\<close> reads a higher
  number, and are refused. The window has the last two of them.
\<close>

definition seq_first :: "u32 \<Rightarrow> nat" where
  "seq_first fe = max 1 (unat fe)"

definition seq_window :: "nat \<Rightarrow> nat \<Rightarrow> bool \<Rightarrow> reply_t list \<Rightarrow> bool" where
  "seq_window lo m fin w =
     (if m < lo then w = []
      else if m = lo then (\<exists>r. w = [r] \<and> rt_xid r = of_nat m \<and> rt_cb_present r = fin)
      else (\<exists>q r. w = [q, r] \<and> rt_xid q = of_nat (m - 1) \<and> rt_cb_present q \<and>
              rt_xid r = of_nat m \<and> rt_cb_present r = fin))"

definition seq_inv :: "u32 \<Rightarrow> u32 \<Rightarrow> nat \<Rightarrow> srv \<Rightarrow> bool" where
  "seq_inv fe c k s = (\<exists>m fin. client_execs c s = map of_nat [seq_first fe..<Suc m] \<and> Suc k < 2 ^ 32 \<and>
     (m = k \<or> Suc m = k \<and> (m < seq_first fe \<or> fin)) \<and>
     seq_window (seq_first fe) m fin (case srv_windows s c of None \<Rightarrow> [] | Some w \<Rightarrow> w))"

lemma u32_of_nat_less: "a < 2 ^ 32 \<Longrightarrow> b < 2 ^ 32 \<Longrightarrow> (of_nat a :: u32) < of_nat b \<longleftrightarrow> a < b"
  by (simp add: word_less_nat_alt unat_of_nat)

lemma u32_of_nat_eq: "a < 2 ^ 32 \<Longrightarrow> b < 2 ^ 32 \<Longrightarrow> (of_nat a :: u32) = of_nat b \<longleftrightarrow> a = b"
  using u32_of_nat_less [of a b] u32_of_nat_less [of b a] by (metis nat_neq_iff less_irrefl)

lemmas u32_nat = u32_of_nat_less u32_of_nat_eq

lemma seq_first_less: "j < 2 ^ 32 \<Longrightarrow> 1 \<le> j \<Longrightarrow> fe > (of_nat j :: u32) \<longleftrightarrow> j < seq_first fe"
  by (auto simp: seq_first_def word_less_nat_alt unat_of_nat)

lemma seq_arrive:
  assumes w: "seq_window (seq_first fe) m fin w" "ws c = Some w"
    and j: "1 \<le> j" "j \<le> Suc m" "j = Suc m \<longrightarrow> m < seq_first fe \<or> fin" and "Suc m < 2 ^ 32"
  shows "\<exists>st w'. checkduplicate_and_update fe c (of_nat j) (of_nat (j - 1)) ws = Inr (st, ws(c \<mapsto> w')) \<and>
    (if j = Suc m \<and> seq_first fe \<le> j then st = NEW \<and> seq_window (seq_first fe) (Suc m) False w'
     else st \<noteq> NEW \<and> seq_window (seq_first fe) m fin w' \<and> (st = FORGOTTEN \<longrightarrow> j < seq_first fe \<or> j < m))"
proof -
  let ?lo = "seq_first fe"
  have lt: "j < 2 ^ 32" "j - 1 < 2 ^ 32" "m - 1 < 2 ^ 32" "m < 2 ^ 32" using j assms(6) by auto
  have same: "ws(c \<mapsto> w) = ws" using w(2) by auto
  note cd = checkduplicate_Some [of ws c w fe "of_nat j" "of_nat (j - 1)", OF w(2)]
  consider (none) "m < ?lo" | (one) "m = ?lo" | (two) "m > ?lo" by linarith
  then show ?thesis
  proof cases
    case none
    then have nil: "w = []" using w(1) by (simp add: seq_window_def)
    show ?thesis
    proof (cases "j < ?lo")
      case True
      then have "fe > of_nat j" using seq_first_less [OF lt(1) j(1)] by blast
      then have "checkduplicate_and_update fe c (of_nat j) (of_nat (j - 1)) ws = Inr (FORGOTTEN, ws)"
        using cd nil by (simp add: front_xid_def)
      then show ?thesis using True w same by (intro exI [of _ FORGOTTEN] exI [of _ w]) auto
    next
      case False
      then have jm: "j = Suc m" "?lo = j" using j none by auto
      have "\<not> fe > of_nat j" using seq_first_less [OF lt(1) j(1)] False by blast
      then have "checkduplicate_and_update fe c (of_nat j) (of_nat (j - 1)) ws = Inr (NEW, ws(c \<mapsto> [reply_t_new (of_nat j)]))"
        using cd nil by (simp add: front_xid_def)
      then show ?thesis using jm
        by (intro exI [of _ NEW] exI [of _ "[reply_t_new (of_nat j)]"])
          (auto simp: seq_window_def reply_t_new_def simp del: of_nat_Suc)
    qed
  next
    case one
    then obtain r where r: "w = [r]" "rt_xid r = of_nat m" "rt_cb_present r = fin"
      using w(1) by (auto simp: seq_window_def)
    consider (old) "j < m" | (cur) "j = m" | (new) "j = Suc m" "fin" using j one by fastforce
    then show ?thesis
    proof cases
      case old
      then have "(of_nat j :: u32) < rt_xid r" unfolding r(2) using u32_of_nat_less [OF lt(1,4)] by blast
      then have "checkduplicate_and_update fe c (of_nat j) (of_nat (j - 1)) ws = Inr (FORGOTTEN, ws)"
        using cd by (simp add: front_xid_def r(1))
      then show ?thesis using old w same by (intro exI [of _ FORGOTTEN] exI [of _ w]) auto
    next
      case cur
      then have "rt_xid r = of_nat j" "\<not> (of_nat j :: u32) < of_nat (j - 1)"
        using r(2) u32_of_nat_less [OF lt(1,2)] by auto
      then have "checkduplicate_and_update fe c (of_nat j) (of_nat (j - 1)) ws = Inr (reply_state r, ws)"
        using cd same by (simp add: front_xid_def r(1) del: of_nat_diff)
      then show ?thesis
        using cur w same by (intro exI [of _ "reply_state r"] exI [of _ w]) (auto simp: reply_state_def)
    next
      case new
      have "\<not> rt_xid r < of_nat (j - 1)" "\<not> of_nat j < rt_xid r" "rt_xid r \<noteq> of_nat j"
        unfolding r(2) using new u32_of_nat_less [OF lt(4,2)] u32_of_nat_less [OF lt(1,4)] u32_of_nat_eq [OF lt(4,1)] by auto
      then have "checkduplicate_and_update fe c (of_nat j) (of_nat (j - 1)) ws =
          Inr (NEW, ws(c \<mapsto> [r, reply_t_new (of_nat j)]))"
        using cd by (simp add: front_xid_def r(1) reply_t_new_def del: of_nat_diff)
      then show ?thesis
        using new r one
        by (intro exI [of _ NEW] exI [of _ "[r, reply_t_new (of_nat j)]"])
          (auto simp: seq_window_def reply_t_new_def simp del: of_nat_Suc)
    qed
  next
    case two
    then obtain q r where r: "w = [q, r]" "rt_xid q = of_nat (m - 1)" "rt_cb_present q"
      "rt_xid r = of_nat m" "rt_cb_present r = fin"
      using w(1) by (auto simp: seq_window_def)
    have m2: "1 \<le> m - 1" "?lo \<le> m - 1" "m - 1 < m" using two by (auto simp: seq_first_def)
    consider (old) "j < m - 1" | (prev) "j = m - 1" | (cur) "j = m" | (new) "j = Suc m" "fin"
      using j two by fastforce
    then show ?thesis
    proof cases
      case old
      then have "(of_nat j :: u32) < rt_xid q"
        unfolding r(2) using u32_of_nat_less [OF lt(1,3)] by blast
      then have "checkduplicate_and_update fe c (of_nat j) (of_nat (j - 1)) ws = Inr (FORGOTTEN, ws)"
        using cd by (simp add: front_xid_def r(1))
      then show ?thesis using old w same by (intro exI [of _ FORGOTTEN] exI [of _ w]) auto
    next
      case prev
      then have "rt_xid q = of_nat j" "\<not> (of_nat j :: u32) < of_nat (j - 1)"
        using r(2) u32_of_nat_less [OF lt(1,2)] by auto
      then have "checkduplicate_and_update fe c (of_nat j) (of_nat (j - 1)) ws = Inr (reply_state q, ws)"
        using cd same by (simp add: front_xid_def r(1) del: of_nat_diff)
      then show ?thesis
        using prev m2 w same by (intro exI [of _ "reply_state q"] exI [of _ w]) (auto simp: reply_state_def)
    next
      case cur
      have "rt_xid r = of_nat j" "rt_xid q = of_nat (j - 1)" using cur r by auto
      moreover have "\<not> (of_nat j :: u32) < of_nat (j - 1)" "(of_nat (j - 1) :: u32) \<noteq> of_nat j"
        using u32_of_nat_less [OF lt(1,2)] u32_of_nat_eq [OF lt(2,1)] cur m2 by auto
      ultimately have "checkduplicate_and_update fe c (of_nat j) (of_nat (j - 1)) ws = Inr (reply_state r, ws)"
        using cd same by (simp add: front_xid_def r(1) del: of_nat_diff)
      then show ?thesis
        using cur w same by (intro exI [of _ "reply_state r"] exI [of _ w]) (auto simp: reply_state_def)
    next
      case new
      have "rt_xid q < of_nat (j - 1)" "\<not> of_nat j < rt_xid q" "rt_xid r \<noteq> of_nat j" "\<not> of_nat j < rt_xid r"
        unfolding r(2,4) using new m2 u32_of_nat_less [OF lt(3,2)] u32_of_nat_less [OF lt(1,3)]
          u32_of_nat_less [OF lt(1,4)] u32_of_nat_eq [OF lt(4,1)] by auto
      then have "checkduplicate_and_update fe c (of_nat j) (of_nat (j - 1)) ws =
          Inr (NEW, ws(c \<mapsto> [r, reply_t_new (of_nat j)]))"
        using cd r(3) by (simp add: front_xid_def r(1) reply_t_new_def del: of_nat_diff)
      then show ?thesis
        using new r(4,5) two
        by (intro exI [of _ NEW] exI [of _ "[r, reply_t_new (of_nat j)]"])
          (auto simp: seq_window_def reply_t_new_def simp del: of_nat_Suc)
    qed
  qed
qed

lemma seq_invI:
  assumes "client_execs c s = map of_nat [seq_first fe..<Suc m]" "Suc k < 2 ^ 32" "m = k \<or> Suc m = k \<and> (m < seq_first fe \<or> fin)"
    "seq_window (seq_first fe) m fin (case srv_windows s c of None \<Rightarrow> [] | Some w \<Rightarrow> w)"
  shows "seq_inv fe c k s"
  using assms unfolding seq_inv_def by blast

lemma seq_invE:
  assumes "seq_inv fe c k s"
  obtains m fin where "client_execs c s = map of_nat [seq_first fe..<Suc m]" "Suc k < 2 ^ 32"
    and "m = k \<or> Suc m = k \<and> (m < seq_first fe \<or> fin)"
    and "seq_window (seq_first fe) m fin (case srv_windows s c of None \<Rightarrow> [] | Some w \<Rightarrow> w)"
  using assms unfolding seq_inv_def by blast

lemma seq_request:
  assumes "seq_inv fe c k s" "1 \<le> j" "j \<le> k"
  shows "\<exists>st s'. srv_request fe c (of_nat j) (of_nat (j - 1)) s = Inr (st, s') \<and> seq_inv fe c k s' \<and>
    (st = FORGOTTEN \<and> j = k \<longrightarrow> j < seq_first fe)"
  using assms(1)
proof (rule seq_invE)
  fix m fin
  assume m: "client_execs c s = map of_nat [seq_first fe..<Suc m]" "Suc k < 2 ^ 32"
    "m = k \<or> Suc m = k \<and> (m < seq_first fe \<or> fin)"
    "seq_window (seq_first fe) m fin (case srv_windows s c of None \<Rightarrow> [] | Some w \<Rightarrow> w)"
  let ?ws = "create_window c (srv_windows s)"
  obtain w where w: "?ws c = Some w" "seq_window (seq_first fe) m fin w"
    using m(4) by (cases "srv_windows s c") (auto simp: create_window_def)
  have jm: "j \<le> Suc m" "j = Suc m \<longrightarrow> m < seq_first fe \<or> fin" "Suc m < 2 ^ 32" using m(2,3) assms(3) by auto
  obtain st w' where st: "checkduplicate_and_update fe c (of_nat j) (of_nat (j - 1)) ?ws = Inr (st, ?ws(c \<mapsto> w'))"
      "if j = Suc m \<and> seq_first fe \<le> j then st = NEW \<and> seq_window (seq_first fe) (Suc m) False w'
       else st \<noteq> NEW \<and> seq_window (seq_first fe) m fin w' \<and> (st = FORGOTTEN \<longrightarrow> j < seq_first fe \<or> j < m)"
    using seq_arrive [where ws = ?ws and c = c, OF w(2,1) assms(2) jm] by blast
  let ?s = "s\<lparr>srv_windows := ?ws(c \<mapsto> w'), srv_execs := srv_execs s @ (if st = NEW then [(c, of_nat j)] else [])\<rparr>"
  have r: "srv_request fe c (of_nat j) (of_nat (j - 1)) s = Inr (st, ?s)"
    using st(1) by (simp add: srv_request_def del: of_nat_diff)
  show ?thesis
  proof (cases "j = Suc m \<and> seq_first fe \<le> j")
    case True
    then have new: "st = NEW" "seq_window (seq_first fe) (Suc m) False w'" using st(2) by auto
    have "client_execs c ?s = map of_nat [seq_first fe..<Suc (Suc m)]"
      using m(1) new(1) True by (simp add: client_execs_def del: of_nat_Suc)
    then have "seq_inv fe c k ?s"
      using m(2,3) new(2) True assms(3) by (intro seq_invI [where m = "Suc m" and fin = False]) auto
    then show ?thesis using r new(1) by blast
  next
    case False
    then have old: "st \<noteq> NEW" "seq_window (seq_first fe) m fin w'" "st = FORGOTTEN \<longrightarrow> j < seq_first fe \<or> j < m"
      using st(2) by auto
    have "client_execs c ?s = map of_nat [seq_first fe..<Suc m]" using m(1) old(1) by (simp add: client_execs_def)
    then have "seq_inv fe c k ?s" using m(2,3) old(2) by (intro seq_invI [where m = m and fin = fin]) auto
    moreover have "st = FORGOTTEN \<and> j = k \<longrightarrow> j < seq_first fe" using old(3) m(3) by auto
    ultimately show ?thesis using r by blast
  qed
qed

lemma seq_finish:
  assumes "seq_inv fe c k s" "has_reply c xid False s"
  shows "seq_inv fe c k (s\<lparr>srv_windows := add_reply c xid b sz (srv_windows s)\<rparr>)"
  using assms(1)
proof (rule seq_invE)
  fix m fin
  assume m: "client_execs c s = map of_nat [seq_first fe..<Suc m]" "Suc k < 2 ^ 32"
    "m = k \<or> Suc m = k \<and> (m < seq_first fe \<or> fin)"
    "seq_window (seq_first fe) m fin (case srv_windows s c of None \<Rightarrow> [] | Some w \<Rightarrow> w)"
  obtain w where w: "srv_windows s c = Some w" "list_ex (\<lambda>r. rt_xid r = xid \<and> \<not> rt_cb_present r) w"
    using assms(2) by (auto simp: has_reply_def split: option.splits)
  have "seq_window (seq_first fe) m True (set_reply xid b sz w)"
    using m(4) w by (auto simp: seq_window_def split: if_splits)
  moreover have "m = k"
    using m(3,4) w by (auto simp: seq_window_def split: if_splits)
  ultimately show ?thesis
    using m(1,2) w(1) by (intro seq_invI [where m = m and fin = True])
      (auto simp: client_execs_def add_reply_def)
qed

lemma checkduplicate_frame:
  assumes "checkduplicate_and_update fe d xid xid_rep ws = Inr (st, ws')" "d \<noteq> c"
  shows "ws' c = ws c"
proof (cases "ws d")
  case None
  with assms show ?thesis by (auto simp: checkduplicate_and_update_def)
next
  case (Some w)
  show ?thesis
    using assms unfolding checkduplicate_Some [of ws d w, OF Some]
    by (cases "scan xid xid_rep w") (auto split: if_splits option.splits)
qed

lemma seq_other:
  assumes "seq_inv fe c k s" "d \<noteq> c" "srv_event fe d e s = Inr s'"
  shows "seq_inv fe c k s'"
proof -
  have "srv_windows s' c = srv_windows s c \<and> client_execs c s' = client_execs c s"
  proof (cases e)
    case (Arrive xid xid_rep)
    then obtain st ws where
      "checkduplicate_and_update fe d xid xid_rep (create_window d (srv_windows s)) = Inr (st, ws)"
      "s' = s\<lparr>srv_windows := ws, srv_execs := srv_execs s @ (if st = NEW then [(d, xid)] else [])\<rparr>"
      using assms(3) by (auto simp: srv_request_def rbind_eq_Inr)
    then show ?thesis
      using checkduplicate_frame [of fe d xid xid_rep _ st ws c] assms(2)
      by (simp add: client_execs_def create_window_def split: option.splits)
  next
    case (Finish xid b sz)
    with assms(2,3) show ?thesis by (auto simp: client_execs_def add_reply_def)
  qed
  with assms(1) show ?thesis by (simp add: seq_inv_def)
qed

lemma seq_window_reply:
  assumes "seq_window lo m fin w" "m < 2 ^ 32" "x < 2 ^ 32"
    and "list_ex (\<lambda>r. rt_xid r = of_nat x \<and> rt_cb_present r = True) w"
  shows "x = m \<and> fin \<or> Suc x = m"
proof -
  consider "m < lo" | "m = lo" | "m > lo" by linarith
  then show ?thesis
  proof cases
    case 1
    then show ?thesis using assms(1,4) by (simp add: seq_window_def)
  next
    case 2
    then obtain r where "w = [r]" "rt_xid r = of_nat m" "rt_cb_present r = fin"
      using assms(1) by (auto simp: seq_window_def)
    then show ?thesis using assms(4) u32_of_nat_eq [OF assms(2,3)] by simp
  next
    case 3
    then obtain q r where "w = [q, r]" "rt_xid q = of_nat (m - 1)" "rt_xid r = of_nat m" "rt_cb_present r = fin"
      using assms(1) by (auto simp: seq_window_def)
    moreover have "(of_nat (m - 1) :: u32) = of_nat x \<longleftrightarrow> m - 1 = x"
      using assms(2,3) by (intro u32_of_nat_eq) auto
    moreover from calculation(1) assms(4)
    have "rt_xid q = of_nat x \<or> rt_xid r = of_nat x \<and> rt_cb_present r" by auto
    ultimately have "m - 1 = x \<or> m = x \<and> fin"
      using u32_of_nat_eq [OF assms(2,3)] by metis
    with 3 show ?thesis by auto
  qed
qed

lemma seq_issue:
  assumes "seq_inv fe c k s" "k = 0 \<or> has_reply c (of_nat k) True s \<or> k < seq_first fe" "Suc k < 2 ^ 32 - 1"
  shows "seq_inv fe c (Suc k) s"
  using assms(1)
proof (rule seq_invE)
  fix m fin
  assume m: "client_execs c s = map of_nat [seq_first fe..<Suc m]" "Suc k < 2 ^ 32"
    "m = k \<or> Suc m = k \<and> (m < seq_first fe \<or> fin)"
    "seq_window (seq_first fe) m fin (case srv_windows s c of None \<Rightarrow> [] | Some w \<Rightarrow> w)"
  show ?thesis
  proof (cases "k < seq_first fe")
    case True
    then have "m < seq_first fe" using m(3) by auto
    then show ?thesis using m(1,4) True assms(3)
      by (intro seq_invI [where m = k and fin = fin]) (auto simp: seq_window_def)
  next
    case False
    then have "has_reply c (of_nat k) True s" using assms(2) by (auto simp: seq_first_def)
    then have "k = m \<and> fin \<or> Suc k = m"
      using m(2-4) by (intro seq_window_reply [of "seq_first fe" m fin])
        (auto simp: has_reply_def split: option.splits)
    with m assms(3) show ?thesis by (intro seq_invI [where m = m and fin = fin]) auto
  qed
qed

lemma seq_reach_inv: "seq_reach fe c k s \<Longrightarrow> seq_inv fe c k s"
proof (induction rule: seq_reach.induct)
  case start
  show ?case
    by (rule seq_invI [where m = 0 and fin = False])
      (auto simp: srv_new_def client_execs_def seq_window_def seq_first_def)
next
  case (issue k s)
  have "k = 0 \<or> has_reply c (of_nat k) True s \<or> k < seq_first fe"
  proof (rule ccontr)
    assume no: "\<not> (k = 0 \<or> has_reply c (of_nat k) True s \<or> k < seq_first fe)"
    then obtain s' where "srv_request fe c (of_nat k) (of_nat (k - 1)) s = Inr (FORGOTTEN, s')"
      using issue.hyps(2) by (auto simp: answered_def)
    then show False using seq_request [OF issue.IH, of k] no by auto
  qed
  then show ?case using seq_issue [OF issue.IH _ issue.hyps(3)] by blast
next
  case (arrive k s j st s')
  then show ?case using seq_request [of fe c k s j] by auto
next
  case (finish k s xid b sz s')
  then show ?case using seq_finish by auto
next
  case (other k s d e s')
  then show ?case using seq_other by blast
qed

section \<open>Properties of a client\<close>

text \<open>
  C7. At most once, for a client that starts a call only when the one before has been answered, and makes
  fewer than \<open>2 ^ 32 - 1\<close> of them. However
  often and in whatever order its packets arrive, whatever other clients do and whatever \<open>front()\<close> of an
  empty window reads, none of its requests is executed twice, and apart from that \<open>front()\<close> the server
  stays in the bounds of the window. A client that gives a call up at its deadline and goes on is not
  covered: lemma \<open>timed_out_executed_twice\<close> shows that its requests can be executed twice.
\<close>

theorem sequential_at_most_once:
  assumes "seq_reach fe c k s"
  shows "distinct (client_execs c s) \<and>
    (\<forall>j. 1 \<le> j \<and> j \<le> k \<longrightarrow> (\<exists>st s'. srv_request fe c (of_nat j) (of_nat (j - 1)) s = Inr (st, s')))"
proof -
  note inv = seq_reach_inv [OF assms]
  obtain m where m: "client_execs c s = map of_nat [seq_first fe..<Suc m]" "m < 2 ^ 32"
    using inv by (rule seq_invE) (use that in fastforce)
  have "inj_on (of_nat :: nat \<Rightarrow> u32) (set [seq_first fe..<Suc m])"
  proof (rule inj_onI)
    fix x y assume "x \<in> set [seq_first fe..<Suc m]" "y \<in> set [seq_first fe..<Suc m]" "(of_nat x :: u32) = of_nat y"
    then show "x = y" using m(2) u32_of_nat_eq [of x y] by auto
  qed
  then have "distinct (client_execs c s)" unfolding m(1) by (simp only: distinct_map) simp
  then show ?thesis using seq_request [OF inv] by blast
qed

text \<open>
  Two calls of client 9; the packet of the first arrives twice.
\<close>

theorem sequential_at_most_once_witness:
  "\<exists>s. srv_events 0 9 [Arrive 1 0, Finish 1 [7] 1, Arrive 1 0] srv_new = Inr s \<and>
    client_execs 9 s = [1] \<and> distinct (client_execs 9 s)"
proof -
  let ?s1 = "\<lparr>srv_windows = [9 \<mapsto> [reply_t_new 1]], srv_execs = [(9, 1)]\<rparr>"
  let ?s2 = "\<lparr>srv_windows = [9 \<mapsto> [\<lparr>rt_xid = 1, rt_cb_present = True, rt_buf = [7], rt_sz = 1\<rparr>]],
    srv_execs = [(9, 1)]\<rparr>"
  have r1: "srv_request 0 9 1 0 srv_new = Inr (NEW, ?s1)"
    by (simp add: srv_request_def srv_new_def create_window_def checkduplicate_and_update_def
        front_xid_def scan_loop_0)
  have f1: "srv_event 0 9 (Finish 1 [7] 1) ?s1 = Inr ?s2"
    by (simp add: add_reply_def reply_t_new_def)
  have r2: "srv_request 0 9 1 0 ?s2 = Inr (DONE [7] 1, ?s2)"
    by (simp add: srv_request_def checkduplicate_and_update_def front_xid_def scan_loop_0 reply_state_def)
  have "seq_reach 0 9 1 srv_new"
    using seq_reach.issue [OF seq_reach.start] by simp
  then have "seq_reach 0 9 1 ?s1" by (rule seq_reach.arrive [where j = 1 and st = NEW]) (simp_all add: r1)
  then have "seq_reach 0 9 1 ?s2"
    by (rule seq_reach.finish [OF _ _ f1]) (simp add: has_reply_def reply_t_new_def)
  then have "distinct (client_execs 9 ?s2)" using sequential_at_most_once by auto
  then show ?thesis using r1 f1 r2 by (auto simp: client_execs_def)
qed

text \<open>
  C36. Twice after all. After \<open>erase\<close> the loop of \<open>checkduplicate_and_update\<close> steps over the entry
  that follows, so of the acknowledged replies 1 to 3 it frees 1 and 3 and keeps 2. A late copy
  of request 3 is then neither below the front of the window nor in it: a client that had four
  calls outstanding gets request 3 executed twice.
\<close>

theorem concurrent_executed_twice:
  "\<exists>s. srv_events 0 9
      [Arrive 1 0, Arrive 2 0, Arrive 3 0, Arrive 4 0,
       Finish 1 [] 0, Finish 2 [] 0, Finish 3 [] 0, Finish 4 [] 0,
       Arrive 5 4, Arrive 3 0] srv_new = Inr s \<and>
    client_execs 9 s = [1, 2, 3, 4, 5, 3]"
proof -
  have "case srv_events 0 9
      [Arrive 1 0, Arrive 2 0, Arrive 3 0, Arrive 4 0,
       Finish 1 [] 0, Finish 2 [] 0, Finish 3 [] 0, Finish 4 [] 0,
       Arrive 5 4, Arrive 3 0] srv_new of Inl _ \<Rightarrow> False
    | Inr s \<Rightarrow> client_execs 9 s = [1, 2, 3, 4, 5, 3]"
    by code_simp
  then show ?thesis by (auto split: sum.splits)
qed

text \<open>
  The same for a client with one call at a time that gives up calls 1 to 3 at their deadlines: \<open>call1\<close>
  acknowledges a call also when it ends that way. Packet \<open>j\<close> carries \<open>xid_rep\<close> = \<open>j - 1\<close>.
\<close>

lemma timed_out_executed_twice:
  "\<exists>s. srv_events 0 9
      [Arrive 1 0, Arrive 2 1, Arrive 3 2, Arrive 4 3,
       Finish 1 [] 0, Finish 2 [] 0, Finish 3 [] 0, Finish 4 [] 0,
       Arrive 5 4, Arrive 3 2] srv_new = Inr s \<and>
    client_execs 9 s = [1, 2, 3, 4, 5, 3]"
proof -
  have "case srv_events 0 9
      [Arrive 1 0, Arrive 2 1, Arrive 3 2, Arrive 4 3,
       Finish 1 [] 0, Finish 2 [] 0, Finish 3 [] 0, Finish 4 [] 0,
       Arrive 5 4, Arrive 3 2] srv_new of Inl _ \<Rightarrow> False
    | Inr s \<Rightarrow> client_execs 9 s = [1, 2, 3, 4, 5, 3]"
    by code_simp
  then show ?thesis by (auto split: sum.splits)
qed





end
