(* ===== verification/Rpc_Util.thy ===== *)
theory Rpc_Util
  imports Prelude "HOL-Library.Signed_Division" "HOL-Library.Sublist"
begin

text \<open>
  The auxiliary functions at the end of src/rpc/rpc.cc: arithmetic on \<open>struct timespec\<close>, the
  order on socket addresses and \<open>make_sockaddr\<close>. Times are integers; the C division and
  remainder of \<open>int\<close> values, which round towards 0, are \<open>sdiv\<close> and \<open>smod\<close>.
\<close>

section \<open>Times\<close>

record timespec =
  tv_sec :: int
  tv_nsec :: int

definition cmp_timespec :: "timespec \<Rightarrow> timespec \<Rightarrow> int" where
  "cmp_timespec a b =
     (if tv_sec a > tv_sec b then 1
      else if tv_sec a < tv_sec b then - 1
      else if tv_nsec a > tv_nsec b then 1
      else if tv_nsec a < tv_nsec b then - 1
      else 0)"

function carry_nsec :: "timespec \<Rightarrow> timespec" where
  "carry_nsec r =
     (if tv_nsec r > 1000000000
      then carry_nsec (r\<lparr>tv_sec := tv_sec r + 1, tv_nsec := tv_nsec r - 1000000000\<rparr>)
      else r)"
  by pat_completeness auto
termination
  by (relation "measure (\<lambda>r. nat (tv_nsec r))") auto

declare carry_nsec.simps [simp del]

definition add_timespec :: "timespec \<Rightarrow> int \<Rightarrow> timespec result" where
  "add_timespec a b =
     (let r = \<lparr>tv_sec = tv_sec a + b sdiv 1000, tv_nsec = tv_nsec a + (b smod 1000) * 1000000\<rparr> in
      rbind (VERIFY (tv_nsec r \<ge> 0)) (\<lambda>_. Inr (carry_nsec r)))"

definition diff_timespec :: "timespec \<Rightarrow> timespec \<Rightarrow> int result" where
  "diff_timespec e s =
     (let diff = (if tv_sec e > tv_sec s then (tv_sec e - tv_sec s) * 1000 else 0) in
      rbind (VERIFY (diff \<noteq> 0 \<or> tv_sec e = tv_sec s)) (\<lambda>_.
      Inr (if tv_nsec e > tv_nsec s then diff + (tv_nsec e - tv_nsec s) sdiv 1000000
           else diff - (tv_nsec s - tv_nsec e) sdiv 1000000)))"

section \<open>Addresses\<close>

record sockaddr_in =
  s_addr :: u32
  sin_port :: u16

definition sockaddr_less :: "sockaddr_in \<Rightarrow> sockaddr_in \<Rightarrow> bool" where
  "sockaddr_less a b =
     (s_addr a < s_addr b \<or> (s_addr a = s_addr b \<and> sin_port a < sin_port b))"

text \<open>
  The library functions \<open>inet_addr\<close>, \<open>gethostbyname\<close> and \<open>htons(atoi(_))\<close> are parameters; the
  host name buffer has 200 bytes.
\<close>

definition make_sockaddr ::
    "(string \<Rightarrow> u32 option) \<Rightarrow> (string \<Rightarrow> u32 option) \<Rightarrow> (string \<Rightarrow> u16) \<Rightarrow> string \<Rightarrow> string \<Rightarrow> sockaddr_in result" where
  "make_sockaddr inet gethost portno host port =
     (case inet host of
        Some a \<Rightarrow> Inr \<lparr>s_addr = a, sin_port = portno port\<rparr>
      | None \<Rightarrow>
          (case gethost host of
             None \<Rightarrow> Inl Exited
           | Some a \<Rightarrow> Inr \<lparr>s_addr = a, sin_port = portno port\<rparr>))"

definition make_sockaddr_hp ::
    "(string \<Rightarrow> u32 option) \<Rightarrow> (string \<Rightarrow> u32 option) \<Rightarrow> (string \<Rightarrow> u16) \<Rightarrow> string \<Rightarrow> sockaddr_in result" where
  "make_sockaddr_hp inet gethost portno hostandport =
     (if CHR '':'' \<in> set hostandport then
        let host = takeWhile (\<lambda>c. c \<noteq> CHR '':'') hostandport;
            port = tl (dropWhile (\<lambda>c. c \<noteq> CHR '':'') hostandport) in
        if length host < 200 then make_sockaddr inet gethost portno host port else Inl Undefined
      else make_sockaddr inet gethost portno ''127.0.0.1'' hostandport)"

section \<open>Lemmas\<close>

definition total_ns :: "timespec \<Rightarrow> int" where
  "total_ns t = tv_sec t * 1000000000 + tv_nsec t"

lemma carry_nsec_total [simp]: "total_ns (carry_nsec r) = total_ns r"
proof (induction r rule: carry_nsec.induct)
  case (1 r)
  then show ?case
    by (cases "tv_nsec r > 1000000000") (subst carry_nsec.simps, simp add: total_ns_def)+
qed

lemma carry_nsec_range:
  assumes "0 \<le> tv_nsec r"
  shows "0 \<le> tv_nsec (carry_nsec r) \<and> tv_nsec (carry_nsec r) \<le> 1000000000 \<and>
    (tv_nsec (carry_nsec r) = 0 \<longleftrightarrow> tv_nsec r = 0)"
  using assms
proof (induction r rule: carry_nsec.induct)
  case (1 r)
  then show ?case
    by (cases "tv_nsec r > 1000000000") (subst (1 2 3) carry_nsec.simps, simp)+
qed

lemma sdiv_smod_pos: "0 \<le> (b :: int) \<Longrightarrow> b sdiv 1000 = b div 1000 \<and> b smod 1000 = b mod 1000"
  by (cases "b = 0") (simp_all add: signed_divide_int_def signed_modulo_int_def minus_div_mult_eq_mod)

lemma add_timespec_sec:
  assumes "0 \<le> tv_nsec a" "tv_nsec a < 1000000000" "0 \<le> b" "b mod 1000 = 0"
  shows "add_timespec a b = Inr \<lparr>tv_sec = tv_sec a + b div 1000, tv_nsec = tv_nsec a\<rparr>"
  using assms sdiv_smod_pos [OF assms(3)] by (simp add: add_timespec_def carry_nsec.simps)

lemma cmp_timespec_total:
  assumes "0 \<le> tv_nsec a" "tv_nsec a < 1000000000" "0 \<le> tv_nsec b" "tv_nsec b < 1000000000"
  shows "cmp_timespec a b = sgn (total_ns a - total_ns b)"
proof -
  consider "tv_sec a < tv_sec b" | "tv_sec a > tv_sec b" | "tv_sec a = tv_sec b" by linarith
  then show ?thesis
  proof cases
    case 1
    then have "total_ns a < total_ns b" using assms unfolding total_ns_def by linarith
    with 1 show ?thesis by (simp add: cmp_timespec_def)
  next
    case 2
    then have "total_ns a > total_ns b" using assms unfolding total_ns_def by linarith
    with 2 show ?thesis by (simp add: cmp_timespec_def)
  next
    case 3
    then show ?thesis by (auto simp: cmp_timespec_def total_ns_def sgn_if)
  qed
qed

lemma carry_nsec_mod: "tv_nsec (carry_nsec r) mod 1000000000 = tv_nsec r mod 1000000000"
proof -
  have "tv_nsec (carry_nsec r) - tv_nsec r = 1000000000 * (tv_sec r - tv_sec (carry_nsec r))"
    using carry_nsec_total [of r] unfolding total_ns_def by (simp add: algebra_simps)
  then show ?thesis by (simp only: mod_eq_dvd_iff dvd_triv_left)
qed

lemma mod_top:
  assumes "(x :: int) mod 1000000000 = y mod 1000000000"
    and "0 \<le> x \<and> x \<le> 1000000000 \<and> (x = 0 \<longleftrightarrow> y = 0)" and "0 \<le> y"
  shows "x = 1000000000 \<longleftrightarrow> y > 0 \<and> y mod 1000000000 = 0"
proof (cases "x < 1000000000")
  case True
  then have "x mod 1000000000 = x" using assms(2) by simp
  then show ?thesis using True assms by auto
next
  case False
  then have "x = 1000000000" using assms(2) by linarith
  then show ?thesis using assms by auto
qed

section \<open>Properties\<close>

text \<open>
  C33. Deadlines. For a normalised time and a timeout that is not negative, \<open>add_timespec\<close> adds
  exactly that many milliseconds, its loop ends and leaves a nanosecond part from 0 to 10^9.
  The upper end is reached, exactly when the nanoseconds of the time and the milliseconds of the
  timeout beyond whole seconds add up to one second: then the result has 10^9 nanoseconds,
  which is not a valid \<open>timespec\<close> (\<open>pthread_cond_timedwait\<close> rejects it).
\<close>

theorem add_timespec_exact:
  assumes "0 \<le> tv_nsec a" "tv_nsec a < 1000000000" "0 \<le> b"
  shows "\<exists>r. add_timespec a b = Inr r \<and> total_ns r = total_ns a + b * 1000000 \<and>
    0 \<le> tv_nsec r \<and> tv_nsec r \<le> 1000000000 \<and>
    (tv_nsec r = 1000000000 \<longleftrightarrow> tv_nsec a + (b mod 1000) * 1000000 = 1000000000)"
proof -
  let ?r = "\<lparr>tv_sec = tv_sec a + b div 1000, tv_nsec = tv_nsec a + b mod 1000 * 1000000\<rparr>"
  have pos: "0 \<le> tv_nsec ?r" using assms by simp
  have "add_timespec a b = Inr (carry_nsec ?r)"
    using pos sdiv_smod_pos [OF assms(3)] by (simp add: add_timespec_def)
  moreover have "total_ns ?r = total_ns a + b * 1000000"
  proof -
    have "b div 1000 * 1000000000 + b mod 1000 * 1000000 = b * 1000000" by presburger
    then show ?thesis unfolding total_ns_def by (simp add: algebra_simps)
  qed
  moreover have "tv_nsec (carry_nsec ?r) = 1000000000 \<longleftrightarrow>
      tv_nsec ?r > 0 \<and> tv_nsec ?r mod 1000000000 = 0"
    using carry_nsec_mod carry_nsec_range [OF pos] pos by (rule mod_top)
  moreover have "tv_nsec ?r > 0 \<and> tv_nsec ?r mod 1000000000 = 0 \<longleftrightarrow> tv_nsec ?r = 1000000000"
  proof
    assume r: "tv_nsec ?r > 0 \<and> tv_nsec ?r mod 1000000000 = 0"
    then obtain k where k: "tv_nsec ?r = 1000000000 * k" by (auto simp: mod_eq_0_iff_dvd elim: dvdE)
    have "tv_nsec ?r < 2 * 1000000000" using assms(2) pos_mod_bound [of 1000 b] by simp
    then have "k = 1" using r k by linarith
    then show "tv_nsec ?r = 1000000000" using k by simp
  qed simp
  ultimately show ?thesis using carry_nsec_range [OF pos] by auto
qed

text \<open>
  One millisecond after 0.999 s: the result has 10^9 nanoseconds.
\<close>

theorem add_timespec_exact_witness:
  "\<exists>r. add_timespec \<lparr>tv_sec = 0, tv_nsec = 999000000\<rparr> 1 = Inr r \<and> total_ns r = 1000000000 \<and>
    tv_nsec r = 1000000000"
  using add_timespec_exact [of "\<lparr>tv_sec = 0, tv_nsec = 999000000\<rparr>" 1] by (auto simp: total_ns_def)

end
