(* ===== verification/Thr_Pool.thy ===== *)
theory Thr_Pool
  imports Prelude "HOL-Library.Multiset"
begin

text \<open>
  The bounded queue of include/rpc/fifo.h and the thread pool of src/rpc/thr_pool.cc. An
  operation of the queue that would wait on a condition variable has the result \<open>None\<close> and
  leaves the queue alone; the caller is then blocked and tries again at any later time. The signals
  on \<open>has_space_c_\<close> and \<open>non_empty_c_\<close> are not part of the model, so no statement here is about signals
  that get lost. The pool is a step system:
  threads add jobs, workers take and run them, the destructor queues one poison pill per worker.
  The locale \<open>fifo_queue\<close> is what the users of the queue rely on.
\<close>

section \<open>The queue\<close>

record 'a fifo =
  fifo_q :: "'a list"
  fifo_max :: u32

definition fifo_new :: "u32 \<Rightarrow> 'a fifo" where
  "fifo_new limit = \<lparr>fifo_q = [], fifo_max = limit\<rparr>"

definition fifo_size :: "'a fifo \<Rightarrow> bool" where
  "fifo_size f = (length (fifo_q f) \<noteq> 0)"

definition fifo_enq :: "'a \<Rightarrow> bool \<Rightarrow> 'a fifo \<Rightarrow> bool option \<times> 'a fifo" where
  "fifo_enq e blocking f =
     (if fifo_max f = 0 \<or> length (fifo_q f) < unat (fifo_max f) then (Some True, f\<lparr>fifo_q := fifo_q f @ [e]\<rparr>)
      else if blocking then (None, f)
      else (Some False, f))"

definition fifo_deq :: "'a fifo \<Rightarrow> 'a option \<times> 'a fifo" where
  "fifo_deq f =
     (case fifo_q f of
        [] \<Rightarrow> (None, f)
      | e # q \<Rightarrow> (Some e, f\<lparr>fifo_q := q\<rparr>))"

text \<open>Runs of a queue: the answers of a sequence of calls.\<close>

datatype 'a queue_op = Enq 'a bool | Deq

fun queue_run :: "('a \<Rightarrow> bool \<Rightarrow> 'q \<Rightarrow> bool option \<times> 'q) \<Rightarrow> ('q \<Rightarrow> 'a option \<times> 'q) \<Rightarrow>
    'a queue_op list \<Rightarrow> 'q \<Rightarrow> 'a list \<times> 'a list \<times> 'q" where
  "queue_run enq deq [] q = ([], [], q)"
| "queue_run enq deq (Enq e b # ops) q =
     (case enq e b q of (r, q) \<Rightarrow>
      case queue_run enq deq ops q of (ins, outs, q) \<Rightarrow>
      (if r = Some True then e # ins else ins, outs, q))"
| "queue_run enq deq (Deq # ops) q =
     (case deq q of (r, q) \<Rightarrow>
      case queue_run enq deq ops q of (ins, outs, q) \<Rightarrow>
      (ins, (case r of None \<Rightarrow> outs | Some e \<Rightarrow> e # outs), q))"

locale fifo_queue =
  fixes contents :: "'q \<Rightarrow> 'a list"
    and enq :: "'a \<Rightarrow> bool \<Rightarrow> 'q \<Rightarrow> bool option \<times> 'q"
    and deq :: "'q \<Rightarrow> 'a option \<times> 'q"
  assumes enq_accepts: "enq e b q = (Some True, q') \<Longrightarrow> contents q' = contents q @ [e]"
    and enq_refuses: "enq e b q = (r, q') \<Longrightarrow> r \<noteq> Some True \<Longrightarrow> contents q' = contents q"
    and enq_blocks: "enq e b q = (Some False, q') \<Longrightarrow> \<not> b"
    and deq_takes: "deq q = (Some e, q') \<Longrightarrow> contents q = e # contents q'"
    and deq_waits: "deq q = (None, q') \<Longrightarrow> contents q = [] \<and> contents q' = []"
begin

lemma run_order:
  "queue_run enq deq ops q = (ins, outs, q') \<Longrightarrow> outs @ contents q' = contents q @ ins"
proof (induction ops arbitrary: q ins outs q')
  case Nil
  then show ?case by simp
next
  case (Cons op ops)
  show ?case
  proof (cases op)
    case (Enq e b)
    obtain r q1 where e: "enq e b q = (r, q1)" by (cases "enq e b q")
    obtain ins1 where r: "queue_run enq deq ops q1 = (ins1, outs, q')"
      "ins = (if r = Some True then e # ins1 else ins1)"
      using Cons.prems Enq e by (auto split: prod.splits)
    from Cons.IH [OF r(1)] r(2) e show ?thesis
      by (cases "r = Some True") (auto dest: enq_accepts enq_refuses)
  next
    case Deq
    obtain r q1 where d: "deq q = (r, q1)" by (cases "deq q")
    obtain outs1 where r: "queue_run enq deq ops q1 = (ins, outs1, q')"
      "outs = (case r of None \<Rightarrow> outs1 | Some e \<Rightarrow> e # outs1)"
      using Cons.prems Deq d by (auto split: prod.splits)
    from Cons.IH [OF r(1)] r(2) d show ?thesis
      by (cases r) (auto dest: deq_takes deq_waits)
  qed
qed

end

interpretation job_fifo: fifo_queue fifo_q fifo_enq fifo_deq
  by unfold_locales (auto simp: fifo_enq_def fifo_deq_def split: if_splits list.splits)

definition fifo_ok :: "'a fifo \<Rightarrow> bool" where
  "fifo_ok f = (fifo_max f = 0 \<or> length (fifo_q f) \<le> unat (fifo_max f))"

lemma fifo_enq_ok: "fifo_ok f \<Longrightarrow> fifo_ok (snd (fifo_enq e b f))"
  by (auto simp: fifo_ok_def fifo_enq_def)

lemma fifo_deq_ok: "fifo_ok f \<Longrightarrow> fifo_ok (snd (fifo_deq f))"
  by (auto simp: fifo_ok_def fifo_deq_def split: list.splits)

section \<open>The pool\<close>

datatype 'j worker = Waiting | Running 'j | Exited_worker

text \<open>A job is \<open>Some j\<close>, the poison pill (a null function pointer) is \<open>None\<close>.\<close>

record 'j pool =
  blockadd :: bool
  jobq :: "'j option fifo"
  th :: "'j worker list"
  pills_left :: nat
  destroying :: bool
  accepted :: "'j list"
  finished :: "'j list"

definition pool_new :: "nat \<Rightarrow> bool \<Rightarrow> 'j pool" where
  "pool_new sz blocking =
     \<lparr>blockadd = blocking, jobq = fifo_new (of_nat (100 * sz)), th = replicate sz Waiting,
      pills_left = sz, destroying = False, accepted = [], finished = []\<rparr>"

definition addJob :: "'j \<Rightarrow> 'j pool \<Rightarrow> bool option \<times> 'j pool" where
  "addJob j p =
     (case fifo_enq (Some j) (blockadd p) (jobq p) of (r, q) \<Rightarrow>
      (r, p\<lparr>jobq := q, accepted := (if r = Some True then accepted p @ [j] else accepted p)\<rparr>))"

text \<open>One round of \<open>do_worker\<close> by worker \<open>t\<close>: \<open>takeJob\<close>, then the job or the exit.\<close>

definition takeJob :: "nat \<Rightarrow> 'j pool \<Rightarrow> 'j pool option" where
  "takeJob t p =
     (if t < length (th p) \<and> (case th p ! t of Waiting \<Rightarrow> True | _ \<Rightarrow> False) then
        (case fifo_deq (jobq p) of
           (None, _) \<Rightarrow> None
         | (Some None, q) \<Rightarrow> Some (p\<lparr>jobq := q, th := (th p)[t := Exited_worker]\<rparr>)
         | (Some (Some j), q) \<Rightarrow> Some (p\<lparr>jobq := q, th := (th p)[t := Running j]\<rparr>))
      else None)"

definition finishJob :: "nat \<Rightarrow> 'j pool \<Rightarrow> 'j pool option" where
  "finishJob t p =
     (if t < length (th p) then
        (case th p ! t of
           Running j \<Rightarrow> Some (p\<lparr>th := (th p)[t := Waiting], finished := finished p @ [j]\<rparr>)
         | _ \<Rightarrow> None)
      else None)"

text \<open>The first loop of \<open>~ThrPool\<close>, one iteration; the pills are queued with a blocking \<open>enq\<close>.\<close>

definition destroy_step :: "'j pool \<Rightarrow> 'j pool option" where
  "destroy_step p =
     (if pills_left p = 0 then None
      else
        (case fifo_enq None True (jobq p) of
           (Some True, q) \<Rightarrow> Some (p\<lparr>jobq := q, pills_left := pills_left p - 1, destroying := True\<rparr>)
         | _ \<Rightarrow> None))"

inductive pool_step :: "'j pool \<Rightarrow> 'j pool \<Rightarrow> bool" where
  add: "\<not> destroying p \<Longrightarrow> addJob j p = (r, p') \<Longrightarrow> pool_step p p'"
| take: "takeJob t p = Some p' \<Longrightarrow> pool_step p p'"
| finish: "finishJob t p = Some p' \<Longrightarrow> pool_step p p'"
| destroy: "destroy_step p = Some p' \<Longrightarrow> pool_step p p'"

inductive pool_reach :: "nat \<Rightarrow> bool \<Rightarrow> 'j pool \<Rightarrow> bool" for sz :: nat and blocking :: bool where
  new: "pool_reach sz blocking (pool_new sz blocking)"
| step: "pool_reach sz blocking p \<Longrightarrow> pool_step p p' \<Longrightarrow> pool_reach sz blocking p'"

text \<open>The second loop of \<open>~ThrPool\<close> returns when every worker has exited.\<close>

definition pool_joined :: "'j pool \<Rightarrow> bool" where
  "pool_joined p = (\<forall>t \<in> set (th p). t = Exited_worker)"

section \<open>Invariant of the pool\<close>

primrec run1 :: "'j worker \<Rightarrow> 'j list" where
  "run1 Waiting = []"
| "run1 (Running j) = [j]"
| "run1 Exited_worker = []"

primrec exit1 :: "'j worker \<Rightarrow> unit list" where
  "exit1 Waiting = []"
| "exit1 (Running j) = []"
| "exit1 Exited_worker = [()]"

definition running :: "'j worker list \<Rightarrow> 'j multiset" where
  "running ws = mset (concat (map run1 ws))"

definition exits :: "'j worker list \<Rightarrow> nat" where
  "exits ws = size (mset (concat (map exit1 ws)))"

lemma mset_concat_update:
  "t < length ws \<Longrightarrow>
    mset (concat (map f (ws[t := w]))) + mset (f (ws ! t)) = mset (concat (map f ws)) + mset (f w)"
  by (induction ws arbitrary: t) (auto simp: ac_simps less_Suc_eq_0_disj split: nat.splits)

lemma running_update:
  "t < length ws \<Longrightarrow> running (ws[t := w]) + mset (run1 (ws ! t)) = running ws + mset (run1 w)"
  unfolding running_def by (rule mset_concat_update)

lemma exits_update:
  "t < length ws \<Longrightarrow> exits (ws[t := w]) + length (exit1 (ws ! t)) = exits ws + length (exit1 w)"
  using arg_cong [OF mset_concat_update [of t ws exit1 w], of size]
  unfolding exits_def by simp

lemma exits_le: "exits ws \<le> length ws"
proof (induction ws)
  case (Cons w ws)
  then show ?case by (cases w) (auto simp: exits_def)
qed (simp add: exits_def)

lemma exits_all: "exits ws = length ws \<longleftrightarrow> (\<forall>w \<in> set ws. w = Exited_worker)"
proof (induction ws)
  case (Cons w ws)
  have le: "exits ws \<le> length ws" by (rule exits_le)
  have "exits (w # ws) = length (exit1 w) + exits ws" by (simp add: exits_def)
  then show ?case using Cons le by (cases w) auto
qed (simp add: exits_def)

lemma running_none: "\<forall>w \<in> set ws. w = Exited_worker \<Longrightarrow> running ws = {#}"
  by (auto simp: running_def)

text \<open>
  The queue is a list of jobs followed by poison pills; pills appear only once the destructor runs,
  and a worker that has exited saw a pill, so that no job was left behind it.
\<close>

definition pool_inv :: "nat \<Rightarrow> 'j pool \<Rightarrow> bool" where
  "pool_inv sz p =
     (\<exists>js k. fifo_q (jobq p) = map Some js @ replicate k None \<and>
        length (th p) = sz \<and>
        mset (accepted p) = mset (finished p) + running (th p) + mset js \<and>
        pills_left p + k + exits (th p) = sz \<and>
        (exits (th p) > 0 \<longrightarrow> js = []) \<and>
        (\<not> destroying p \<longrightarrow> pills_left p = sz))"

lemma pool_invE:
  assumes "pool_inv sz p"
  obtains js k where "fifo_q (jobq p) = map Some js @ replicate k None" "length (th p) = sz"
    "mset (accepted p) = mset (finished p) + running (th p) + mset js"
    "pills_left p + k + exits (th p) = sz" "exits (th p) > 0 \<longrightarrow> js = []"
    "\<not> destroying p \<longrightarrow> pills_left p = sz"
  using assms unfolding pool_inv_def by (elim exE conjE)

lemma pool_inv_new: "pool_inv sz (pool_new sz b)"
  unfolding pool_inv_def
  by (rule exI [of _ "[]"], rule exI [of _ 0])
    (simp add: pool_new_def fifo_new_def running_def exits_def)

lemma pool_inv_add:
  assumes "pool_inv sz p" "\<not> destroying p" "addJob j p = (r, p')"
  shows "pool_inv sz p'"
proof -
  obtain js k where i: "fifo_q (jobq p) = map Some js @ replicate k None" "length (th p) = sz"
    "mset (accepted p) = mset (finished p) + running (th p) + mset js"
    "pills_left p + k + exits (th p) = sz" "exits (th p) > 0 \<longrightarrow> js = []"
    "\<not> destroying p \<longrightarrow> pills_left p = sz"
    using assms(1) by (rule pool_invE)
  then have k: "k = 0" "exits (th p) = 0" using assms(2) by auto
  consider "p' = p" | "fifo_q (jobq p') = fifo_q (jobq p) @ [Some j]" "th p' = th p"
      "accepted p' = accepted p @ [j]" "finished p' = finished p" "pills_left p' = pills_left p"
      "destroying p' = destroying p"
    using assms(3) by (auto simp: addJob_def fifo_enq_def split: if_splits)
  then show ?thesis
  proof cases
    case 1
    then show ?thesis using assms(1) by simp
  next
    case 2
    then show ?thesis unfolding pool_inv_def using i k
      by (intro exI [of _ "js @ [j]"] exI [of _ 0]) auto
  qed
qed

lemma pool_inv_take:
  assumes "pool_inv sz p" "takeJob t p = Some p'"
  shows "pool_inv sz p'"
proof -
  obtain js k where i: "fifo_q (jobq p) = map Some js @ replicate k None" "length (th p) = sz"
    "mset (accepted p) = mset (finished p) + running (th p) + mset js"
    "pills_left p + k + exits (th p) = sz" "exits (th p) > 0 \<longrightarrow> js = []"
    "\<not> destroying p \<longrightarrow> pills_left p = sz"
    using assms(1) by (rule pool_invE)
  have t: "t < length (th p)" "th p ! t = Waiting"
    using assms(2) by (auto simp: takeJob_def split: if_splits worker.splits)
  show ?thesis
  proof (cases js)
    case Nil
    then obtain k' where k': "k = Suc k'" and
      p': "fifo_q (jobq p') = replicate k' None" "th p' = (th p)[t := Exited_worker]"
        "accepted p' = accepted p" "finished p' = finished p" "pills_left p' = pills_left p"
        "destroying p' = destroying p"
      using assms(2) t i(1) by (cases k) (auto simp: takeJob_def fifo_deq_def)
    have "running (th p') = running (th p)" "exits (th p') = exits (th p) + 1"
      using running_update [OF t(1), of Exited_worker] exits_update [OF t(1), of Exited_worker] t p'
      by simp_all
    then show ?thesis unfolding pool_inv_def using i p' k' Nil
      by (intro exI [of _ "[]"] exI [of _ k']) auto
  next
    case (Cons j js')
    then have p': "fifo_q (jobq p') = map Some js' @ replicate k None"
        "th p' = (th p)[t := Running j]" "accepted p' = accepted p" "finished p' = finished p"
        "pills_left p' = pills_left p" "destroying p' = destroying p"
      using assms(2) t i(1) by (auto simp: takeJob_def fifo_deq_def)
    have "running (th p') = add_mset j (running (th p))" "exits (th p') = exits (th p)"
      using running_update [OF t(1), of "Running j"] exits_update [OF t(1), of "Running j"] t p'
      by simp_all
    then show ?thesis unfolding pool_inv_def using i p' Cons
      by (intro exI [of _ js'] exI [of _ k]) auto
  qed
qed

lemma pool_inv_finish:
  assumes "pool_inv sz p" "finishJob t p = Some p'"
  shows "pool_inv sz p'"
proof -
  obtain j where t: "t < length (th p)" "th p ! t = Running j"
    and p': "p' = p\<lparr>th := (th p)[t := Waiting], finished := finished p @ [j]\<rparr>"
    using assms(2) by (auto simp: finishJob_def split: if_splits worker.splits)
  have "add_mset j (running (th p')) = running (th p)" "exits (th p') = exits (th p)"
    using running_update [OF t(1), of Waiting] exits_update [OF t(1), of Waiting] t p' by simp_all
  then show ?thesis using assms(1) p' unfolding pool_inv_def
    by (elim exE conjE) (intro exI conjI, auto)
qed

lemma pool_inv_destroy:
  assumes "pool_inv sz p" "destroy_step p = Some p'"
  shows "pool_inv sz p'"
proof -
  obtain js k where i: "fifo_q (jobq p) = map Some js @ replicate k None" "length (th p) = sz"
    "mset (accepted p) = mset (finished p) + running (th p) + mset js"
    "pills_left p + k + exits (th p) = sz" "exits (th p) > 0 \<longrightarrow> js = []"
    "\<not> destroying p \<longrightarrow> pills_left p = sz"
    using assms(1) by (rule pool_invE)
  have p': "fifo_q (jobq p') = fifo_q (jobq p) @ [None]" "th p' = th p" "accepted p' = accepted p"
      "finished p' = finished p" "pills_left p = Suc (pills_left p')" "destroying p'"
    using assms(2) by (auto simp: destroy_step_def fifo_enq_def split: if_splits)
  have "fifo_q (jobq p') = map Some js @ replicate (Suc k) None"
    using p'(1) i(1) by (simp add: replicate_append_same)
  then show ?thesis unfolding pool_inv_def using i p'
    by (intro exI [of _ js] exI [of _ "Suc k"]) auto
qed

lemma pool_inv_step: "pool_step p p' \<Longrightarrow> pool_inv sz p \<Longrightarrow> pool_inv sz p'"
  by (induction rule: pool_step.induct)
    (auto intro: pool_inv_add pool_inv_take pool_inv_finish pool_inv_destroy)

lemma pool_inv_reach: "pool_reach sz b p \<Longrightarrow> pool_inv sz p"
  by (induction rule: pool_reach.induct) (auto intro: pool_inv_new pool_inv_step)

text \<open>Once the destructor runs every step brings the pool nearer to its end.\<close>

definition pool_measure :: "'j pool \<Rightarrow> nat" where
  "pool_measure p =
     3 * pills_left p + 2 * length (fifo_q (jobq p)) + size (running (th p))"

lemma pool_measure_step:
  assumes "pool_step p p'" "destroying p"
  shows "pool_measure p' < pool_measure p \<and> destroying p'"
  using assms
proof cases
  case (take t)
  then have t: "t < length (th p)" "th p ! t = Waiting"
    by (auto simp: takeJob_def split: if_splits worker.splits)
  have r: "running ((th p)[t := w]) = running (th p) + mset (run1 w)" for w
    using running_update [OF t(1), of w] t by simp
  show ?thesis using take t assms(2)
    by (auto simp: takeJob_def fifo_deq_def pool_measure_def r split: list.splits option.splits)
next
  case (finish t)
  then obtain j where t: "t < length (th p)" "th p ! t = Running j"
    and p': "p' = p\<lparr>th := (th p)[t := Waiting], finished := finished p @ [j]\<rparr>"
    by (auto simp: finishJob_def split: if_splits worker.splits)
  have "running (th p) = add_mset j (running (th p'))"
    using running_update [OF t(1), of Waiting] t p' by simp
  then show ?thesis using p' assms(2) by (simp add: pool_measure_def)
qed (auto simp: destroy_step_def fifo_enq_def pool_measure_def split: if_splits)

lemma pool_progress:
  assumes "pool_inv sz p" "destroying p" "\<not> pool_joined p"
  shows "\<exists>p'. pool_step p p'"
proof -
  obtain w where "w \<in> set (th p)" "w \<noteq> Exited_worker" using assms(3) by (auto simp: pool_joined_def)
  then obtain t where t: "t < length (th p)" "th p ! t = w" "w \<noteq> Exited_worker"
    by (auto simp: in_set_conv_nth)
  show ?thesis
  proof (cases w)
    case (Running j)
    then show ?thesis using t by (auto simp: finishJob_def intro!: exI pool_step.finish [of t])
  next
    case Waiting
    show ?thesis
    proof (cases "fifo_q (jobq p)")
      case (Cons j q)
      then show ?thesis using t Waiting
        by (cases j) (auto simp: takeJob_def fifo_deq_def intro!: exI pool_step.take [of t])
    next
      case Nil
      then have "pills_left p + exits (th p) = length (th p)"
        using assms(1) by (auto simp: pool_inv_def)
      moreover have "exits (th p) \<noteq> length (th p)"
        using assms(3) by (simp add: exits_all pool_joined_def)
      ultimately have "pills_left p \<noteq> 0" by linarith
      then show ?thesis using Nil
        by (auto simp: destroy_step_def fifo_enq_def unat_gt_0 intro!: exI pool_step.destroy)
    qed
  qed (use t in simp)
qed

lemma pool_run_bounded:
  "(pool_step ^^ k) p p' \<Longrightarrow> destroying p \<Longrightarrow> k + pool_measure p' \<le> pool_measure p \<and> destroying p'"
proof (induction k arbitrary: p')
  case (Suc k)
  then obtain p1 where "(pool_step ^^ k) p p1" "pool_step p1 p'" by auto
  then show ?case using Suc pool_measure_step [of p1 p'] by fastforce
qed simp

section \<open>Properties\<close>

text \<open>
  Order of the queue. Whatever sequence of \<open>enq\<close> and \<open>deq\<close> calls is made, on a queue that
  starts empty, the elements taken out, followed by the ones still inside, are exactly the accepted
  ones, in the order in which they were accepted.
\<close>

theorem fifo_order:
  assumes "queue_run fifo_enq fifo_deq ops (fifo_new limit) = (ins, outs, q)"
  shows "outs @ fifo_q q = ins"
  using job_fifo.run_order [OF assms] by (simp add: fifo_new_def)

text \<open>
  A queue of capacity one: the second element is refused, then the first taken.
\<close>

theorem fifo_order_witness:
  "queue_run fifo_enq fifo_deq [Enq 7 False, Enq 8 False, Deq, Deq] (fifo_new 1) =
     ([7 :: nat], [7], fifo_new 1) \<and> [7] @ fifo_q (fifo_new 1) = [7 :: nat]"
proof -
  have "queue_run fifo_enq fifo_deq [Enq 7 False, Enq 8 False, Deq, Deq] (fifo_new 1) =
     ([7 :: nat], [7], fifo_new 1)" by code_simp
  with fifo_order [OF this] show ?thesis by simp
qed

text \<open>
  C19. The destructor drains the pool. From any reachable state in which \<open>~ThrPool\<close> has begun, no
  run of workers and destructor is longer than \<open>pool_measure\<close>; a run that has not joined all the
  workers can go on, so every maximal run ends with all workers joined; and then every job that
  \<open>addJob\<close> ever accepted has been run exactly once, and the queue is empty.
\<close>

theorem pool_drains:
  assumes "pool_reach sz blocking p" "destroying p" "0 < sz"
  shows "(\<forall>k p'. (pool_step ^^ k) p p' \<longrightarrow> k \<le> pool_measure p) \<and>
    (\<forall>p'. pool_step\<^sup>*\<^sup>* p p' \<and> \<not> pool_joined p' \<longrightarrow> (\<exists>p''. pool_step p' p'')) \<and>
    (\<forall>p'. pool_step\<^sup>*\<^sup>* p p' \<and> pool_joined p' \<longrightarrow>
       mset (finished p') = mset (accepted p') \<and> fifo_q (jobq p') = [])"
proof -
  have bound: "k \<le> pool_measure p" if "(pool_step ^^ k) p p'" for k p'
    using pool_run_bounded [OF that assms(2)] by linarith
  have inv: "pool_inv sz p' \<and> destroying p'" if "pool_step\<^sup>*\<^sup>* p p'" for p'
    using that pool_inv_reach [OF assms(1)] assms(2)
    by (induction rule: rtranclp_induct) (auto intro: pool_inv_step dest: pool_measure_step)
  have joined: "mset (finished p') = mset (accepted p') \<and> fifo_q (jobq p') = []"
    if "pool_inv sz p'" "pool_joined p'" for p'
    using that assms(3) exits_all [of "th p'"] running_none [of "th p'"]
    by (auto simp: pool_inv_def pool_joined_def)
  show ?thesis using bound inv joined pool_progress by blast
qed

text \<open>
  A pool of one worker: job 5 is added, then the destructor queues its pill; the worker runs the
  job, takes the pill and exits.
\<close>

definition pool_ex :: "nat pool" where
  "pool_ex = the (destroy_step (snd (addJob 5 (pool_new 1 True))))"

definition pool_ex_end :: "nat pool" where
  "pool_ex_end = the (takeJob 0 (the (finishJob 0 (the (takeJob 0 pool_ex)))))"

lemma pool_ex_reach: "pool_reach 1 True pool_ex"
proof -
  have a: "pool_step (pool_new 1 True) (snd (addJob (5 :: nat) (pool_new 1 True)))"
    by (rule pool_step.add [of _ 5 "Some True"]) code_simp+
  have b: "pool_step (snd (addJob (5 :: nat) (pool_new 1 True))) pool_ex"
    unfolding pool_ex_def by (rule pool_step.destroy) code_simp
  show ?thesis by (rule pool_reach.step [OF pool_reach.step [OF pool_reach.new a] b])
qed

lemma pool_ex_run: "pool_step\<^sup>*\<^sup>* pool_ex pool_ex_end"
proof -
  have a: "pool_step pool_ex (the (takeJob 0 pool_ex))"
    by (rule pool_step.take [of 0]) code_simp
  have b: "pool_step (the (takeJob 0 pool_ex)) (the (finishJob 0 (the (takeJob 0 pool_ex))))"
    by (rule pool_step.finish [of 0]) code_simp
  have c: "pool_step (the (finishJob 0 (the (takeJob 0 pool_ex)))) pool_ex_end"
    unfolding pool_ex_end_def by (rule pool_step.take [of 0]) code_simp
  show ?thesis using a b c by (meson rtranclp.rtrancl_into_rtrancl rtranclp.rtrancl_refl)
qed

theorem pool_drains_witness:
  "pool_reach 1 True pool_ex \<and> destroying pool_ex \<and> pool_joined pool_ex_end \<and>
    mset (finished pool_ex_end) = mset (accepted pool_ex_end)"
proof -
  have d: "destroying pool_ex" by code_simp
  have j: "pool_joined pool_ex_end" by code_simp
  show ?thesis using pool_drains [OF pool_ex_reach d] pool_ex_reach pool_ex_run d j by simp
qed

end
