(* ===== verification/Rpc_Client.thy ===== *)
theory Rpc_Client
  imports Codec Rpc_Util "HOL-Library.AList"
begin

text \<open>
  The client side of the RPC library: class \<open>rpcc\<close> of include/rpc/rpc.h and src/rpc/rpc.cc.
  The state of an \<open>rpcc\<close> is a record; each section of code that runs under \<open>m_\<close> is one function
  on it. A call is \<open>call1_begin\<close>, the loop of \<open>call1\<close> and \<open>call1_end\<close>; what the loop sees of the
  outside (the clock, connections, wake-ups, and what other threads do to the \<open>rpcc\<close> meanwhile) is
  a list of observations, one per iteration.
\<close>

section \<open>State\<close>

definition rpc_bind :: u32 where
  "rpc_bind = 1"

definition timeout_failure :: cint where
  "timeout_failure = - 1"

definition unmarshal_args_failure :: cint where
  "unmarshal_args_failure = - 2"

definition unmarshal_reply_failure :: cint where
  "unmarshal_reply_failure = - 3"

definition atmostonce_failure :: cint where
  "atmostonce_failure = - 4"

definition oldsrv_failure :: cint where
  "oldsrv_failure = - 5"

definition bind_failure :: cint where
  "bind_failure = - 6"

definition cancel_failure :: cint where
  "cancel_failure = - 7"

lemmas rpc_const_defs = rpc_bind_def timeout_failure_def unmarshal_args_failure_def
  unmarshal_reply_failure_def atmostonce_failure_def oldsrv_failure_def bind_failure_def
  cancel_failure_def

type_synonym conn = nat

record caller =
  ca_un :: unmarshall
  ca_intret :: cint
  ca_done :: bool

record request =
  rq_buf :: "byte list"
  rq_id :: cint

definition request_clear :: request where
  "request_clear = \<lparr>rq_buf = [], rq_id = - 1\<rparr>"

definition request_isvalid :: "request \<Rightarrow> bool" where
  "request_isvalid q = (rq_id q \<noteq> - 1)"

record rpcc =
  dst :: sockaddr_in
  clt_nonce :: u32
  srv_nonce :: u32
  bind_done :: bool
  next_xid :: u32
  c_lossytest :: cint
  retrans :: bool
  c_reachable :: bool
  chan :: "conn option"
  destroy_wait :: bool
  calls :: "(u32 \<times> caller) list"
  xid_rep_window :: "u32 list"
  dup_req :: request
  xid_rep_done :: cint

definition to_max :: cint where
  "to_max = 120000"

definition to_min :: cint where
  "to_min = 1000"

text \<open>\<open>rnd\<close> is what \<open>random()\<close> returns, \<open>lossy\<close> the value of RPC_LOSSY, 0 if unset.\<close>

definition rpcc_new :: "u32 \<Rightarrow> cint \<Rightarrow> sockaddr_in \<Rightarrow> bool \<Rightarrow> rpcc" where
  "rpcc_new rnd lossy d retr =
     \<lparr>dst = d, clt_nonce = (if retr then rnd else 0), srv_nonce = 0, bind_done = False,
      next_xid = 1, c_lossytest = lossy, retrans = retr, c_reachable = True, chan = None,
      destroy_wait = False, calls = [], xid_rep_window = [0], dup_req = request_clear,
      xid_rep_done = - 1\<rparr>"

section \<open>The window of replies\<close>

fun insert_xid :: "u32 \<Rightarrow> u32 list \<Rightarrow> u32 list" where
  "insert_xid xid [] = [xid]"
| "insert_xid xid (x # w) = (if x > xid then xid # x # w else x # insert_xid xid w)"

text \<open>The inner loop: \<open>i\<close> is the position of the iterator, \<open>pop_front\<close> moves it one down.\<close>

fun pop_loop :: "u32 list \<Rightarrow> nat \<Rightarrow> u32 list \<times> nat" where
  "pop_loop [] i = ([], i)"
| "pop_loop (f # w) i = (if f + 1 = (f # w) ! i then pop_loop w (i - 1) else (f # w, i))"

lemma pop_loop_length:
  "i < length w \<Longrightarrow> pop_loop w i = (w', i') \<Longrightarrow> length w' - i' = length w - i \<and> i' < length w'"
proof (induction w arbitrary: i)
  case (Cons f w)
  show ?case
  proof (cases "f + 1 = (f # w) ! i")
    case True
    then have "i \<noteq> 0" by (cases i) auto
    then show ?thesis using Cons True by (cases i) auto
  qed (use Cons.prems in auto)
qed simp

function compress :: "u32 list \<Rightarrow> nat \<Rightarrow> u32 list" where
  "compress w i =
     (if i < length w then (case pop_loop w i of (w, i) \<Rightarrow> compress w (i + 1)) else w)"
  by auto

termination
proof (relation "measure (\<lambda>(w, i). length w - i)", goal_cases)
  case (2 w i w' i')
  then show ?case using pop_loop_length [of i w w' i'] by auto
qed simp

declare compress.simps [simp del]

definition update_xid_rep :: "u32 \<Rightarrow> u32 list \<Rightarrow> u32 list" where
  "update_xid_rep xid w = (if xid \<le> hd w then w else compress (insert_xid xid w) 1)"

section \<open>Calls\<close>

definition find_call :: "u32 \<Rightarrow> rpcc \<Rightarrow> caller option" where
  "find_call xid c = map_of (calls c) xid"

definition call_done :: "u32 \<Rightarrow> rpcc \<Rightarrow> bool" where
  "call_done xid c = (case find_call xid c of None \<Rightarrow> False | Some ca \<Rightarrow> ca_done ca)"

datatype cl_ev = Ev_connect "conn option" | Ev_send conn "byte list" | Ev_incref conn | Ev_decref conn

definition get_refconn ::
    "conn option \<Rightarrow> (conn \<Rightarrow> bool) \<Rightarrow> conn option \<Rightarrow> rpcc \<Rightarrow> conn option \<times> rpcc \<times> cl_ev list" where
  "get_refconn connect_to_dst isdead ch c =
     (let (c, ev) =
        (case chan c of
           None \<Rightarrow> (c\<lparr>chan := connect_to_dst\<rparr>, [Ev_connect connect_to_dst])
         | Some k \<Rightarrow>
             if isdead k
             then (c\<lparr>chan := connect_to_dst\<rparr>, [Ev_decref k, Ev_connect connect_to_dst])
             else (c, []))
      in case chan c of
           None \<Rightarrow> (ch, c, ev)
         | Some k \<Rightarrow>
             (Some k, c, ev @ (case ch of None \<Rightarrow> [] | Some k' \<Rightarrow> [Ev_decref k']) @ [Ev_incref k]))"

text \<open>The local variables of a running \<open>call1\<close>.\<close>

record call1_st =
  ca_xid :: u32
  req_pdu :: "byte list"
  st_xid_rep :: cint
  curr_to :: cint
  finaldeadline :: timespec
  transmit :: bool
  st_ch :: "conn option"

definition call1_begin ::
    "timespec \<Rightarrow> u32 \<Rightarrow> marshall \<Rightarrow> unmarshall \<Rightarrow> cint \<Rightarrow> rpcc \<Rightarrow> ((cint + call1_st) \<times> rpcc) result" where
  "call1_begin now proc req rep to c =
     (if (proc \<noteq> rpc_bind \<and> \<not> bind_done c) \<or> (proc = rpc_bind \<and> bind_done c)
      then Inr (Inl bind_failure, c)
      else if destroy_wait c then Inr (Inl cancel_failure, c)
      else
        let xid = next_xid c;
            ca = \<lparr>ca_un = rep, ca_intret = 0, ca_done = False\<rparr>;
            c = c\<lparr>next_xid := xid + 1, calls := AList.update xid ca (calls c)\<rparr>;
            h = \<lparr>rq_xid = xid, rq_proc = proc, rq_clt_nonce = clt_nonce c,
                 rq_srv_nonce = srv_nonce c, rq_xid_rep = hd (xid_rep_window c)\<rparr>
        in rbind (pack_req_header h req) (\<lambda>req.
           rbind (add_timespec now (sint to)) (\<lambda>final.
           Inr (Inr \<lparr>ca_xid = xid, req_pdu = m_bytes req, st_xid_rep = hd (xid_rep_window c),
                    curr_to = to_min, finaldeadline = final, transmit = True, st_ch = None\<rparr>, c))))"

text \<open>
  What one iteration of the loop meets: the steps of other threads before it, the connection that
  \<open>connect_to_dst\<close> would give, which connections are dead at the transmission and after the wait,
  the clock, and the wake-ups of \<open>pthread_cond_timedwait\<close>, each after steps of other threads.
\<close>

datatype wake = Signal "rpcc \<Rightarrow> rpcc" | Etimedout "rpcc \<Rightarrow> rpcc"

record obs =
  o_env :: "rpcc \<Rightarrow> rpcc"
  o_conn :: "conn option"
  o_dead :: "conn \<Rightarrow> bool"
  o_now :: timespec
  o_wakes :: "wake list"
  o_dead_after :: "conn \<Rightarrow> bool"

text \<open>Lines 226 to 252. \<open>get_refconn\<close> and the sends, when \<open>transmit\<close> is set.\<close>

definition take_forgot :: "rpcc \<Rightarrow> request \<times> rpcc" where
  "take_forgot c =
     (if request_isvalid (dup_req c) \<and> sint (xid_rep_done c) > sint (rq_id (dup_req c))
      then (dup_req c, c\<lparr>dup_req := request_clear\<rparr>)
      else (request_clear, c))"

definition call1_transmit :: "obs \<Rightarrow> call1_st \<Rightarrow> rpcc \<Rightarrow> call1_st \<times> rpcc \<times> cl_ev list" where
  "call1_transmit ob st c =
     (if transmit st then
        (case get_refconn (o_conn ob) (o_dead ob) (st_ch st) c of (k, c, ev) \<Rightarrow>
         case k of
           None \<Rightarrow> (st\<lparr>st_ch := k, transmit := False\<rparr>, c, ev)
         | Some k' \<Rightarrow>
             if c_reachable c then
               (case take_forgot c of (forgot, c) \<Rightarrow>
                (st\<lparr>st_ch := k, transmit := False\<rparr>, c,
                 ev @ (if request_isvalid forgot then [Ev_send k' (rq_buf forgot)] else []) @
                 [Ev_send k' (req_pdu st)]))
             else (st\<lparr>st_ch := k, transmit := False\<rparr>, c, ev))
      else (st, c, []))"

text \<open>Lines 256 to 261: the next deadline; the last one clears \<open>finaldeadline.tv_sec\<close>.\<close>

definition call1_deadline :: "timespec \<Rightarrow> call1_st \<Rightarrow> (timespec \<times> call1_st) result" where
  "call1_deadline now st =
     rbind (add_timespec now (sint (curr_to st))) (\<lambda>next.
     if cmp_timespec next (finaldeadline st) > 0
     then Inr (finaldeadline st, st\<lparr>finaldeadline := (finaldeadline st)\<lparr>tv_sec := 0\<rparr>\<rparr>)
     else Inr (next, st))"

text \<open>
  The wait loop, lines 266 to 272. \<open>pthread_cond_timedwait\<close> refuses a deadline with a nanosecond
  part outside 0..999999999 at once (EINVAL) and keeps the mutex, so that no other thread can set
  \<open>done\<close> and the loop spins: the result is \<open>None\<close>, as when the wake-ups run out.
\<close>

definition valid_deadline :: "timespec \<Rightarrow> bool" where
  "valid_deadline t = (0 \<le> tv_nsec t \<and> tv_nsec t < 1000000000)"

fun call1_wait :: "timespec \<Rightarrow> u32 \<Rightarrow> wake list \<Rightarrow> rpcc \<Rightarrow> rpcc option" where
  "call1_wait deadline xid ws c =
     (if call_done xid c then Some c
      else if \<not> valid_deadline deadline then None
      else
        (case ws of
           [] \<Rightarrow> None
         | Signal f # ws \<Rightarrow> call1_wait deadline xid ws (f c)
         | Etimedout f # ws \<Rightarrow> Some (f c)))"

declare call1_wait.simps [simp del]

definition call1_retry :: "obs \<Rightarrow> call1_st \<Rightarrow> rpcc \<Rightarrow> call1_st" where
  "call1_retry ob st c =
     st\<lparr>transmit := (transmit st \<or> retrans c \<and> (case st_ch st of None \<Rightarrow> True | Some k \<Rightarrow> o_dead_after ob k)),
        curr_to := curr_to st + curr_to st\<rparr>"

fun call1_loop :: "obs list \<Rightarrow> call1_st \<Rightarrow> rpcc \<Rightarrow> cl_ev list \<Rightarrow>
    (call1_st \<times> rpcc \<times> cl_ev list) option result" where
  "call1_loop [] st c ev = Inr None"
| "call1_loop (ob # obs) st c ev =
     (case call1_transmit ob st (o_env ob c) of (st, c, ev') \<Rightarrow>
      if tv_sec (finaldeadline st) = 0 then Inr (Some (st, c, ev @ ev'))
      else
        rbind (call1_deadline (o_now ob) st) (\<lambda>(deadline, st).
        case call1_wait deadline (ca_xid st) (o_wakes ob) c of
          None \<Rightarrow> Inr None
        | Some c \<Rightarrow>
            if call_done (ca_xid st) c then Inr (Some (st, c, ev @ ev'))
            else call1_loop obs (call1_retry ob st c) c (ev @ ev')))"

text \<open>Lines 287 to 321.\<close>

definition remember_dup :: "call1_st \<Rightarrow> rpcc \<Rightarrow> rpcc" where
  "remember_dup st c =
     (let c = (if \<not> request_isvalid (dup_req c)
               then c\<lparr>dup_req := \<lparr>rq_buf = req_pdu st, rq_id = ca_xid st\<rparr>\<rparr> else c)
      in if sint (st_xid_rep st) > sint (xid_rep_done c) then c\<lparr>xid_rep_done := st_xid_rep st\<rparr> else c)"

definition call1_end :: "call1_st \<Rightarrow> rpcc \<Rightarrow> (cint \<times> unmarshall) \<times> rpcc \<times> cl_ev list" where
  "call1_end st c =
     (let ca = (case find_call (ca_xid st) c of
                  None \<Rightarrow> \<lparr>ca_un = unmarshall_new, ca_intret = 0, ca_done = False\<rparr>
                | Some ca \<Rightarrow> ca);
          c = c\<lparr>calls := AList.delete (ca_xid st) (calls c),
                xid_rep_window := update_xid_rep (ca_xid st) (xid_rep_window c)\<rparr>;
          c = (if ca_done ca \<and> c_lossytest c \<noteq> 0 then remember_dup st c else c)
      in ((if ca_done ca then ca_intret ca else timeout_failure, ca_un ca), c,
          case st_ch st of None \<Rightarrow> [] | Some k \<Rightarrow> [Ev_decref k]))"

definition call1 :: "obs list \<Rightarrow> timespec \<Rightarrow> u32 \<Rightarrow> marshall \<Rightarrow> unmarshall \<Rightarrow> cint \<Rightarrow> rpcc \<Rightarrow>
    ((cint \<times> unmarshall) \<times> rpcc \<times> cl_ev list) option result" where
  "call1 obs now proc req rep to c =
     rbind (call1_begin now proc req rep to c) (\<lambda>(r, c).
     case r of
       Inl e \<Rightarrow> Inr (Some ((e, rep), c, []))
     | Inr st \<Rightarrow>
         rbind (call1_loop obs st c []) (\<lambda>r.
         case r of
           None \<Rightarrow> Inr None
         | Some (st, c, ev) \<Rightarrow>
             (case call1_end st c of (r, c, ev') \<Rightarrow> Inr (Some (r, c, ev @ ev')))))"

text \<open>The upcall of a connection with a reply.\<close>

definition rpcc_got_pdu :: "byte list \<Rightarrow> nat \<Rightarrow> rpcc \<Rightarrow> (bool \<times> rpcc) result" where
  "rpcc_got_pdu b sz c =
     rbind (unpack_reply_header (unmarshall_buf b sz)) (\<lambda>(h, rep).
     if \<not> u_ok rep then Inr (True, c)
     else
       let c = c\<lparr>xid_rep_window := update_xid_rep (rp_xid h) (xid_rep_window c)\<rparr>
       in case find_call (rp_xid h) c of
            None \<Rightarrow> Inr (True, c)
          | Some ca \<Rightarrow>
              if ca_done ca then Inr (True, c)
              else
                let ca = \<lparr>ca_un = fst (unmarshall_take_in (ca_un ca) rep), ca_intret = rp_ret h,
                          ca_done = True\<rparr>
                in Inr (True, c\<lparr>calls := AList.update (rp_xid h) ca (calls c)\<rparr>))"

text \<open>\<open>cancel\<close> up to its wait; it returns when \<open>calls\<close> is empty.\<close>

definition cancel_start :: "rpcc \<Rightarrow> rpcc" where
  "cancel_start c =
     (let c = c\<lparr>calls := map (\<lambda>(x, ca). (x, ca\<lparr>ca_done := True, ca_intret := cancel_failure\<rparr>)) (calls c)\<rparr>
      in if calls c = [] then c else c\<lparr>destroy_wait := True\<rparr>)"

definition set_reachable :: "bool \<Rightarrow> rpcc \<Rightarrow> rpcc" where
  "set_reachable r c = c\<lparr>c_reachable := r\<rparr>"

definition rpcc_islossy :: "rpcc \<Rightarrow> bool" where
  "rpcc_islossy c = (sint (c_lossytest c) > 0)"

definition rpcc_destroy :: "rpcc \<Rightarrow> cl_ev list result" where
  "rpcc_destroy c =
     rbind (VERIFY (length (calls c) = 0)) (\<lambda>_.
     Inr (case chan c of None \<Rightarrow> [] | Some k \<Rightarrow> [Ev_decref k]))"

section \<open>The call templates\<close>

text \<open>
  \<open>get\<close> is the \<open>operator>>\<close> of the result type, \<open>put1\<close>, \<open>put2\<close> ... the \<open>operator<<\<close> of the
  argument types. \<open>mem\<close> is the content of the buffer \<open>malloc\<close> returns.
\<close>

type_synonym 'r call_result = "((cint \<times> 'r option) \<times> rpcc \<times> cl_ev list) option result"

definition call_m :: "(unmarshall \<Rightarrow> ('r \<times> unmarshall) result) \<Rightarrow> obs list \<Rightarrow> timespec \<Rightarrow> u32 \<Rightarrow>
    marshall \<Rightarrow> cint \<Rightarrow> rpcc \<Rightarrow> 'r call_result" where
  "call_m get obs now proc req to c =
     rbind (call1 obs now proc req unmarshall_new to c) (\<lambda>ret.
     case ret of
       None \<Rightarrow> Inr None
     | Some ((intret, u), c, ev) \<Rightarrow>
         if sint intret < 0 then Inr (Some ((intret, None), c, ev))
         else
           rbind (get u) (\<lambda>(r, u).
           rbind (VERIFY (unmarshall_okdone u)) (\<lambda>_.
           Inr (Some ((intret, Some r), c, ev)))))"

definition call_0 where
  "call_0 get mem obs now proc to c = call_m get obs now proc (marshall_new mem) to c"

definition call_1 where
  "call_1 put1 get mem obs now proc a1 to c =
     rbind (put1 a1 (marshall_new mem)) (\<lambda>m. call_m get obs now proc m to c)"

definition call_2 where
  "call_2 put1 put2 get mem obs now proc a1 a2 to c =
     rbind (put1 a1 (marshall_new mem)) (\<lambda>m.
     rbind (put2 a2 m) (\<lambda>m. call_m get obs now proc m to c))"

definition call_3 where
  "call_3 put1 put2 put3 get mem obs now proc a1 a2 a3 to c =
     rbind (put1 a1 (marshall_new mem)) (\<lambda>m.
     rbind (put2 a2 m) (\<lambda>m.
     rbind (put3 a3 m) (\<lambda>m. call_m get obs now proc m to c)))"

definition call_4 where
  "call_4 put1 put2 put3 put4 get mem obs now proc a1 a2 a3 a4 to c =
     rbind (put1 a1 (marshall_new mem)) (\<lambda>m.
     rbind (put2 a2 m) (\<lambda>m.
     rbind (put3 a3 m) (\<lambda>m.
     rbind (put4 a4 m) (\<lambda>m. call_m get obs now proc m to c))))"

definition call_5 where
  "call_5 put1 put2 put3 put4 put5 get mem obs now proc a1 a2 a3 a4 a5 to c =
     rbind (put1 a1 (marshall_new mem)) (\<lambda>m.
     rbind (put2 a2 m) (\<lambda>m.
     rbind (put3 a3 m) (\<lambda>m.
     rbind (put4 a4 m) (\<lambda>m.
     rbind (put5 a5 m) (\<lambda>m. call_m get obs now proc m to c)))))"

definition call_6 where
  "call_6 put1 put2 put3 put4 put5 put6 get mem obs now proc a1 a2 a3 a4 a5 a6 to c =
     rbind (put1 a1 (marshall_new mem)) (\<lambda>m.
     rbind (put2 a2 m) (\<lambda>m.
     rbind (put3 a3 m) (\<lambda>m.
     rbind (put4 a4 m) (\<lambda>m.
     rbind (put5 a5 m) (\<lambda>m.
     rbind (put6 a6 m) (\<lambda>m. call_m get obs now proc m to c))))))"

definition call_7 where
  "call_7 put1 put2 put3 put4 put5 put6 put7 get mem obs now proc a1 a2 a3 a4 a5 a6 a7 to c =
     rbind (put1 a1 (marshall_new mem)) (\<lambda>m.
     rbind (put2 a2 m) (\<lambda>m.
     rbind (put3 a3 m) (\<lambda>m.
     rbind (put4 a4 m) (\<lambda>m.
     rbind (put5 a5 m) (\<lambda>m.
     rbind (put6 a6 m) (\<lambda>m.
     rbind (put7 a7 m) (\<lambda>m. call_m get obs now proc m to c)))))))"

definition rpcc_bind_call :: "(nat \<Rightarrow> byte) \<Rightarrow> obs list \<Rightarrow> timespec \<Rightarrow> cint \<Rightarrow> rpcc \<Rightarrow>
    (cint \<times> rpcc \<times> cl_ev list) option result" where
  "rpcc_bind_call mem obs now to c =
     rbind (call_1 put_int get_int mem obs now rpc_bind 0 to c) (\<lambda>ret.
     Inr (case ret of
       None \<Rightarrow> None
     | Some ((ret, r), c, ev) \<Rightarrow>
         (case r of
            None \<Rightarrow> Some (ret, c, ev)
          | Some r \<Rightarrow>
              Some (ret, if ret = 0 then c\<lparr>bind_done := True, srv_nonce := r\<rparr> else c, ev))))"

section \<open>The window is the set of answered requests\<close>

text \<open>
  \<open>window_of R w\<close>: the window \<open>w\<close> represents the set \<open>R\<close> of answered xids. Its front is the largest
  number up to which every xid is answered, and the rest are the answered xids above it.
\<close>

definition window_of :: "u32 set \<Rightarrow> u32 list \<Rightarrow> bool" where
  "window_of R w =
     (w \<noteq> [] \<and> sorted w \<and> set w = {x \<in> R. hd w \<le> x} \<and> {.. hd w} \<subseteq> R \<and>
      (hd w = - 1 \<or> hd w + 1 \<notin> R))"

lemma window_of_new: "window_of {0} [0]"
  by (auto simp: window_of_def)

lemma insert_xid_set [simp]: "set (insert_xid x w) = insert x (set w)"
  by (induction w) auto

lemma insert_xid_sorted [simp]: "sorted (insert_xid x w) = sorted w"
  by (induction w) (auto simp: less_imp_le dest: leI)

lemma insert_xid_Nil: "insert_xid x w \<noteq> []"
  by (cases w) auto

lemma insert_xid_hd: "w \<noteq> [] \<Longrightarrow> hd w < x \<Longrightarrow> hd (insert_xid x w) = hd w"
  by (cases w) auto

lemma pop_loop_stay: "w \<noteq> [] \<Longrightarrow> hd w + 1 \<noteq> w ! i \<Longrightarrow> pop_loop w i = (w, i)"
  by (cases w) auto

lemma pop_loop_run: "pop_loop (replicate i v @ (v + 1) # r) i = ((v + 1) # r, 0)"
proof (induction i)
  case (Suc i)
  then show ?case by (simp add: nth_append)
qed simp

lemma between_succ: "(v :: u32) \<le> x \<Longrightarrow> x \<le> v + 1 \<Longrightarrow> x \<noteq> v + 1 \<Longrightarrow> x = v"
  by unat_arith

lemma succ_ge: "(v :: u32) \<noteq> - 1 \<Longrightarrow> v \<le> v + 1"
proof -
  assume "v \<noteq> - 1"
  then have "1 + v \<noteq> 0" by (metis add.commute eq_neg_iff_add_eq_0)
  then show ?thesis using unatSuc [of v] by (simp add: word_le_nat_alt add.commute)
qed

lemma pop_loop_go:
  assumes "sorted w" "i < length w" "hd w + 1 = w ! i" "\<forall>j < i. w ! j \<noteq> hd w + 1"
  shows "pop_loop w i = (drop i w, 0)"
proof -
  let ?v = "hd w"
  have i: "0 < i" using assms(2,3) by (cases i) (auto simp: hd_conv_nth)
  have v: "w ! j = ?v" if "j < i" for j
  proof -
    have "w ! 0 \<le> w ! j" "w ! j \<le> w ! i" using assms(1,2) that by (auto intro: sorted_nth_mono)
    moreover have "hd w = w ! 0" using assms(2) by (cases w) auto
    moreover have "w ! j \<noteq> ?v + 1" using assms(4) that by simp
    ultimately show ?thesis using assms(3) by (metis between_succ)
  qed
  have "take i w = replicate i ?v" using assms(2) v by (intro nth_equalityI) auto
  then have "w = replicate i ?v @ (?v + 1) # drop (Suc i) w"
    using assms(2,3) by (metis id_take_nth_drop)
  then show ?thesis using pop_loop_run [of i ?v "drop (Suc i) w"] assms(2,3)
    by (metis Cons_nth_drop_Suc)
qed

definition compressed :: "u32 list \<Rightarrow> u32 list \<Rightarrow> bool" where
  "compressed w w' =
     (w' \<noteq> [] \<and> sorted w' \<and> hd w \<le> hd w' \<and> {hd w .. hd w'} \<subseteq> set w \<and>
      set w' = {x \<in> set w. hd w' \<le> x} \<and> hd w' + 1 \<notin> set w')"

lemma compressed_refl:
  assumes "sorted w" "w \<noteq> []" "hd w + 1 \<notin> set w"
  shows "compressed w w"
proof -
  have "\<forall>x \<in> set w. hd w \<le> x" using assms(1,2) by (cases w) auto
  then show ?thesis using assms by (auto simp: compressed_def)
qed

lemma compressed_drop:
  assumes "sorted w" "i < length w" "hd w + 1 = w ! i" "\<forall>j < i. w ! j \<noteq> hd w + 1"
    and "compressed (drop i w) w'"
  shows "compressed w w'"
proof -
  let ?d = "drop i w"
  have ne: "w \<noteq> []" using assms(2) by auto
  have hd: "hd ?d = hd w + 1" using assms(2,3) by (simp add: hd_drop_conv_nth)
  have "w ! 0 \<le> w ! i" using assms(1,2) by (auto intro: sorted_nth_mono)
  then have "hd w \<le> hd w + 1" using assms(3) ne by (metis hd_conv_nth)
  then have nz: "hd w < hd w + 1" by (simp add: order_less_le)
  have sub: "set ?d \<subseteq> set w" by (rule set_drop_subset)
  have above: "x \<in> set ?d" if "x \<in> set w" "hd w + 1 \<le> x" for x
  proof -
    obtain j where j: "j < length w" "x = w ! j" using \<open>x \<in> set w\<close> by (auto simp: in_set_conv_nth)
    have "w ! j \<le> w ! i" if "j < i" using assms(1,2) that by (auto intro: sorted_nth_mono)
    then have "i \<le> j" using assms(3,4) that(2) j(2) by (metis not_le order_antisym)
    then have "x = ?d ! (j - i)" "j - i < length ?d" using j by auto
    then show ?thesis by (metis nth_mem)
  qed
  have "{hd w .. hd w'} \<subseteq> insert (hd w) {hd w + 1 .. hd w'}"
    using between_succ [of "hd w"] by (auto simp: not_le less_imp_le)
  moreover have "{hd w + 1 .. hd w'} \<subseteq> set w"
    using assms(5) hd sub unfolding compressed_def by auto
  ultimately have "{hd w .. hd w'} \<subseteq> set w" using ne by auto
  moreover have "set w' = {x \<in> set w. hd w' \<le> x}"
    using assms(5) hd sub above unfolding compressed_def by auto
  ultimately show ?thesis using assms(5) hd nz unfolding compressed_def by auto
qed

lemma compress_spec:
  assumes "sorted w" "w \<noteq> []" "i \<le> length w" "\<forall>j < i. w ! j \<noteq> hd w + 1"
  shows "compressed w (compress w i)"
  using assms
proof (induction w i rule: compress.induct)
  case (1 w i)
  show ?case
  proof (cases "i < length w")
    case False
    then have "compress w i = w" by (simp add: compress.simps [of w])
    moreover have "hd w + 1 \<notin> set w" using 1(4,5) False by (auto simp: in_set_conv_nth)
    ultimately show ?thesis using 1(2,3) by (simp add: compressed_refl)
  next
    case True
    show ?thesis
    proof (cases "hd w + 1 = w ! i")
      case False
      then have p: "pop_loop w i = (w, i)" using 1(3) by (rule pop_loop_stay [rotated])
      then have "compress w i = compress w (i + 1)" using True by (simp add: compress.simps [of w i])
      moreover have "\<forall>j < i + 1. w ! j \<noteq> hd w + 1" using 1(5) False by (auto simp: less_Suc_eq)
      ultimately show ?thesis using 1(1) [OF True p [symmetric]] 1(2,3) True by simp
    next
      case run: True
      have p: "pop_loop w i = (drop i w, 0)"
        using 1(2) True run 1(5) by (rule pop_loop_go)
      have "\<forall>j < 0 + 1. drop i w ! j \<noteq> hd (drop i w) + 1" using True by (simp add: hd_drop_conv_nth)
      then have "compressed (drop i w) (compress (drop i w) (0 + 1))"
        using True 1(2) by (intro 1(1) [OF True p [symmetric]]) (auto simp: sorted_wrt_drop)
      moreover have "compress w i = compress (drop i w) 1" using True p by (simp add: compress.simps [of w i])
      ultimately show ?thesis using 1(2) True run 1(5) by (simp add: compressed_drop)
    qed
  qed
qed

text \<open>Answering \<open>xid\<close> (any number of times, in any order) adds it to the set.\<close>

lemma update_xid_rep_window:
  assumes "window_of R w"
  shows "window_of (insert xid R) (update_xid_rep xid w)"
proof (cases "xid \<le> hd w")
  case True
  then have "insert xid R = R" using assms by (auto simp: window_of_def)
  then show ?thesis using assms True by (simp add: update_xid_rep_def)
next
  case False
  let ?v = "insert_xid xid w"
  have w: "w \<noteq> []" "sorted w" "set w = {x \<in> R. hd w \<le> x}" "{.. hd w} \<subseteq> R"
    using assms by (auto simp: window_of_def)
  have v: "?v \<noteq> []" "sorted ?v" "hd ?v = hd w" "set ?v = insert xid (set w)"
    using w(1,2) False by (auto simp: insert_xid_hd insert_xid_Nil)
  have "compressed ?v (compress ?v 1)"
    using v(1,2) by (intro compress_spec) (auto simp: hd_conv_nth Suc_le_eq)
  moreover obtain w' where w': "w' = compress ?v 1" by simp
  ultimately have c: "w' \<noteq> []" "sorted w'" "hd w \<le> hd w'" "{hd w .. hd w'} \<subseteq> insert xid (set w)"
      "set w' = {x \<in> insert xid (set w). hd w' \<le> x}" "hd w' + 1 \<notin> set w'"
    using v(3,4) by (auto simp: compressed_def)
  have "{.. hd w'} \<subseteq> {.. hd w} \<union> {hd w .. hd w'}" by auto
  then have "{.. hd w'} \<subseteq> insert xid R" using w(3,4) c(4) by blast
  moreover have s: "set w' = {x \<in> insert xid R. hd w' \<le> x}" using c(3,5) w(3) by auto
  moreover have "hd w' = - 1 \<or> hd w' + 1 \<notin> insert xid R"
    using c(6) s succ_ge [of "hd w'"] by auto
  moreover have "update_xid_rep xid w = w'" using False w' by (simp add: update_xid_rep_def)
  ultimately show ?thesis using c(1,2) unfolding window_of_def by blast
qed

section \<open>The loop of a call ends\<close>

lemma pack_req_header_bytes:
  assumes "m_inv m"
  shows "\<exists>m'. pack_req_header h m = Inr m' \<and> m_inv m' \<and>
    m_bytes m' = take 4 (m_bytes m) @ enc_req_header h @ drop 24 (m_bytes m)"
proof -
  obtain b where b: "m_buf m = Some b" "length b = m_capa m" "24 \<le> m_ind m" "m_ind m \<le> m_capa m"
    using assms by (auto simp: m_inv_def split: option.splits)
  obtain as r where r: "b = as @ r" "length as = 4" using b split_at [of 4 b] by auto
  obtain bs cs where cs: "r = bs @ cs" "length bs = 20" using b r split_at [of 20 r] by auto
  let ?m = "m\<lparr>m_buf := Some (as @ enc_req_header h @ cs)\<rparr>"
  have "pack_req_header h m = Inr ?m" using b r cs by (intro pack_req_header_over [of m as bs]) auto
  moreover have "m_inv ?m" using assms b r cs by (simp add: m_inv_def)
  moreover have "m_bytes ?m = take 4 (m_bytes m) @ enc_req_header h @ drop 24 (m_bytes m)"
    using b r cs by (simp add: m_bytes_def take_drop)
  ultimately show ?thesis by blast
qed

lemma call1_wait_ends:
  assumes "valid_deadline d" "\<exists>f. Etimedout f \<in> set ws"
  shows "\<exists>c'. call1_wait d xid ws c = Some c'"
  using assms(2)
proof (induction ws arbitrary: c)
  case (Cons w ws)
  show ?case
  proof (cases w)
    case (Signal f)
    then show ?thesis using Cons assms(1) by (subst call1_wait.simps) auto
  next
    case (Etimedout f)
    then show ?thesis using assms(1) by (subst call1_wait.simps) auto
  qed
qed simp

text \<open>
  What is assumed of time, for a call with deadline \<open>final\<close>: the clock is normalised; a wait that
  times out ends not before its deadline (\<open>t\<close> is the deadline of the wait before, \<open>to\<close> the current
  timeout in milliseconds); every wait that is not answered times out at some point. Once the next
  deadline is past \<open>final\<close> nothing more is asked of the clock.
\<close>

fun timely :: "timespec \<Rightarrow> int \<Rightarrow> int \<Rightarrow> obs list \<Rightarrow> bool" where
  "timely final t to [] = True"
| "timely final t to (ob # obs) =
     (let d = total_ns (o_now ob) + to * 1000000 in
      valid_deadline (o_now ob) \<and> t \<le> total_ns (o_now ob) \<and>
      list_ex (\<lambda>w. case w of Etimedout _ \<Rightarrow> True | Signal _ \<Rightarrow> False) (o_wakes ob) \<and>
      (d \<le> total_ns final \<longrightarrow> timely final d (2 * to) obs))"

lemma timesout_ex:
  "list_ex (\<lambda>w. case w of Etimedout _ \<Rightarrow> True | Signal _ \<Rightarrow> False) ws \<Longrightarrow> \<exists>f. Etimedout f \<in> set ws"
  by (induction ws) (auto split: wake.splits)

lemma call1_transmit_frame:
  "call1_transmit ob st c = (st', c', ev) \<Longrightarrow>
    finaldeadline st' = finaldeadline st \<and> curr_to st' = curr_to st"
  by (auto simp: call1_transmit_def split: if_splits prod.splits option.splits)

lemma call1_loop_final:
  "tv_sec (finaldeadline st) = 0 \<Longrightarrow> obs \<noteq> [] \<Longrightarrow> \<exists>r. call1_loop obs st c ev = Inr (Some r)"
  by (cases obs) (auto split: prod.splits dest!: call1_transmit_frame)

lemma call1_retry_frame:
  "finaldeadline (call1_retry ob st c) = finaldeadline st \<and>
   curr_to (call1_retry ob st c) = curr_to st + curr_to st"
  by (simp add: call1_retry_def)

lemma sint_double:
  fixes x :: cint
  assumes "0 \<le> sint x" "2 * sint x < 2 ^ 31"
  shows "sint (x + x) = 2 * sint x"
proof -
  have "sint (x + x) = signed_take_bit 31 (sint x + sint x)" by (simp only: sint_word_ariths) simp
  also have "\<dots> = sint x + sint x" using assms by (intro signed_take_bit_int_eq_self) auto
  finally show ?thesis by simp
qed

lemma call1_deadline_cases:
  assumes "valid_deadline now" "valid_deadline (finaldeadline st)"
    and "sint (curr_to st) = to" "0 \<le> to" "to mod 1000 = 0"
  shows "\<exists>d st'. call1_deadline now st = Inr (d, st') \<and> valid_deadline d \<and> curr_to st' = curr_to st \<and>
    (if total_ns now + to * 1000000 > total_ns (finaldeadline st)
     then tv_sec (finaldeadline st') = 0 else finaldeadline st' = finaldeadline st)"
proof -
  let ?n = "\<lparr>tv_sec = tv_sec now + to div 1000, tv_nsec = tv_nsec now\<rparr>"
  have n: "add_timespec now to = Inr ?n"
    using assms by (intro add_timespec_sec) (auto simp: valid_deadline_def)
  have v: "valid_deadline ?n" using assms(1) by (simp add: valid_deadline_def)
  obtain q where q: "to = 1000 * q" using assms(5) by (auto simp: dvd_eq_mod_eq_0 [symmetric])
  have t: "total_ns ?n = total_ns now + to * 1000000" unfolding total_ns_def q by simp
  have "cmp_timespec ?n (finaldeadline st) = sgn (total_ns ?n - total_ns (finaldeadline st))"
    using v assms(2) by (intro cmp_timespec_total) (auto simp: valid_deadline_def)
  then show ?thesis using n v t assms(2,3)
    by (auto simp: call1_deadline_def sgn_if valid_deadline_def split: if_splits)
qed

lemma call1_loop_step:
  assumes "call1_transmit ob st (o_env ob c) = (st1, c1, ev1)" "tv_sec (finaldeadline st1) \<noteq> 0"
    and "call1_deadline (o_now ob) st1 = Inr (d, st2)"
    and "call1_wait d (ca_xid st2) (o_wakes ob) c1 = Some c2"
    and "\<And>ev. \<exists>r. call1_loop obs (call1_retry ob st2 c2) c2 ev = Inr (Some r)"
  shows "\<exists>r. call1_loop (ob # obs) st c ev = Inr (Some r)"
  using assms by auto

text \<open>
  One iteration either passes the final deadline, and the next iteration leaves the loop, or goes
  on with twice the timeout.
\<close>

lemma call1_loop_iter:
  assumes "timely (finaldeadline st) t to (ob # obs)" "valid_deadline (finaldeadline st)"
    and "sint (curr_to st) = to" "0 \<le> to" "to mod 1000 = 0" "obs \<noteq> []"
    and cont: "\<And>st' c ev. total_ns (o_now ob) + to * 1000000 \<le> total_ns (finaldeadline st) \<Longrightarrow>
      finaldeadline st' = finaldeadline st \<Longrightarrow> curr_to st' = curr_to st + curr_to st \<Longrightarrow>
      \<exists>r. call1_loop obs st' c ev = Inr (Some r)"
  shows "\<exists>r. call1_loop (ob # obs) st c ev = Inr (Some r)"
proof (cases "tv_sec (finaldeadline st) = 0")
  case True
  then show ?thesis by (intro call1_loop_final) auto
next
  case False
  obtain st1 c1 ev1 where t: "call1_transmit ob st (o_env ob c) = (st1, c1, ev1)" by (rule prod_cases3)
  then have f1: "finaldeadline st1 = finaldeadline st" "curr_to st1 = curr_to st"
    by (auto dest: call1_transmit_frame)
  have now: "valid_deadline (o_now ob)" "\<exists>f. Etimedout f \<in> set (o_wakes ob)"
    using assms(1) timesout_ex [of "o_wakes ob"] by (auto simp: Let_def)
  obtain d st2 where d: "call1_deadline (o_now ob) st1 = Inr (d, st2)" "valid_deadline d"
      "curr_to st2 = curr_to st"
      "if total_ns (o_now ob) + to * 1000000 > total_ns (finaldeadline st)
       then tv_sec (finaldeadline st2) = 0 else finaldeadline st2 = finaldeadline st"
    using call1_deadline_cases [of "o_now ob" st1 to] now(1) f1 assms(2-5) by auto
  obtain c2 where w: "call1_wait d (ca_xid st2) (o_wakes ob) c1 = Some c2"
    using call1_wait_ends [OF d(2) now(2)] by blast
  have "\<exists>r. call1_loop obs (call1_retry ob st2 c2) c2 ev = Inr (Some r)" for ev
  proof (cases "total_ns (o_now ob) + to * 1000000 > total_ns (finaldeadline st)")
    case True
    then show ?thesis using d(4) assms(6) by (intro call1_loop_final) (auto simp: call1_retry_frame)
  next
    case False
    then show ?thesis using d(3,4) by (intro cont) (auto simp: call1_retry_frame)
  qed
  then show ?thesis using t False f1(1) d(1) w by (intro call1_loop_step) auto
qed

lemma call1_loop_returns:
  assumes "timely (finaldeadline st) t to obs" "valid_deadline (finaldeadline st)"
    and "sint (curr_to st) = to" "0 \<le> to" "to mod 1000 = 0" "to * 2 ^ n < 2 ^ 31"
    and "total_ns (finaldeadline st) < t + to * (2 ^ (n + 1) - 1) * 1000000" "n + 2 \<le> length obs"
  shows "\<exists>r. call1_loop obs st c ev = Inr (Some r)"
  using assms
proof (induction n arbitrary: t to obs st c ev)
  case 0
  then obtain ob obs' where obs: "obs = ob # obs'" "obs' \<noteq> []" by (cases obs) (auto simp: Suc_le_eq)
  have "t \<le> total_ns (o_now ob)" using 0(1) obs by (simp add: Let_def)
  then have "\<not> total_ns (o_now ob) + to * 1000000 \<le> total_ns (finaldeadline st)" using 0(7) by simp
  then show ?case unfolding obs using 0(1-5) obs by (intro call1_loop_iter [of st t to]) auto
next
  case (Suc n)
  then obtain ob obs' where obs: "obs = ob # obs'" "n + 2 \<le> length obs'"
    by (cases obs) (auto simp: Suc_le_eq)
  have now: "t \<le> total_ns (o_now ob)" using Suc(2) obs by (simp add: Let_def)
  have pow: "to * 1 \<le> to * 2 ^ n" using Suc.prems(4) by (intro mult_left_mono) auto
  have dbl: "sint (curr_to st + curr_to st) = 2 * to"
    using Suc.prems(3,4,6) pow by (intro sint_double [of "curr_to st", simplified Suc.prems(3)]) auto
  show ?case unfolding obs
  proof (rule call1_loop_iter [of st t to])
    fix st' :: call1_st and c ev
    assume go: "total_ns (o_now ob) + to * 1000000 \<le> total_ns (finaldeadline st)"
      and st': "finaldeadline st' = finaldeadline st" "curr_to st' = curr_to st + curr_to st"
    have "timely (finaldeadline st) (total_ns (o_now ob) + to * 1000000) (2 * to) obs'"
      using Suc.prems(1) obs go by (simp add: Let_def)
    moreover have "total_ns (finaldeadline st) <
        total_ns (o_now ob) + to * 1000000 + 2 * to * (2 ^ (n + 1) - 1) * 1000000"
      using Suc.prems(7) now by (simp add: algebra_simps)
    moreover have "2 * to mod 1000 = 0" using Suc.prems(5) by (simp add: mod_mult_right_eq mod_eq_0_iff_dvd)
    ultimately show "\<exists>r. call1_loop obs' st' c ev = Inr (Some r)"
      using Suc.prems(2,4,6) st' dbl obs(2)
      by (intro Suc.IH [of st' "total_ns (o_now ob) + to * 1000000" "2 * to"]) auto
  qed (use Suc.prems obs in auto)
qed

lemma call1_begin_ok:
  assumes "m_inv req" "add_timespec now (sint to) = Inr f" "(proc = rpc_bind) = (\<not> bind_done c)"
    "\<not> destroy_wait c"
  shows "call1_begin now proc req rep to c =
    Inr (Inr \<lparr>ca_xid = next_xid c,
      req_pdu = take 4 (m_bytes req) @ enc_req_header \<lparr>rq_xid = next_xid c, rq_proc = proc,
        rq_clt_nonce = clt_nonce c, rq_srv_nonce = srv_nonce c, rq_xid_rep = hd (xid_rep_window c)\<rparr> @
        drop 24 (m_bytes req),
      st_xid_rep = hd (xid_rep_window c), curr_to = to_min, finaldeadline = f, transmit = True, st_ch = None\<rparr>,
      c\<lparr>next_xid := next_xid c + 1,
        calls := AList.update (next_xid c) \<lparr>ca_un = rep, ca_intret = 0, ca_done = False\<rparr> (calls c)\<rparr>)"
proof -
  let ?h = "\<lparr>rq_xid = next_xid c, rq_proc = proc, rq_clt_nonce = clt_nonce c,
    rq_srv_nonce = srv_nonce c, rq_xid_rep = hd (xid_rep_window c)\<rparr>"
  obtain m' where "pack_req_header ?h req = Inr m'"
      "m_bytes m' = take 4 (m_bytes req) @ enc_req_header ?h @ drop 24 (m_bytes req)"
    using pack_req_header_bytes [OF assms(1)] by blast
  then show ?thesis using assms(2-4) by (auto simp: call1_begin_def Let_def)
qed

lemma call1_begin_total:
  assumes "m_inv req" "add_timespec now (sint to) = Inr f"
  shows "\<exists>r c'. call1_begin now proc req rep to c = Inr (r, c') \<and>
    (\<forall>st. r = Inr st \<longrightarrow> finaldeadline st = f \<and> curr_to st = to_min)"
proof (cases "(proc = rpc_bind) = (\<not> bind_done c) \<and> \<not> destroy_wait c")
  case True
  then show ?thesis using call1_begin_ok [OF assms] by auto
next
  case False
  then show ?thesis by (auto simp: call1_begin_def)
qed

section \<open>What a client acknowledges\<close>

text \<open>
  The steps of an \<open>rpcc\<close>, in any order: beginnings and ends of calls of any number of threads,
  transmissions, \<open>cancel\<close>, replies, each of which answers a request that was issued, the end of \<open>bind\<close> with
  the nonce of a server, and \<open>set_reachable\<close>. There are fewer than \<open>2 ^ 32 - 1\<close> calls.
\<close>

definition issued_reply :: "byte list \<Rightarrow> nat \<Rightarrow> rpcc \<Rightarrow> bool" where
  "issued_reply b sz c =
     (case unpack_reply_header (unmarshall_buf b sz) of
        Inl _ \<Rightarrow> True
      | Inr (h, u) \<Rightarrow> u_ok u \<longrightarrow> rp_xid h < next_xid c)"

inductive rpcc_step :: "rpcc \<Rightarrow> rpcc \<Rightarrow> bool" where
  starts: "call1_begin now proc req rep to c = Inr (r, c') \<Longrightarrow> next_xid c \<noteq> - 1 \<Longrightarrow> rpcc_step c c'"
| transmits: "call1_transmit ob st c = (st', c', ev) \<Longrightarrow> rpcc_step c c'"
| replied: "rpcc_got_pdu b sz c = Inr (r, c') \<Longrightarrow> issued_reply b sz c \<Longrightarrow> rpcc_step c c'"
| cancels: "rpcc_step c (cancel_start c)"
| ends: "call1_end st c = (r, c', ev) \<Longrightarrow> find_call (ca_xid st) c \<noteq> None \<Longrightarrow> rpcc_step c c'"
| bound: "rpcc_step c (c\<lparr>bind_done := True, srv_nonce := n\<rparr>)"
| reachable: "rpcc_step c (c\<lparr>c_reachable := b\<rparr>)"

inductive rpcc_reach :: "rpcc \<Rightarrow> bool" where
  new: "rpcc_reach (rpcc_new rnd lossy d retr)"
| step: "rpcc_reach c \<Longrightarrow> rpcc_step c c' \<Longrightarrow> rpcc_reach c'"

text \<open>The xids in \<open>R\<close> are the ones whose call needs no reply any more.\<close>

definition rpcc_inv :: "u32 set \<Rightarrow> rpcc \<Rightarrow> bool" where
  "rpcc_inv R c =
     (window_of R (xid_rep_window c) \<and> (\<forall>x \<in> R. x < next_xid c) \<and>
      (\<forall>x ca. find_call x c = Some ca \<longrightarrow> x < next_xid c \<and> (x \<in> R \<longrightarrow> ca_done ca)))"

lemma find_call_update:
  "find_call x (c\<lparr>calls := AList.update k ca (calls c)\<rparr>) = (if x = k then Some ca else find_call x c)"
  by (simp add: find_call_def update_conv')

lemma find_call_delete:
  "map_of (AList.delete k (calls c)) x = (if x = k then None else find_call x c)"
  by (auto simp: find_call_def delete_conv')

lemma find_call_cancel:
  "find_call x (cancel_start c) =
     map_option (\<lambda>ca. ca\<lparr>ca_done := True, ca_intret := cancel_failure\<rparr>) (find_call x c)"
  by (simp add: cancel_start_def find_call_def Let_def map_of_map)

lemma rpcc_inv_new: "rpcc_inv {0} (rpcc_new rnd lossy d retr)"
  by (simp add: rpcc_inv_def rpcc_new_def window_of_new find_call_def)

lemma rpcc_inv_frame:
  "rpcc_inv R c \<Longrightarrow> xid_rep_window c' = xid_rep_window c \<Longrightarrow> next_xid c' = next_xid c \<Longrightarrow>
    calls c' = calls c \<Longrightarrow> rpcc_inv R c'"
  by (simp add: rpcc_inv_def find_call_def)

lemma call1_transmit_calls:
  "call1_transmit ob st c = (st', c', ev) \<Longrightarrow>
    xid_rep_window c' = xid_rep_window c \<and> next_xid c' = next_xid c \<and> calls c' = calls c"
  by (auto simp: call1_transmit_def get_refconn_def take_forgot_def Let_def
      split: if_splits prod.splits option.splits)

lemma rpcc_inv_begin:
  assumes "rpcc_inv R c" "call1_begin now proc req rep to c = Inr (r, c')" "next_xid c \<noteq> - 1"
  shows "rpcc_inv R c'"
proof -
  let ?x = "next_xid c"
  have lt: "x < ?x \<Longrightarrow> x < ?x + 1" for x
    using succ_ge [OF assms(3)] by (metis order_less_le_trans)
  have self: "?x < ?x + 1" using succ_ge [OF assms(3)] by (simp add: order_less_le)
  consider "c' = c" |
    ca where "c' = c\<lparr>next_xid := ?x + 1, calls := AList.update ?x ca (calls c)\<rparr>"
    using assms(2) by (auto simp: call1_begin_def Let_def rbind_eq_Inr split: if_splits)
  then show ?thesis
  proof cases
    case 1
    then show ?thesis using assms(1) by simp
  next
    case 2
    then have f: "find_call y c' = (if y = ?x then Some ca else find_call y c)" for y
      by (simp add: find_call_def update_conv')
    show ?thesis using assms(1) 2 lt self unfolding rpcc_inv_def f by (auto simp: f)
  qed
qed

lemma rpcc_inv_answer:
  assumes "rpcc_inv R c" "x < next_xid c" "xid_rep_window c' = update_xid_rep x (xid_rep_window c)"
    "next_xid c' = next_xid c"
    "\<And>y ca. find_call y c' = Some ca \<Longrightarrow> if y = x then ca_done ca else find_call y c = Some ca"
  shows "rpcc_inv (insert x R) c'"
proof -
  have "window_of (insert x R) (xid_rep_window c')"
    using assms(1,3) by (simp add: rpcc_inv_def update_xid_rep_window)
  moreover have "\<forall>y \<in> insert x R. y < next_xid c'" using assms(1,2,4) by (auto simp: rpcc_inv_def)
  moreover have "y < next_xid c' \<and> (y \<in> insert x R \<longrightarrow> ca_done ca)" if "find_call y c' = Some ca" for y ca
    using assms(5) [OF that] assms(1,2,4) by (cases "y = x") (auto simp: rpcc_inv_def)
  ultimately show ?thesis by (simp add: rpcc_inv_def)
qed

lemma rpcc_inv_got_pdu:
  assumes "rpcc_inv R c" "rpcc_got_pdu b sz c = Inr (r, c')" "issued_reply b sz c"
  shows "\<exists>R'. rpcc_inv R' c'"
proof -
  obtain h u where h: "unpack_reply_header (unmarshall_buf b sz) = Inr (h, u)"
    using assms(2) by (auto simp: rpcc_got_pdu_def rbind_eq_Inr)
  show ?thesis
  proof (cases "u_ok u")
    case False
    then have "c' = c" using assms(2) h by (simp add: rpcc_got_pdu_def)
    then show ?thesis using assms(1) by blast
  next
    case True
    let ?c = "c\<lparr>xid_rep_window := update_xid_rep (rp_xid h) (xid_rep_window c)\<rparr>"
    have x: "rp_xid h < next_xid c" using assms(3) h True by (simp add: issued_reply_def)
    have f: "find_call y ?c = find_call y c" for y by (simp add: find_call_def)
    have "rpcc_inv (insert (rp_xid h) R) c'"
    proof (rule rpcc_inv_answer [OF assms(1) x])
      show "xid_rep_window c' = update_xid_rep (rp_xid h) (xid_rep_window c)" "next_xid c' = next_xid c"
        using assms(2) h True by (auto simp: rpcc_got_pdu_def Let_def split: option.splits if_splits)
      show "if y = rp_xid h then ca_done ca else find_call y c = Some ca"
        if "find_call y c' = Some ca" for y ca
        using assms(2) h True that f find_call_update [where c = ?c and x = y]
        by (auto simp: rpcc_got_pdu_def Let_def split: option.splits if_splits)
    qed
    then show ?thesis by blast
  qed
qed

lemma rpcc_inv_end:
  assumes "rpcc_inv R c" "call1_end st c = (r, c', ev)" "find_call (ca_xid st) c \<noteq> None"
  shows "\<exists>R'. rpcc_inv R' c'"
proof -
  have x: "ca_xid st < next_xid c" using assms(1,3) by (auto simp: rpcc_inv_def)
  have c': "xid_rep_window c' = update_xid_rep (ca_xid st) (xid_rep_window c)"
      "next_xid c' = next_xid c" "calls c' = AList.delete (ca_xid st) (calls c)"
    using assms(2) by (auto simp: call1_end_def remember_dup_def Let_def split: if_splits)
  then have "find_call y c' = Some ca \<Longrightarrow> if y = ca_xid st then ca_done ca else find_call y c = Some ca"
    for y ca
    unfolding find_call_def [of y c'] c'(3) find_call_delete by (simp split: if_splits)
  then have "rpcc_inv (insert (ca_xid st) R) c'" using c' by (intro rpcc_inv_answer [OF assms(1) x]) auto
  then show ?thesis by blast
qed

lemma rpcc_inv_cancel: "rpcc_inv R c \<Longrightarrow> rpcc_inv R (cancel_start c)"
  by (auto simp: rpcc_inv_def find_call_cancel) (auto simp: cancel_start_def Let_def)

lemma rpcc_inv_reach: "rpcc_reach c \<Longrightarrow> \<exists>R. rpcc_inv R c"
proof (induction rule: rpcc_reach.induct)
  case new
  show ?case using rpcc_inv_new by blast
next
  case (step c c')
  then obtain R where R: "rpcc_inv R c" by blast
  from step(2) show ?case
  proof cases
    case starts
    then show ?thesis using R rpcc_inv_begin by blast
  next
    case transmits
    then show ?thesis using R call1_transmit_calls rpcc_inv_frame by blast
  next
    case replied
    then show ?thesis using R rpcc_inv_got_pdu by blast
  next
    case cancels
    then show ?thesis using R rpcc_inv_cancel by blast
  next
    case ends
    then show ?thesis using R rpcc_inv_end by blast
  next
    case bound
    then show ?thesis by (intro exI [of _ R] rpcc_inv_frame [OF R]) auto
  next
    case reachable
    then show ?thesis by (intro exI [of _ R] rpcc_inv_frame [OF R]) auto
  qed
qed

section \<open>Properties\<close>

text \<open>
  C13. The reply window. Whatever xids are reported to \<open>update_xid_rep\<close>, in whatever order and
  however often, starting from the initial window: the window is sorted, its front is the largest
  number up to which every xid was reported, and it holds exactly the reported xids from there on.
\<close>

theorem reply_window_contiguous:
  "window_of (insert 0 (set xids)) (fold update_xid_rep xids [0])"
proof -
  have "window_of R w \<Longrightarrow> window_of (set xids \<union> R) (fold update_xid_rep xids w)" for R w
  proof (induction xids arbitrary: R w)
    case (Cons x xids)
    then show ?case using Cons.IH [OF update_xid_rep_window [OF Cons.prems, of x]] by simp
  qed simp
  from this [OF window_of_new] show ?thesis by simp
qed

text \<open>
  C24. A client never acknowledges a call that still waits. In every reachable state of an \<open>rpcc\<close> that has
  made fewer than \<open>2 ^ 32 - 1\<close> calls and gets replies to its own requests only, before and after \<open>bind\<close>, with
  any number of threads, time-outs, cancellations and duplicated or reordered replies, the
  number that the next request carries as \<open>xid_rep\<close> is smaller than the xid of every call that
  has no result yet. (The server deletes the replies below that number.)
\<close>

theorem waiting_call_not_acknowledged:
  assumes "rpcc_reach c" "find_call x c = Some ca" "\<not> ca_done ca"
  shows "hd (xid_rep_window c) < x"
proof -
  obtain R where R: "rpcc_inv R c" using rpcc_inv_reach [OF assms(1)] by blast
  then have "{.. hd (xid_rep_window c)} \<subseteq> R" by (simp add: rpcc_inv_def window_of_def)
  moreover have "x \<notin> R" using R assms(2,3) by (auto simp: rpcc_inv_def)
  ultimately show ?thesis by (meson atMost_iff linorder_not_le subsetD)
qed

text \<open>
  A bound client that has begun its first call: call 1 waits and the front of the window is 0.
\<close>

theorem waiting_call_not_acknowledged_witness:
  "\<exists>c ca. rpcc_reach c \<and> bind_done c \<and> find_call 1 c = Some ca \<and> \<not> ca_done ca \<and> hd (xid_rep_window c) < 1"
proof -
  let ?c = "(rpcc_new 5 0 \<lparr>s_addr = 0, sin_port = 0\<rparr> True)\<lparr>bind_done := True, srv_nonce := 77\<rparr>"
  let ?ca = "\<lparr>ca_un = unmarshall_new, ca_intret = 0, ca_done = False\<rparr>"
  let ?c' = "?c\<lparr>next_xid := 2, calls := [(1, ?ca)]\<rparr>"
  have "rpcc_reach ?c" by (rule rpcc_reach.step [OF rpcc_reach.new rpcc_step.bound])
  moreover have "add_timespec \<lparr>tv_sec = 100, tv_nsec = 0\<rparr> (sint (1000 :: cint)) = Inr \<lparr>tv_sec = 101, tv_nsec = 0\<rparr>"
    by code_simp
  from call1_begin_ok [OF m_inv_new [of "\<lambda>_. 0"] this, of 7 ?c unmarshall_new]
  obtain st where "call1_begin \<lparr>tv_sec = 100, tv_nsec = 0\<rparr> 7 (marshall_new (\<lambda>_. 0))
      unmarshall_new 1000 ?c = Inr (Inr st, ?c')"
    by (simp add: rpcc_new_def rpc_bind_def)
  then have "rpcc_step ?c ?c'" by (rule rpcc_step.starts) (simp add: rpcc_new_def)
  ultimately have r: "rpcc_reach ?c'" using rpcc_reach.step by blast
  have f: "find_call 1 ?c' = Some ?ca" by (simp add: find_call_def)
  show ?thesis using waiting_call_not_acknowledged [OF r f] r f by (intro exI [of _ ?c'] exI [of _ ?ca]) auto
qed

text \<open>
  C25. A call returns. If the clock is normalised and a wait ends at its deadline at the latest, a
  call whose timeout \<open>to\<close> is a whole number of seconds below 1000 * (2^(n+1) - 1) milliseconds
  leaves its loop within n + 2 iterations, whatever connections, wake-ups, replies and other
  threads do (n = 6 covers the default \<open>to_max\<close>): it returns the result of the reply,
  \<open>timeout_failure\<close>, \<open>bind_failure\<close> or \<open>cancel_failure\<close>.
\<close>

theorem call1_returns:
  assumes "m_inv req" "valid_deadline now" "0 \<le> sint to" "sint to mod 1000 = 0"
    and "sint to < 1000 * (2 ^ (n + 1) - 1)" "n \<le> 20"
    and "timely \<lparr>tv_sec = tv_sec now + sint to div 1000, tv_nsec = tv_nsec now\<rparr> (total_ns now) 1000 obs"
    and "n + 2 \<le> length obs"
  shows "\<exists>r. call1 obs now proc req rep to c = Inr (Some r)"
proof -
  let ?f = "\<lparr>tv_sec = tv_sec now + sint to div 1000, tv_nsec = tv_nsec now\<rparr>"
  have add: "add_timespec now (sint to) = Inr ?f"
    using assms(2-4) by (intro add_timespec_sec) (auto simp: valid_deadline_def)
  obtain q where q: "sint to = 1000 * q" using assms(4) by (auto simp: dvd_eq_mod_eq_0 [symmetric])
  have tot: "total_ns ?f = total_ns now + sint to * 1000000" unfolding total_ns_def q by simp
  have small: "(1000 :: int) * 2 ^ n < 2 ^ 31"
  proof -
    have "(2 :: int) ^ n \<le> 2 ^ 20" using assms(6) by (intro power_increasing) auto
    then show ?thesis by simp
  qed
  have loop: "\<exists>r. call1_loop obs st c [] = Inr (Some r)"
    if "finaldeadline st = ?f" "curr_to st = to_min" for st c
  proof (rule call1_loop_returns [where t = "total_ns now" and to = 1000 and n = n])
    show "valid_deadline (finaldeadline st)" using assms(2) that by (simp add: valid_deadline_def)
    show "total_ns (finaldeadline st) < total_ns now + 1000 * (2 ^ (n + 1) - 1) * 1000000"
      using assms(5) that tot by simp
  qed (use assms(7,8) that small in \<open>auto simp: to_min_def\<close>)
  obtain r c' where b: "call1_begin now proc req rep to c = Inr (r, c')"
      "\<forall>st. r = Inr st \<longrightarrow> finaldeadline st = ?f \<and> curr_to st = to_min"
    using call1_begin_total [OF assms(1) add] by blast
  show ?thesis
  proof (cases r)
    case (Inl e)
    then show ?thesis using b(1) by (simp add: call1_def)
  next
    case (Inr st)
    then obtain r' where "call1_loop obs st c' [] = Inr (Some r')" using loop b(2) by blast
    then show ?thesis using b(1) Inr by (auto simp: call1_def split: prod.splits)
  qed
qed

text \<open>
  The default timeout of 120 s, nobody answers: eight iterations with the waits ending at 1, 3, 7,
  15, 31, 63 s and at the final deadline.
\<close>

definition silent :: "int \<Rightarrow> obs" where
  "silent sec = \<lparr>o_env = id, o_conn = None, o_dead = (\<lambda>_. False), o_now = \<lparr>tv_sec = sec, tv_nsec = 5\<rparr>,
     o_wakes = [Signal id, Etimedout id], o_dead_after = (\<lambda>_. True)\<rparr>"

theorem call1_returns_witness:
  "\<exists>r. call1 (map silent [100, 101, 103, 107, 115, 131, 163, 220]) \<lparr>tv_sec = 100, tv_nsec = 5\<rparr>
     rpc_bind (marshall_new (\<lambda>_. 0)) unmarshall_new to_max
     (rpcc_new 5 0 \<lparr>s_addr = 0, sin_port = 0\<rparr> True) = Inr (Some r)"
proof (rule call1_returns [where n = 6])
  show "m_inv (marshall_new (\<lambda>_. 0))" by (rule m_inv_new)
qed (code_simp | simp)+

end
