(* ===== verification/Rpc_Server.thy ===== *)
theory Rpc_Server
  imports Reply_Window Rpc_Client Thr_Pool
begin

text \<open>
  The server side of the RPC library: class \<open>rpcs\<close> of include/rpc/rpc.h and src/rpc/rpc.cc. The
  state of the objects that the handlers belong to is a parameter \<open>'s\<close>, kept in \<open>s_app\<close>; a handler
  is a function on the request, the reply and that state. \<open>dispatch\<close> is split at its locks into
  \<open>dispatch_prepare\<close> and \<open>dispatch_new\<close>; sends and reference counts are events.
\<close>

section \<open>State\<close>

type_synonym 's handler = "unmarshall \<Rightarrow> marshall \<Rightarrow> 's \<Rightarrow> (cint \<times> marshall \<times> 's) result"

record 's rpcs =
  s_nonce :: u32
  reply_window :: reply_windows
  conns :: "u32 \<rightharpoonup> conn"
  counting :: cint
  curr_counts :: cint
  counts :: "u32 \<Rightarrow> cint"
  s_reachable :: bool
  procs :: "u32 \<rightharpoonup> 's handler"
  s_app :: 's

record djob_t =
  dj_buf :: "byte list"
  dj_sz :: nat
  dj_conn :: conn

datatype srv_out = S_send conn "byte list" | S_incref conn | S_decref conn

section \<open>Handler templates\<close>

text \<open>
  \<open>meth\<close> is the registered method: it returns the code \<open>b\<close>, the result \<open>r\<close> and the new state.
\<close>

definition h1_reply :: "('r \<Rightarrow> marshall \<Rightarrow> marshall result) \<Rightarrow> (cint \<times> 'r \<times> 's) result \<Rightarrow> marshall \<Rightarrow>
    (cint \<times> marshall \<times> 's) result" where
  "h1_reply putr res ret =
     rbind res (\<lambda>(b, r, s).
     rbind (putr r ret) (\<lambda>ret. Inr (b, ret, s)))"

definition h1_fn where
  "h1_fn get1 putr meth args ret s =
     rbind (get1 args) (\<lambda>(a1, args).
     if \<not> unmarshall_okdone args then Inr (unmarshal_args_failure, ret, s)
     else h1_reply putr (meth a1 s) ret)"

definition h2_fn where
  "h2_fn get1 get2 putr meth args ret s =
     rbind (get1 args) (\<lambda>(a1, args).
     rbind (get2 args) (\<lambda>(a2, args).
     if \<not> unmarshall_okdone args then Inr (unmarshal_args_failure, ret, s)
     else h1_reply putr (meth a1 a2 s) ret))"

definition h3_fn where
  "h3_fn get1 get2 get3 putr meth args ret s =
     rbind (get1 args) (\<lambda>(a1, args).
     rbind (get2 args) (\<lambda>(a2, args).
     rbind (get3 args) (\<lambda>(a3, args).
     if \<not> unmarshall_okdone args then Inr (unmarshal_args_failure, ret, s)
     else h1_reply putr (meth a1 a2 a3 s) ret)))"

definition h4_fn where
  "h4_fn get1 get2 get3 get4 putr meth args ret s =
     rbind (get1 args) (\<lambda>(a1, args).
     rbind (get2 args) (\<lambda>(a2, args).
     rbind (get3 args) (\<lambda>(a3, args).
     rbind (get4 args) (\<lambda>(a4, args).
     if \<not> unmarshall_okdone args then Inr (unmarshal_args_failure, ret, s)
     else h1_reply putr (meth a1 a2 a3 a4 s) ret))))"

definition h5_fn where
  "h5_fn get1 get2 get3 get4 get5 putr meth args ret s =
     rbind (get1 args) (\<lambda>(a1, args).
     rbind (get2 args) (\<lambda>(a2, args).
     rbind (get3 args) (\<lambda>(a3, args).
     rbind (get4 args) (\<lambda>(a4, args).
     rbind (get5 args) (\<lambda>(a5, args).
     if \<not> unmarshall_okdone args then Inr (unmarshal_args_failure, ret, s)
     else h1_reply putr (meth a1 a2 a3 a4 a5 s) ret)))))"

definition h6_fn where
  "h6_fn get1 get2 get3 get4 get5 get6 putr meth args ret s =
     rbind (get1 args) (\<lambda>(a1, args).
     rbind (get2 args) (\<lambda>(a2, args).
     rbind (get3 args) (\<lambda>(a3, args).
     rbind (get4 args) (\<lambda>(a4, args).
     rbind (get5 args) (\<lambda>(a5, args).
     rbind (get6 args) (\<lambda>(a6, args).
     if \<not> unmarshall_okdone args then Inr (unmarshal_args_failure, ret, s)
     else h1_reply putr (meth a1 a2 a3 a4 a5 a6 s) ret))))))"

definition h7_fn where
  "h7_fn get1 get2 get3 get4 get5 get6 get7 putr meth args ret s =
     rbind (get1 args) (\<lambda>(a1, args).
     rbind (get2 args) (\<lambda>(a2, args).
     rbind (get3 args) (\<lambda>(a3, args).
     rbind (get4 args) (\<lambda>(a4, args).
     rbind (get5 args) (\<lambda>(a5, args).
     rbind (get6 args) (\<lambda>(a6, args).
     rbind (get7 args) (\<lambda>(a7, args).
     if \<not> unmarshall_okdone args then Inr (unmarshal_args_failure, ret, s)
     else h1_reply putr (meth a1 a2 a3 a4 a5 a6 a7 s) ret)))))))"

section \<open>Operations\<close>

definition reg1 :: "u32 \<Rightarrow> 's handler \<Rightarrow> 's rpcs \<Rightarrow> 's rpcs result" where
  "reg1 proc h s =
     rbind (VERIFY (procs s proc = None)) (\<lambda>_.
     let s = s\<lparr>procs := (procs s)(proc \<mapsto> h)\<rparr> in
     rbind (VERIFY (procs s proc \<noteq> None)) (\<lambda>_. Inr s))"

definition rpcbind :: "u32 \<Rightarrow> cint \<Rightarrow> 's \<Rightarrow> (cint \<times> cint \<times> 's) result" where
  "rpcbind nonce a s = Inr (0, nonce, s)"

text \<open>\<open>rnd\<close> is what \<open>random()\<close> returns; \<open>app\<close> is the state of the handlers' objects.\<close>

definition rpcs_new :: "u32 \<Rightarrow> cint \<Rightarrow> 's \<Rightarrow> 's rpcs result" where
  "rpcs_new rnd cnt app =
     reg1 rpc_bind (h1_fn get_int put_int (rpcbind rnd))
       \<lparr>s_nonce = rnd, reply_window = Map.empty, conns = Map.empty, counting = cnt,
        curr_counts = cnt, counts = (\<lambda>_. 0), s_reachable = True, procs = Map.empty, s_app = app\<rparr>"

definition updatestat :: "u32 \<Rightarrow> 's rpcs \<Rightarrow> 's rpcs" where
  "updatestat proc s =
     (let s = s\<lparr>counts := (counts s)(proc := counts s proc + 1), curr_counts := curr_counts s - 1\<rparr>
      in if curr_counts s = 0 then s\<lparr>curr_counts := counting s\<rparr> else s)"

text \<open>
  The upcall of a connection with a request: the pool of \<open>ThrPool(6, false)\<close> takes the job or
  refuses it. \<open>still_reachable\<close> is the value of \<open>reachable_\<close> at its second test.
\<close>

definition rpcs_got_pdu :: "bool \<Rightarrow> conn \<Rightarrow> byte list \<Rightarrow> nat \<Rightarrow> 's rpcs \<Rightarrow> djob_t pool \<Rightarrow>
    bool option \<times> djob_t pool \<times> srv_out list" where
  "rpcs_got_pdu still_reachable c b sz s p =
     (if \<not> s_reachable s then (Some True, p, [])
      else
        case addJob \<lparr>dj_buf = b, dj_sz = sz, dj_conn = c\<rparr> p of
          (None, p) \<Rightarrow> (None, p, [S_incref c])
        | (Some succ, p) \<Rightarrow>
            (Some succ, p, S_incref c # (if \<not> succ \<or> \<not> still_reachable then [S_decref c] else [])))"

definition save_conn :: "(conn \<Rightarrow> conn \<Rightarrow> int) \<Rightarrow> u32 \<Rightarrow> conn \<Rightarrow> 's rpcs \<Rightarrow> 's rpcs \<times> srv_out list" where
  "save_conn compare clt c s =
     (case conns s clt of
        None \<Rightarrow> (s\<lparr>conns := (conns s)(clt \<mapsto> c)\<rparr>, [S_incref c])
      | Some k \<Rightarrow>
          if compare k c < 0 then (s\<lparr>conns := (conns s)(clt \<mapsto> c)\<rparr>, [S_decref k, S_incref c])
          else (s, []))"

definition dispatch_prepare :: "u32 \<Rightarrow> (conn \<Rightarrow> conn \<Rightarrow> int) \<Rightarrow> conn \<Rightarrow> req_header \<Rightarrow> 's rpcs \<Rightarrow>
    (rpcstate_t \<times> 's rpcs \<times> srv_out list) result" where
  "dispatch_prepare fe compare c h s =
     (if rq_clt_nonce h \<noteq> 0 then
        let s = s\<lparr>reply_window := create_window (rq_clt_nonce h) (reply_window s)\<rparr>
        in case save_conn compare (rq_clt_nonce h) c s of (s, ev) \<Rightarrow>
           rbind (checkduplicate_and_update fe (rq_clt_nonce h) (rq_xid h) (rq_xid_rep h) (reply_window s))
             (\<lambda>(stat, ws). Inr (stat, s\<lparr>reply_window := ws\<rparr>, ev))
      else Inr (NEW, s, []))"

text \<open>
  The case NEW: run the handler, keep the reply, send it. The connection may have died meanwhile;
  \<open>conns_[h.clt_nonce]\<close> of a client that was never entered is a null pointer.
\<close>

definition latest_conn :: "(conn \<Rightarrow> bool) \<Rightarrow> u32 \<Rightarrow> conn \<Rightarrow> 's rpcs \<Rightarrow> (conn \<times> srv_out list) result" where
  "latest_conn isdead clt c s =
     (if isdead c then
        case conns s clt of
          None \<Rightarrow> Inl Undefined
        | Some k \<Rightarrow> if c \<noteq> k then Inr (k, [S_decref c, S_incref k]) else Inr (c, [])
      else Inr (c, []))"

definition dispatch_new :: "(conn \<Rightarrow> bool) \<Rightarrow> 's handler \<Rightarrow> conn \<Rightarrow> req_header \<Rightarrow> unmarshall \<Rightarrow>
    marshall \<Rightarrow> 's rpcs \<Rightarrow> ('s rpcs \<times> srv_out list) result" where
  "dispatch_new isdead f c h req rep s =
     (let s = (if counting s \<noteq> 0 then updatestat (rq_proc h) s else s) in
      rbind (f req rep (s_app s)) (\<lambda>(ret, rep, app).
      let s = s\<lparr>s_app := app\<rparr> in
      rbind (VERIFY (ret \<noteq> unmarshal_args_failure)) (\<lambda>_.
      rbind (VERIFY (sint ret \<ge> 0)) (\<lambda>_.
      rbind (pack_reply_header \<lparr>rp_xid = rq_xid h, rp_ret = ret\<rparr> rep) (\<lambda>rep.
      let b1 = m_bytes rep;
          s = (if rq_clt_nonce h > 0
               then s\<lparr>reply_window := add_reply (rq_clt_nonce h) (rq_xid h) b1 (length b1) (reply_window s)\<rparr>
               else s)
      in rbind (latest_conn isdead (rq_clt_nonce h) c s) (\<lambda>(c, ev).
         Inr (s, ev @ [S_send c b1, S_decref c])))))))"

text \<open>\<open>mem\<close> is the content of the memory that \<open>malloc\<close> returns for the reply.\<close>

definition dispatch :: "u32 \<Rightarrow> (nat \<Rightarrow> byte) \<Rightarrow> (conn \<Rightarrow> conn \<Rightarrow> int) \<Rightarrow> (conn \<Rightarrow> bool) \<Rightarrow> djob_t \<Rightarrow>
    's rpcs \<Rightarrow> ('s rpcs \<times> srv_out list) result" where
  "dispatch fe mem compare isdead j s =
     (let c = dj_conn j in
      rbind (unpack_req_header (unmarshall_buf (dj_buf j) (dj_sz j))) (\<lambda>(h, req).
      if \<not> u_ok req then Inr (s, [S_decref c])
      else if rq_srv_nonce h \<noteq> 0 \<and> rq_srv_nonce h \<noteq> s_nonce s then
        rbind (pack_reply_header \<lparr>rp_xid = rq_xid h, rp_ret = oldsrv_failure\<rparr> (marshall_new mem))
          (\<lambda>rep. Inr (s, [S_send c (m_bytes rep)]))
      else
        case procs s (rq_proc h) of
          None \<Rightarrow> Inl Verify_failed
        | Some f \<Rightarrow>
            rbind (dispatch_prepare fe compare c h s) (\<lambda>(stat, s, ev).
            case stat of
              NEW \<Rightarrow>
                rbind (dispatch_new isdead f c h req (marshall_new mem) s) (\<lambda>(s, ev').
                Inr (s, ev @ ev'))
            | INPROGRESS \<Rightarrow> Inr (s, ev @ [S_decref c])
            | DONE b sz \<Rightarrow> Inr (s, ev @ [S_send c b, S_decref c])
            | FORGOTTEN \<Rightarrow>
                rbind (pack_reply_header \<lparr>rp_xid = rq_xid h, rp_ret = atmostonce_failure\<rparr> (marshall_new mem))
                  (\<lambda>rep. Inr (s, ev @ [S_send c (m_bytes rep), S_decref c])))))"

definition rpcs_destroy :: "'s rpcs \<Rightarrow> 's rpcs" where
  "rpcs_destroy s = s\<lparr>reply_window := free_reply_window (reply_window s)\<rparr>"

end
