(* ===== verification/Rpc_Call.thy ===== *)
theory Rpc_Call
  imports Rpc_Server Paxos_Protocol
begin

text \<open>
  Remote calls end to end: the request that \<open>rpcc\<close> builds, what \<open>rpcs::dispatch\<close> does with it, and
  what the client makes of the reply. The locale \<open>remote_method\<close> is a registered method with the
  contract of its argument and result types; methods with several arguments take their tuple.
\<close>

section \<open>Tuples of arguments\<close>

definition put_pair :: "('a \<Rightarrow> marshall \<Rightarrow> marshall result) \<Rightarrow> ('b \<Rightarrow> marshall \<Rightarrow> marshall result) \<Rightarrow>
    'a \<times> 'b \<Rightarrow> marshall \<Rightarrow> marshall result" where
  "put_pair puta putb p m = rbind (puta (fst p) m) (putb (snd p))"

definition get_pair :: "(unmarshall \<Rightarrow> ('a \<times> unmarshall) result) \<Rightarrow>
    (unmarshall \<Rightarrow> ('b \<times> unmarshall) result) \<Rightarrow> unmarshall \<Rightarrow> (('a \<times> 'b) \<times> unmarshall) result" where
  "get_pair geta getb u = rbind (geta u) (\<lambda>(a, u). rbind (getb u) (\<lambda>(b, u). Inr ((a, b), u)))"

lemma codec_pair:
  assumes "codec puta geta enca valida" "codec putb getb encb validb"
  shows "codec (put_pair puta putb) (get_pair geta getb) (enc_pair enca encb)
    (\<lambda>p. valida (fst p) \<and> validb (snd p))"
proof
  fix p assume p: "valida (fst p) \<and> validb (snd p)"
  show "m_appends (put_pair puta putb p) (enc_pair enca encb p)"
    unfolding put_pair_def [abs_def] enc_pair_def using p
    by (intro m_appends_seq codec.put_appends [OF assms(1)] codec.put_appends [OF assms(2)]) auto
  have "u_reads (get_pair geta getb) (fst p, snd p) (enca (fst p) @ encb (snd p) @ [])"
    unfolding get_pair_def [abs_def] using p
    by (intro u_reads_seq [OF codec.get_reads [OF assms(1)]] u_reads_seq [OF codec.get_reads [OF assms(2)]]
        u_reads_return) auto
  then show "u_reads (get_pair geta getb) p (enc_pair enca encb p)" by (simp add: enc_pair_def)
qed

lemma call_2_pair:
  "call_2 put1 put2 get mem obs now proc a1 a2 to c =
   call_1 (put_pair put1 put2) get mem obs now proc (a1, a2) to c"
  by (simp add: call_2_def call_1_def put_pair_def rbind_assoc)

lemma call_3_pair:
  "call_3 put1 put2 put3 get mem obs now proc a1 a2 a3 to c =
   call_1 (put_pair put1 (put_pair put2 put3)) get mem obs now proc (a1, a2, a3) to c"
  by (simp add: call_3_def call_1_def put_pair_def rbind_assoc)

lemma h2_pair: "h2_fn get1 get2 putr meth = h1_fn (get_pair get1 get2) putr (\<lambda>(a1, a2). meth a1 a2)"
  by (simp add: fun_eq_iff h2_fn_def h1_fn_def get_pair_def rbind_assoc split_def cong: if_cong)

lemma h3_pair: "h3_fn get1 get2 get3 putr meth =
    h1_fn (get_pair get1 (get_pair get2 get3)) putr (\<lambda>(a1, a2, a3). meth a1 a2 a3)"
  by (simp add: fun_eq_iff h3_fn_def h1_fn_def get_pair_def rbind_assoc split_def cong: if_cong)

section \<open>Packets\<close>

text \<open>A request is 4 bytes for the length, the header and the arguments; a reply has 12 unused bytes.\<close>

definition req_packet :: "req_header \<Rightarrow> byte list \<Rightarrow> byte list \<Rightarrow> bool" where
  "req_packet h args pdu =
     (\<exists>pre. length pre = 4 \<and> pdu = pre @ enc_req_header h @ args \<and> length pdu < 2 ^ 32)"

definition reply_packet :: "reply_header \<Rightarrow> byte list \<Rightarrow> byte list \<Rightarrow> bool" where
  "reply_packet h res pdu =
     (\<exists>pre pad. length pre = 4 \<and> length pad = 12 \<and> pdu = pre @ enc_reply_header h @ pad @ res \<and>
        length pdu < 2 ^ 32)"

lemma req_packet_unpack:
  assumes "req_packet h args pdu"
  shows "\<exists>u. unpack_req_header (unmarshall_buf pdu (length pdu)) = Inr (h, u) \<and> u_at u args"
proof -
  obtain pre where "length pre = 4" "pdu = pre @ enc_req_header h @ args" "length pdu < 2 ^ 32"
    using assms by (auto simp: req_packet_def)
  then show ?thesis
    by (intro unpack_req_header_reads [where as = pre]) (simp_all add: unmarshall_buf_def)
qed

lemma reply_packet_unpack:
  assumes "reply_packet h res pdu"
  shows "\<exists>u. unpack_reply_header (unmarshall_buf pdu (length pdu)) = Inr (h, u) \<and> u_ok u \<and>
    u_buf u = pdu \<and> u_sz u = length pdu"
proof -
  obtain pre pad where p: "length pre = 4" "length pad = 12" "pdu = pre @ enc_reply_header h @ pad @ res"
      "length pdu < 2 ^ 32"
    using assms by (auto simp: reply_packet_def)
  then have "\<exists>u. unpack_reply_header (unmarshall_buf pdu (length pdu)) = Inr (h, u) \<and> u_at u res"
    by (intro unpack_reply_header_reads [where as = pre and bs = pad]) (simp_all add: unmarshall_buf_def)
  then obtain u where u: "unpack_reply_header (unmarshall_buf pdu (length pdu)) = Inr (h, u)" "u_at u res"
    by blast
  moreover have "u_buf u = pdu \<and> u_sz u = length pdu"
    using u(1) by (auto simp: unpack_reply_header_def rbind_eq_Inr unmarshall_buf_def dest!: unpack_frame)
  ultimately show ?thesis by (auto simp: u_at_def)
qed

lemma m_ind_content: "m_inv m \<Longrightarrow> m_ind m = 24 + length (m_content m)"
  using length_m_bytes [of m] by (auto simp: m_content_def elim!: m_invE)

lemma pack_reply_header_bytes:
  assumes "m_inv m"
  shows "\<exists>m'. pack_reply_header h m = Inr m' \<and> m_inv m' \<and>
    m_bytes m' = take 4 (m_bytes m) @ enc_reply_header h @ drop 12 (m_bytes m)"
proof -
  obtain as bs cs where m: "m_buf m = Some (as @ bs @ cs)" "m_capa m = length (as @ bs @ cs)"
    and len: "length as = 4" "length bs = 8"
    and ind: "length (as @ bs @ cs) \<ge> m_ind m" "m_ind m \<ge> 24"
    using assms(1) by (rule m_inv_split [where n = 8]) simp
  let ?m = "m\<lparr>m_buf := Some (as @ enc_reply_header h @ cs)\<rparr>"
  have "m_inv ?m" using assms m len by (auto simp: m_inv_def)
  moreover have "m_bytes ?m = take 4 (m_bytes m) @ enc_reply_header h @ drop 12 (m_bytes m)"
    using m len ind by (simp add: m_bytes_def take_drop)
  ultimately show ?thesis using pack_reply_header_over [OF m len] by blast
qed

lemma packed_reply_packet:
  assumes "m_inv m" "m_content m = res" "m_ind m < 2 ^ 32"
  shows "\<exists>m'. pack_reply_header h m = Inr m' \<and> reply_packet h res (m_bytes m')"
proof -
  obtain m' where m': "pack_reply_header h m = Inr m'"
      "m_bytes m' = take 4 (m_bytes m) @ enc_reply_header h @ drop 12 (m_bytes m)"
    using pack_reply_header_bytes [OF assms(1)] by blast
  have len: "length (m_bytes m) = m_ind m" "24 \<le> m_ind m"
    using assms(1) by (auto simp: length_m_bytes elim: m_invE)
  have "drop 12 (m_bytes m) = take 12 (drop 12 (m_bytes m)) @ drop 24 (m_bytes m)"
    using append_take_drop_id [of 12 "drop 12 (m_bytes m)"] by simp
  moreover have "drop 24 (m_bytes m) = res" using assms(2) by (simp add: m_content_def)
  ultimately have "m_bytes m' = take 4 (m_bytes m) @ enc_reply_header h @
      take 12 (drop 12 (m_bytes m)) @ res" using m'(2) by simp
  moreover have "length (m_bytes m') < 2 ^ 32" using m'(2) len assms(3) by simp
  ultimately have "reply_packet h res (m_bytes m')" using len
    unfolding reply_packet_def
    by (intro exI [of _ "take 4 (m_bytes m)"] exI [of _ "take 12 (drop 12 (m_bytes m))"]) auto
  then show ?thesis using m'(1) by blast
qed

section \<open>The server\<close>

definition windows_ok :: "reply_windows \<Rightarrow> bool" where
  "windows_ok ws = (\<forall>c w. ws c = Some w \<longrightarrow> window_ok w)"

lemma windows_ok_create: "windows_ok ws \<Longrightarrow> windows_ok (create_window c ws)"
  by (auto simp: windows_ok_def create_window_def split: option.splits)

lemma scan_not_new: "scan xid xid_rep w = Inr (Some st, w') \<Longrightarrow> st \<noteq> NEW"
  by (induction xid xid_rep w arbitrary: w' rule: scan.induct)
    (auto simp: rbind_eq_Inr reply_state_def split: if_splits list.splits)

text \<open>What it means that \<open>checkduplicate_and_update\<close> says NEW.\<close>

lemma checkduplicate_new:
  assumes "checkduplicate_and_update fe c xid xid_rep ws = Inr (NEW, ws')" "windows_ok ws"
    "ws c \<noteq> None" "xid_rep \<le> xid"
  shows "\<exists>w. ws' = ws(c \<mapsto> w) \<and> window_ok w \<and> reply_t_new xid \<in> set w"
proof -
  obtain w where w: "ws c = Some w" using assms(3) by blast
  have ok: "window_ok w" using assms(2) w by (simp add: windows_ok_def)
  obtain r w1 where r: "scan xid xid_rep w = Inr (r, w1)"
      "(NEW, ws') = (case r of Some st \<Rightarrow> (st, ws(c \<mapsto> w1))
         | None \<Rightarrow> (NEW, ws(c \<mapsto> insert_reply (reply_t_new xid) w1)))"
    using assms(1) unfolding checkduplicate_Some [of ws c w fe, OF w]
    by (auto simp: rbind_eq_Inr split: if_splits)
  then have s: "scan xid xid_rep w = Inr (None, w1)"
      "ws' = ws(c \<mapsto> insert_reply (reply_t_new xid) w1)"
    using scan_not_new [of xid xid_rep w] by (cases r; auto)+
  have "rt_xid q \<noteq> xid" if "q \<in> set w" for q
    using scan_found [OF ok that, of xid_rep] s(1) assms(4) by auto
  then have "window_ok (insert_reply (reply_t_new xid) w1)"
    using scan_subset [OF s(1)] by (intro insert_reply_ok scan_ok [OF s(1) ok]) (auto simp: reply_t_new_def)
  then show ?thesis using s(2) by auto
qed

lemma set_reply_xids: "xid \<in> rt_xid ` set w \<Longrightarrow> map rt_xid (set_reply xid b sz w) = map rt_xid w"
  by (induction w) auto

lemma set_reply_in:
  "\<exists>r \<in> set (set_reply xid b sz w). rt_xid r = xid \<and> rt_cb_present r \<and> rt_buf r = b \<and> rt_sz r = sz"
  by (induction w) (auto simp: reply_t_new_def)

lemma save_conn_frame:
  "save_conn compare clt c s = (s', ev) \<Longrightarrow>
    s_app s' = s_app s \<and> reply_window s' = reply_window s \<and> s_nonce s' = s_nonce s \<and>
    procs s' = procs s \<and> counting s' = counting s"
  by (auto simp: save_conn_def split: option.splits if_splits)

lemma dispatch_prepare_frame:
  "dispatch_prepare fe compare c h s = Inr (st, s', ev) \<Longrightarrow>
    s_app s' = s_app s \<and> s_nonce s' = s_nonce s \<and> procs s' = procs s"
  by (auto simp: dispatch_prepare_def Let_def rbind_eq_Inr split: if_splits prod.splits
      dest!: save_conn_frame)

lemma updatestat_frame [simp]:
  "s_app (updatestat proc s) = s_app s" "reply_window (updatestat proc s) = reply_window s"
  "conns (updatestat proc s) = conns s" "s_nonce (updatestat proc s) = s_nonce s"
  "procs (updatestat proc s) = procs s"
  by (simp_all add: updatestat_def Let_def)

lemma create_window_some: "create_window c ws c \<noteq> None"
  by (simp add: create_window_def split: option.splits)

text \<open>The server has the reply \<open>rb\<close> to request \<open>xid\<close> of client \<open>n\<close>.\<close>

definition reply_kept :: "u32 \<Rightarrow> u32 \<Rightarrow> byte list \<Rightarrow> 's rpcs \<Rightarrow> bool" where
  "reply_kept n xid rb s =
     (\<exists>w r. reply_window s n = Some w \<and> window_ok w \<and> r \<in> set w \<and> rt_xid r = xid \<and> rt_cb_present r \<and>
        rt_buf r = rb \<and> rt_sz r = length rb)"

lemma prepare_done:
  assumes "reply_window s (rq_clt_nonce h) = Some w" "window_ok w" "q \<in> set w" "rt_xid q = rq_xid h"
    and "rq_xid_rep h \<le> rq_xid h" "rq_clt_nonce h \<noteq> 0" "rt_cb_present q"
  shows "\<exists>s' ev. dispatch_prepare fe compare c h s = Inr (DONE (rt_buf q) (rt_sz q), s', ev)"
proof -
  obtain w' where "scan (rq_xid h) (rq_xid_rep h) w = Inr (Some (reply_state q), w')"
    using scan_found [OF assms(2,3), of "rq_xid_rep h"] assms(4,5) by auto
  moreover have "\<not> front_xid fe w > rq_xid h"
    using assms(2,3,4) by (cases w) (auto simp: front_xid_def)
  ultimately have "checkduplicate_and_update fe (rq_clt_nonce h) (rq_xid h) (rq_xid_rep h) (reply_window s) =
      Inr (DONE (rt_buf q) (rt_sz q), (reply_window s)(rq_clt_nonce h \<mapsto> w'))"
    using checkduplicate_Some [of "reply_window s" "rq_clt_nonce h" w fe, OF assms(1)] assms(7)
    by (simp add: reply_state_def)
  then show ?thesis using assms(1,6)
    by (auto simp: dispatch_prepare_def Let_def split: prod.splits dest!: save_conn_frame)
qed

locale remote_method = args: codec puta geta enca valida + res: codec putr getr encr validr
  for puta :: "'a \<Rightarrow> marshall \<Rightarrow> marshall result"
    and geta enca valida
    and putr :: "'r \<Rightarrow> marshall \<Rightarrow> marshall result"
    and getr encr validr
begin

lemma fn_exact:
  assumes "u_at u (enca a)" "valida a" "meth a s = Inr (b, r, s')" "validr r"
  shows "\<exists>ret. h1_fn geta putr meth u (marshall_new mem) s = Inr (b, ret, s') \<and> m_inv ret \<and>
    m_content ret = encr r"
proof -
  have "u_at u (enca a @ [])" using assms(1) by simp
  then obtain u' where u': "geta u = Inr (a, u')" "u_at u' []"
    by (rule u_readsD [OF args.get_reads [OF assms(2)]])
  obtain ret where ret: "putr r (marshall_new mem) = Inr ret" "m_inv ret"
      "m_bytes ret = m_bytes (marshall_new mem) @ encr r"
    using res.put_appends [OF assms(4)] m_inv_new [of mem] unfolding m_appends_def by blast
  have "m_content ret = encr r" using m_content_append [OF m_inv_new ret(3)] by simp
  then show ?thesis
    using u' ret u_at_Nil_okdone [OF u'(2)] assms(3) by (simp add: h1_fn_def h1_reply_def)
qed

text \<open>Whatever a handler returns comes from its method.\<close>

lemma fn_sem:
  assumes "u_at u (enca a)" "valida a" "h1_fn geta putr meth u (marshall_new mem) s = Inr (b, ret, s')"
  obtains r where "meth a s = Inr (b, r, s')" "validr r \<Longrightarrow> m_inv ret \<and> m_content ret = encr r"
proof (cases "meth a s")
  case (Inr x)
  then obtain b1 r s1 where r: "meth a s = Inr (b1, r, s1)" by (cases x) auto
  have "u_at u (enca a @ [])" using assms(1) by simp
  then obtain u' where u': "geta u = Inr (a, u')" "u_at u' []" by (rule u_readsD [OF args.get_reads [OF assms(2)]])
  then have "b1 = b" "s1 = s'"
    using assms(3) r u_at_Nil_okdone [OF u'(2)] by (auto simp: h1_fn_def h1_reply_def rbind_eq_Inr)
  moreover have "m_inv ret \<and> m_content ret = encr r" if "validr r"
    using fn_exact [where meth = meth and mem = mem, OF assms(1,2) r that] assms(3) by auto
  ultimately show ?thesis using that r by blast
next
  case (Inl e)
  have "u_at u (enca a @ [])" using assms(1) by simp
  then obtain u' where "geta u = Inr (a, u')" "u_at u' []" by (rule u_readsD [OF args.get_reads [OF assms(2)]])
  then show ?thesis using assms(3) Inl u_at_Nil_okdone by (auto simp: h1_fn_def h1_reply_def)
qed

lemma dispatch_runs:
  assumes "req_packet h (enca a) pdu" "valida a" "validr r" "24 + length (encr r) < 2 ^ 32"
    and "meth a (s_app s) = Inr (b, r, app')" "0 \<le> sint b"
    and "procs s (rq_proc h) = Some (h1_fn geta putr meth)"
    and "rq_srv_nonce h = 0 \<or> rq_srv_nonce h = s_nonce s"
    and "dispatch_prepare fe compare c h s = Inr (NEW, s1, ev)" "\<not> isdead c"
  shows "\<exists>rb s2. dispatch fe mem compare isdead \<lparr>dj_buf = pdu, dj_sz = length pdu, dj_conn = c\<rparr> s =
      Inr (s2, ev @ [S_send c rb, S_decref c]) \<and> s_app s2 = app' \<and> s_nonce s2 = s_nonce s \<and>
      procs s2 = procs s \<and>
      reply_packet \<lparr>rp_xid = rq_xid h, rp_ret = b\<rparr> (encr r) rb \<and>
      reply_window s2 = (if rq_clt_nonce h > 0
        then add_reply (rq_clt_nonce h) (rq_xid h) rb (length rb) (reply_window s1)
        else reply_window s1)"
proof -
  obtain u where u: "unpack_req_header (unmarshall_buf pdu (length pdu)) = Inr (h, u)" "u_at u (enca a)"
    using req_packet_unpack [OF assms(1)] by blast
  have f: "s_app s1 = s_app s" "s_nonce s1 = s_nonce s" "procs s1 = procs s"
    using dispatch_prepare_frame [OF assms(9)] by auto
  obtain ret where ret: "h1_fn geta putr meth u (marshall_new mem) (s_app s) = Inr (b, ret, app')"
      "m_inv ret" "m_content ret = encr r"
    using fn_exact [of u a meth "s_app s" b r app' mem] u(2) assms(2,3,5) by blast
  have "m_ind ret < 2 ^ 32"
    using ret(3) assms(4) m_ind_content [OF ret(2)] by simp
  then obtain m where m: "pack_reply_header \<lparr>rp_xid = rq_xid h, rp_ret = b\<rparr> ret = Inr m"
      "reply_packet \<lparr>rp_xid = rq_xid h, rp_ret = b\<rparr> (encr r) (m_bytes m)"
    using packed_reply_packet [OF ret(2,3)] by blast
  have b: "b \<noteq> unmarshal_args_failure" using assms(6) by (auto simp: unmarshal_args_failure_def)
  show ?thesis
    using u(1) u_at_unfold [OF u(2)] assms(6-10) ret(1) m f b
    by (auto simp: dispatch_def dispatch_new_def Let_def VERIFY_def latest_conn_def)
qed

text \<open>A second copy of a request that was run is answered from the window.\<close>

lemma dispatch_kept:
  assumes "req_packet h (enca a) pdu" "procs s (rq_proc h) \<noteq> None" "rq_srv_nonce h = 0 \<or> rq_srv_nonce h = s_nonce s"
    and "rq_clt_nonce h \<noteq> 0" "rq_xid_rep h \<le> rq_xid h" "reply_kept (rq_clt_nonce h) (rq_xid h) rb s"
  shows "\<exists>s' ev. dispatch fe mem compare isdead \<lparr>dj_buf = pdu, dj_sz = length pdu, dj_conn = c\<rparr> s =
      Inr (s', ev @ [S_send c rb, S_decref c]) \<and> s_app s' = s_app s"
proof -
  obtain w q where q: "reply_window s (rq_clt_nonce h) = Some w" "window_ok w" "q \<in> set w" "rt_xid q = rq_xid h"
      "rt_cb_present q" "rt_buf q = rb" "rt_sz q = length rb"
    using assms(6) unfolding reply_kept_def by blast
  obtain s' ev where p: "dispatch_prepare fe compare c h s = Inr (DONE rb (length rb), s', ev)"
    using prepare_done [where h = h and s = s and fe = fe and compare = compare and c = c,
        OF q(1-4) assms(5,4) q(5)] q(6,7) by auto
  obtain u where u: "unpack_req_header (unmarshall_buf pdu (length pdu)) = Inr (h, u)" "u_ok u"
    using req_packet_unpack [OF assms(1)] by (auto simp: u_at_def)
  have "dispatch fe mem compare isdead \<lparr>dj_buf = pdu, dj_sz = length pdu, dj_conn = c\<rparr> s =
      Inr (s', ev @ [S_send c rb, S_decref c])"
    using u p assms(2,3) by (auto simp: dispatch_def Let_def)
  then show ?thesis using dispatch_prepare_frame [OF p] by blast
qed

lemma dispatch_keeps:
  assumes "req_packet h (enca a) pdu" "valida a" "validr r" "24 + length (encr r) < 2 ^ 32"
    and "meth a (s_app s) = Inr (b, r, app')" "0 \<le> sint b"
    and "procs s (rq_proc h) = Some (h1_fn geta putr meth)"
    and "rq_srv_nonce h = 0 \<or> rq_srv_nonce h = s_nonce s"
    and "dispatch_prepare fe compare c h s = Inr (NEW, s1, ev)" "\<not> isdead c"
    and "windows_ok (reply_window s)" "rq_clt_nonce h \<noteq> 0" "rq_xid_rep h \<le> rq_xid h"
  shows "\<exists>rb s2. dispatch fe mem compare isdead \<lparr>dj_buf = pdu, dj_sz = length pdu, dj_conn = c\<rparr> s =
      Inr (s2, ev @ [S_send c rb, S_decref c]) \<and> s_app s2 = app' \<and> procs s2 = procs s \<and> s_nonce s2 = s_nonce s \<and>
    reply_kept (rq_clt_nonce h) (rq_xid h) rb s2"
proof -
  let ?ws = "create_window (rq_clt_nonce h) (reply_window s)"
  obtain rb s2 where d: "dispatch fe mem compare isdead \<lparr>dj_buf = pdu, dj_sz = length pdu, dj_conn = c\<rparr> s =
      Inr (s2, ev @ [S_send c rb, S_decref c])" "s_app s2 = app'" "s_nonce s2 = s_nonce s" "procs s2 = procs s"
      "reply_window s2 = add_reply (rq_clt_nonce h) (rq_xid h) rb (length rb) (reply_window s1)"
    using dispatch_runs [where mem = mem and meth = meth and s = s and a = a and isdead = isdead and c = c,
        OF assms(1-10)] assms(12) by (auto simp: word_gt_0)
  have "checkduplicate_and_update fe (rq_clt_nonce h) (rq_xid h) (rq_xid_rep h) ?ws = Inr (NEW, reply_window s1)"
    using assms(9,12) by (auto simp: dispatch_prepare_def Let_def rbind_eq_Inr split: prod.splits
        dest!: save_conn_frame)
  then obtain w where w: "reply_window s1 = ?ws(rq_clt_nonce h \<mapsto> w)" "window_ok w" "reply_t_new (rq_xid h) \<in> set w"
    using checkduplicate_new windows_ok_create [OF assms(11)] assms(13)
    by (metis create_window_some)
  let ?w = "set_reply (rq_xid h) rb (length rb) w"
  have w2: "reply_window s2 (rq_clt_nonce h) = Some ?w" using d(5) w(1) by (simp add: add_reply_def)
  have "rq_xid h \<in> rt_xid ` set w" using w(3) by (force simp: reply_t_new_def)
  then have "window_ok ?w" using w(2) by (simp add: window_ok_def set_reply_xids)
  then have "reply_kept (rq_clt_nonce h) (rq_xid h) rb s2"
    using w2 set_reply_in [of "rq_xid h" rb "length rb" w] unfolding reply_kept_def by blast
  then show ?thesis using d(1-4) by blast
qed

end

section \<open>The client\<close>

lemma call_request_packet:
  assumes "m_inv req" "m_content req = args" "m_ind req < 2 ^ 32" "add_timespec now (sint to) = Inr f"
    and "(proc = rpc_bind) = (\<not> bind_done c)" "\<not> destroy_wait c"
  shows "\<exists>st c'. call1_begin now proc req rep to c = Inr (Inr st, c') \<and> ca_xid st = next_xid c \<and>
    req_packet \<lparr>rq_xid = next_xid c, rq_proc = proc, rq_clt_nonce = clt_nonce c,
      rq_srv_nonce = srv_nonce c, rq_xid_rep = hd (xid_rep_window c)\<rparr> args (req_pdu st) \<and>
    find_call (next_xid c) c' = Some \<lparr>ca_un = rep, ca_intret = 0, ca_done = False\<rparr>"
proof -
  have len: "length (m_bytes req) = m_ind req" "24 \<le> m_ind req"
    using assms(1) by (auto simp: length_m_bytes elim: m_invE)
  have "drop 24 (m_bytes req) = args" using assms(2) by (simp add: m_content_def)
  then show ?thesis
    using call1_begin_ok [where rep = rep, OF assms(1,4,5,6)] len assms(3)
    by (auto simp: req_packet_def find_call_def update_conv')
qed

lemma got_reply:
  assumes "reply_packet h res rb" "find_call (rp_xid h) c = Some ca" "\<not> ca_done ca"
  shows "\<exists>c' ca'. rpcc_got_pdu rb (length rb) c = Inr (True, c') \<and> find_call (rp_xid h) c' = Some ca' \<and>
    ca_done ca' \<and> ca_intret ca' = rp_ret h \<and> u_at (ca_un ca') res"
proof -
  obtain u where u: "unpack_reply_header (unmarshall_buf rb (length rb)) = Inr (h, u)" "u_ok u"
      "u_buf u = rb" "u_sz u = length rb"
    using reply_packet_unpack [OF assms(1)] by blast
  let ?w = "c\<lparr>xid_rep_window := update_xid_rep (rp_xid h) (xid_rep_window c)\<rparr>"
  let ?ca = "\<lparr>ca_un = fst (unmarshall_take_in (ca_un ca) u), ca_intret = rp_ret h, ca_done = True\<rparr>"
  let ?c = "?w\<lparr>calls := AList.update (rp_xid h) ?ca (calls ?w)\<rparr>"
  have "find_call (rp_xid h) ?w = Some ca" using assms(2) by (simp add: find_call_def)
  then have "rpcc_got_pdu rb (length rb) c = Inr (True, ?c)"
    using u(1,2) assms(3) by (simp add: rpcc_got_pdu_def Let_def)
  moreover have "find_call (rp_xid h) ?c = Some ?ca" by (simp only: find_call_update if_True simp_thms)
  moreover have "u_at (ca_un ?ca) res"
    using assms(1) u(3,4)
    by (auto simp: reply_packet_def unmarshall_take_in_def unmarshall_take_buf_def u_at_def)
  ultimately show ?thesis by fastforce
qed

context remote_method
begin

text \<open>
  The whole exchange, for a method with arguments \<open>a\<close>, result \<open>r\<close> and return code \<open>b\<close>, when the
  server finds the request new.
\<close>

lemma exchange:
  assumes "valida a" "validr r" "24 + length (enca a) < 2 ^ 32" "24 + length (encr r) < 2 ^ 32"
    and "add_timespec now (sint to) = Inr f"
    and "(proc = rpc_bind) = (\<not> bind_done c)" "\<not> destroy_wait c"
    and "srv_nonce c = 0 \<or> srv_nonce c = s_nonce s"
    and "procs s proc = Some (h1_fn geta putr meth)"
    and "meth a (s_app s) = Inr (b, r, app')" "0 \<le> sint b"
    and "dispatch_prepare fe compare k \<lparr>rq_xid = next_xid c, rq_proc = proc, rq_clt_nonce = clt_nonce c,
      rq_srv_nonce = srv_nonce c, rq_xid_rep = hd (xid_rep_window c)\<rparr> s = Inr (NEW, s1, ev)"
    and "\<not> isdead k"
  shows "\<exists>m st c1 s2 rb c2. puta a (marshall_new mem) = Inr m \<and>
    call1_begin now proc m unmarshall_new to c = Inr (Inr st, c1) \<and>
    dispatch fe mem' compare isdead \<lparr>dj_buf = req_pdu st, dj_sz = length (req_pdu st), dj_conn = k\<rparr> s =
      Inr (s2, ev @ [S_send k rb, S_decref k]) \<and>
    s_app s2 = app' \<and>
    rpcc_got_pdu rb (length rb) c1 = Inr (True, c2) \<and> call_done (ca_xid st) c2 \<and>
    (\<exists>u u' c3 ev3. call1_end st c2 = ((b, u), c3, ev3) \<and> getr u = Inr (r, u') \<and> unmarshall_okdone u')"
proof -
  let ?h = "\<lparr>rq_xid = next_xid c, rq_proc = proc, rq_clt_nonce = clt_nonce c,
      rq_srv_nonce = srv_nonce c, rq_xid_rep = hd (xid_rep_window c)\<rparr>"
  obtain m where m: "puta a (marshall_new mem) = Inr m" "m_inv m"
      "m_bytes m = m_bytes (marshall_new mem) @ enca a"
    using args.put_appends [OF assms(1)] m_inv_new [of mem] unfolding m_appends_def by blast
  have content: "m_content m = enca a" using m_content_append [OF m_inv_new m(3)] by simp
  then have "m_ind m < 2 ^ 32"
    using assms(3) m_ind_content [OF m(2)] by simp
  then obtain st c1 where st: "call1_begin now proc m unmarshall_new to c = Inr (Inr st, c1)"
      "ca_xid st = next_xid c" "req_packet ?h (enca a) (req_pdu st)"
      "find_call (next_xid c) c1 = Some \<lparr>ca_un = unmarshall_new, ca_intret = 0, ca_done = False\<rparr>"
    using call_request_packet [OF m(2) content _ assms(5-7)] by blast
  obtain rb s2 where d: "dispatch fe mem' compare isdead
        \<lparr>dj_buf = req_pdu st, dj_sz = length (req_pdu st), dj_conn = k\<rparr> s =
      Inr (s2, ev @ [S_send k rb, S_decref k])" "s_app s2 = app'"
      "reply_packet \<lparr>rp_xid = next_xid c, rp_ret = b\<rparr> (encr r) rb"
    using dispatch_runs [where h = ?h and a = a and r = r and meth = meth and s = s and b = b and
        app' = app' and mem = mem' and isdead = isdead and c = k, OF st(3) assms(1,2,4,10,11) _ _ assms(12,13)] assms(8,9) by auto
  obtain c2 ca where c2: "rpcc_got_pdu rb (length rb) c1 = Inr (True, c2)"
      "find_call (next_xid c) c2 = Some ca" "ca_done ca" "ca_intret ca = b" "u_at (ca_un ca) (encr r)"
    using got_reply [where c = c1, OF d(3)] st(4) by auto
  obtain u' where u': "getr (ca_un ca) = Inr (r, u')" "u_at u' []"
    using u_readsD [OF res.get_reads [OF assms(2)], of "ca_un ca" "[]"] c2(5) by auto
  obtain c3 ev3 where e: "call1_end st c2 = ((b, ca_un ca), c3, ev3)"
    using c2 st(2) by (auto simp: call1_end_def Let_def)
  have "call_done (ca_xid st) c2" using c2 st(2) by (simp add: call_done_def)
  then show ?thesis
    using m(1) st(1) d(1,2) c2(1) e u' u_at_Nil_okdone by blast
qed

end

section \<open>The methods of the program\<close>

text \<open>\<open>bind\<close> and the three requests of Paxos, whose first argument is the sender's name.\<close>

interpretation bind_method: remote_method put_int get_int enc_uint "\<lambda>_. True"
  put_int get_int enc_uint "\<lambda>_. True"
  by unfold_locales

interpretation prepare_args: codec "put_pair put_string put_preparearg"
  "get_pair (get_string []) (get_preparearg a0)" "enc_pair enc_string enc_preparearg"
  "\<lambda>p. wire_size (fst p) \<and> prop_fits (pa_n (snd p))" for a0
  by (rule codec_pair [OF string_codec.codec_axioms preparearg_codec.codec_axioms])

interpretation prepare_method: remote_method "put_pair put_string put_preparearg"
  "get_pair (get_string []) (get_preparearg a0)" "enc_pair enc_string enc_preparearg"
  "\<lambda>p. wire_size (fst p) \<and> prop_fits (pa_n (snd p))"
  put_prepareres "get_prepareres r0" enc_prepareres
  "\<lambda>r. prop_fits (pr_n_a r) \<and> wire_size (pr_v_a r)" for a0 r0
  by unfold_locales

section \<open>Properties\<close>

text \<open>
  C6. A remote call is a call. Take a bound client without pending destruction and a server that
  knows its nonce, has the method registered under the same number and finds the request new. Then
  the request that \<open>call1\<close> builds from the arguments makes \<open>dispatch\<close> run the method on exactly
  these arguments and this state, keep its new state and send one reply; the client that gets this
  reply marks the call done, and \<open>call1\<close> returns exactly the code and the result of the method.
  This holds for every argument and result type whose operators meet the contract of the codecs.
\<close>

theorem remote_call_exact:
  assumes "remote_method puta geta enca valida putr getr encr validr"
    and "valida a" "validr r" "24 + length (enca a) < 2 ^ 32" "24 + length (encr r) < 2 ^ 32"
    and "add_timespec now (sint to) = Inr f"
    and "(proc = rpc_bind) = (\<not> bind_done c)" "\<not> destroy_wait c"
    and "srv_nonce c = 0 \<or> srv_nonce c = s_nonce s"
    and "procs s proc = Some (h1_fn geta putr meth)"
    and "meth a (s_app s) = Inr (b, r, app')" "0 \<le> sint b"
    and "dispatch_prepare fe compare k \<lparr>rq_xid = next_xid c, rq_proc = proc, rq_clt_nonce = clt_nonce c,
      rq_srv_nonce = srv_nonce c, rq_xid_rep = hd (xid_rep_window c)\<rparr> s = Inr (NEW, s1, ev)"
    and "\<not> isdead k"
  shows "\<exists>m st c1 s2 rb c2. puta a (marshall_new mem) = Inr m \<and>
    call1_begin now proc m unmarshall_new to c = Inr (Inr st, c1) \<and>
    dispatch fe mem' compare isdead \<lparr>dj_buf = req_pdu st, dj_sz = length (req_pdu st), dj_conn = k\<rparr> s =
      Inr (s2, ev @ [S_send k rb, S_decref k]) \<and>
    s_app s2 = app' \<and>
    rpcc_got_pdu rb (length rb) c1 = Inr (True, c2) \<and> call_done (ca_xid st) c2 \<and>
    (\<exists>u u' c3 ev3. call1_end st c2 = ((b, u), c3, ev3) \<and> getr u = Inr (r, u') \<and> unmarshall_okdone u')"
  using assms by (rule remote_method.exchange [where meth = meth and a = a and s = s and isdead = isdead and k = k])

text \<open>
  A new client (nonce 5) binds to a new server (nonce 77) and gets 77.
\<close>

definition bind_srv :: "unit rpcs" where
  "bind_srv = \<lparr>s_nonce = 77, reply_window = Map.empty, conns = Map.empty, counting = 0,
     curr_counts = 0, counts = (\<lambda>_. 0), s_reachable = True,
     procs = [rpc_bind \<mapsto> h1_fn get_int put_int (rpcbind 77)], s_app = ()\<rparr>"

lemma bind_srv_new: "rpcs_new 77 0 () = Inr bind_srv"
  by (simp add: rpcs_new_def reg1_def bind_srv_def VERIFY_def)

theorem remote_call_exact_witness:
  "\<exists>m st c1 s2 rb c2 ev. put_int 0 (marshall_new (\<lambda>_. 0)) = Inr m \<and>
    call1_begin \<lparr>tv_sec = 100, tv_nsec = 0\<rparr> rpc_bind m unmarshall_new 1000
      (rpcc_new 5 0 \<lparr>s_addr = 0, sin_port = 0\<rparr> True) = Inr (Inr st, c1) \<and>
    dispatch 0 (\<lambda>_. 0) (\<lambda>_ _. 0) (\<lambda>_. False)
      \<lparr>dj_buf = req_pdu st, dj_sz = length (req_pdu st), dj_conn = 3\<rparr> bind_srv =
      Inr (s2, ev @ [S_send 3 rb, S_decref 3]) \<and>
    rpcc_got_pdu rb (length rb) c1 = Inr (True, c2) \<and>
    (\<exists>u u' c3 ev3. call1_end st c2 = ((0, u), c3, ev3) \<and> get_int u = Inr (77, u'))"
proof -
  let ?c = "rpcc_new 5 0 \<lparr>s_addr = 0, sin_port = 0\<rparr> True"
  let ?h = "\<lparr>rq_xid = next_xid ?c, rq_proc = rpc_bind, rq_clt_nonce = clt_nonce ?c,
      rq_srv_nonce = srv_nonce ?c, rq_xid_rep = hd (xid_rep_window ?c)\<rparr>"
  have t: "add_timespec \<lparr>tv_sec = 100, tv_nsec = 0\<rparr> (sint (1000 :: cint)) = Inr \<lparr>tv_sec = 101, tv_nsec = 0\<rparr>"
    by code_simp
  obtain s1 ev where p: "dispatch_prepare 0 (\<lambda>_ _. 0) 3 ?h bind_srv = Inr (NEW, s1, ev)"
    by (simp add: dispatch_prepare_def rpcc_new_def bind_srv_def create_window_def save_conn_def
        checkduplicate_and_update_def front_xid_def scan_loop_0)
  have "\<exists>m st c1 s2 rb c2. put_int 0 (marshall_new (\<lambda>_. 0)) = Inr m \<and>
    call1_begin \<lparr>tv_sec = 100, tv_nsec = 0\<rparr> rpc_bind m unmarshall_new 1000 ?c = Inr (Inr st, c1) \<and>
    dispatch 0 (\<lambda>_. 0) (\<lambda>_ _. 0) (\<lambda>_. False)
      \<lparr>dj_buf = req_pdu st, dj_sz = length (req_pdu st), dj_conn = 3\<rparr> bind_srv =
      Inr (s2, ev @ [S_send 3 rb, S_decref 3]) \<and>
    s_app s2 = () \<and>
    rpcc_got_pdu rb (length rb) c1 = Inr (True, c2) \<and> call_done (ca_xid st) c2 \<and>
    (\<exists>u u' c3 ev3. call1_end st c2 = ((0, u), c3, ev3) \<and> get_int u = Inr (77, u') \<and> unmarshall_okdone u')"
    by (rule remote_call_exact [where meth = "rpcbind 77", OF bind_method.remote_method_axioms _ _ _ _ t
          _ _ _ _ _ _ p]) (simp_all add: rpcc_new_def bind_srv_def rpcbind_def)
  then show ?thesis by blast
qed

text \<open>
  C12. At most once, through \<open>dispatch\<close>. If the copy of a request that arrives first is new and runs,
  its reply is kept; and in every later state of the server, whatever was executed in between, in
  which the reply is still kept (the client has not acknowledged it) and the handler registered, a
  copy of the same packet, on any connection, does not run the method: the state of the handlers'
  objects stays, and the kept reply is sent once more, byte for byte. (The request has a client nonce,
  and its \<open>xid_rep\<close> is not above its \<open>xid\<close>.)
\<close>

theorem retransmission_not_executed:
  assumes "remote_method puta geta enca valida putr getr encr validr"
    and "req_packet h (enca a) pdu" "valida a" "validr r" "24 + length (encr r) < 2 ^ 32"
    and "meth a (s_app s) = Inr (b, r, app')" "0 \<le> sint b"
    and "procs s (rq_proc h) = Some (h1_fn geta putr meth)"
    and "rq_srv_nonce h = 0 \<or> rq_srv_nonce h = s_nonce s"
    and "dispatch_prepare fe compare c h s = Inr (NEW, s1, ev)" "\<not> isdead c"
    and "windows_ok (reply_window s)" "rq_clt_nonce h \<noteq> 0" "rq_xid_rep h \<le> rq_xid h"
  shows "\<exists>rb s2. dispatch fe mem compare isdead \<lparr>dj_buf = pdu, dj_sz = length pdu, dj_conn = c\<rparr> s =
      Inr (s2, ev @ [S_send c rb, S_decref c]) \<and> s_app s2 = app' \<and> procs s2 = procs s \<and> s_nonce s2 = s_nonce s \<and>
    reply_kept (rq_clt_nonce h) (rq_xid h) rb s2 \<and>
    (\<forall>t mem' compare' isdead' c'. reply_kept (rq_clt_nonce h) (rq_xid h) rb t \<and> procs t = procs s \<and> s_nonce t = s_nonce s \<longrightarrow>
      (\<exists>t' ev'. dispatch fe mem' compare' isdead' \<lparr>dj_buf = pdu, dj_sz = length pdu, dj_conn = c'\<rparr> t =
         Inr (t', ev' @ [S_send c' rb, S_decref c']) \<and> s_app t' = s_app t))"
proof -
  obtain rb s2 where d: "dispatch fe mem compare isdead \<lparr>dj_buf = pdu, dj_sz = length pdu, dj_conn = c\<rparr> s =
      Inr (s2, ev @ [S_send c rb, S_decref c])" "s_app s2 = app'" "procs s2 = procs s" "s_nonce s2 = s_nonce s"
      "reply_kept (rq_clt_nonce h) (rq_xid h) rb s2"
    using remote_method.dispatch_keeps [where meth = meth and s = s and isdead = isdead and c = c and mem = mem,
        OF assms] by blast
  show ?thesis
  proof (rule exI [of _ rb], rule exI [of _ s2], intro conjI d allI impI)
    fix t mem' compare' isdead' c'
    assume t: "reply_kept (rq_clt_nonce h) (rq_xid h) rb t \<and> procs t = procs s \<and> s_nonce t = s_nonce s"
    show "\<exists>t' ev'. dispatch fe mem' compare' isdead' \<lparr>dj_buf = pdu, dj_sz = length pdu, dj_conn = c'\<rparr> t =
        Inr (t', ev' @ [S_send c' rb, S_decref c']) \<and> s_app t' = s_app t"
      by (rule remote_method.dispatch_kept [OF assms(1,2)]) (use t assms(8,9,13,14) in simp_all)
  qed
qed

text \<open>
  A counter: method 7 adds its argument to the state. The packet with argument 4 arrives twice, on
  two connections, and the counter goes from 10 to 14 and later to 20; the second copy leaves it at 20.
\<close>

definition counter :: "cint \<Rightarrow> nat \<Rightarrow> (cint \<times> cint \<times> nat) result" where
  "counter a n = Inr (0, of_nat n, n + unat a)"

definition counter_srv :: "nat rpcs" where
  "counter_srv = \<lparr>s_nonce = 77, reply_window = Map.empty, conns = Map.empty, counting = 0,
     curr_counts = 0, counts = (\<lambda>_. 0), s_reachable = True,
     procs = [7 \<mapsto> h1_fn get_int put_int counter], s_app = 10\<rparr>"

definition counter_hdr :: req_header where
  "counter_hdr = \<lparr>rq_xid = 2, rq_proc = 7, rq_clt_nonce = 5, rq_srv_nonce = 77, rq_xid_rep = 1\<rparr>"

definition counter_pdu :: "byte list" where
  "counter_pdu = [0, 0, 0, 0] @ enc_req_header counter_hdr @ enc_uint 4"

theorem retransmission_not_executed_witness:
  "\<exists>rb s2 s3 ev ev'.
    dispatch 0 (\<lambda>_. 0) (\<lambda>_ _. 0) (\<lambda>_. False)
      \<lparr>dj_buf = counter_pdu, dj_sz = length counter_pdu, dj_conn = 3\<rparr> counter_srv =
      Inr (s2, ev @ [S_send 3 rb, S_decref 3]) \<and> s_app s2 = 14 \<and>
    dispatch 0 (\<lambda>_. 0) (\<lambda>_ _. 0) (\<lambda>_. False)
      \<lparr>dj_buf = counter_pdu, dj_sz = length counter_pdu, dj_conn = 4\<rparr> (s2\<lparr>s_app := 20\<rparr>) =
      Inr (s3, ev' @ [S_send 4 rb, S_decref 4]) \<and> s_app s3 = 20"
proof -
  have r: "req_packet counter_hdr (enc_uint 4) counter_pdu"
    unfolding req_packet_def counter_pdu_def by (intro exI [of _ "[0, 0, 0, 0]"]) simp
  obtain s1 ev where p: "dispatch_prepare 0 (\<lambda>_ _. 0) 3 counter_hdr counter_srv = Inr (NEW, s1, ev)"
    by (simp add: dispatch_prepare_def counter_hdr_def counter_srv_def create_window_def save_conn_def
        checkduplicate_and_update_def front_xid_def scan_loop_0)
  obtain rb s2 where d: "dispatch 0 (\<lambda>_. 0) (\<lambda>_ _. 0) (\<lambda>_. False)
      \<lparr>dj_buf = counter_pdu, dj_sz = length counter_pdu, dj_conn = 3\<rparr> counter_srv =
      Inr (s2, ev @ [S_send 3 rb, S_decref 3])" "s_app s2 = 14" "procs s2 = procs counter_srv" "s_nonce s2 = s_nonce counter_srv"
      "reply_kept (rq_clt_nonce counter_hdr) (rq_xid counter_hdr) rb s2"
    and again: "\<And>t mem' compare' isdead' c'. reply_kept (rq_clt_nonce counter_hdr) (rq_xid counter_hdr) rb t \<Longrightarrow>
      procs t = procs counter_srv \<Longrightarrow> s_nonce t = s_nonce counter_srv \<Longrightarrow>
      \<exists>t' ev'. dispatch 0 mem' compare' isdead' \<lparr>dj_buf = counter_pdu, dj_sz = length counter_pdu, dj_conn = c'\<rparr> t =
         Inr (t', ev' @ [S_send c' rb, S_decref c']) \<and> s_app t' = s_app t"
    using retransmission_not_executed [where meth = counter and a = 4 and b = 0 and r = 10 and isdead = "\<lambda>_. False" and app' = 14
        and mem = "\<lambda>_. 0", OF bind_method.remote_method_axioms r _ _ _ _ _ _ _ p]
    by (auto simp: counter_hdr_def counter_srv_def counter_def windows_ok_def word_le_nat_alt)
  have "reply_kept (rq_clt_nonce counter_hdr) (rq_xid counter_hdr) rb (s2\<lparr>s_app := 20\<rparr>)"
    using d(5) by (simp add: reply_kept_def)
  then show ?thesis using again [of "s2\<lparr>s_app := 20\<rparr>"] d(1-4) by fastforce
qed

end
