(* ===== verification/Handle_Mgr.thy ===== *)
theory Handle_Mgr
  imports Prelude
begin

text \<open>
  The cache of RPC clients of src/util/handle.cc. A \<open>hinfo\<close> is an object on a heap, addressed by a
  number; \<open>hmap\<close> leads from server names to addresses. An access to an object that was deleted is
  the fault \<open>Undefined\<close>. \<open>rpcc\<close> objects are numbers too; \<open>live_cl\<close> are the ones not yet deleted.
\<close>

section \<open>State and operations\<close>

record hinfo =
  h_cl :: "nat option"
  refcnt :: nat
  h_del :: bool
  h_m :: string

record handle_mgr =
  hobjs :: "nat \<rightharpoonup> hinfo"
  hmap :: "string \<rightharpoonup> nat"
  next_h :: nat
  live_cl :: "nat set"
  next_cl :: nat

definition handle_mgr_new :: handle_mgr where
  "handle_mgr_new = \<lparr>hobjs = Map.empty, hmap = Map.empty, next_h = 0, live_cl = {}, next_cl = 0\<rparr>"

definition deref :: "nat \<Rightarrow> handle_mgr \<Rightarrow> hinfo result" where
  "deref p g = (case hobjs g p of None \<Rightarrow> Inl Undefined | Some h \<Rightarrow> Inr h)"

definition store_h :: "nat \<Rightarrow> hinfo \<Rightarrow> handle_mgr \<Rightarrow> handle_mgr" where
  "store_h p h g = g\<lparr>hobjs := (hobjs g)(p \<mapsto> h)\<rparr>"

text \<open>The pointer of a \<open>handle\<close> object may be null: \<open>None\<close>.\<close>

definition get_handle :: "string \<Rightarrow> handle_mgr \<Rightarrow> (nat option \<times> handle_mgr) result" where
  "get_handle m g =
     (case hmap g m of
        None \<Rightarrow>
          let p = next_h g;
              g = store_h p \<lparr>h_cl = None, refcnt = 1, h_del = False, h_m = m\<rparr> g
          in Inr (Some p, g\<lparr>next_h := p + 1, hmap := (hmap g)(m \<mapsto> p)\<rparr>)
      | Some p \<Rightarrow>
          rbind (deref p g) (\<lambda>h.
          if \<not> h_del h then Inr (Some p, store_h p (h\<lparr>refcnt := refcnt h + 1\<rparr>) g)
          else Inr (None, g)))"

text \<open>The deleted client must be one that is still there (\<open>delete h->cl\<close>).\<close>

definition delete_handle_wo :: "string \<Rightarrow> handle_mgr \<Rightarrow> handle_mgr result" where
  "delete_handle_wo m g =
     (case hmap g m of
        None \<Rightarrow> Inr g
      | Some p \<Rightarrow>
          rbind (deref p g) (\<lambda>h.
          if refcnt h = 0 then
            rbind (case h_cl h of
                     None \<Rightarrow> Inr g
                   | Some cl \<Rightarrow>
                       if cl \<in> live_cl g then Inr (g\<lparr>live_cl := live_cl g - {cl}\<rparr>) else Inl Undefined)
              (\<lambda>g. Inr (g\<lparr>hmap := (hmap g)(m := None), hobjs := (hobjs g)(p := None)\<rparr>))
          else Inr (store_h p (h\<lparr>h_del := True\<rparr>) g)))"

definition delete_handle :: "string \<Rightarrow> handle_mgr \<Rightarrow> handle_mgr result" where
  "delete_handle m g = delete_handle_wo m g"

definition done_handle :: "nat \<Rightarrow> handle_mgr \<Rightarrow> handle_mgr result" where
  "done_handle p g =
     rbind (deref p g) (\<lambda>h.
     let h = h\<lparr>refcnt := refcnt h - 1\<rparr>; g = store_h p h g in
     if refcnt h = 0 \<and> h_del h then delete_handle_wo (h_m h) g else Inr g)"

definition handle_dtor :: "nat option \<Rightarrow> handle_mgr \<Rightarrow> handle_mgr result" where
  "handle_dtor hp g = (case hp of None \<Rightarrow> Inr g | Some p \<Rightarrow> done_handle p g)"

text \<open>\<open>bound\<close> says whether \<open>cl->bind\<close> succeeds.\<close>

definition safebind :: "bool \<Rightarrow> nat option \<Rightarrow> handle_mgr \<Rightarrow> (nat option \<times> handle_mgr) result" where
  "safebind bound hp g =
     (case hp of
        None \<Rightarrow> Inr (None, g)
      | Some p \<Rightarrow>
          rbind (deref p g) (\<lambda>h.
          if h_del h then Inr (None, g)
          else
            case h_cl h of
              Some cl \<Rightarrow> Inr (Some cl, g)
            | None \<Rightarrow>
                let cl = next_cl g; g = g\<lparr>next_cl := cl + 1\<rparr> in
                if bound
                then Inr (Some cl, store_h p (h\<lparr>h_cl := Some cl\<rparr>) (g\<lparr>live_cl := insert cl (live_cl g)\<rparr>))
                else Inr (None, store_h p (h\<lparr>h_del := True\<rparr>) g)))"

section \<open>Runs\<close>

text \<open>
  \<open>hs\<close> are the \<open>handle\<close> objects that exist, with their pointers, by an identity that the program
  gives them (a local variable of a thread).
\<close>

type_synonym handles = "nat \<rightharpoonup> nat option"

inductive hm_reach :: "handle_mgr \<Rightarrow> handles \<Rightarrow> bool" where
  start: "hm_reach handle_mgr_new Map.empty"
| ctor: "hm_reach g hs \<Longrightarrow> hs i = None \<Longrightarrow> get_handle m g = Inr (hp, g') \<Longrightarrow> hm_reach g' (hs(i \<mapsto> hp))"
| bind: "hm_reach g hs \<Longrightarrow> hs i = Some hp \<Longrightarrow> safebind bound hp g = Inr (cl, g') \<Longrightarrow> hm_reach g' hs"
| dtor: "hm_reach g hs \<Longrightarrow> hs i = Some hp \<Longrightarrow> handle_dtor hp g = Inr g' \<Longrightarrow> hm_reach g' (hs(i := None))"
| delete: "hm_reach g hs \<Longrightarrow> delete_handle m g = Inr g' \<Longrightarrow> hm_reach g' hs"

definition holders :: "handles \<Rightarrow> nat \<Rightarrow> nat set" where
  "holders hs p = {i. hs i = Some (Some p)}"

definition hm_inv :: "handle_mgr \<Rightarrow> handles \<Rightarrow> bool" where
  "hm_inv g hs =
     (finite (dom hs) \<and>
      (\<forall>m p. hmap g m = Some p \<longleftrightarrow> (\<exists>h. hobjs g p = Some h \<and> h_m h = m)) \<and>
      (\<forall>p h. hobjs g p = Some h \<longrightarrow>
         p < next_h g \<and> refcnt h = card (holders hs p) \<and>
         (\<forall>cl. h_cl h = Some cl \<longrightarrow> cl \<in> live_cl g \<and> cl < next_cl g)) \<and>
      (\<forall>p. holders hs p \<noteq> {} \<longrightarrow> hobjs g p \<noteq> None) \<and>
      (\<forall>p q h k cl. hobjs g p = Some h \<longrightarrow> hobjs g q = Some k \<longrightarrow> h_cl h = Some cl \<longrightarrow>
         h_cl k = Some cl \<longrightarrow> p = q))"

lemma holders_new:
  "hs i = None \<Longrightarrow> holders (hs(i \<mapsto> hp)) q = (if hp = Some q then insert i (holders hs q) else holders hs q)"
  by (auto simp: holders_def)

lemma holders_drop: "holders (hs(i := None)) q = holders hs q - {i}"
  by (auto simp: holders_def)

lemma holders_finite: "finite (dom hs) \<Longrightarrow> finite (holders hs p)"
  by (rule finite_subset [of _ "dom hs"]) (auto simp: holders_def)

lemma hm_invD:
  assumes "hm_inv g hs"
  shows "finite (dom hs)"
    and "hmap g m = Some p \<longleftrightarrow> (\<exists>h. hobjs g p = Some h \<and> h_m h = m)"
    and "hobjs g p = Some h \<Longrightarrow> p < next_h g"
    and "hobjs g p = Some h \<Longrightarrow> refcnt h = card (holders hs p)"
    and "hobjs g p = Some h \<Longrightarrow> h_cl h = Some cl \<Longrightarrow> cl \<in> live_cl g \<and> cl < next_cl g"
    and "i \<in> holders hs p \<Longrightarrow> \<exists>h. hobjs g p = Some h"
    and "hobjs g p = Some h \<Longrightarrow> hobjs g q = Some k \<Longrightarrow> h_cl h = Some cl \<Longrightarrow> h_cl k = Some cl \<Longrightarrow> p = q"
  using assms unfolding hm_inv_def by blast+

text \<open>Replacing the object at an address by one with the same name.\<close>

lemma hm_inv_store:
  assumes "hm_inv g hs" "hobjs g p = Some h" "h_m h' = h_m h" "refcnt h' = card (holders hs' p)"
    and "finite (dom hs')" "\<And>q. q \<noteq> p \<Longrightarrow> holders hs' q = holders hs q"
    and "h_cl h' = h_cl h \<or> h_cl h' = None"
  shows "hm_inv (store_h p h' g) hs'"
proof -
  note inv = hm_invD [OF assms(1)]
  have "hobjs g q \<noteq> None" if "holders hs' q \<noteq> {}" "q \<noteq> p" for q
    using inv(6) [of _ q] assms(6) that by fastforce
  moreover have uniq: "h_cl k \<noteq> h_cl h" if "hobjs g q = Some k" "q \<noteq> p" "Some cl = h_cl h" for q k cl
    using inv(7) [OF that(1) assms(2)] that(2,3) by metis
  moreover have uniq': "q = q'" if "hobjs g q = Some k" "hobjs g q' = Some k'" "h_cl k = Some cl" "h_cl k' = Some cl" for q q' k k' cl
    using inv(7) that by blast
  ultimately show ?thesis
    unfolding hm_inv_def store_h_def
    using inv(2-5) assms(2-7) uniq uniq' by (auto split: if_splits)
qed

lemma hm_inv_get_handle:
  assumes "hm_inv g hs" "hs i = None" "get_handle m g = Inr (hp, g')"
  shows "hm_inv g' (hs(i \<mapsto> hp))"
proof -
  note inv = hm_invD [OF assms(1)]
  have fin: "finite (dom (hs(i \<mapsto> hp)))" using inv(1) by simp
  have i: "i \<notin> holders hs q" for q using assms(2) by (simp add: holders_def)
  show ?thesis
  proof (cases "hmap g m")
    case None
    let ?p = "next_h g"
    have fresh: "hobjs g ?p = None" using inv(3) [of ?p] by fastforce
    then have none: "holders hs ?p = {}" using inv(6) by fastforce
    have g': "hp = Some ?p" "hobjs g' = (hobjs g)(?p \<mapsto> \<lparr>h_cl = None, refcnt = 1, h_del = False, h_m = m\<rparr>)"
        "hmap g' = (hmap g)(m \<mapsto> ?p)" "next_h g' = ?p + 1" "live_cl g' = live_cl g" "next_cl g' = next_cl g"
      using assms(3) None by (auto simp: get_handle_def store_h_def Let_def)
    have map: "hobjs g p = Some h \<Longrightarrow> h_m h \<noteq> m" for p h using inv(2) [of m p] None by auto
    have old: "hobjs g p \<noteq> None" if "holders hs p \<noteq> {}" for p using inv(6) that by fastforce
    have lt: "hobjs g p = Some h \<Longrightarrow> p < Suc ?p" for p h using inv(3) [of p h] by simp
    show ?thesis
      unfolding hm_inv_def g' holders_new [of hs i, OF assms(2)]
      using fin map none fresh old lt inv(2,4,5,7) by (auto split: if_splits)
  next
    case (Some p)
    then obtain h where h: "hobjs g p = Some h" "h_m h = m" using inv(2) by blast
    show ?thesis
    proof (cases "h_del h")
      case True
      then have "hp = None" "g' = g" using assms(3) Some h by (auto simp: get_handle_def deref_def)
      then show ?thesis using assms(1) fin unfolding hm_inv_def by (simp add: holders_new [of hs i, OF assms(2)])
    next
      case False
      then have "hp = Some p" "g' = store_h p (h\<lparr>refcnt := refcnt h + 1\<rparr>) g"
        using assms(3) Some h by (auto simp: get_handle_def deref_def)
      then show ?thesis
        using fin i holders_finite [OF inv(1), of p] inv(4) [OF h(1)]
        by (auto intro!: hm_inv_store [OF assms(1) h(1)] simp: holders_new [of hs i, OF assms(2)])
    qed
  qed
qed

lemma hm_inv_safebind:
  assumes "hm_inv g hs" "safebind bound hp g = Inr (cl, g')"
  shows "hm_inv g' hs"
proof -
  note inv = hm_invD [OF assms(1)]
  have upd: "hm_inv (g\<lparr>next_cl := next_cl g + 1\<rparr>) hs" using assms(1) unfolding hm_inv_def by (simp add: less_SucI)
  have "g' = g \<or>
      (\<exists>p h. hobjs g p = Some h \<and> g' = store_h p (h\<lparr>h_del := True\<rparr>) (g\<lparr>next_cl := next_cl g + 1\<rparr>)) \<or>
      (\<exists>p h. hobjs g p = Some h \<and> h_cl h = None \<and>
        g' = store_h p (h\<lparr>h_cl := Some (next_cl g)\<rparr>)
          (g\<lparr>next_cl := next_cl g + 1, live_cl := insert (next_cl g) (live_cl g)\<rparr>))"
  proof (cases hp)
    case None
    then show ?thesis using assms(2) by (simp add: safebind_def)
  next
    case (Some p)
    then obtain h where h: "hobjs g p = Some h"
      using assms(2) by (cases "hobjs g p") (auto simp: safebind_def deref_def)
    then show ?thesis using assms(2) Some
      by (cases "h_del h"; cases "h_cl h"; cases bound; simp add: safebind_def deref_def Let_def; metis)
  qed
  then consider "g' = g" | p h where "hobjs g p = Some h" "g' = store_h p (h\<lparr>h_del := True\<rparr>) (g\<lparr>next_cl := next_cl g + 1\<rparr>)"
    | p h where "hobjs g p = Some h" "h_cl h = None"
      "g' = store_h p (h\<lparr>h_cl := Some (next_cl g)\<rparr>)
         (g\<lparr>next_cl := next_cl g + 1, live_cl := insert (next_cl g) (live_cl g)\<rparr>)"
    by metis
  then show ?thesis
  proof cases
    case 1
    then show ?thesis using assms(1) by simp
  next
    case 2
    show ?thesis unfolding 2(2)
      by (rule hm_inv_store [OF upd, of p h]) (use 2(1) inv(1) inv(4) [OF 2(1)] in auto)
  next
    case 3
    have less: "hobjs g q = Some k \<Longrightarrow> h_cl k \<noteq> Some (next_cl g)" for q k
      using inv(5) [of q k "next_cl g"] by auto
    have old: "hobjs g q \<noteq> None" if "holders hs q \<noteq> {}" for q using inv(6) that by fastforce
    have lt: "hobjs g q = Some k \<Longrightarrow> h_cl k = Some cl \<Longrightarrow> cl < Suc (next_cl g) \<and> cl \<in> live_cl g" for q k cl
      using inv(5) [of q k cl] by simp
    show ?thesis
      unfolding hm_inv_def 3(3) store_h_def
      using 3(1) inv(1,2,3,4,7) less old lt by (auto split: if_splits)
  qed
qed

lemma hm_inv_delete:
  assumes "hm_inv g hs" "hobjs g p = Some h" "refcnt h = 0"
  shows "\<exists>g'. delete_handle_wo (h_m h) g = Inr g' \<and> hm_inv g' hs"
proof -
  note inv = hm_invD [OF assms(1)]
  have m: "hmap g (h_m h) = Some p" using inv(2) assms(2) by blast
  have none: "holders hs p = {}"
    using inv(4) [OF assms(2)] assms(3) holders_finite [OF inv(1), of p] by simp
  have old: "hobjs g q \<noteq> None" if "holders hs q \<noteq> {}" for q using inv(6) that by fastforce
  have other: "h_m k \<noteq> h_m h" if "hobjs g q = Some k" "q \<noteq> p" for q k
    using inv(2) [of "h_m h" q] that m by auto
  let ?live = "case h_cl h of None \<Rightarrow> live_cl g | Some cl \<Rightarrow> live_cl g - {cl}"
  let ?g = "g\<lparr>hmap := (hmap g)(h_m h := None), hobjs := (hobjs g)(p := None), live_cl := ?live\<rparr>"
  have live: "cl \<in> ?live" if "hobjs g q = Some k" "q \<noteq> p" "h_cl k = Some cl" for q k cl
    using inv(5) [OF that(1,3)] inv(7) [OF that(1) assms(2) that(3)] that(2) by (auto split: option.splits)
  have "delete_handle_wo (h_m h) g = Inr ?g"
    using m assms(2,3) inv(5) [OF assms(2)]
    by (cases "h_cl h") (auto simp: delete_handle_wo_def deref_def)
  moreover have "hm_inv ?g hs"
    unfolding hm_inv_def
    using none old other live inv(1,2,3,4,5,7) assms(2) by (auto split: if_splits)
  ultimately show ?thesis by blast
qed

lemma hm_inv_delete_handle:
  assumes "hm_inv g hs"
  shows "\<exists>g'. delete_handle m g = Inr g' \<and> hm_inv g' hs"
proof (cases "hmap g m")
  case None
  then show ?thesis using assms by (simp add: delete_handle_def delete_handle_wo_def)
next
  case (Some p)
  note inv = hm_invD [OF assms]
  obtain h where h: "hobjs g p = Some h" "h_m h = m" using inv(2) Some by blast
  show ?thesis
  proof (cases "refcnt h = 0")
    case True
    then show ?thesis using hm_inv_delete [OF assms h(1)] h(2) by (simp add: delete_handle_def)
  next
    case False
    then have "delete_handle m g = Inr (store_h p (h\<lparr>h_del := True\<rparr>) g)"
      using Some h by (simp add: delete_handle_def delete_handle_wo_def deref_def)
    moreover have "hm_inv (store_h p (h\<lparr>h_del := True\<rparr>) g) hs"
      by (rule hm_inv_store [OF assms h(1)]) (use inv(1) inv(4) [OF h(1)] in auto)
    ultimately show ?thesis by blast
  qed
qed

lemma hm_inv_dtor:
  assumes "hm_inv g hs" "hs i = Some hp"
  shows "\<exists>g'. handle_dtor hp g = Inr g' \<and> hm_inv g' (hs(i := None))"
proof (cases hp)
  case None
  then have "holders (hs(i := None)) q = holders hs q" for q using assms(2) by (auto simp: holders_def)
  then show ?thesis using assms(1) None by (auto simp: handle_dtor_def hm_inv_def)
next
  case (Some p)
  note inv = hm_invD [OF assms(1)]
  have i: "i \<in> holders hs p" "\<And>q. q \<noteq> p \<Longrightarrow> i \<notin> holders hs q"
    using assms(2) Some by (auto simp: holders_def)
  obtain h where h: "hobjs g p = Some h" using inv(6) [OF i(1)] by blast
  let ?h = "h\<lparr>refcnt := refcnt h - 1\<rparr>"
  let ?g = "store_h p ?h g"
  have s: "hm_inv ?g (hs(i := None))"
    by (rule hm_inv_store [OF assms(1) h])
      (use inv(1) inv(4) [OF h] i holders_finite [OF inv(1), of p] in \<open>auto simp: holders_drop\<close>)
  have hp: "hobjs ?g p = Some ?h" by (simp add: store_h_def)
  show ?thesis
  proof (cases "refcnt ?h = 0 \<and> h_del h")
    case True
    then show ?thesis using hm_inv_delete [OF s hp] h Some
      by (auto simp: handle_dtor_def done_handle_def deref_def Let_def)
  next
    case False
    then show ?thesis using s h Some by (auto simp: handle_dtor_def done_handle_def deref_def Let_def)
  qed
qed

lemma hm_inv_reach: "hm_reach g hs \<Longrightarrow> hm_inv g hs"
proof (induction rule: hm_reach.induct)
  case start
  show ?case by (simp add: hm_inv_def handle_mgr_new_def holders_def)
next
  case (dtor g hs i hp g')
  then show ?case using hm_inv_dtor [of g hs i hp] by (metis sum.inject(2))
next
  case (delete g hs m g')
  then show ?case using hm_inv_delete_handle [of g hs m] by auto
qed (blast intro: hm_inv_get_handle hm_inv_safebind)+

section \<open>Properties\<close>

text \<open>
  C20. The handle cache never touches deleted memory. In every state that any interleaving of
  constructions, \<open>safebind\<close>s and destructions of \<open>handle\<close> objects and of \<open>delete_handle\<close> calls can
  reach: the \<open>hinfo\<close> of every existing handle is allocated and its reference count is the number
  of the handles that point to it; every operation succeeds; and a client that \<open>safebind\<close>
  returns has not been deleted, so it can be used as long as the handle exists.
\<close>

theorem handle_never_dangles:
  assumes "hm_reach g hs"
  shows "(\<forall>i p. hs i = Some (Some p) \<longrightarrow> (\<exists>h. hobjs g p = Some h \<and> refcnt h = card (holders hs p))) \<and>
    (\<exists>r. get_handle m g = Inr r) \<and> (\<exists>g'. delete_handle m g = Inr g') \<and>
    (\<forall>i hp. hs i = Some hp \<longrightarrow> (\<exists>g'. handle_dtor hp g = Inr g') \<and>
       (\<exists>cl g'. safebind bound hp g = Inr (cl, g') \<and> (\<forall>c. cl = Some c \<longrightarrow> c \<in> live_cl g')))"
proof -
  have g: "hm_inv g hs" using assms by (rule hm_inv_reach)
  note inv = hm_invD [OF g]
  have ptr: "\<exists>h. hobjs g p = Some h \<and> refcnt h = card (holders hs p)" if "hs i = Some (Some p)" for i p
    using inv(6) [of i p] inv(4) [of p] that by (auto simp: holders_def)
  have get: "\<exists>r. get_handle m g = Inr r"
  proof (cases "hmap g m")
    case (Some p)
    then show ?thesis using inv(2) [of m p] by (auto simp: get_handle_def deref_def)
  qed (simp add: get_handle_def Let_def)
  have sb: "\<exists>cl g'. safebind bound hp g = Inr (cl, g') \<and> (\<forall>c. cl = Some c \<longrightarrow> c \<in> live_cl g')"
    if "hs i = Some hp" for i hp
  proof (cases hp)
    case (Some p)
    then obtain h where h: "hobjs g p = Some h" using ptr [of i p] \<open>hs i = Some hp\<close> by blast
    then show ?thesis using Some inv(5) [OF h]
      by (cases "h_del h"; cases "h_cl h"; cases bound; simp add: safebind_def deref_def Let_def store_h_def)
  qed (simp add: safebind_def)
  show ?thesis using ptr get sb hm_inv_delete_handle [OF g] hm_inv_dtor [OF g] by meson
qed

text \<open>
  Two handles for one server; the cache entry is deleted while both exist, then one of them goes.
\<close>

definition hm_ex :: "handle_mgr result" where
  "hm_ex =
     rbind (get_handle ''a'' handle_mgr_new) (\<lambda>(_, g).
     rbind (get_handle ''a'' g) (\<lambda>(_, g).
     rbind (delete_handle ''a'' g) (\<lambda>g. handle_dtor (Some 0) g)))"

theorem handle_never_dangles_witness:
  "\<exists>g. hm_ex = Inr g \<and> hm_reach g [2 \<mapsto> Some 0] \<and>
    (\<exists>h. hobjs g 0 = Some h \<and> refcnt h = card (holders [2 \<mapsto> Some 0] 0)) \<and>
    (\<exists>g'. handle_dtor (Some 0) g = Inr g')"
proof -
  let ?h = "\<lparr>h_cl = None, refcnt = 1, h_del = False, h_m = ''a''\<rparr>"
  let ?g = "\<lambda>h. \<lparr>hobjs = [0 \<mapsto> h], hmap = [''a'' \<mapsto> 0], next_h = 1, live_cl = {}, next_cl = 0\<rparr>"
  have a: "get_handle ''a'' handle_mgr_new = Inr (Some 0, ?g ?h)"
    by (simp add: get_handle_def handle_mgr_new_def store_h_def)
  have b: "get_handle ''a'' (?g ?h) = Inr (Some 0, ?g (?h\<lparr>refcnt := 2\<rparr>))"
    by (simp add: get_handle_def deref_def store_h_def numeral_2_eq_2)
  have c: "delete_handle ''a'' (?g (?h\<lparr>refcnt := 2\<rparr>)) = Inr (?g (?h\<lparr>refcnt := 2, h_del := True\<rparr>))"
    by (simp add: delete_handle_def delete_handle_wo_def deref_def store_h_def)
  have d: "handle_dtor (Some 0) (?g (?h\<lparr>refcnt := 2, h_del := True\<rparr>)) = Inr (?g (?h\<lparr>h_del := True\<rparr>))"
    by (simp add: handle_dtor_def done_handle_def deref_def store_h_def)
  have "hm_reach (?g ?h) [1 \<mapsto> Some 0]" using hm_reach.ctor [OF hm_reach.start _ a, of 1] by simp
  from hm_reach.ctor [OF this _ b, of 2]
  have "hm_reach (?g (?h\<lparr>refcnt := 2\<rparr>)) [1 \<mapsto> Some 0, 2 \<mapsto> Some 0]" by simp
  from hm_reach.dtor [OF hm_reach.delete [OF this c] _ d, of 1]
  have r: "hm_reach (?g (?h\<lparr>h_del := True\<rparr>)) [2 \<mapsto> Some 0]" by (simp add: fun_upd_twist)
  have "hm_ex = Inr (?g (?h\<lparr>h_del := True\<rparr>))" using a b c d by (simp add: hm_ex_def)
  moreover have "[2 :: nat \<mapsto> Some (0 :: nat)] 2 = Some (Some 0)" by simp
  ultimately show ?thesis using handle_never_dangles [OF r] r by meson
qed

end
