(* ===== verification/Config.thy ===== *)
theory Config
  imports Paxos Rpc_Client
begin

text \<open>
  Views: class \<open>config\<close> of src/rsm/config.cc. A view is a list of node names; the values Paxos
  agrees on are views printed by \<open>value\<close> and read back by \<open>members\<close>. \<open>pro->run\<close>, the RPCs of the
  heartbeats and the handle cache are outside: \<open>run\<close> and the outcomes of calls are arguments,
  \<open>mgr.delete_handle\<close> and \<open>vc->commit_change\<close> are events.
\<close>

section \<open>State\<close>

datatype heartbeat_t = HB_OK | HB_VIEWERR | HB_FAILURE

datatype cfg_ev = Delete_handle string | Commit_change u32

record config =
  cfg_acc :: acceptor
  cfg_pro :: proposer
  myvid :: u32
  cfg_first :: string
  cfg_me :: string
  cfg_vc :: bool
  mems :: "string list"

section \<open>Views as strings\<close>

function members_loop :: "string \<Rightarrow> istream \<Rightarrow> string list" where
  "members_loop m ist =
     (case in_string m ist of (m, ist') \<Rightarrow>
      if in_fail ist' then [] else m # members_loop m ist')"
  by auto

termination
proof (relation "measure (\<lambda>(m, ist). length (in_rest ist))", goal_cases)
  case (2 m ist m' ist')
  show ?case using in_string_shorter [OF 2(1) [symmetric] 2(2)] by (simp only: in_measure prod.case)
qed simp

declare members_loop.simps [simp del]

definition members :: "string \<Rightarrow> string list" where
  "members v = members_loop [] (istream_open v)"

fun view_value :: "string list \<Rightarrow> string" where
  "view_value [] = []"
| "view_value (m # ms) = m @ '' '' @ view_value ms"

section \<open>Operations\<close>

definition get_view_wo :: "u32 \<Rightarrow> config \<Rightarrow> string list \<times> config" where
  "get_view_wo i c = (case acceptor_value i (cfg_acc c) of (v, a) \<Rightarrow> (members v, c\<lparr>cfg_acc := a\<rparr>))"

definition get_view :: "u32 \<Rightarrow> config \<Rightarrow> string list \<times> config" where
  "get_view i c = get_view_wo i c"

definition reconstruct :: "config \<Rightarrow> config" where
  "reconstruct c =
     (if instance_h (cfg_acc c) > 0 then
        let c = c\<lparr>myvid := instance_h (cfg_acc c)\<rparr>; (v, c) = get_view_wo (myvid c) c in c\<lparr>mems := v\<rparr>
      else c)"

text \<open>\<open>inst\<close> is the uninitialised local of \<open>log::logread\<close>, \<open>file\<close> the log file found at the start.\<close>

definition config_new :: "u32 \<Rightarrow> string \<Rightarrow> string \<Rightarrow> bool \<Rightarrow> string \<Rightarrow> config result" where
  "config_new inst first me vc file =
     rbind (acceptor_new inst True (me = first) me me file) (\<lambda>a.
     Inr (reconstruct \<lparr>cfg_acc = a, cfg_pro = proposer_new me, myvid = 0, cfg_first = first,
       cfg_me = me, cfg_vc = vc, mems = []\<rparr>))"

definition config_restore :: "u32 \<Rightarrow> string \<Rightarrow> config \<Rightarrow> config result" where
  "config_restore inst s c =
     rbind (acceptor_restore inst s (cfg_acc c)) (\<lambda>a. Inr (reconstruct (c\<lparr>cfg_acc := a\<rparr>)))"

fun drop_old :: "string \<Rightarrow> string list \<Rightarrow> string list \<Rightarrow> cfg_ev list" where
  "drop_old me newmem [] = []"
| "drop_old me newmem (m # ms) =
     (if \<not> isamember m newmem \<and> me \<noteq> m then [Delete_handle m] else []) @ drop_old me newmem ms"

definition paxos_commit :: "u32 \<Rightarrow> string \<Rightarrow> config \<Rightarrow> config \<times> cfg_ev list" where
  "paxos_commit i v c =
     (let newmem = members v;
          ev = drop_old (cfg_me c) newmem (mems c);
          c = c\<lparr>mems := newmem, myvid := i\<rparr>
      in (c, ev @ (if cfg_vc c then [Commit_change (myvid c)] else [])))"

definition ismember :: "string \<Rightarrow> u32 \<Rightarrow> config \<Rightarrow> bool \<times> config" where
  "ismember m vid c = (case get_view_wo vid c of (v, c) \<Rightarrow> (isamember m v, c))"

text \<open>
  \<open>run\<close> is \<open>pro->run\<close> with the lock released; \<open>w\<close> is the rest of the world, which it changes.
\<close>

definition config_add :: "(u32 \<Rightarrow> string list \<Rightarrow> string \<Rightarrow> 'w \<Rightarrow> (bool \<times> 'w) result) \<Rightarrow>
    string \<Rightarrow> u32 \<Rightarrow> config \<Rightarrow> 'w \<Rightarrow> (bool \<times> 'w) result" where
  "config_add run new_m vid c w =
     (if vid \<noteq> myvid c then Inr (False, w)
      else
        let m = mems c @ [new_m]; curm = mems c; v = view_value m; nextvid = myvid c + 1
        in run nextvid curm v w)"

fun without :: "string \<Rightarrow> string list \<Rightarrow> string list" where
  "without m [] = []"
| "without m (x # xs) = (if x \<noteq> m then x # without m xs else without m xs)"

definition remove_wo :: "(u32 \<Rightarrow> string list \<Rightarrow> string \<Rightarrow> 'w \<Rightarrow> (bool \<times> 'w) result) \<Rightarrow>
    string \<Rightarrow> config \<Rightarrow> 'w \<Rightarrow> (bool \<times> 'w) result" where
  "remove_wo run m c w =
     (let n = without m (mems c); v = view_value n; cmems = mems c; nextvid = myvid c + 1
      in run nextvid cmems v w)"

text \<open>
  \<open>doheartbeat\<close>: \<open>ret\<close> is what the RPC returns, \<open>None\<close> if \<open>safebind\<close> gave no client.
\<close>

definition doheartbeat :: "string \<Rightarrow> cint option \<Rightarrow> heartbeat_t \<times> cfg_ev list" where
  "doheartbeat m call =
     (let ret = (case call of None \<Rightarrow> timeout_failure | Some r \<Rightarrow> r) in
      if ret \<noteq> of_int paxos_OK then
        if ret = atmostonce_failure \<or> ret = oldsrv_failure then (HB_OK, [Delete_handle m])
        else (if sint ret < 0 then HB_FAILURE else HB_VIEWERR, [])
      else (HB_OK, []))"

fun smallest :: "string \<Rightarrow> string list \<Rightarrow> string" where
  "smallest m [] = m"
| "smallest m (x # xs) = smallest (if m > x then x else m) xs"

fun ping_rest :: "(string \<Rightarrow> heartbeat_t) \<Rightarrow> string \<Rightarrow> string list \<Rightarrow> string option" where
  "ping_rest hb me [] = None"
| "ping_rest hb me (m # ms) = (if m \<noteq> me \<and> hb m \<noteq> HB_OK then Some m else ping_rest hb me ms)"

text \<open>
  One round of \<open>heartbeater\<close>: \<open>hb\<close> gives the outcomes of \<open>doheartbeat\<close>, \<open>vid_now\<close> is \<open>myvid\<close> after
  the pings (the lock is released meanwhile). The result is the node to remove.
\<close>

definition heartbeater_round :: "(string \<Rightarrow> heartbeat_t) \<Rightarrow> u32 \<Rightarrow> config \<Rightarrow> string option \<times> config" where
  "heartbeater_round hb vid_now c =
     (let vid = myvid c; (cmems, c) = get_view_wo vid c in
      if \<not> isamember (cfg_me c) cmems then (None, c)
      else
        let m = smallest (cfg_me c) cmems;
            dead = (if m = cfg_me c then ping_rest hb (cfg_me c) cmems
                    else if hb m \<noteq> HB_OK then Some m else None)
        in (if vid = vid_now then dead else None, c))"

definition heartbeat :: "u32 \<Rightarrow> config \<Rightarrow> (int \<times> u32) result" where
  "heartbeat vid c =
     (if vid = myvid c then Inr (paxos_OK, myvid c)
      else if isrunning (cfg_pro c) then
        rbind (VERIFY (vid = myvid c + 1 \<or> vid + 1 = myvid c)) (\<lambda>_. Inr (paxos_OK, myvid c))
      else Inr (paxos_ERR, myvid c))"

section \<open>Reading a printed view\<close>

lemma members_loop_word:
  assumes "word_ok w" "r = [] \<or> isspace (hd r)"
  shows "members_loop old \<lparr>in_rest = w @ r, in_eof = False, in_fail = False\<rparr> =
    w # members_loop w \<lparr>in_rest = r, in_eof = (r = []), in_fail = False\<rparr>"
  using in_string_word [OF assms, of old] by (simp add: members_loop.simps [of old])

lemma members_loop_skip:
  assumes "isspace c"
  shows "members_loop old \<lparr>in_rest = c # r, in_eof = False, in_fail = False\<rparr> =
    members_loop old \<lparr>in_rest = r, in_eof = False, in_fail = False\<rparr>"
  using in_string_skip [OF assms, of old r]
  by (simp add: members_loop.simps [of old "\<lparr>in_rest = _ # _, in_eof = _, in_fail = _\<rparr>"]
      members_loop.simps [of old "\<lparr>in_rest = r, in_eof = _, in_fail = _\<rparr>"])

lemma members_view_value:
  "list_all word_ok ms \<Longrightarrow>
    members_loop old \<lparr>in_rest = view_value ms, in_eof = False, in_fail = False\<rparr> = ms"
proof (induction ms arbitrary: old)
  case Nil
  then show ?case by (simp add: members_loop.simps in_string_def in_sentry_def)
next
  case (Cons m ms)
  have sp: "isspace CHR '' ''" by (simp add: isspace_def)
  have "members_loop old \<lparr>in_rest = m @ '' '' @ view_value ms, in_eof = False, in_fail = False\<rparr> =
      m # members_loop m \<lparr>in_rest = CHR '' '' # view_value ms, in_eof = False, in_fail = False\<rparr>"
    using Cons.prems sp by (subst members_loop_word) simp_all
  then show ?case using Cons members_loop_skip [OF sp, of m "view_value ms"] by simp
qed

lemma members_value: "list_all word_ok ms \<Longrightarrow> members (view_value ms) = ms"
  by (simp add: members_def istream_open_def members_view_value)

lemma without_filter: "without m xs = filter (\<lambda>x. x \<noteq> m) xs"
  by (induction xs) auto

section \<open>The view is an agreed value\<close>

text \<open>
  \<open>acceptor::commit_wo\<close> gives up its lock before it calls \<open>config::paxos_commit\<close>: between the commit
  of an instance and its upcall, the acceptor and the view serve other threads. \<open>us\<close> are the upcalls
  that have not been made yet, the oldest commit first. \<open>ord\<close> says that upcalls are made in the order
  of the commits and that none is open when a log is restored.
\<close>

fun upcall_ok :: "acceptor \<Rightarrow> u32 \<times> string \<Rightarrow> bool" where
  "upcall_ok a (i, v) = (i \<noteq> 0 \<and> i \<le> instance_h a \<and> value_at i a = v)"

lemma upcalls_frame:
  assumes "list_all (upcall_ok a) us" "instance_h a \<le> instance_h a'"
    and "\<And>j. j \<le> instance_h a \<Longrightarrow> value_at j a' = value_at j a"
  shows "list_all (upcall_ok a') us"
  using assms by (induction us) auto

definition config_inv :: "bool \<Rightarrow> config \<Rightarrow> upcalls \<Rightarrow> bool" where
  "config_inv ord c us =
     (acc_cfg (cfg_acc c) \<and>
      mems c = (if myvid c = 0 then [] else members (value_at (myvid c) (cfg_acc c))) \<and>
      myvid c \<le> instance_h (cfg_acc c) \<and>
      list_all (upcall_ok (cfg_acc c)) us \<and>
      (ord \<longrightarrow> last (myvid c # map fst us) = instance_h (cfg_acc c)))"

lemma value_at_value: "value_at j (snd (acceptor_value i a)) = value_at j a"
  by (auto simp: acceptor_value_def value_at_def split: option.splits)

lemma get_view_wo_frame:
  assumes "get_view_wo i c = (v, c')"
  shows "v = members (value_at i (cfg_acc c)) \<and> value_at j (cfg_acc c') = value_at j (cfg_acc c) \<and>
    instance_h (cfg_acc c') = instance_h (cfg_acc c) \<and> acc_cfg (cfg_acc c') = acc_cfg (cfg_acc c) \<and>
    myvid c' = myvid c \<and> mems c' = mems c \<and> cfg_me c' = cfg_me c \<and> cfg_pro c' = cfg_pro c"
  using assms value_at_value [of j i "cfg_acc c"]
  by (auto simp: get_view_wo_def acceptor_value_def)

lemma config_inv_get_view: "config_inv ord c us \<Longrightarrow> get_view_wo i c = (v, c') \<Longrightarrow> config_inv ord c' us"
  using get_view_wo_frame [of i c v c'] upcalls_frame [of "cfg_acc c" us "cfg_acc c'"] by (simp add: config_inv_def)

lemma config_inv_reconstruct:
  assumes "acc_cfg (cfg_acc c)" "instance_h (cfg_acc c) > 0 \<or> myvid c = 0 \<and> mems c = []"
    and "list_all (upcall_ok (cfg_acc c)) us" "ord \<longrightarrow> us = []"
  shows "config_inv ord (reconstruct c) us"
proof (cases "instance_h (cfg_acc c) > 0")
  case True
  let ?c = "c\<lparr>myvid := instance_h (cfg_acc c)\<rparr>"
  obtain v c' where g: "get_view_wo (myvid ?c) ?c = (v, c')" by fastforce
  then have "reconstruct c = c'\<lparr>mems := v\<rparr>" using True by (simp add: reconstruct_def)
  then show ?thesis
    using get_view_wo_frame [OF g] True assms(1,3,4) upcalls_frame [of "cfg_acc c" us "cfg_acc c'"]
    by (auto simp: config_inv_def)
next
  case False
  then show ?thesis using assms by (auto simp: reconstruct_def config_inv_def word_gt_0)
qed

lemma config_inv_commit:
  assumes "config_inv ord c us" "commit_wo i v (cfg_acc c) = (a, us')"
  shows "config_inv ord (c\<lparr>cfg_acc := a\<rparr>) (us @ us')"
proof (cases "i > instance_h (cfg_acc c)")
  case True
  then have j: "value_at j a = (if j = i then v else value_at j (cfg_acc c))" "instance_h a = i" "acc_cfg a" "us' = [(i, v)]" for j
    using assms by (auto simp: commit_wo_def Let_def loginstance_def value_at_def config_inv_def)
  have ne: "j \<noteq> i" if "j \<le> instance_h (cfg_acc c)" for j using that True by auto
  have "list_all (upcall_ok (cfg_acc c)) us" using assms(1) by (simp add: config_inv_def)
  then have "list_all (upcall_ok a) us" by (rule upcalls_frame) (use True j(1,2) ne in simp_all)
  moreover have "i \<noteq> 0" using True by auto
  ultimately show ?thesis using assms(1) True j ne [of "myvid c"] by (auto simp: config_inv_def)
next
  case False
  then show ?thesis using assms by (auto simp: commit_wo_def)
qed

lemma decidereq_cases:
  assumes "decidereq arg a = Inr (r, a', us)"
  shows "(a', us) = (a, []) \<or> (a', us) = commit_wo (da_instance arg) (v_a a) a"
  using assms by (auto simp: decidereq_def rbind_eq_Inr VERIFY_def split: if_splits)

lemma config_inv_decide:
  assumes "config_inv ord c us" "decidereq arg (cfg_acc c) = Inr (r, a, us')"
  shows "config_inv ord (c\<lparr>cfg_acc := a\<rparr>) (us @ us')"
  using decidereq_cases [OF assms(2)] assms(1) config_inv_commit by fastforce

lemma config_inv_upcall:
  assumes "config_inv ord c (us1 @ (i, v) # us2)" "paxos_commit i v c = (c', ev)" "ord \<longrightarrow> us1 = []"
  shows "config_inv ord c' (us1 @ us2)"
  using assms by (auto simp: config_inv_def paxos_commit_def Let_def)

lemma logread_loop_cfg: "logread_loop ty inst a s = Inr a' \<Longrightarrow> acc_cfg a' = acc_cfg a"
proof (induction ty inst a s rule: logread_loop.induct)
  case (1 ty inst a s)
  obtain ty1 s1 where t: "in_string ty s = (ty1, s1)" by fastforce
  have "acc_cfg (fst (snd (read_done inst a s1))) = acc_cfg a"
      "acc_cfg (fst (read_propseen a s1)) = acc_cfg a" "acc_cfg (fst (read_accepted a s1)) = acc_cfg a"
    by (simp_all add: read_done_def read_propseen_def read_accepted_def Let_def split: prod.splits)
  then show ?case using 1 t unfolding logread_loop.simps [of ty]
    by (auto split: if_splits prod.splits)
qed

lemma logread_cfg: "logread inst a = Inr a' \<Longrightarrow> acc_cfg a' = acc_cfg a"
  by (simp add: logread_def logread_loop_cfg)

lemma config_inv_new:
  assumes "config_new inst first me vc file = Inr c"
  shows "config_inv ord c []"
proof -
  obtain a where a: "acceptor_new inst True (me = first) me me file = Inr a"
      "c = reconstruct \<lparr>cfg_acc = a, cfg_pro = proposer_new me, myvid = 0, cfg_first = first,
         cfg_me = me, cfg_vc = vc, mems = []\<rparr>"
    using assms by (auto simp: config_new_def rbind_eq_Inr)
  then have "acc_cfg a"
    by (auto simp: acceptor_new_def rbind_eq_Inr loginstance_def acceptor_init_def dest!: logread_cfg
        split: if_splits)
  then show ?thesis unfolding a(2) by (intro config_inv_reconstruct) auto
qed

text \<open>
  The life of a \<open>config\<close>: a start (with any log file), then requests to its acceptor, commits by
  its proposer, upcalls, reads of views, and restores of a log that has an instance and the values
  of the open upcalls.
\<close>

inductive config_reach :: "bool \<Rightarrow> config \<Rightarrow> upcalls \<Rightarrow> bool" for ord where
  new: "config_new inst first me vc file = Inr c \<Longrightarrow> config_reach ord c []"
| prepared: "config_reach ord c us \<Longrightarrow> preparereq arg r (cfg_acc c) = (ret, r', a) \<Longrightarrow>
    config_reach ord (c\<lparr>cfg_acc := a\<rparr>) us"
| accepted: "config_reach ord c us \<Longrightarrow> acceptreq arg' (cfg_acc c) = (ret, b, a) \<Longrightarrow>
    config_reach ord (c\<lparr>cfg_acc := a\<rparr>) us"
| decided: "config_reach ord c us \<Longrightarrow> decidereq arg'' (cfg_acc c) = Inr (ret, a, us') \<Longrightarrow>
    config_reach ord (c\<lparr>cfg_acc := a\<rparr>) (us @ us')"
| committed: "config_reach ord c us \<Longrightarrow> acceptor_commit i v (cfg_acc c) = (a, us') \<Longrightarrow>
    config_reach ord (c\<lparr>cfg_acc := a\<rparr>) (us @ us')"
| upcall: "config_reach ord c (us1 @ (i, v) # us2) \<Longrightarrow> ord \<longrightarrow> us1 = [] \<Longrightarrow>
    paxos_commit i v c = (c', ev) \<Longrightarrow> config_reach ord c' (us1 @ us2)"
| viewed: "config_reach ord c us \<Longrightarrow> get_view i c = (vs, c') \<Longrightarrow> config_reach ord c' us"
| restored: "config_reach ord c us \<Longrightarrow> config_restore inst s c = Inr c' \<Longrightarrow> instance_h (cfg_acc c') > 0 \<Longrightarrow>
    \<forall>(i, v) \<in> set us. \<not> ord \<and> i \<le> instance_h (cfg_acc c') \<and> value_at i (cfg_acc c') = v \<Longrightarrow>
    config_reach ord c' us"
| proposing: "config_reach ord c us \<Longrightarrow> config_reach ord (c\<lparr>cfg_pro := p\<rparr>) us"

lemma config_inv_frame:
  assumes "config_inv ord c us" "acc_cfg a = acc_cfg (cfg_acc c)" "instance_h a = instance_h (cfg_acc c)"
    and "\<And>j. value_at j a = value_at j (cfg_acc c)"
  shows "config_inv ord (c\<lparr>cfg_acc := a\<rparr>) us"
  using assms upcalls_frame [of "cfg_acc c" us a] by (simp add: config_inv_def)

lemma config_inv_handlers:
  assumes "config_inv ord c us"
  shows "preparereq arg r (cfg_acc c) = (ret, r', a) \<Longrightarrow> config_inv ord (c\<lparr>cfg_acc := a\<rparr>) us"
    and "acceptreq arg' (cfg_acc c) = (ret, b, a) \<Longrightarrow> config_inv ord (c\<lparr>cfg_acc := a\<rparr>) us"
  using value_at_value [of _ "pa_instance arg" "cfg_acc c"]
  by (auto intro!: config_inv_frame [OF assms] simp: preparereq_def acceptreq_def acceptor_value_def
      logprop_def logaccept_def value_at_def split: if_splits)

lemma config_inv_restore:
  assumes "config_inv ord c us" "config_restore inst s c = Inr c'" "instance_h (cfg_acc c') > 0"
    and "\<forall>(i, v) \<in> set us. \<not> ord \<and> i \<le> instance_h (cfg_acc c') \<and> value_at i (cfg_acc c') = v"
  shows "config_inv ord c' us"
proof -
  obtain a where a: "logread inst (log_restore s (cfg_acc c)) = Inr a" "c' = reconstruct (c\<lparr>cfg_acc := a\<rparr>)"
    using assms(2) by (auto simp: config_restore_def acceptor_restore_def rbind_eq_Inr)
  have "acc_cfg a" using logread_cfg [OF a(1)] assms(1) by (simp add: log_restore_def config_inv_def)
  moreover have "instance_h a = instance_h (cfg_acc c')" "value_at j a = value_at j (cfg_acc c')" for j
    using value_at_value [of j _ a] unfolding a(2)
    by (simp_all add: reconstruct_def get_view_wo_def acceptor_value_def Let_def)
  moreover have "i \<noteq> 0" if "(i, v) \<in> set us" for i v
    using that assms(1) by (auto simp: config_inv_def list_all_iff)
  ultimately have "list_all (upcall_ok a) us" using assms(4) by (fastforce simp: list_all_iff)
  moreover have "ord \<longrightarrow> us = []" using assms(4) by (cases us) auto
  ultimately show ?thesis using \<open>acc_cfg a\<close> \<open>instance_h a = _\<close> assms(3) unfolding a(2)
    by (intro config_inv_reconstruct) auto
qed

lemma config_inv_reach: "config_reach ord c us \<Longrightarrow> config_inv ord c us"
proof (induction rule: config_reach.induct)
  case (viewed c us i vs c')
  then show ?case using config_inv_get_view by (simp add: get_view_def)
next
  case (proposing c us p)
  then show ?case by (simp add: config_inv_def)
qed (auto intro: config_inv_new config_inv_handlers config_inv_decide config_inv_commit config_inv_upcall
    config_inv_restore simp: acceptor_commit_def)

lemma commit_next:
  assumes "config_inv True c []" "myvid c + 1 > myvid c"
  shows "\<exists>a. acceptor_commit (myvid c + 1) v (cfg_acc c) = (a, [(myvid c + 1, v)])"
  using assms by (auto simp: acceptor_commit_def commit_wo_def Let_def config_inv_def loginstance_def)

lemma upcall_view:
  "cfg_vc c \<Longrightarrow> paxos_commit i v (c\<lparr>cfg_acc := a\<rparr>) =
    (c\<lparr>cfg_acc := a, mems := members v, myvid := i\<rparr>, drop_old (cfg_me c) (members v) (mems c) @ [Commit_change i])"
  by (simp add: paxos_commit_def Let_def)

lemma drop_old_none: "set ms \<subseteq> set new \<Longrightarrow> drop_old me new ms = []"
  by (induction ms) auto

lemma drop_old_one:
  "distinct ms \<Longrightarrow> m \<noteq> me \<Longrightarrow> (\<And>x. x \<in> set ms \<Longrightarrow> x \<in> set new \<longleftrightarrow> x \<noteq> m) \<Longrightarrow>
    drop_old me new ms = (if m \<in> set ms then [Delete_handle m] else [])"
  by (induction ms) (auto split: if_splits)

lemma smallest_le: "x \<in> insert m (set xs) \<Longrightarrow> smallest m xs \<le> x"
proof (induction xs arbitrary: m x)
  case (Cons y ys)
  have "smallest (if m > y then y else m) ys \<le> (if m > y then y else m)" by (rule Cons.IH) simp
  moreover have "smallest (if m > y then y else m) ys \<le> x" if "x \<in> set ys" using that by (intro Cons.IH) simp
  ultimately show ?case using Cons.prems by (auto split: if_splits)
qed simp

lemma smallest_in: "smallest m xs \<in> insert m (set xs)"
proof (induction xs arbitrary: m)
  case (Cons x xs)
  then show ?case using Cons [of m] Cons [of x] by auto
qed simp

lemma ping_rest_Some:
  "ping_rest hb me ms = Some m \<Longrightarrow> m \<in> set ms \<and> m \<noteq> me \<and> hb m \<noteq> HB_OK"
  by (induction ms) (auto split: if_splits)

lemma ping_rest_None:
  "ping_rest hb me ms = None \<longleftrightarrow> (\<forall>m \<in> set ms. m = me \<or> hb m = HB_OK)"
  by (induction ms) auto

section \<open>Properties\<close>

text \<open>
  C30. Views survive printing. A view whose node names are non-empty and free of white space is
  read back by \<open>members\<close> exactly as \<open>value\<close> printed it, with order and repetitions.
\<close>

theorem view_roundtrip:
  assumes "list_all word_ok ms"
  shows "members (view_value ms) = ms"
  using assms by (rule members_value)

theorem view_roundtrip_witness:
  "list_all word_ok [''a:1'', ''b:2''] \<and> view_value [''a:1'', ''b:2''] = ''a:1 b:2 '' \<and>
    members (view_value [''a:1'', ''b:2'']) = [''a:1'', ''b:2'']"
proof -
  have "list_all word_ok [''a:1'', ''b:2'']" by code_simp
  with view_roundtrip [OF this] show ?thesis by simp
qed

text \<open>
  C21. The view is an agreed value. In every state a \<open>config\<close> can reach, with any requests served
  between the commit of an instance and its upcall and with upcalls that overtake each other, the
  members of the view are the node names in the value that the acceptor has committed for the view
  number (none for view 0), and the view number is at most the highest committed instance. If the
  upcalls come in the order of the commits, the view number is this highest instance as soon as no
  upcall is open.
\<close>

theorem view_is_last_commit:
  assumes "config_reach ord c us"
  shows "mems c = (if myvid c = 0 then [] else members (value_at (myvid c) (cfg_acc c))) \<and>
    myvid c \<le> instance_h (cfg_acc c) \<and> (ord \<and> us = [] \<longrightarrow> myvid c = instance_h (cfg_acc c))"
  using config_inv_reach [OF assms] by (auto simp: config_inv_def)

text \<open>
  Node n1 starts with an empty log, and has view 1 with itself as the only member. It commits view 2,
  \<open>cfg_open\<close>; after the upcall, \<open>cfg_ex\<close>, its view is view 2.
\<close>

definition cfg_one :: config where
  "cfg_one = (case config_new 0 ''n1'' ''n1'' True [] of
     Inr c \<Rightarrow> c
   | Inl _ \<Rightarrow> \<lparr>cfg_acc = acceptor_init True [] [], cfg_pro = proposer_new [], myvid = 0, cfg_first = [],
       cfg_me = [], cfg_vc = True, mems = []\<rparr>)"

definition cfg_open :: config where
  "cfg_open = cfg_one\<lparr>cfg_acc := fst (acceptor_commit 2 ''n1 n2 '' (cfg_acc cfg_one))\<rparr>"

definition cfg_ex :: config where
  "cfg_ex = fst (paxos_commit 2 ''n1 n2 '' cfg_open)"

lemma cfg_open_reach: "config_reach ord cfg_open [(2, ''n1 n2 '')]"
proof -
  have "case config_new 0 ''n1'' ''n1'' True [] of Inl _ \<Rightarrow> False | Inr c \<Rightarrow> True" by code_simp
  then obtain c where c: "config_new 0 ''n1'' ''n1'' True [] = Inr c" by (auto split: sum.splits)
  then have r: "config_reach ord cfg_one []" using config_reach.new by (simp add: cfg_one_def)
  have "snd (acceptor_commit 2 ''n1 n2 '' (cfg_acc cfg_one)) = [(2, ''n1 n2 '')]" by code_simp
  then show ?thesis using config_reach.committed [OF r, of 2 "''n1 n2 ''"]
    by (metis append_Nil cfg_open_def prod.collapse)
qed

lemma cfg_ex_reach: "config_reach ord cfg_ex []"
  using config_reach.upcall [of ord cfg_open "[]" 2 "''n1 n2 ''" "[]"] cfg_open_reach
  by (simp add: cfg_ex_def) (metis prod.collapse)

lemma cfg_ex_facts:
  "myvid cfg_ex = 2" "mems cfg_ex = [''n1'', ''n2'']" "cfg_me cfg_ex = ''n1''" "cfg_vc cfg_ex"
  by code_simp+

theorem view_is_last_commit_witness:
  "mems cfg_open = [''n1''] \<and> myvid cfg_open = 1 \<and> instance_h (cfg_acc cfg_open) = 2 \<and>
    mems cfg_ex = members (value_at 2 (cfg_acc cfg_ex)) \<and> instance_h (cfg_acc cfg_ex) = 2"
proof -
  have "mems cfg_open = [''n1'']" "myvid cfg_open = 1" "instance_h (cfg_acc cfg_open) = 2" by code_simp+
  then show ?thesis using view_is_last_commit [OF cfg_ex_reach [of True]] by (simp add: cfg_ex_facts)
qed

text \<open>
  Upcalls can set a view back: \<open>paxos_commit\<close> does not compare its instance with \<open>myvid\<close>. If the
  upcall of instance 3 overtakes that of instance 2, the node ends with view 2, although its acceptor
  has committed instance 3 and no upcall is open.
\<close>

lemma view_set_back:
  "\<exists>c. config_reach False c [] \<and> myvid c = 2 \<and> instance_h (cfg_acc c) = 3"
proof -
  let ?a = "acceptor_commit 3 ''n1 n2 n3 '' (cfg_acc cfg_open)"
  let ?c = "cfg_open\<lparr>cfg_acc := fst ?a\<rparr>"
  let ?c3 = "fst (paxos_commit 3 ''n1 n2 n3 '' ?c)" and ?c2 = "\<lambda>c. fst (paxos_commit 2 ''n1 n2 '' c)"
  have "snd ?a = [(3, ''n1 n2 n3 '')]" by code_simp
  then have "config_reach False ?c [(2, ''n1 n2 ''), (3, ''n1 n2 n3 '')]"
    using config_reach.committed [OF cfg_open_reach, of 3 "''n1 n2 n3 ''"]
    by (metis append_Cons append_Nil prod.collapse)
  then have "config_reach False ?c3 [(2, ''n1 n2 '')]"
    using config_reach.upcall [of False ?c "[(2, ''n1 n2 '')]" 3 "''n1 n2 n3 ''" "[]" ?c3] by (simp, metis prod.collapse)
  then have "config_reach False (?c2 ?c3) []"
    using config_reach.upcall [of False ?c3 "[]" 2 "''n1 n2 ''" "[]" "?c2 ?c3"] by (simp, metis prod.collapse)
  moreover have "myvid (?c2 ?c3) = 2" "instance_h (cfg_acc (?c2 ?c3)) = 3" by code_simp+
  ultimately show ?thesis by blast
qed

text \<open>
  C22. Views change by one node. \<open>add\<close> with the current view number asks the members of the current
  view to agree on a value for the next view; if the acceptor of a node of that view commits this
  value and its upcall is made, after any requests to the acceptor, the next view is the old one
  with the new node at the end, and no handle is deleted. \<open>remove_wo\<close> does the same with one node
  removed; then the handle of this node, and no other, is deleted. In both cases the layer above is
  told the new view number. \<open>add\<close> with another view number proposes nothing.
\<close>

theorem view_changes_by_one:
  assumes "config_reach True c []" "list_all word_ok (new_m # mems c)" "myvid c + 1 > myvid c" "cfg_vc c"
    and "distinct (mems c)" "old_m \<in> set (mems c)" "old_m \<noteq> cfg_me c" "vid \<noteq> myvid c"
  shows "config_add run new_m vid c w = Inr (False, w) \<and>
    (\<exists>v. config_add run new_m (myvid c) c w = run (myvid c + 1) (mems c) v w \<and>
      (\<exists>a. acceptor_commit (myvid c + 1) v (cfg_acc c) = (a, [(myvid c + 1, v)])) \<and>
      (\<forall>a. \<exists>c'. paxos_commit (myvid c + 1) v (c\<lparr>cfg_acc := a\<rparr>) = (c', [Commit_change (myvid c + 1)]) \<and>
         mems c' = mems c @ [new_m] \<and> myvid c' = myvid c + 1)) \<and>
    (\<exists>v. remove_wo run old_m c w = run (myvid c + 1) (mems c) v w \<and>
      (\<exists>a. acceptor_commit (myvid c + 1) v (cfg_acc c) = (a, [(myvid c + 1, v)])) \<and>
      (\<forall>a. \<exists>c'. paxos_commit (myvid c + 1) v (c\<lparr>cfg_acc := a\<rparr>) =
           (c', [Delete_handle old_m, Commit_change (myvid c + 1)]) \<and>
         mems c' = filter (\<lambda>m. m \<noteq> old_m) (mems c) \<and> myvid c' = myvid c + 1))"
proof -
  note commit = commit_next [OF config_inv_reach [OF assms(1)] assms(3)]
  let ?add = "mems c @ [new_m]" and ?rem = "filter (\<lambda>m. m \<noteq> old_m) (mems c)"
  have a: "members (view_value ?add) = ?add" "members (view_value ?rem) = ?rem"
    using assms(2) by (auto intro!: members_value simp: list_all_iff)
  have "drop_old (cfg_me c) ?add (mems c) = []" by (rule drop_old_none) auto
  moreover have "drop_old (cfg_me c) ?rem (mems c) = [Delete_handle old_m]"
    using assms(5-7) drop_old_one [of "mems c" old_m "cfg_me c" ?rem] by auto
  ultimately show ?thesis
    using assms(4,8) a commit [of "view_value ?add"] commit [of "view_value ?rem"]
    by (auto simp: config_add_def remove_wo_def without_filter upcall_view)
qed

text \<open>
  Node n1 with view 2 = {n1, n2}: n3 is added, n2 removed.
\<close>

theorem view_changes_by_one_witness:
  "\<exists>v v'. config_add (\<lambda>i ns v (w :: unit). Inr (ns = [''n1'', ''n2''], w)) ''n3'' 2 cfg_ex () = Inr (True, ()) \<and>
    mems (fst (paxos_commit 3 v cfg_ex)) = [''n1'', ''n2'', ''n3''] \<and>
    mems (fst (paxos_commit 3 v' cfg_ex)) = [''n1'']"
proof -
  have "list_all word_ok (''n3'' # mems cfg_ex)" "myvid cfg_ex + 1 > myvid cfg_ex" "distinct (mems cfg_ex)"
      "''n2'' \<in> set (mems cfg_ex)" "''n2'' \<noteq> cfg_me cfg_ex" "(1 :: u32) \<noteq> myvid cfg_ex"
    by code_simp+
  note x = view_changes_by_one [OF cfg_ex_reach this(1,2) cfg_ex_facts(4) this(3-6),
      of "\<lambda>i ns v (w :: unit). Inr (ns = [''n1'', ''n2''], w)" "()", unfolded cfg_ex_facts simp_thms(6)]
  obtain v where v: "config_add (\<lambda>i ns v (w :: unit). Inr (ns = [''n1'', ''n2''], w)) ''n3'' 2 cfg_ex () = Inr (True, ())"
      "\<forall>a. \<exists>c'. paxos_commit (2 + 1) v (cfg_ex\<lparr>cfg_acc := a\<rparr>) = (c', [Commit_change (2 + 1)]) \<and>
         mems c' = [''n1'', ''n2''] @ [''n3''] \<and> myvid c' = 2 + 1"
    using x [THEN conjunct2, THEN conjunct1] by blast
  obtain v' where v': "\<forall>a. \<exists>c'. paxos_commit (2 + 1) v' (cfg_ex\<lparr>cfg_acc := a\<rparr>) =
      (c', [Delete_handle ''n2'', Commit_change (2 + 1)]) \<and> mems c' = filter (\<lambda>m. m \<noteq> ''n2'') [''n1'', ''n2''] \<and> myvid c' = 2 + 1"
    using x [THEN conjunct2, THEN conjunct2] by blast
  show ?thesis
    using v(1) v(2) [THEN spec, of "cfg_acc cfg_ex"] v' [THEN spec, of "cfg_acc cfg_ex"]
    by (intro exI [of _ v] exI [of _ v']) auto
qed

text \<open>
  C31. What a round of the heartbeater removes. It never removes the node itself; it removes only a
  member whose heartbeat did not come back OK (no answer, or an answer from another view), and only
  if the view has not changed meanwhile. The node with the smallest name watches all others: if the
  heartbeat of one of them is not OK, such a node is removed. Every other member watches the
  smallest one.
\<close>

theorem heartbeater_removes_silent:
  assumes "config_reach ord c us" "myvid c \<noteq> 0"
  shows "(\<forall>m c'. heartbeater_round hb vid_now c = (Some m, c') \<longrightarrow>
      m \<in> set (mems c) \<and> m \<noteq> cfg_me c \<and> hb m \<noteq> HB_OK \<and> vid_now = myvid c) \<and>
    (cfg_me c \<in> set (mems c) \<and> vid_now = myvid c \<longrightarrow>
      (if \<forall>m \<in> set (mems c). cfg_me c \<le> m
       then fst (heartbeater_round hb vid_now c) = None \<longleftrightarrow>
         (\<forall>m \<in> set (mems c). m = cfg_me c \<or> hb m = HB_OK)
       else (\<exists>m \<in> set (mems c). (\<forall>x \<in> set (mems c). m \<le> x) \<and>
         fst (heartbeater_round hb vid_now c) = (if hb m = HB_OK then None else Some m))))"
proof -
  let ?me = "cfg_me c" and ?s = "smallest (cfg_me c) (mems c)"
  obtain v c' where g: "get_view_wo (myvid c) c = (v, c')" by fastforce
  have v: "v = mems c" "cfg_me c' = ?me"
    using get_view_wo_frame [OF g] config_inv_reach [OF assms(1)] assms(2) by (auto simp: config_inv_def)
  have r: "heartbeater_round hb vid_now c =
      (if ?me \<in> set (mems c) \<and> myvid c = vid_now
       then if ?s = ?me then ping_rest hb ?me (mems c) else if hb ?s \<noteq> HB_OK then Some ?s else None
       else None, c')"
    using g v by (auto simp: heartbeater_round_def)
  have s: "?s \<in> insert ?me (set (mems c))" "\<forall>x \<in> insert ?me (set (mems c)). ?s \<le> x"
    using smallest_in smallest_le by blast+
  have small: "?s = ?me \<longleftrightarrow> (\<forall>m \<in> set (mems c). ?me \<le> m)"
    using s by (metis insertE insertI1 order_antisym order_refl insert_iff)
  show ?thesis
    unfolding r using s small ping_rest_Some [of hb ?me "mems c"] ping_rest_None [of hb ?me "mems c"]
    by auto
qed

text \<open>
  Node n1 of view {n1, n2} finds n2 silent.
\<close>

theorem heartbeater_removes_silent_witness:
  "fst (heartbeater_round (\<lambda>m. if m = ''n2'' then HB_FAILURE else HB_OK) 2 cfg_ex) = Some ''n2''"
proof -
  let ?hb = "\<lambda>m. if m = ''n2'' then HB_FAILURE else HB_OK"
  have le: "\<forall>m \<in> set (mems cfg_ex). cfg_me cfg_ex \<le> m" by code_simp
  have nz: "myvid cfg_ex \<noteq> 0" by (simp add: cfg_ex_facts)
  obtain r c' where r: "heartbeater_round ?hb 2 cfg_ex = (r, c')" by fastforce
  have "r \<noteq> None" using heartbeater_removes_silent [OF cfg_ex_reach [of True] nz, of ?hb 2] le r
    by (simp add: cfg_ex_facts)
  then obtain m where "r = Some m" by blast
  then show ?thesis using heartbeater_removes_silent [OF cfg_ex_reach [of True] nz, of ?hb 2] r
    by (auto simp: cfg_ex_facts split: if_splits)
qed

end
