(* ===== verification/Rsm_Protocol.thy ===== *)
theory Rsm_Protocol
  imports Rpc_Call
begin

text \<open>
  The messages of the replicated state machine, include/rsm/rsm_protocol.h: status codes,
  viewstamps with their order, and the operators of the message types, each a \<open>codec\<close>.
\<close>

section \<open>Constants and types\<close>

definition client_OK :: cint where "client_OK = 0"
definition client_ERR :: cint where "client_ERR = 1"
definition client_NOTPRIMARY :: cint where "client_NOTPRIMARY = 2"
definition client_BUSY :: cint where "client_BUSY = 3"

definition rsm_OK :: cint where "rsm_OK = 0"
definition rsm_ERR :: cint where "rsm_ERR = 1"
definition rsm_BUSY :: cint where "rsm_BUSY = 2"

definition test_OK :: cint where "test_OK = 0"
definition test_ERR :: cint where "test_ERR = 1"

lemmas rsm_status = client_OK_def client_ERR_def client_NOTPRIMARY_def client_BUSY_def rsm_OK_def
  rsm_ERR_def rsm_BUSY_def test_OK_def test_ERR_def

record viewstamp =
  vs_vid :: u32
  vs_seqno :: u32

definition vs_eq :: "viewstamp \<Rightarrow> viewstamp \<Rightarrow> bool" where
  "vs_eq a b = (vs_vid a = vs_vid b \<and> vs_seqno a = vs_seqno b)"

definition vs_gt :: "viewstamp \<Rightarrow> viewstamp \<Rightarrow> bool" where
  "vs_gt a b = (vs_vid a > vs_vid b \<or> (vs_vid a = vs_vid b \<and> vs_seqno a > vs_seqno b))"

definition vs_ne :: "viewstamp \<Rightarrow> viewstamp \<Rightarrow> bool" where
  "vs_ne a b = (vs_vid a \<noteq> vs_vid b \<or> vs_seqno a \<noteq> vs_seqno b)"

record transferres =
  tr_state :: string
  tr_last :: viewstamp

record joinres =
  jr_log :: string

section \<open>Operators\<close>

definition put_viewstamp :: "viewstamp \<Rightarrow> marshall \<Rightarrow> marshall result" where
  "put_viewstamp v m = rbind (put_uint (vs_vid v) m) (put_uint (vs_seqno v))"

definition get_viewstamp :: "unmarshall \<Rightarrow> (viewstamp \<times> unmarshall) result" where
  "get_viewstamp u =
     rbind (get_uint u) (\<lambda>(vid, u).
     rbind (get_uint u) (\<lambda>(seqno, u). Inr (\<lparr>vs_vid = vid, vs_seqno = seqno\<rparr>, u)))"

definition put_transferres :: "transferres \<Rightarrow> marshall \<Rightarrow> marshall result" where
  "put_transferres r m = rbind (put_string (tr_state r) m) (put_viewstamp (tr_last r))"

definition get_transferres :: "unmarshall \<Rightarrow> (transferres \<times> unmarshall) result" where
  "get_transferres u =
     rbind (get_string [] u) (\<lambda>(st, u).
     rbind (get_viewstamp u) (\<lambda>(l, u). Inr (\<lparr>tr_state = st, tr_last = l\<rparr>, u)))"

definition put_joinres :: "joinres \<Rightarrow> marshall \<Rightarrow> marshall result" where
  "put_joinres r m = put_string (jr_log r) m"

definition get_joinres :: "unmarshall \<Rightarrow> (joinres \<times> unmarshall) result" where
  "get_joinres u = rbind (get_string [] u) (\<lambda>(l, u). Inr (\<lparr>jr_log = l\<rparr>, u))"

section \<open>The operators are codecs\<close>

lemma vs_ne_iff [simp]: "vs_ne a b \<longleftrightarrow> a \<noteq> b"
  by (auto simp: vs_ne_def intro: viewstamp.equality)

lemma vs_eq_iff [simp]: "vs_eq a b \<longleftrightarrow> a = b"
  by (auto simp: vs_eq_def intro: viewstamp.equality)

lemma vs_gt_irrefl: "\<not> vs_gt a a"
  by (simp add: vs_gt_def)

lemma vs_gt_trans: "vs_gt a b \<Longrightarrow> vs_gt b c \<Longrightarrow> vs_gt a c"
  by (auto simp: vs_gt_def)

lemma vs_gt_total: "a = b \<or> vs_gt a b \<or> vs_gt b a"
  by (auto simp: vs_gt_def not_less_iff_gr_or_eq intro: viewstamp.equality)

definition enc_viewstamp :: "viewstamp \<Rightarrow> byte list" where
  "enc_viewstamp v = enc_uint (vs_vid v) @ enc_uint (vs_seqno v)"

definition enc_transferres :: "transferres \<Rightarrow> byte list" where
  "enc_transferres r = enc_string (tr_state r) @ enc_viewstamp (tr_last r)"

interpretation viewstamp_codec: codec put_viewstamp get_viewstamp enc_viewstamp "\<lambda>_. True"
proof
  fix v :: viewstamp
  show "m_appends (put_viewstamp v) (enc_viewstamp v)"
    unfolding put_viewstamp_def [abs_def] enc_viewstamp_def by (intro m_appends_seq put_uint_appends)
  have "u_reads get_viewstamp \<lparr>vs_vid = vs_vid v, vs_seqno = vs_seqno v\<rparr>
      (enc_uint (vs_vid v) @ enc_uint (vs_seqno v) @ [])"
    unfolding get_viewstamp_def [abs_def]
    by (rule u_reads_seq [OF get_uint_reads] u_reads_return)+
  then show "u_reads get_viewstamp v (enc_viewstamp v)" by (cases v) (simp add: enc_viewstamp_def)
qed

interpretation transferres_codec: codec put_transferres get_transferres enc_transferres
  "\<lambda>r. wire_size (tr_state r)"
proof
  fix r :: transferres
  assume r: "wire_size (tr_state r)"
  show "m_appends (put_transferres r) (enc_transferres r)"
    unfolding put_transferres_def [abs_def] enc_transferres_def
    by (intro m_appends_seq string_codec.put_appends viewstamp_codec.put_appends r TrueI)
  have "u_reads get_transferres \<lparr>tr_state = tr_state r, tr_last = tr_last r\<rparr>
      (enc_string (tr_state r) @ enc_viewstamp (tr_last r) @ [])"
    unfolding get_transferres_def [abs_def]
    by (rule u_reads_seq [OF string_codec.get_reads [OF r]]
        u_reads_seq [OF viewstamp_codec.get_reads [OF TrueI]] u_reads_return)+
  then show "u_reads get_transferres r (enc_transferres r)" by (cases r) (simp add: enc_transferres_def)
qed

interpretation joinres_codec: codec put_joinres get_joinres "\<lambda>r. enc_string (jr_log r)"
  "\<lambda>r. wire_size (jr_log r)"
proof
  fix r :: joinres
  assume r: "wire_size (jr_log r)"
  show "m_appends (put_joinres r) (enc_string (jr_log r))"
    unfolding put_joinres_def [abs_def] by (rule string_codec.put_appends [OF r])
  have "u_reads get_joinres \<lparr>jr_log = jr_log r\<rparr> (enc_string (jr_log r) @ [])"
    unfolding get_joinres_def [abs_def]
    by (rule u_reads_seq [OF string_codec.get_reads [OF r]] u_reads_return)+
  then show "u_reads get_joinres r (enc_string (jr_log r))" by (cases r) simp
qed

end
