(* ===== verification/Rsm.thy ===== *)
theory Rsm
  imports Rsm_Protocol Config
begin

text \<open>
  The replicated state machine: class \<open>rsm\<close> of include/rsm/rsm.h and src/rsm/rsm.cc. The state of
  the replicated service is a parameter \<open>'s\<close>; \<open>marshal_state\<close> and \<open>unmarshal_state\<close> of its
  state-transfer object and the RPCs to other nodes are arguments. Every section between two
  releases of \<open>rsm_mutex\<close> or \<open>invoke_mutex\<close> is one function. \<open>exit\<close> at a break point is the fault
  \<open>Exited\<close>.
\<close>

section \<open>State\<close>

record 's rsm =
  rsm_procs :: "u32 \<rightharpoonup> 's handler"
  rsm_cfg :: config
  stf :: bool
  myvs :: viewstamp
  last_myvs :: viewstamp
  primary :: string
  insync :: bool
  inviewchange :: bool
  vid_commit :: u32
  vid_insync :: u32
  backups :: "string list"
  partitioned :: bool
  dopartition :: bool
  rsm_break1 :: bool
  rsm_break2 :: bool
  rsm_app :: 's

definition myaddr :: "'s rsm \<Rightarrow> string" where
  "myaddr n = cfg_me (rsm_cfg n)"

definition rsm_view :: "u32 \<Rightarrow> 's rsm \<Rightarrow> string list \<times> 's rsm" where
  "rsm_view vid n = (case get_view vid (rsm_cfg n) of (v, c) \<Rightarrow> (v, n\<lparr>rsm_cfg := c\<rparr>))"

definition rsm_ismember :: "string \<Rightarrow> u32 \<Rightarrow> 's rsm \<Rightarrow> bool \<times> 's rsm" where
  "rsm_ismember m vid n = (case ismember m vid (rsm_cfg n) of (b, c) \<Rightarrow> (b, n\<lparr>rsm_cfg := c\<rparr>))"

section \<open>Handlers of the replicated service\<close>

definition rsm_h1_fn where
  "rsm_h1_fn get1 putr meth args ret s =
     rbind (get1 args) (\<lambda>(a1, args).
     rbind (VERIFY (unmarshall_okdone args)) (\<lambda>_. h1_reply putr (meth a1 s) ret))"

definition rsm_h2_fn where
  "rsm_h2_fn get1 get2 putr meth args ret s =
     rbind (get1 args) (\<lambda>(a1, args).
     rbind (get2 args) (\<lambda>(a2, args).
     rbind (VERIFY (unmarshall_okdone args)) (\<lambda>_. h1_reply putr (meth a1 a2 s) ret)))"

definition rsm_h3_fn where
  "rsm_h3_fn get1 get2 get3 putr meth args ret s =
     rbind (get1 args) (\<lambda>(a1, args).
     rbind (get2 args) (\<lambda>(a2, args).
     rbind (get3 args) (\<lambda>(a3, args).
     rbind (VERIFY (unmarshall_okdone args)) (\<lambda>_. h1_reply putr (meth a1 a2 a3 s) ret))))"

definition rsm_h4_fn where
  "rsm_h4_fn get1 get2 get3 get4 putr meth args ret s =
     rbind (get1 args) (\<lambda>(a1, args).
     rbind (get2 args) (\<lambda>(a2, args).
     rbind (get3 args) (\<lambda>(a3, args).
     rbind (get4 args) (\<lambda>(a4, args).
     rbind (VERIFY (unmarshall_okdone args)) (\<lambda>_. h1_reply putr (meth a1 a2 a3 a4 s) ret)))))"

text \<open>The fifth argument is declared but not read: \<open>a5\<close> is an arbitrary value.\<close>

definition rsm_h5_fn where
  "rsm_h5_fn a5 get1 get2 get3 get4 putr meth args ret s =
     rbind (get1 args) (\<lambda>(a1, args).
     rbind (get2 args) (\<lambda>(a2, args).
     rbind (get3 args) (\<lambda>(a3, args).
     rbind (get4 args) (\<lambda>(a4, args).
     rbind (VERIFY (unmarshall_okdone args)) (\<lambda>_. h1_reply putr (meth a1 a2 a3 a4 a5 s) ret)))))"

definition rsm_reg1 :: "u32 \<Rightarrow> 's handler \<Rightarrow> 's rsm \<Rightarrow> 's rsm" where
  "rsm_reg1 proc h n = n\<lparr>rsm_procs := (rsm_procs n)(proc \<mapsto> h)\<rparr>"

section \<open>Execution\<close>

text \<open>\<open>mem\<close> is the content of the memory that \<open>malloc\<close> and \<open>realloc\<close> return.\<close>

definition run_req :: "(nat \<Rightarrow> byte) \<Rightarrow> (u32 \<rightharpoonup> 's handler) \<Rightarrow> u32 \<times> string \<Rightarrow> 's \<Rightarrow> (string \<times> 's) result" where
  "run_req mem ps q s =
     (case ps (fst q) of
        None \<Rightarrow> Inl Verify_failed
      | Some h \<Rightarrow>
          rbind (h (unmarshall_string mem (snd q)) (marshall_new mem) s) (\<lambda>(ret, rep, s).
          rbind (put_int ret (marshall_new mem)) (\<lambda>rep1.
          rbind (marshall_str rep) (\<lambda>reps.
          rbind (put_string reps rep1) (\<lambda>rep1.
          rbind (marshall_str rep1) (\<lambda>r. Inr (r, s)))))))"

definition execute :: "(nat \<Rightarrow> byte) \<Rightarrow> u32 \<Rightarrow> string \<Rightarrow> 's rsm \<Rightarrow> (string \<times> 's rsm) result" where
  "execute mem procno req n =
     rbind (run_req mem (rsm_procs n) (procno, req) (rsm_app n)) (\<lambda>(r, s). Inr (r, n\<lparr>rsm_app := s\<rparr>))"

definition rsm_breakpoint1 :: "'s rsm \<Rightarrow> unit result" where
  "rsm_breakpoint1 n = (if rsm_break1 n then Inl Exited else Inr ())"

definition rsm_breakpoint2 :: "'s rsm \<Rightarrow> unit result" where
  "rsm_breakpoint2 n = (if rsm_break2 n then Inl Exited else Inr ())"

text \<open>
  Calls to other nodes act on a world \<open>'w\<close>. \<open>call_invoke\<close> is \<open>safebind\<close> and the RPC
  \<open>rsm_protocol::invoke\<close>: \<open>None\<close> if there is no client. \<open>repair\<close> is \<open>set_reachable\<close> on the clients
  of the given nodes and on the server.
\<close>

record 'w rsm_env =
  call_invoke :: "string \<Rightarrow> u32 \<Rightarrow> viewstamp \<Rightarrow> string \<Rightarrow> 'w \<Rightarrow> cint option \<times> 'w"
  repair :: "string list \<Rightarrow> bool \<Rightarrow> 'w \<Rightarrow> 'w"

definition net_repair_wo :: "'w rsm_env \<Rightarrow> bool \<Rightarrow> 's rsm \<Rightarrow> 'w \<Rightarrow> 's rsm \<times> 'w" where
  "net_repair_wo env heal n w =
     (case rsm_view (vid_commit n) n of (m, n) \<Rightarrow>
      (n, repair env (filter (\<lambda>x. x \<noteq> myaddr n) m) heal w))"

definition partition1 :: "'w rsm_env \<Rightarrow> 's rsm \<Rightarrow> 'w \<Rightarrow> 's rsm \<times> 'w" where
  "partition1 env n w =
     (if dopartition n then
        (case net_repair_wo env False n w of (n, w) \<Rightarrow> (n\<lparr>dopartition := False, partitioned := True\<rparr>, w))
      else (n, w))"

definition amiprimary :: "'s rsm \<Rightarrow> bool" where
  "amiprimary n = (primary n = myaddr n \<and> \<not> inviewchange n)"

text \<open>The loop over the view: \<open>Inl\<close> is the early return, \<open>Inr\<close> the value of \<open>ret\<close> at the end.\<close>

fun invoke_slaves :: "'w rsm_env \<Rightarrow> u32 \<Rightarrow> string \<Rightarrow> string list \<Rightarrow> cint \<Rightarrow> 's rsm \<Rightarrow> 'w \<Rightarrow>
    ((cint + cint) \<times> 's rsm \<times> 'w) result" where
  "invoke_slaves env procno req [] ret n w = Inr (Inr ret, n, w)"
| "invoke_slaves env procno req (slave # slaves) ret n w =
     (if slave = myaddr n then invoke_slaves env procno req slaves ret n w
      else
        case call_invoke env slave procno (myvs n) req w of
          (None, w) \<Rightarrow> Inr (Inl client_BUSY, n, w)
        | (Some ret, w) \<Rightarrow>
            if ret \<noteq> rsm_OK then Inr (Inl client_BUSY, n, w)
            else
              rbind (rsm_breakpoint1 n) (\<lambda>_.
              case partition1 env n w of (n, w) \<Rightarrow> invoke_slaves env procno req slaves ret n w))"

definition next_vs :: "'s rsm \<Rightarrow> 's rsm" where
  "next_vs n = n\<lparr>last_myvs := myvs n, myvs := (myvs n)\<lparr>vs_seqno := vs_seqno (myvs n) + 1\<rparr>\<rparr>"

definition client_invoke :: "(nat \<Rightarrow> byte) \<Rightarrow> 'w rsm_env \<Rightarrow> u32 \<Rightarrow> string \<Rightarrow> 's rsm \<Rightarrow> 'w \<Rightarrow>
    (cint \<times> string option \<times> 's rsm \<times> 'w) result" where
  "client_invoke mem env procno req n w =
     (let ret = client_OK;
          ret = (if inviewchange n then client_BUSY else ret);
          ret = (if \<not> amiprimary n then client_NOTPRIMARY else ret)
      in case rsm_view (vs_vid (myvs n)) n of (slaves, n) \<Rightarrow>
         rbind (invoke_slaves env procno req slaves ret n w) (\<lambda>(out, n, w).
         case out of
           Inl ret \<Rightarrow> Inr (ret, None, n, w)
         | Inr ret \<Rightarrow>
             rbind (execute mem procno req (next_vs n)) (\<lambda>(r, n). Inr (ret, Some r, n, w))))"

definition rsm_invoke :: "(nat \<Rightarrow> byte) \<Rightarrow> u32 \<Rightarrow> viewstamp \<Rightarrow> string \<Rightarrow> 's rsm \<Rightarrow> (cint \<times> 's rsm) result" where
  "rsm_invoke mem proc vs req n =
     (if inviewchange n then Inr (rsm_BUSY, n)
      else if vs_ne vs (myvs n) then Inr (rsm_ERR, n)
      else
        rbind (execute mem proc req (next_vs n)) (\<lambda>(_, n).
        rbind (rsm_breakpoint1 n) (\<lambda>_. Inr (rsm_OK, n))))"

section \<open>Views and primaries\<close>

fun first_common :: "string list \<Rightarrow> string list \<Rightarrow> string option" where
  "first_common [] c = None"
| "first_common (x # p) c = (if isamember x c then Some x else first_common p c)"

definition set_primary :: "u32 \<Rightarrow> 's rsm \<Rightarrow> 's rsm result" where
  "set_primary vid n =
     (case rsm_view vid n of (c, n) \<Rightarrow>
      case rsm_view (vid - 1) n of (p, n) \<Rightarrow>
      rbind (VERIFY (length c > 0)) (\<lambda>_.
      if isamember (primary n) c then Inr n
      else
        rbind (VERIFY (length p > 0)) (\<lambda>_.
        case first_common p c of
          None \<Rightarrow> Inl Verify_failed
        | Some x \<Rightarrow> Inr (n\<lparr>primary := x\<rparr>))))"

definition commit_change_wo :: "u32 \<Rightarrow> 's rsm \<Rightarrow> 's rsm result" where
  "commit_change_wo vid n =
     (if vid \<le> vid_commit n then Inr n
      else
        rbind (set_primary vid (n\<lparr>vid_commit := vid, inviewchange := True\<rparr>)) (\<lambda>n.
        case rsm_ismember (myaddr n) (vid_commit n) n of (b, n) \<Rightarrow>
        if b then rbind (rsm_breakpoint2 n) (\<lambda>_. Inr n) else Inr n))"

definition commit_change :: "u32 \<Rightarrow> 's rsm \<Rightarrow> 's rsm result" where
  "commit_change vid n = commit_change_wo vid n"

text \<open>
  \<open>cfg\<close> is the result of the constructor of \<open>config\<close>, \<open>ins\<close> the initial content of \<open>vid_insync\<close>,
  which the constructor does not set.
\<close>

definition rsm_new :: "u32 \<Rightarrow> config \<Rightarrow> string \<Rightarrow> string \<Rightarrow> 's \<Rightarrow> 's rsm result" where
  "rsm_new ins cfg first me app =
     (let n = \<lparr>rsm_procs = Map.empty, rsm_cfg = cfg, stf = False,
            myvs = \<lparr>vs_vid = 0, vs_seqno = 1\<rparr>, last_myvs = \<lparr>vs_vid = 0, vs_seqno = 0\<rparr>,
            primary = first, insync = False, inviewchange = True, vid_commit = 0, vid_insync = ins,
            backups = [], partitioned = False, dopartition = False, rsm_break1 = False,
            rsm_break2 = False, rsm_app = app\<rparr>
      in if first = me then commit_change 1 n else Inr n)"

section \<open>Recovery\<close>

text \<open>\<open>sync_with_backups\<close> up to its wait, and after it.\<close>

definition sync_backups_start :: "'s rsm \<Rightarrow> 's rsm" where
  "sync_backups_start n =
     (case rsm_view (vid_insync n) n of (m, n) \<Rightarrow>
      n\<lparr>backups := filter (\<lambda>x. x \<noteq> myaddr n) m, insync := True\<rparr>)"

definition sync_backups_waits :: "'s rsm \<Rightarrow> bool" where
  "sync_backups_waits n = (backups n \<noteq> [] \<and> vid_commit n = vid_insync n)"

definition sync_backups_end :: "'s rsm \<Rightarrow> bool \<times> 's rsm" where
  "sync_backups_end n = (vid_commit n = vid_insync n, n\<lparr>insync := False\<rparr>)"

definition transferreq :: "('s \<Rightarrow> string) \<Rightarrow> viewstamp \<Rightarrow> u32 \<Rightarrow> transferres \<Rightarrow> 's rsm \<Rightarrow> cint \<times> transferres" where
  "transferreq marshal_state lst vid r n =
     (if \<not> insync n \<or> vid \<noteq> vid_insync n then (rsm_BUSY, r)
      else
        let r = (if stf n \<and> vs_ne lst (last_myvs n) then r\<lparr>tr_state := marshal_state (rsm_app n)\<rparr> else r)
        in (rsm_OK, r\<lparr>tr_last := last_myvs n\<rparr>))"

definition transferdonereq :: "string \<Rightarrow> u32 \<Rightarrow> 's rsm \<Rightarrow> cint \<times> 's rsm" where
  "transferdonereq m vid n =
     (if vid_insync n = 0 \<or> vid \<noteq> vid_commit n then (rsm_BUSY, n)
      else (rsm_OK, n\<lparr>backups := remove1 m (backups n)\<rparr>))"

text \<open>\<open>statetransfer\<close>: \<open>reply\<close> is the outcome of the RPC, \<open>None\<close> without a client.\<close>

definition statetransfer :: "(string \<Rightarrow> 's \<Rightarrow> 's) \<Rightarrow> (cint \<times> transferres) option \<Rightarrow> 's rsm \<Rightarrow> bool \<times> 's rsm" where
  "statetransfer unmarshal_state reply n =
     (case reply of
        None \<Rightarrow> (False, n)
      | Some (ret, r) \<Rightarrow>
          if ret \<noteq> rsm_OK then (False, n)
          else
            let n = (if stf n \<and> vs_ne (last_myvs n) (tr_last r)
                     then n\<lparr>rsm_app := unmarshal_state (tr_state r) (rsm_app n)\<rparr> else n)
            in (True, n\<lparr>last_myvs := tr_last r\<rparr>))"

definition statetransferdone :: "cint option \<Rightarrow> bool" where
  "statetransferdone ret = (case ret of None \<Rightarrow> False | Some ret \<Rightarrow> ret = rsm_OK)"

text \<open>
  \<open>sync_with_primary\<close>: before its loop, one round of it, and after it. The result of a round says
  whether the loop is left.
\<close>

definition sync_primary_start :: "'s rsm \<Rightarrow> 's rsm" where
  "sync_primary_start n = n\<lparr>insync := True\<rparr>"

definition sync_primary_end :: "'s rsm \<Rightarrow> bool \<times> 's rsm" where
  "sync_primary_end n = (vid_commit n = vid_insync n, n\<lparr>insync := False\<rparr>)"

definition sync_primary_round :: "(string \<Rightarrow> 's \<Rightarrow> 's) \<Rightarrow> (cint \<times> transferres) option \<Rightarrow> cint option \<Rightarrow>
    's rsm \<Rightarrow> bool \<times> 's rsm" where
  "sync_primary_round unmarshal_state reply fin n =
     (if vid_commit n \<noteq> vid_insync n then (True, n)
      else
        case statetransfer unmarshal_state reply n of (r, n) \<Rightarrow>
        (r \<and> statetransferdone fin, n))"

definition rsm_join :: "u32 \<Rightarrow> (cint \<times> joinres) option \<Rightarrow> 's rsm \<Rightarrow> (bool \<times> 's rsm) result" where
  "rsm_join inst reply n =
     (case reply of
        None \<Rightarrow> Inr (False, n)
      | Some (ret, r) \<Rightarrow>
          if ret \<noteq> rsm_OK then Inr (False, n)
          else rbind (config_restore inst (jr_log r) (rsm_cfg n)) (\<lambda>c. Inr (True, n\<lparr>rsm_cfg := c\<rparr>)))"

text \<open>\<open>recovery\<close>: the inner loop's body, and what follows a synchronization with result \<open>r\<close>.\<close>

definition recovery_join :: "u32 \<Rightarrow> (cint \<times> joinres) option \<Rightarrow> 's rsm \<Rightarrow> 's rsm result" where
  "recovery_join inst reply n =
     rbind (rsm_join inst reply n) (\<lambda>(b, n).
     if b then commit_change_wo (myvid (rsm_cfg n)) n else Inr n)"

definition recovery_sync :: "'s rsm \<Rightarrow> 's rsm" where
  "recovery_sync n = n\<lparr>vid_insync := vid_commit n\<rparr>"

definition recovery_finish :: "bool \<Rightarrow> 's rsm \<Rightarrow> 's rsm" where
  "recovery_finish r n =
     (if vid_insync n \<noteq> vid_commit n then n
      else if r then n\<lparr>myvs := \<lparr>vs_vid = vid_commit n, vs_seqno = 1\<rparr>, inviewchange := False\<rparr>
      else n)"

section \<open>Joining, clients, tests\<close>

text \<open>\<open>joinreq\<close>: \<open>added\<close> is the node after \<open>cfg->add\<close> was called with \<open>rsm_mutex\<close> released.\<close>

definition joinreq :: "('s rsm \<Rightarrow> 's rsm) \<Rightarrow> string \<Rightarrow> joinres \<Rightarrow> 's rsm \<Rightarrow> cint \<times> joinres \<times> 's rsm" where
  "joinreq added m r n =
     (case rsm_ismember m (vid_commit n) n of (b, n) \<Rightarrow>
      if b then (rsm_OK, r\<lparr>jr_log := acceptor_dump (cfg_acc (rsm_cfg n))\<rparr>, n)
      else if myaddr n \<noteq> primary n then (rsm_BUSY, r, n)
      else
        let n = added n in
        case rsm_ismember m (myvid (rsm_cfg n)) n of (b, n) \<Rightarrow>
        if b then (rsm_OK, r\<lparr>jr_log := acceptor_dump (cfg_acc (rsm_cfg n))\<rparr>, n)
        else (rsm_BUSY, r, n))"

definition client_members :: "'s rsm \<Rightarrow> cint \<times> string list \<times> 's rsm" where
  "client_members n =
     (case rsm_view (vid_commit n) n of (m, n) \<Rightarrow> (client_OK, m @ [primary n], n))"

definition test_net_repairreq :: "'w rsm_env \<Rightarrow> bool \<Rightarrow> 's rsm \<Rightarrow> 'w \<Rightarrow> cint \<times> 's rsm \<times> 'w" where
  "test_net_repairreq env heal n w =
     (if heal then
        (case net_repair_wo env heal n w of (n, w) \<Rightarrow> (test_OK, n\<lparr>partitioned := False\<rparr>, w))
      else (test_OK, n\<lparr>dopartition := True, partitioned := False\<rparr>, w))"

definition breakpointreq :: "int \<Rightarrow> 's rsm \<Rightarrow> cint \<times> 's rsm" where
  "breakpointreq b n =
     (if b = 1 then (test_OK, n\<lparr>rsm_break1 := True\<rparr>)
      else if b = 2 then (test_OK, n\<lparr>rsm_break2 := True\<rparr>)
      else if b = 3 \<or> b = 4
      then (test_OK, n\<lparr>rsm_cfg := (rsm_cfg n)\<lparr>cfg_pro := breakpoint b (cfg_pro (rsm_cfg n))\<rparr>\<rparr>)
      else (test_ERR, n))"

end
