(* ===== verification/Rsm_Client.thy ===== *)
theory Rsm_Client
  imports Rsm Rpc_Call
begin

text \<open>
  Clients of the replicated state machine: class \<open>rsm_client\<close> of include/rsm/rsm_client.h and
  src/rsm/rsm_client.cc. The RPCs to the replicas act on a world \<open>'w\<close>. The loop of \<open>invoke\<close> may run
  for ever; it takes the number of rounds, and \<open>None\<close> is a call that has not returned yet.
\<close>

section \<open>State and operations\<close>

record rsm_client =
  rc_primary :: string
  known_mems :: "string list"

text \<open>
  \<open>call_primary\<close> is \<open>safebind\<close> and the RPC \<open>rsm_client_protocol::invoke\<close>: \<open>None\<close> without a client,
  otherwise the return code and the reply if it was set. \<open>call_members\<close> is the same for
  \<open>rsm_client_protocol::members\<close>.
\<close>

record 'w rsm_client_env =
  call_primary :: "string \<Rightarrow> u32 \<Rightarrow> string \<Rightarrow> 'w \<Rightarrow> (cint \<times> string option) option \<times> 'w"
  call_members :: "string \<Rightarrow> 'w \<Rightarrow> (cint \<times> string list) option \<times> 'w"

definition primary_failure :: "rsm_client \<Rightarrow> rsm_client result" where
  "primary_failure c =
     rbind (VERIFY (known_mems c \<noteq> [])) (\<lambda>_.
     Inr (c\<lparr>rc_primary := last (known_mems c), known_mems := butlast (known_mems c)\<rparr>))"

definition init_members :: "'w rsm_client_env \<Rightarrow> rsm_client \<Rightarrow> 'w \<Rightarrow> (bool \<times> rsm_client \<times> 'w) result" where
  "init_members env c w =
     (case call_members env (rc_primary c) w of (reply, w) \<Rightarrow>
      case reply of
        None \<Rightarrow> Inr (False, c, w)
      | Some (ret, new_view) \<Rightarrow>
          if ret \<noteq> rsm_OK then Inr (False, c, w)
          else
            rbind (VERIFY (\<not> length new_view < 1)) (\<lambda>_.
            Inr (True, c\<lparr>rc_primary := last new_view, known_mems := butlast new_view\<rparr>, w)))"

definition rsm_client_new :: "'w rsm_client_env \<Rightarrow> string \<Rightarrow> 'w \<Rightarrow> (rsm_client \<times> 'w) result" where
  "rsm_client_new env d w =
     rbind (init_members env \<lparr>rc_primary = d, known_mems = []\<rparr> w) (\<lambda>(b, c, w).
     rbind (VERIFY b) (\<lambda>_. Inr (c, w)))"

fun rsm_client_invoke :: "'w rsm_client_env \<Rightarrow> nat \<Rightarrow> u32 \<Rightarrow> string \<Rightarrow> string \<Rightarrow> rsm_client \<Rightarrow> 'w \<Rightarrow>
    ((cint \<times> string) \<times> rsm_client \<times> 'w) option result" where
  "rsm_client_invoke env 0 proc req rep c w = Inr None"
| "rsm_client_invoke env (Suc rounds) proc req rep c w =
     (case call_primary env (rc_primary c) proc req w of (reply, w) \<Rightarrow>
      case reply of
        None \<Rightarrow> rbind (primary_failure c) (\<lambda>c. rsm_client_invoke env rounds proc req rep c w)
      | Some (ret, new_rep) \<Rightarrow>
          let rep = (case new_rep of None \<Rightarrow> rep | Some rep \<Rightarrow> rep) in
          if ret = client_OK then Inr (Some ((ret, rep), c, w))
          else if ret = client_BUSY then rsm_client_invoke env rounds proc req rep c w
          else if ret = client_NOTPRIMARY then
            rbind (init_members env c w) (\<lambda>(b, c, w).
            if b then rsm_client_invoke env rounds proc req rep c w
            else rbind (primary_failure c) (\<lambda>c. rsm_client_invoke env rounds proc req rep c w))
          else rbind (primary_failure c) (\<lambda>c. rsm_client_invoke env rounds proc req rep c w))"

text \<open>\<open>call_m\<close> leaves the result \<open>r\<close> alone if the method's code is negative.\<close>

definition rsm_call_m :: "(unmarshall \<Rightarrow> ('r \<times> unmarshall) result) \<Rightarrow> (nat \<Rightarrow> byte) \<Rightarrow> 'w rsm_client_env \<Rightarrow> nat \<Rightarrow>
    u32 \<Rightarrow> marshall \<Rightarrow> rsm_client \<Rightarrow> 'w \<Rightarrow> ((cint \<times> 'r option) \<times> rsm_client \<times> 'w) option result" where
  "rsm_call_m getr mem env rounds proc req c w =
     rbind (marshall_str req) (\<lambda>req.
     rbind (rsm_client_invoke env rounds proc req [] c w) (\<lambda>ret.
     case ret of
       None \<Rightarrow> Inr None
     | Some ((intret, rep), c, w) \<Rightarrow>
         rbind (VERIFY (intret = client_OK)) (\<lambda>_.
         rbind (get_int (unmarshall_string mem rep)) (\<lambda>(intret, u).
         if sint intret < 0 then Inr (Some ((intret, None), c, w))
         else
           rbind (get_string [] u) (\<lambda>(res, u).
           rbind (VERIFY (unmarshall_okdone u)) (\<lambda>_.
           rbind (getr (unmarshall_string mem res)) (\<lambda>(r, u1).
           rbind (VERIFY (unmarshall_okdone u1)) (\<lambda>_.
           Inr (Some ((intret, Some r), c, w))))))))))"

definition rsm_call_1 where
  "rsm_call_1 put1 getr mem env rounds proc a1 c w =
     rbind (put1 a1 (marshall_new mem)) (\<lambda>m. rsm_call_m getr mem env rounds proc m c w)"

definition rsm_call_2 where
  "rsm_call_2 put1 put2 getr mem env rounds proc a1 a2 c w =
     rbind (put1 a1 (marshall_new mem)) (\<lambda>m.
     rbind (put2 a2 m) (\<lambda>m. rsm_call_m getr mem env rounds proc m c w))"

definition rsm_call_3 where
  "rsm_call_3 put1 put2 put3 getr mem env rounds proc a1 a2 a3 c w =
     rbind (put1 a1 (marshall_new mem)) (\<lambda>m.
     rbind (put2 a2 m) (\<lambda>m.
     rbind (put3 a3 m) (\<lambda>m. rsm_call_m getr mem env rounds proc m c w)))"

definition rsm_call_4 where
  "rsm_call_4 put1 put2 put3 put4 getr mem env rounds proc a1 a2 a3 a4 c w =
     rbind (put1 a1 (marshall_new mem)) (\<lambda>m.
     rbind (put2 a2 m) (\<lambda>m.
     rbind (put3 a3 m) (\<lambda>m.
     rbind (put4 a4 m) (\<lambda>m. rsm_call_m getr mem env rounds proc m c w))))"

definition rsm_call_5 where
  "rsm_call_5 put1 put2 put3 put4 put5 getr mem env rounds proc a1 a2 a3 a4 a5 c w =
     rbind (put1 a1 (marshall_new mem)) (\<lambda>m.
     rbind (put2 a2 m) (\<lambda>m.
     rbind (put3 a3 m) (\<lambda>m.
     rbind (put4 a4 m) (\<lambda>m.
     rbind (put5 a5 m) (\<lambda>m. rsm_call_m getr mem env rounds proc m c w)))))"

section \<open>Requests and replies as strings\<close>

abbreviation chars :: "byte list \<Rightarrow> string" where
  "chars bs \<equiv> map char_of_byte bs"

definition rsm_reply :: "cint \<Rightarrow> byte list \<Rightarrow> string" where
  "rsm_reply b res = chars (enc_uint b @ enc_string (chars res))"

lemma putD:
  assumes "m_appends f bs"
  obtains m where "f (marshall_new mem) = Inr m" "m_inv m" "marshall_str m = Inr (chars bs)"
proof -
  obtain m where m: "f (marshall_new mem) = Inr m" "m_inv m" "m_bytes m = m_bytes (marshall_new mem) @ bs"
    using assms m_inv_new [of mem] unfolding m_appends_def by blast
  then have "m_content m = bs" using m_content_append [OF m_inv_new m(3)] by simp
  then show ?thesis using that m marshall_str_content [OF m(2)] by simp
qed

lemma rsm_h2_pair: "rsm_h2_fn get1 get2 putr meth = rsm_h1_fn (get_pair get1 get2) putr (\<lambda>(a1, a2). meth a1 a2)"
  by (simp add: fun_eq_iff rsm_h2_fn_def rsm_h1_fn_def get_pair_def rbind_assoc split_def)

lemma rsm_call_2_pair:
  "rsm_call_2 put1 put2 getr mem env rounds proc a1 a2 c w =
   rsm_call_1 (put_pair put1 put2) getr mem env rounds proc (a1, a2) c w"
  by (simp add: rsm_call_2_def rsm_call_1_def put_pair_def rbind_assoc)

lemma reply_written:
  assumes "m_inv rep" "m_content rep = res" "wire_size res"
  shows "rbind (put_int b (marshall_new mem)) (\<lambda>rep1.
      rbind (marshall_str rep) (\<lambda>reps. rbind (put_string reps rep1) (\<lambda>rep1.
      rbind (marshall_str rep1) (\<lambda>r. Inr (r, s))))) = Inr (rsm_reply b res, s)"
proof -
  have "m_appends (\<lambda>m. rbind (put_int b m) (put_string (chars res))) (enc_uint b @ enc_string (chars res))"
    using assms(3) by (intro m_appends_seq int_codec.put_appends string_codec.put_appends) (simp_all add: wire_size_def)
  from putD [OF this, of mem] obtain m where "rbind (put_int b (marshall_new mem)) (put_string (chars res)) = Inr m"
      "marshall_str m = Inr (rsm_reply b res)" unfolding rsm_reply_def by blast
  then show ?thesis using assms(2) marshall_str_content [OF assms(1)]
    by (auto simp: rbind_eq_Inr)
qed

lemma reply_read:
  assumes "32 + length res < 2 ^ 32"
  shows "\<exists>u. get_int (unmarshall_string mem (rsm_reply b res)) = Inr (b, u) \<and>
    (\<exists>u'. get_string [] u = Inr (chars res, u') \<and> unmarshall_okdone u')"
proof -
  have size: "wire_size (chars res)" using assms by (simp add: wire_size_def)
  have "u_at (unmarshall_string mem (rsm_reply b res)) (enc_uint b @ enc_string (chars res))"
    unfolding rsm_reply_def using assms by (intro u_at_string) (simp add: enc_string_def)
  then obtain u where u: "get_int (unmarshall_string mem (rsm_reply b res)) = Inr (b, u)" "u_at u (enc_string (chars res))"
    by (rule u_readsD [OF int_codec.get_reads [OF TrueI]])
  have "u_at u (enc_string (chars res) @ [])" using u(2) by simp
  then obtain u' where "get_string [] u = Inr (chars res, u')" "u_at u' []"
    by (rule u_readsD [OF string_codec.get_reads [OF size]])
  then show ?thesis using u(1) u_at_Nil_okdone by blast
qed

context remote_method
begin

text \<open>A replica that executes the request for arguments \<open>a\<close> runs the method on them.\<close>

lemma run_req_exact:
  assumes "valida a" "validr r" "24 + length (enca a) < 2 ^ 32" "32 + length (encr r) < 2 ^ 32"
    and "ps proc = Some (rsm_h1_fn geta putr meth)" "meth a s = Inr (b, r, s')"
  shows "run_req mem ps (proc, chars (enca a)) s = Inr (rsm_reply b (encr r), s')"
proof -
  have "u_at (unmarshall_string mem (chars (enca a))) (enca a @ [])"
    using u_at_string [of "enca a" mem] assms(3) by simp
  then obtain u where u: "geta (unmarshall_string mem (chars (enca a))) = Inr (a, u)" "u_at u []"
    by (rule u_readsD [OF args.get_reads [OF assms(1)]])
  obtain rep where rep: "putr r (marshall_new mem) = Inr rep" "m_inv rep" "m_bytes rep = m_bytes (marshall_new mem) @ encr r"
    using res.put_appends [OF assms(2)] m_inv_new [of mem] unfolding m_appends_def by blast
  have "m_content rep = encr r" using m_content_append [OF m_inv_new rep(3)] by simp
  moreover have "wire_size (encr r)" using assms(4) by (simp add: wire_size_def)
  ultimately show ?thesis
    using reply_written [OF rep(2), of "encr r" b mem s'] u rep(1) u_at_Nil_okdone [OF u(2)] assms(5,6)
    by (simp add: run_req_def rsm_h1_fn_def h1_reply_def VERIFY_def)
qed

text \<open>A client that gets the reply returns the method's code and result.\<close>

lemma call_exact:
  assumes "valida a" "validr r" "32 + length (encr r) < 2 ^ 32" "0 \<le> sint b"
    and "rsm_client_invoke env rounds proc (chars (enca a)) [] c w =
      Inr (Some ((client_OK, rsm_reply b (encr r)), c', w'))"
  shows "rsm_call_1 puta getr mem env rounds proc a c w = Inr (Some ((b, Some r), c', w'))"
proof -
  obtain m where m: "puta a (marshall_new mem) = Inr m" "marshall_str m = Inr (chars (enca a))"
    by (rule putD [OF args.put_appends [OF assms(1)]])
  obtain u u' where u: "get_int (unmarshall_string mem (rsm_reply b (encr r))) = Inr (b, u)"
      "get_string [] u = Inr (chars (encr r), u')" "unmarshall_okdone u'"
    using reply_read [OF assms(3)] by blast
  have "u_at (unmarshall_string mem (chars (encr r))) (encr r @ [])"
    using u_at_string [of "encr r" mem] assms(3) by simp
  then obtain u1 where "getr (unmarshall_string mem (chars (encr r))) = Inr (r, u1)" "u_at u1 []"
    by (rule u_readsD [OF res.get_reads [OF assms(2)]])
  then show ?thesis using m u assms(4,5) u_at_Nil_okdone
    by (simp add: rsm_call_1_def rsm_call_m_def VERIFY_def not_less [symmetric])
qed

lemma call_request:
  assumes "valida a" "rsm_call_1 puta getr mem env rounds proc a c w = Inr (Some y)"
  shows "\<exists>x. rsm_client_invoke env rounds proc (chars (enca a)) [] c w = Inr (Some x)"
proof -
  obtain m where "puta a (marshall_new mem) = Inr m" "marshall_str m = Inr (chars (enca a))"
    by (rule putD [OF args.put_appends [OF assms(1)]])
  then show ?thesis using assms(2)
    by (auto simp: rsm_call_1_def rsm_call_m_def rbind_eq_Inr split: option.splits)
qed

end

end
