(* ===== verification/Rsm_Safety.thy ===== *)
theory Rsm_Safety
  imports Rsm_Client
begin

text \<open>
  What the replicated state machine guarantees within a view, and across the synchronization that
  starts one. \<open>replicas\<close> is a primary and its backups, connected by a network that may lose a
  call, lose its reply or deliver both.
\<close>

section \<open>The replicas of a view\<close>

datatype delivery = Dropped | Unanswered | Delivered

type_synonym 's world = "(string \<Rightarrow> 's rsm) \<times> delivery list"

definition next_delivery :: "delivery list \<Rightarrow> delivery \<times> delivery list" where
  "next_delivery fs = (case fs of [] \<Rightarrow> (Dropped, []) | f # fs \<Rightarrow> (f, fs))"

text \<open>A call to a backup; a backup that fails in the call (a fault) gives no answer.\<close>

definition backup_invoke :: "(nat \<Rightarrow> byte) \<Rightarrow> string \<Rightarrow> u32 \<Rightarrow> viewstamp \<Rightarrow> string \<Rightarrow> 's world \<Rightarrow>
    cint option \<times> 's world" where
  "backup_invoke mem b proc vs req w =
     (case w of (ns, fs) \<Rightarrow>
      case next_delivery fs of (f, fs) \<Rightarrow>
      if f = Dropped then (Some timeout_failure, ns, fs)
      else
        case rsm_invoke mem proc vs req (ns b) of
          Inl _ \<Rightarrow> (Some timeout_failure, ns, fs)
        | Inr (ret, n) \<Rightarrow> (Some (if f = Delivered then ret else timeout_failure), ns(b := n), fs))"

definition view_env :: "(nat \<Rightarrow> byte) \<Rightarrow> 's world rsm_env" where
  "view_env mem = \<lparr>call_invoke = backup_invoke mem, repair = (\<lambda>_ _ w. w)\<rparr>"

section \<open>Histories\<close>

fun run_reqs :: "(nat \<Rightarrow> byte) \<Rightarrow> (u32 \<rightharpoonup> 's handler) \<Rightarrow> (u32 \<times> string) list \<Rightarrow> 's \<Rightarrow> 's result" where
  "run_reqs mem ps [] s = Inr s"
| "run_reqs mem ps (q # qs) s = rbind (run_req mem ps q s) (\<lambda>(_, s). run_reqs mem ps qs s)"

lemma run_reqs_snoc:
  "run_reqs mem ps (qs @ [q]) s =
    rbind (run_reqs mem ps qs s) (\<lambda>s. rbind (run_req mem ps q s) (\<lambda>(_, s). Inr s))"
proof (induction qs arbitrary: s)
  case Nil
  show ?case by (cases "run_req mem ps q s") auto
next
  case (Cons q' qs)
  then show ?case by (cases "run_req mem ps q' s") auto
qed

text \<open>
  A view starts with number \<open>start_vid\<close> on members that have the handlers \<open>start_procs\<close>, the service in
  state \<open>start_app\<close> and \<open>last_myvs\<close> equal to \<open>start_last\<close>, a viewstamp of an earlier view.
  \<open>at_hist V qs n\<close>: since then node \<open>n\<close> has executed the requests \<open>qs\<close>, in this order, and no other.
\<close>

record 's view_start =
  start_mem :: "nat \<Rightarrow> byte"
  start_procs :: "u32 \<rightharpoonup> 's handler"
  start_app :: 's
  start_last :: viewstamp
  start_vid :: u32

definition at_hist :: "'s view_start \<Rightarrow> (u32 \<times> string) list \<Rightarrow> 's rsm \<Rightarrow> bool" where
  "at_hist V qs n =
     (rsm_procs n = start_procs V \<and> \<not> inviewchange n \<and>
      myvs n = \<lparr>vs_vid = start_vid V, vs_seqno = 1 + of_nat (length qs)\<rparr> \<and>
      last_myvs n = (if qs = [] then start_last V
                     else \<lparr>vs_vid = start_vid V, vs_seqno = of_nat (length qs)\<rparr>) \<and>
      run_reqs (start_mem V) (start_procs V) qs (start_app V) = Inr (rsm_app n))"

text \<open>The viewstamp of the next request.\<close>

abbreviation hist_vs :: "'s view_start \<Rightarrow> (u32 \<times> string) list \<Rightarrow> viewstamp" where
  "hist_vs V qs \<equiv> \<lparr>vs_vid = start_vid V, vs_seqno = 1 + of_nat (length qs)\<rparr>"

lemma execute_step:
  assumes "at_hist V qs n" "execute (start_mem V) proc req (next_vs n) = Inr (r, n')"
  shows "at_hist V (qs @ [(proc, req)]) n'"
  using assms
  by (auto simp: at_hist_def execute_def next_vs_def rbind_eq_Inr run_reqs_snoc add.commute add.left_commute)

lemma invoke_at:
  assumes "at_hist V qs n" "rsm_invoke (start_mem V) proc (hist_vs V qs) req n = Inr (ret, n')"
  shows "at_hist V (qs @ [(proc, req)]) n' \<and> ret = rsm_OK"
  using assms execute_step [OF assms(1), of proc req]
  by (auto simp: rsm_invoke_def at_hist_def rbind_eq_Inr)

lemma invoke_runs:
  assumes "at_hist V qs n" "\<not> rsm_break1 n"
    and "run_req (start_mem V) (start_procs V) (proc, req) (rsm_app n) = Inr (r, s)"
  shows "\<exists>n'. rsm_invoke (start_mem V) proc (hist_vs V qs) req n = Inr (rsm_OK, n') \<and>
    at_hist V (qs @ [(proc, req)]) n' \<and> rsm_app n' = s"
proof -
  have e: "execute (start_mem V) proc req (next_vs n) = Inr (r, (next_vs n)\<lparr>rsm_app := s\<rparr>)"
    using assms(1,3) by (simp add: execute_def next_vs_def at_hist_def)
  then show ?thesis using execute_step [OF assms(1) e] assms(1,2)
    by (auto simp: rsm_invoke_def at_hist_def next_vs_def rsm_breakpoint1_def vs_ne_iff)
qed

lemma invoke_ahead:
  assumes "at_hist V (qs @ [q]) n"
  shows "rsm_invoke mem proc (hist_vs V qs) req n = Inr (rsm_ERR, n)"
  using assms by (auto simp: rsm_invoke_def at_hist_def)

text \<open>A backup has executed what the primary has, and possibly request \<open>q\<close> as well.\<close>

definition follows :: "'s view_start \<Rightarrow> (u32 \<times> string) list \<Rightarrow> u32 \<times> string \<Rightarrow> 's rsm \<Rightarrow> bool" where
  "follows V qs q n = (at_hist V qs n \<or> at_hist V (qs @ [q]) n)"

lemma not_ahead: "at_hist V qs n \<Longrightarrow> \<not> at_hist V (qs @ [q]) n"
  by (auto simp: at_hist_def)

lemma backup_ahead:
  assumes "backup_invoke mem b proc (hist_vs V qs) req (ns, fs) = (r, ns', fs')" "at_hist V (qs @ [q]) (ns b)"
  shows "ns' = ns \<and> (\<exists>e. r = Some e \<and> e \<noteq> rsm_OK)"
proof -
  obtain f fs1 where f: "next_delivery fs = (f, fs1)" by fastforce
  have "timeout_failure \<noteq> rsm_OK" "rsm_ERR \<noteq> rsm_OK" by (simp_all add: timeout_failure_def rsm_status)
  then show ?thesis using assms(1) f invoke_ahead [OF assms(2), of mem proc req]
    by (cases "f = Dropped"; cases "f = Delivered") (auto simp: backup_invoke_def)
qed

lemma backup_invoke_follows:
  assumes "backup_invoke (start_mem V) b proc (hist_vs V qs) req (ns, fs) = (r, ns', fs')"
    and "follows V qs (proc, req) (ns b)"
  shows "(ns' = ns \<or> (ns' = ns(b := ns' b) \<and> at_hist V qs (ns b) \<and> at_hist V (qs @ [(proc, req)]) (ns' b))) \<and>
    (\<exists>e. r = Some e \<and> (e = rsm_OK \<longrightarrow> at_hist V (qs @ [(proc, req)]) (ns' b)))"
proof (cases "at_hist V qs (ns b)")
  case True
  have tf: "timeout_failure \<noteq> rsm_OK" by (simp add: timeout_failure_def rsm_status)
  obtain f fs1 where f: "next_delivery fs = (f, fs1)" by fastforce
  show ?thesis
  proof (cases "rsm_invoke (start_mem V) proc (hist_vs V qs) req (ns b)")
    case (Inl e)
    then show ?thesis using assms(1) f tf by (auto simp: backup_invoke_def split: if_splits)
  next
    case (Inr y)
    then obtain ret n where y: "rsm_invoke (start_mem V) proc (hist_vs V qs) req (ns b) = Inr (ret, n)" by fastforce
    note x = invoke_at [OF True y]
    show ?thesis
    proof (cases "f = Dropped")
      case False
      then have "ns' = ns(b := n)" "r = Some (if f = Delivered then ret else timeout_failure)"
        using assms(1) f y by (simp_all add: backup_invoke_def)
      then show ?thesis using x tf True by simp
    qed (use assms(1) f tf in \<open>auto simp: backup_invoke_def\<close>)
  qed
next
  case False
  then have "at_hist V (qs @ [(proc, req)]) (ns b)" using assms(2) by (simp add: follows_def)
  from backup_ahead [OF assms(1) this] obtain e where "ns' = ns" "r = Some e" "e \<noteq> rsm_OK" by metis
  then show ?thesis by simp
qed

text \<open>
  The primary's loop. If the first backup is ahead of the primary nothing happens; otherwise the
  backups that execute the request are ahead of it, and the first backup is among them.
\<close>

lemma invoke_slaves_stuck:
  assumes "invoke_slaves (view_env mem) proc req slaves ret n (ns, fs) = Inr (out, n', ns', fs')"
    and "at_hist V qs n" "filter (\<lambda>x. x \<noteq> myaddr n) slaves = b # bs" "at_hist V (qs @ [q]) (ns b)"
  shows "n' = n \<and> ns' = ns \<and> out = Inl client_BUSY"
  using assms(1,3)
proof (induction slaves)
  case (Cons c slaves)
  show ?case
  proof (cases "c = myaddr n")
    case False
    have vs: "myvs n = hist_vs V qs" using assms(2) by (simp add: at_hist_def)
    obtain r ns1 fs1 where i: "backup_invoke mem c proc (hist_vs V qs) req (ns, fs) = (r, ns1, fs1)"
      by (metis prod_cases3)
    from False Cons.prems(2) have "b = c" by simp
    with backup_ahead [OF i] assms(4) obtain e where "ns1 = ns" "r = Some e" "e \<noteq> rsm_OK" by metis
    with Cons.prems(1) False i vs show ?thesis by (simp add: view_env_def)
  qed (use Cons in simp)
qed simp

lemma invoke_slaves_follows:
  assumes "invoke_slaves (view_env (start_mem V)) proc req slaves ret n (ns, fs) = Inr (out, n', ns', fs')"
    and "at_hist V qs n" "\<not> rsm_break1 n" "\<not> dopartition n"
    and "\<forall>b \<in> U. follows V qs (proc, req) (ns b)" "set slaves - {myaddr n} \<subseteq> U"
  shows "n' = n \<and> (\<forall>b \<in> U. follows V qs (proc, req) (ns' b)) \<and>
    (\<forall>b. at_hist V (qs @ [(proc, req)]) (ns b) \<longrightarrow> at_hist V (qs @ [(proc, req)]) (ns' b)) \<and>
    (ns' = ns \<or> (\<exists>b bs. filter (\<lambda>x. x \<noteq> myaddr n) slaves = b # bs \<and> at_hist V (qs @ [(proc, req)]) (ns' b))) \<and>
    (case out of Inl e \<Rightarrow> e = client_BUSY
     | Inr e \<Rightarrow> (e = ret \<or> e = rsm_OK) \<and>
         (\<forall>b \<in> set slaves - {myaddr n}. at_hist V (qs @ [(proc, req)]) (ns' b)))"
  using assms
proof (induction slaves arbitrary: ret ns fs)
  case Nil
  then show ?case by auto
next
  case (Cons b slaves)
  let ?at = "at_hist V (qs @ [(proc, req)])"
  show ?case
  proof (cases "b = myaddr n")
    case True
    then have eq: "set (b # slaves) - {myaddr n} = set slaves - {myaddr n}"
        "filter (\<lambda>x. x \<noteq> myaddr n) (b # slaves) = filter (\<lambda>x. x \<noteq> myaddr n) slaves" by auto
    have rest: "invoke_slaves (view_env (start_mem V)) proc req slaves ret n (ns, fs) = Inr (out, n', ns', fs')"
      using Cons.prems(1) True by simp
    show ?thesis unfolding eq by (rule Cons.IH [OF rest Cons.prems(2-5) Cons.prems(6) [unfolded eq]])
  next
    case False
    have vs: "myvs n = hist_vs V qs" using Cons.prems(2) by (simp add: at_hist_def)
    have b: "b \<in> U" using Cons.prems(6) False by auto
    obtain r ns1 fs1 where c: "backup_invoke (start_mem V) b proc (hist_vs V qs) req (ns, fs) = (r, ns1, fs1)"
      by (metis prod_cases3)
    note f = backup_invoke_follows [OF c bspec [OF Cons.prems(5) b]]
    have grow: "ns1 = ns \<or> ?at (ns1 b)" "?at (ns x) \<Longrightarrow> ?at (ns1 x)" "x \<noteq> b \<Longrightarrow> ns1 x = ns x" for x
      using f by (metis, metis fun_upd_apply, metis fun_upd_apply)
    have U: "\<forall>x \<in> U. follows V qs (proc, req) (ns1 x)"
      using grow(1) grow(3) Cons.prems(5) by (metis follows_def)
    obtain e where e: "r = Some e" "e = rsm_OK \<Longrightarrow> ?at (ns1 b)" using f by blast
    show ?thesis
    proof (cases "e = rsm_OK")
      case False
      then have "out = Inl client_BUSY" "n' = n" "ns' = ns1"
        using Cons.prems(1) c vs e \<open>b \<noteq> myaddr n\<close> by (simp_all add: view_env_def)
      then show ?thesis using U grow \<open>b \<noteq> myaddr n\<close> by simp
    next
      case True
      then have rest: "invoke_slaves (view_env (start_mem V)) proc req slaves rsm_OK n (ns1, fs1) = Inr (out, n', ns', fs')"
        using Cons.prems(1,3,4) c vs e \<open>b \<noteq> myaddr n\<close>
        by (simp add: view_env_def rsm_breakpoint1_def partition1_def)
      have sub: "set slaves - {myaddr n} \<subseteq> U" using Cons.prems(6) by auto
      note IH = Cons.IH [OF rest Cons.prems(2-4) U sub]
      have "?at (ns' b)" using IH e(2) [OF True] by blast
      moreover have "\<forall>x. ?at (ns x) \<longrightarrow> ?at (ns' x)" using IH grow(2) by blast
      ultimately show ?thesis using IH \<open>b \<noteq> myaddr n\<close> by (simp split: sum.splits) auto
    qed
  qed
qed

section \<open>Runs of a view\<close>

lemma rsm_view_frame:
  assumes "rsm_view i n = (c, n')"
  shows "fst (rsm_view j n') = fst (rsm_view j n) \<and> rsm_procs n' = rsm_procs n \<and> myvs n' = myvs n \<and>
    last_myvs n' = last_myvs n \<and>
    inviewchange n' = inviewchange n \<and> rsm_app n' = rsm_app n \<and> primary n' = primary n \<and>
    myaddr n' = myaddr n \<and> rsm_break1 n' = rsm_break1 n \<and> dopartition n' = dopartition n"
proof -
  obtain c' where g: "get_view_wo i (rsm_cfg n) = (c, c')" "n' = n\<lparr>rsm_cfg := c'\<rparr>"
    using assms by (auto simp: rsm_view_def get_view_def split: prod.splits)
  obtain v1 c1 where a: "get_view_wo j c' = (v1, c1)" by fastforce
  obtain v2 c2 where b: "get_view_wo j (rsm_cfg n) = (v2, c2)" by fastforce
  have "v1 = v2" using get_view_wo_frame [OF a] get_view_wo_frame [OF b] get_view_wo_frame [OF g(1), of j] by simp
  then show ?thesis using g a b get_view_wo_frame [OF g(1)]
    by (auto simp: rsm_view_def get_view_def myaddr_def)
qed

definition stable_primary :: "u32 \<Rightarrow> string \<Rightarrow> string list \<Rightarrow> 's rsm \<Rightarrow> bool" where
  "stable_primary v p view n =
     (primary n = p \<and> myaddr n = p \<and> fst (rsm_view v n) = view \<and> \<not> rsm_break1 n \<and> \<not> dopartition n)"

text \<open>
  The view starts with all its members in the state that \<open>V\<close> describes; then its primary \<open>p\<close> serves
  client requests, one after the other (\<open>invoke_mutex\<close>), with any deliveries.
\<close>

inductive view_reach :: "'s view_start \<Rightarrow> string \<Rightarrow> string list \<Rightarrow> (string \<Rightarrow> 's rsm) \<Rightarrow> bool"
  for V :: "'s view_start" and p :: string and view :: "string list" where
  start: "p \<in> set view \<Longrightarrow> vs_vid (start_last V) \<noteq> start_vid V \<Longrightarrow> \<forall>b \<in> set view. at_hist V [] (ns b) \<Longrightarrow>
    stable_primary (start_vid V) p view (ns p) \<Longrightarrow> view_reach V p view ns"
| serve: "view_reach V p view ns \<Longrightarrow>
    client_invoke (start_mem V) (view_env (start_mem V)) proc req (ns p) (ns, fs) = Inr (ret, r, n', ns', fs') \<Longrightarrow>
    view_reach V p view (ns'(p := n'))"

text \<open>
  Backups ahead of the primary are ahead by the same request, and if there is one then the first
  backup of the view is ahead.
\<close>

definition backups_inv :: "'s view_start \<Rightarrow> string \<Rightarrow> string list \<Rightarrow> (u32 \<times> string) list \<Rightarrow> (string \<Rightarrow> 's rsm) \<Rightarrow> bool" where
  "backups_inv V p view qs ns =
     ((\<forall>b \<in> set view - {p}. at_hist V qs (ns b)) \<or>
      (\<exists>q b bs. filter (\<lambda>x. x \<noteq> p) view = b # bs \<and> at_hist V (qs @ [q]) (ns b) \<and>
         (\<forall>b \<in> set view - {p}. follows V qs q (ns b))))"

definition view_inv :: "'s view_start \<Rightarrow> string \<Rightarrow> string list \<Rightarrow> (u32 \<times> string) list \<Rightarrow> (string \<Rightarrow> 's rsm) \<Rightarrow> bool" where
  "view_inv V p view qs ns =
     (p \<in> set view \<and> vs_vid (start_last V) \<noteq> start_vid V \<and> at_hist V qs (ns p) \<and> stable_primary (start_vid V) p view (ns p) \<and> backups_inv V p view qs ns)"

lemma backups_inv_upd [simp]: "backups_inv V p view qs (ns(p := n)) = backups_inv V p view qs ns"
proof -
  have all: "(\<forall>b \<in> set view - {p}. P ((ns(p := n)) b)) = (\<forall>b \<in> set view - {p}. P (ns b))" for P
    by auto
  have first: "filter (\<lambda>x. x \<noteq> p) view = b # bs \<Longrightarrow> (ns(p := n)) b = ns b" for b bs
    by (auto dest: filter_eq_ConsD)
  show ?thesis unfolding backups_inv_def all by (simp add: first cong: conj_cong del: fun_upd_apply)
qed

text \<open>The primary's loop, from a state that satisfies the invariant.\<close>

lemma view_slaves:
  assumes "invoke_slaves (view_env (start_mem V)) proc req view client_OK n (ns, fs) = Inr (out, n', ns', fs')"
    and "at_hist V qs n" "stable_primary v p view n" "backups_inv V p view qs ns"
  shows "n' = n \<and>
    (case out of Inl e \<Rightarrow> e = client_BUSY \<and> backups_inv V p view qs ns'
     | Inr e \<Rightarrow> e = client_OK \<and> (\<forall>b \<in> set view - {p}. at_hist V (qs @ [(proc, req)]) (ns' b)))"
proof -
  have st: "myaddr n = p" "\<not> rsm_break1 n" "\<not> dopartition n" using assms(3) by (auto simp: stable_primary_def)
  from assms(4) consider
      (level) "\<forall>b \<in> set view - {p}. at_hist V qs (ns b)"
    | (ahead) "\<exists>q b bs. filter (\<lambda>x. x \<noteq> p) view = b # bs \<and> at_hist V (qs @ [q]) (ns b)"
    unfolding backups_inv_def by blast
  then show ?thesis
  proof cases
    case level
    then have f: "\<forall>b \<in> set view - {p}. follows V qs (proc, req) (ns b)" by (simp add: follows_def)
    have i: "n' = n" "\<forall>b \<in> set view - {p}. follows V qs (proc, req) (ns' b)"
        "ns' = ns \<or> (\<exists>b bs. filter (\<lambda>x. x \<noteq> p) view = b # bs \<and> at_hist V (qs @ [(proc, req)]) (ns' b))"
        "case out of Inl e \<Rightarrow> e = client_BUSY
         | Inr e \<Rightarrow> (e = client_OK \<or> e = rsm_OK) \<and>
             (\<forall>b \<in> set view - {p}. at_hist V (qs @ [(proc, req)]) (ns' b))"
      using invoke_slaves_follows [OF assms(1,2) st(2,3) f, unfolded st(1)] by simp_all
    have "backups_inv V p view qs ns'"
      using i(2,3) level unfolding backups_inv_def by blast
    then show ?thesis using i(1,4) by (auto simp: client_OK_def rsm_OK_def split: sum.splits)
  next
    case ahead
    then obtain q b bs where "filter (\<lambda>x. x \<noteq> myaddr n) view = b # bs" "at_hist V (qs @ [q]) (ns b)"
      using st(1) by blast
    from invoke_slaves_stuck [OF assms(1,2) this] assms(4) show ?thesis by simp
  qed
qed

lemma client_invoke_step:
  assumes "view_inv V p view qs ns"
    and "client_invoke (start_mem V) (view_env (start_mem V)) proc req (ns p) (ns, fs) = Inr (ret, r, n', ns', fs')"
  shows "(ret = client_BUSY \<and> r = None \<and> view_inv V p view qs (ns'(p := n'))) \<or>
    (ret = client_OK \<and> view_inv V p view (qs @ [(proc, req)]) (ns'(p := n')) \<and>
     (\<forall>b \<in> set view. at_hist V (qs @ [(proc, req)]) ((ns'(p := n')) b)) \<and>
     (\<exists>rep s'. run_req (start_mem V) (start_procs V) (proc, req) (rsm_app (ns p)) = Inr (rep, s') \<and> r = Some rep))"
proof -
  have i: "p \<in> set view" "vs_vid (start_last V) \<noteq> start_vid V" "at_hist V qs (ns p)" "stable_primary (start_vid V) p view (ns p)" "backups_inv V p view qs ns"
    using assms(1) by (auto simp: view_inv_def)
  have vs: "vs_vid (myvs (ns p)) = start_vid V" "\<not> inviewchange (ns p)" "primary (ns p) = p" "myaddr (ns p) = p"
    using i(3,4) by (auto simp: at_hist_def stable_primary_def)
  obtain n1 where n1: "rsm_view (start_vid V) (ns p) = (view, n1)"
    using i(4) by (cases "rsm_view (start_vid V) (ns p)") (simp add: stable_primary_def)
  note fr = rsm_view_frame [OF n1]
  have at1: "at_hist V qs n1" using i(3) fr by (simp add: at_hist_def)
  have st1: "stable_primary (start_vid V) p view n1" using i(4) fr by (simp add: stable_primary_def)
  have c: "client_invoke (start_mem V) (view_env (start_mem V)) proc req (ns p) (ns, fs) =
      rbind (invoke_slaves (view_env (start_mem V)) proc req view client_OK n1 (ns, fs)) (\<lambda>(out, n, w).
      case out of Inl ret \<Rightarrow> Inr (ret, None, n, w)
      | Inr ret \<Rightarrow> rbind (execute (start_mem V) proc req (next_vs n)) (\<lambda>(r, n). Inr (ret, Some r, n, w)))"
    using vs n1 by (simp add: client_invoke_def amiprimary_def)
  obtain out n2 w2 fs2 where s1:
      "invoke_slaves (view_env (start_mem V)) proc req view client_OK n1 (ns, fs) = Inr (out, n2, w2, fs2)"
    using assms(2) unfolding c by (auto simp: rbind_eq_Inr)
  note sl = view_slaves [OF s1 at1 st1 i(5)]
  show ?thesis
  proof (cases out)
    case (Inl e)
    then have "ret = client_BUSY" "r = None" "n' = n1" "ns' = w2" "backups_inv V p view qs w2"
      using assms(2) sl unfolding c s1 by auto
    then show ?thesis using at1 st1 i(1,2) by (simp add: view_inv_def)
  next
    case (Inr e)
    then obtain rep where e: "execute (start_mem V) proc req (next_vs n1) = Inr (rep, n')" "ret = client_OK"
        "r = Some rep" "ns' = w2" "\<forall>b \<in> set view - {p}. at_hist V (qs @ [(proc, req)]) (w2 b)"
      using assms(2) sl unfolding c s1 by (auto simp: rbind_eq_Inr)
    obtain s where n': "n' = (next_vs n1)\<lparr>rsm_app := s\<rparr>" using e(1) by (auto simp: execute_def rbind_eq_Inr)
    then have "stable_primary (start_vid V) p view n'"
      using st1 by (simp add: stable_primary_def next_vs_def myaddr_def rsm_view_def split_def)
    moreover have "\<exists>s'. run_req (start_mem V) (start_procs V) (proc, req) (rsm_app (ns p)) = Inr (rep, s')"
      using at1 e(1) fr by (auto simp: at_hist_def execute_def next_vs_def rbind_eq_Inr)
    ultimately show ?thesis using e execute_step [OF at1 e(1)] i(1,2)
      by (auto simp: view_inv_def backups_inv_def)
  qed
qed

lemma view_inv_reach: "view_reach V p view ns \<Longrightarrow> \<exists>qs. view_inv V p view qs ns"
proof (induction rule: view_reach.induct)
  case (start ns)
  then show ?case by (intro exI [of _ "[]"]) (auto simp: view_inv_def backups_inv_def)
next
  case (serve ns proc req fs ret r n' ns' fs')
  then obtain qs where "view_inv V p view qs ns" by blast
  from client_invoke_step [OF this serve(2)] show ?case by metis
qed

lemma hist_determines:
  assumes "at_hist V qs m" "at_hist V qs n"
  shows "rsm_app m = rsm_app n"
  using assms by (auto simp: at_hist_def)

lemma level_or_ahead:
  assumes "view_inv V p view qs ns"
  shows "\<exists>q. \<forall>b \<in> set view. follows V qs q (ns b)"
  using assms by (auto simp: view_inv_def backups_inv_def follows_def)

text \<open>Within a view, \<open>myvs\<close> and \<open>last_myvs\<close> each determine the state of the service.\<close>

lemma follows_determines:
  assumes "follows V qs q m" "follows V qs q n" "vs_vid (start_last V) \<noteq> start_vid V"
    and "myvs m = myvs n \<or> last_myvs m = last_myvs n"
  shows "rsm_app m = rsm_app n"
proof -
  have "\<not> (at_hist V qs x \<and> at_hist V (qs @ [q]) y)" if "myvs x = myvs y \<or> last_myvs x = last_myvs y" for x y
    using that assms(3) by (cases "qs = []") (auto simp: at_hist_def dest: arg_cong [where f = vs_vid])
  then show ?thesis using assms(1,2,4) hist_determines unfolding follows_def by metis
qed

section \<open>A service that keeps a string\<close>

text \<open>
  Method 7 appends its argument to the state and returns it. View 2 has the members n1, n2 and n3;
  n1 is the primary.
\<close>

definition note_down :: "char \<Rightarrow> string \<Rightarrow> (cint \<times> char \<times> string) result" where
  "note_down a s = Inr (0, a, s @ [a])"

definition note_procs :: "u32 \<rightharpoonup> string handler" where
  "note_procs = [7 \<mapsto> rsm_h1_fn get_char put_char note_down]"

definition note_node :: "string \<Rightarrow> string rsm" where
  "note_node me = \<lparr>rsm_procs = note_procs,
     rsm_cfg = \<lparr>cfg_acc = (acceptor_init True me me)\<lparr>acc_values := [2 \<mapsto> ''n1 n2 n3 '']\<rparr>,
       cfg_pro = proposer_new me, myvid = 2, cfg_first = ''n1'', cfg_me = me, cfg_vc = True,
       mems = [''n1'', ''n2'', ''n3'']\<rparr>,
     stf = True, myvs = \<lparr>vs_vid = 2, vs_seqno = 1\<rparr>, last_myvs = \<lparr>vs_vid = 1, vs_seqno = 1\<rparr>,
     primary = ''n1'', insync = False, inviewchange = False, vid_commit = 2, vid_insync = 2,
     backups = [], partitioned = False, dopartition = False, rsm_break1 = False, rsm_break2 = False,
     rsm_app = []\<rparr>"

definition note_start :: "string view_start" where
  "note_start = \<lparr>start_mem = (\<lambda>_. 0), start_procs = note_procs, start_app = [],
     start_last = \<lparr>vs_vid = 1, vs_seqno = 1\<rparr>, start_vid = 2\<rparr>"

text \<open>Node \<open>b\<close> gets the client request with argument \<open>a\<close>.\<close>

definition note_serve :: "string \<Rightarrow> char \<Rightarrow> delivery list \<Rightarrow> (string \<Rightarrow> string rsm) \<Rightarrow>
    cint \<times> (string \<Rightarrow> string rsm)" where
  "note_serve b a fs ns =
     (case client_invoke (\<lambda>_. 0) (view_env (\<lambda>_. 0)) 7 (chars (enc_char a)) (ns b) (ns, fs) of
        Inl _ \<Rightarrow> (client_ERR, ns)
      | Inr (ret, r, n', ns', fs') \<Rightarrow> (ret, ns'(b := n')))"

interpretation note_method: remote_method put_char get_char enc_char "\<lambda>_. True"
  put_char get_char enc_char "\<lambda>_. True"
  by unfold_locales

lemma note_run: "run_req mem note_procs (7, chars (enc_char a)) s = Inr (rsm_reply 0 (enc_char a), s @ [a])"
  by (rule note_method.run_req_exact [where meth = note_down])
    (simp_all add: note_procs_def note_down_def enc_char_def)

lemma note_members: "members ''n1 n2 n3 '' = [''n1'', ''n2'', ''n3'']"
  by code_simp

lemma note_node_simps [simp]:
  "rsm_procs (note_node me) = note_procs" "myaddr (note_node me) = me" "inviewchange (note_node me) = False"
  "myvs (note_node me) = \<lparr>vs_vid = 2, vs_seqno = 1\<rparr>" "last_myvs (note_node me) = \<lparr>vs_vid = 1, vs_seqno = 1\<rparr>"
  "rsm_app (note_node me) = []" "rsm_break1 (note_node me) = False" "dopartition (note_node me) = False"
  "primary (note_node me) = ''n1''"
  by (simp_all add: note_node_def myaddr_def)

lemma note_view [simp]:
  "acc_values (cfg_acc (rsm_cfg n)) 2 = Some ''n1 n2 n3 '' \<Longrightarrow> fst (rsm_view 2 n) = [''n1'', ''n2'', ''n3'']"
  by (simp add: rsm_view_def get_view_def get_view_wo_def acceptor_value_def value_at_def note_members split_def)

lemma note_reach: "view_reach note_start ''n1'' [''n1'', ''n2'', ''n3''] note_node"
  by (rule view_reach.start) (simp_all add: note_start_def at_hist_def stable_primary_def,
      simp add: note_node_def)

lemmas note_defs = note_serve_def client_invoke_def amiprimary_def rsm_view_def get_view_def get_view_wo_def
  acceptor_value_def value_at_def note_members view_env_def backup_invoke_def next_delivery_def rsm_invoke_def
  execute_def next_vs_def rsm_breakpoint1_def partition1_def myaddr_def note_run
  timeout_failure_def rsm_status

lemma note_serve_reach:
  assumes "view_reach note_start ''n1'' view ns" "note_serve ''n1'' a fs ns = (ret, ns')"
  shows "view_reach note_start ''n1'' view ns'"
proof (cases "client_invoke (\<lambda>_. 0) (view_env (\<lambda>_. 0)) 7 (chars (enc_char a)) (ns ''n1'') (ns, fs)")
  case (Inl e)
  then show ?thesis using assms by (simp add: note_serve_def)
next
  case (Inr x)
  then obtain r n' ns1 fs' where i: "client_invoke (\<lambda>_. 0) (view_env (\<lambda>_. 0)) 7 (chars (enc_char a)) (ns ''n1'') (ns, fs) =
      Inr (ret, r, n', ns1, fs')" "ns' = ns1(''n1'' := n')"
    using assms(2) by (cases x) (auto simp: note_serve_def)
  then show ?thesis using view_reach.serve [OF assms(1), of 7 "chars (enc_char a)" fs]
    by (simp add: note_start_def)
qed

text \<open>The primary's request is executed by both backups, but the second one's answer is lost.\<close>

definition note_lost :: "string \<Rightarrow> string rsm" where
  "note_lost = snd (note_serve ''n1'' CHR ''A'' [Delivered, Unanswered] note_node)"

lemma note_lost_reach: "view_reach note_start ''n1'' [''n1'', ''n2'', ''n3''] note_lost"
  using note_serve_reach [OF note_reach] unfolding note_lost_def by (metis prod.collapse)

lemma note_lost_simps:
  "rsm_app (note_lost ''n1'') = []" "rsm_app (note_lost ''n2'') = ''A''"
  "last_myvs (note_lost ''n1'') = \<lparr>vs_vid = 1, vs_seqno = 1\<rparr>"
  "myvs (note_lost ''n2'') = \<lparr>vs_vid = 2, vs_seqno = 2\<rparr>" "myvs (note_lost ''n3'') = \<lparr>vs_vid = 2, vs_seqno = 2\<rparr>"
  "stf (note_lost me)"
  unfolding note_lost_def by (simp_all add: note_defs note_node_def)

section \<open>Properties\<close>

text \<open>
  C2. Replicas agree. Let the members of a view start in the same state and let only its primary
  serve clients, with a network that loses calls and replies at will. Then there is one sequence of
  requests such that the primary has executed exactly this sequence and each member this sequence
  or this sequence and one request more, the same one for all that are ahead. Hence two members with
  the same viewstamp, or the same last viewstamp, have the same state of the service.
\<close>

theorem replicas_agree:
  assumes "view_reach V p view ns"
  shows "(\<exists>qs q. at_hist V qs (ns p) \<and> (\<forall>b \<in> set view. at_hist V qs (ns b) \<or> at_hist V (qs @ [q]) (ns b))) \<and>
    (\<forall>b \<in> set view. \<forall>c \<in> set view. myvs (ns b) = myvs (ns c) \<or> last_myvs (ns b) = last_myvs (ns c) \<longrightarrow>
      rsm_app (ns b) = rsm_app (ns c))"
proof -
  obtain qs where i: "view_inv V p view qs ns" using view_inv_reach [OF assms] by blast
  obtain q where q: "\<forall>b \<in> set view. follows V qs q (ns b)" using level_or_ahead [OF i] by blast
  have "at_hist V qs (ns p)" "vs_vid (start_last V) \<noteq> start_vid V" using i by (auto simp: view_inv_def)
  then show ?thesis using q follows_determines by (metis follows_def)
qed

text \<open>The lost answer: n2 and n3 are one request ahead of n1, and agree.\<close>

theorem replicas_agree_witness:
  "view_reach note_start ''n1'' [''n1'', ''n2'', ''n3''] note_lost \<and> rsm_app (note_lost ''n1'') = [] \<and>
    rsm_app (note_lost ''n2'') = ''A'' \<and> rsm_app (note_lost ''n3'') = ''A''"
proof -
  have "rsm_app (note_lost ''n2'') = rsm_app (note_lost ''n3'')"
    by (rule conjunct2 [OF replicas_agree [OF note_lost_reach], rule_format]) (simp_all add: note_lost_simps)
  then show ?thesis using note_lost_reach note_lost_simps by simp
qed

text \<open>
  C14. State transfer. At a view change a node \<open>n\<close> synchronizes with the new primary \<open>m\<close>; both were
  members of the last view, and since then neither has executed a request. If the service's
  \<open>unmarshal_state\<close> reads back what its \<open>marshal_state\<close> wrote, then the answer to \<open>transferreq\<close>
  makes the node's service and last viewstamp those of the primary, whether the state is sent or
  is left out because the viewstamps agree.
\<close>

theorem state_transfer_exact:
  assumes "view_reach V p view ns" "b \<in> set view" "c \<in> set view"
    and "rsm_app n = rsm_app (ns b)" "last_myvs n = last_myvs (ns b)" "stf n"
    and "rsm_app m = rsm_app (ns c)" "last_myvs m = last_myvs (ns c)" "stf m"
    and "\<And>s t. unmarshal_state (marshal_state s) t = s"
    and "transferreq marshal_state (last_myvs n) vid r0 m = (rsm_OK, r)"
    and "statetransfer unmarshal_state (Some (rsm_OK, r)) n = (ok, n')"
  shows "ok \<and> rsm_app n' = rsm_app m \<and> last_myvs n' = last_myvs m"
proof -
  obtain qs where i: "view_inv V p view qs ns" using view_inv_reach [OF assms(1)] by blast
  obtain q where q: "\<forall>b \<in> set view. follows V qs q (ns b)" using level_or_ahead [OF i] by blast
  have same: "last_myvs n = last_myvs m \<Longrightarrow> rsm_app n = rsm_app m"
    using follows_determines [of V qs q "ns b" "ns c"] q assms(2-8) i by (auto simp: view_inv_def)
  have "insync m" "vid = vid_insync m"
    using assms(11) by (auto simp: transferreq_def rsm_status split: if_splits)
  then have r: "tr_last r = last_myvs m" "last_myvs n \<noteq> last_myvs m \<Longrightarrow> tr_state r = marshal_state (rsm_app m)"
    using assms(9,11) by (auto simp: transferreq_def vs_ne_iff split: if_splits)
  show ?thesis
  proof (cases "last_myvs n = last_myvs m")
    case True
    then show ?thesis using assms(12) r(1) same [OF True] by (auto simp: statetransfer_def vs_ne_iff)
  next
    case False
    then show ?thesis using assms(6,10,12) r(1) r(2) [OF False] by (auto simp: statetransfer_def vs_ne_iff)
  qed
qed

text \<open>n2, which is ahead, synchronizes with n1, the primary of view 3, and drops the request.\<close>

theorem state_transfer_exact_witness:
  "let m = (note_lost ''n1'')\<lparr>insync := True, vid_insync := 3\<rparr>; n = note_lost ''n2'';
       (ret, r) = transferreq (\<lambda>s. s) (last_myvs n) 3 \<lparr>tr_state = [], tr_last = \<lparr>vs_vid = 0, vs_seqno = 0\<rparr>\<rparr> m;
       (ok, n') = statetransfer (\<lambda>x _. x) (Some (ret, r)) n
   in ok \<and> rsm_app n = ''A'' \<and> rsm_app n' = [] \<and> last_myvs n' = \<lparr>vs_vid = 1, vs_seqno = 1\<rparr>"
proof -
  let ?m = "(note_lost ''n1'')\<lparr>insync := True, vid_insync := 3\<rparr>" and ?n = "note_lost ''n2''"
  let ?r0 = "\<lparr>tr_state = [], tr_last = \<lparr>vs_vid = 0, vs_seqno = 0\<rparr>\<rparr>"
  obtain ret r where t: "transferreq (\<lambda>s. s) (last_myvs ?n) 3 ?r0 ?m = (ret, r)" by fastforce
  then have ret: "ret = rsm_OK" by (auto simp: transferreq_def)
  obtain ok n' where s: "statetransfer (\<lambda>x _. x) (Some (rsm_OK, r)) ?n = (ok, n')" by fastforce
  have "ok \<and> rsm_app n' = rsm_app ?m \<and> last_myvs n' = last_myvs ?m"
    by (rule state_transfer_exact [OF note_lost_reach, of "''n2''" "''n1''" _ _ "\<lambda>x _. x" "\<lambda>s. s" 3 ?r0 r])
      (use t s ret note_lost_simps in simp_all)
  then show ?thesis using t s ret note_lost_simps by simp
qed

text \<open>
  C35. A node that is not the primary serves clients. \<open>client_invoke\<close> sets its return code to
  NOTPRIMARY and goes on. Let the primary \<open>p\<close> of a view and a backup \<open>c\<close> have executed the requests
  \<open>qs\<close>, and let the next member \<open>a\<close> have executed one request more, because the call to a later
  backup was lost. If \<open>c\<close> gets a client request and its call reaches \<open>p\<close>, then \<open>p\<close> executes it under
  the viewstamp under which \<open>a\<close> executed the other one. Now \<open>p\<close> and \<open>a\<close> have equal viewstamps, and
  the states of two different histories; and as the viewstamps are equal, the state transfer of the
  next view leaves the state of \<open>a\<close> as it is.
\<close>

theorem backup_serves_diverges:
  assumes "at_hist V qs (ns p)" "at_hist V (qs @ [q]) (ns a)" "at_hist V qs (ns c)" "distinct [p, a, c]"
    and "primary (ns c) = p" "myaddr (ns c) = c" "fst (rsm_view (start_vid V) (ns c)) = p # a # rest"
    and "\<not> rsm_break1 (ns p)" "\<not> rsm_break1 (ns c)" "\<not> dopartition (ns c)"
    and "run_req (start_mem V) (start_procs V) (proc, req) (rsm_app (ns p)) = Inr (r, s)"
  shows "\<not> amiprimary (ns c) \<and>
    (\<exists>n' ns' fs'. client_invoke (start_mem V) (view_env (start_mem V)) proc req (ns c) (ns, Delivered # fs) =
        Inr (client_BUSY, None, n', ns', fs') \<and>
      at_hist V (qs @ [(proc, req)]) (ns' p) \<and> rsm_app (ns' p) = s \<and> ns' a = ns a \<and>
      myvs (ns' p) = myvs (ns' a) \<and> last_myvs (ns' p) = last_myvs (ns' a) \<and>
      (\<forall>marshal_state unmarshal_state vid r0. rsm_app (snd (statetransfer unmarshal_state
         (Some (transferreq marshal_state (last_myvs (ns' a)) vid r0
           ((ns' p)\<lparr>insync := True, vid_insync := vid\<rparr>))) (ns' a))) = rsm_app (ns a)))"
proof -
  obtain n1 where n1: "rsm_view (start_vid V) (ns c) = (p # a # rest, n1)"
    using assms(7) by (metis prod.collapse)
  have f: "myaddr n1 = c" "myvs n1 = hist_vs V qs" "\<not> rsm_break1 n1" "\<not> dopartition n1"
    using rsm_view_frame [OF n1] assms(3,6,9,10) by (auto simp: at_hist_def)
  obtain m where m: "rsm_invoke (start_mem V) proc (hist_vs V qs) req (ns p) = Inr (rsm_OK, m)"
    "at_hist V (qs @ [(proc, req)]) m" "rsm_app m = s"
    using invoke_runs [OF assms(1,8,11)] by blast
  obtain e ns2 fs2 where b: "backup_invoke (start_mem V) a proc (hist_vs V qs) req (ns(p := m), fs) = (e, ns2, fs2)"
    using prod_cases3 by blast
  then have ns2: "ns2 = ns(p := m)" and e: "\<exists>x. e = Some x \<and> x \<noteq> rsm_OK"
    using backup_ahead [OF b, of q] assms(2,4) by auto
  have "client_invoke (start_mem V) (view_env (start_mem V)) proc req (ns c) (ns, Delivered # fs) =
      Inr (client_BUSY, None, n1, ns2, fs2)"
    using n1 f m(1) b e assms(3,4)
    by (auto simp: client_invoke_def view_env_def at_hist_def backup_invoke_def [of _ p] next_delivery_def
        rsm_breakpoint1_def partition1_def)
  moreover have "\<not> amiprimary (ns c)" using assms(4-6) by (auto simp: amiprimary_def)
  moreover have "myvs m = myvs (ns a)" "last_myvs m = last_myvs (ns a)"
    using m(2) assms(2) by (auto simp: at_hist_def)
  ultimately show ?thesis using ns2 m(2,3) assms(4)
    by (auto simp: transferreq_def statetransfer_def vs_ne_iff)
qed

text \<open>
  Request A reaches n2 and not n3; then the backup n3 gets request B: n1 has executed B and n2 has
  executed A, under the same viewstamp.
\<close>

theorem backup_serves_diverges_witness:
  "let ns1 = snd (note_serve ''n1'' CHR ''A'' [Delivered, Dropped] note_node);
       ns2 = snd (note_serve ''n3'' CHR ''B'' [Delivered, Delivered] ns1)
   in view_reach note_start ''n1'' [''n1'', ''n2'', ''n3''] ns1 \<and> myvs (ns2 ''n1'') = myvs (ns2 ''n2'') \<and>
      rsm_app (ns2 ''n1'') = ''B'' \<and> rsm_app (ns2 ''n2'') = ''A''"
proof -
  let ?ns1 = "snd (note_serve ''n1'' CHR ''A'' [Delivered, Dropped] note_node)"
  let ?q = "(7, chars (enc_char CHR ''A''))"
  have "view_reach note_start ''n1'' [''n1'', ''n2'', ''n3''] ?ns1"
    using note_serve_reach [OF note_reach] by (metis prod.collapse)
  moreover have "at_hist note_start [] (?ns1 ''n1'')" "at_hist note_start ([] @ [?q]) (?ns1 ''n2'')"
    "at_hist note_start [] (?ns1 ''n3'')" "primary (?ns1 ''n3'') = ''n1''" "myaddr (?ns1 ''n3'') = ''n3''"
    "fst (rsm_view (start_vid note_start) (?ns1 ''n3'')) = ''n1'' # ''n2'' # [''n3'']"
    "\<not> rsm_break1 (?ns1 ''n1'')" "\<not> rsm_break1 (?ns1 ''n3'')" "\<not> dopartition (?ns1 ''n3'')"
    "run_req (start_mem note_start) (start_procs note_start) (7, chars (enc_char CHR ''B''))
      (rsm_app (?ns1 ''n1'')) = Inr (rsm_reply 0 (enc_char CHR ''B''), ''B'')"
    by (simp_all add: note_defs note_node_def note_start_def at_hist_def)
  note d = backup_serves_diverges [OF this(1-3) _ this(4-10), of "[Delivered]"]
  have "rsm_app (?ns1 ''n2'') = ''A''" by (simp add: note_defs note_node_def)
  ultimately show ?thesis using d by (auto simp: note_serve_def [of "''n3''"] note_start_def Let_def)
qed

end
