(* ===== verification/Rsm_Service.thy ===== *)
theory Rsm_Service
  imports Rsm_Safety
begin

text \<open>
  The replicated service as its clients see it: \<open>rsm_client\<close> calls the primary of a view, the primary
  replicates the request, and the client decodes the reply.
\<close>

section \<open>Clients and replicas\<close>

text \<open>
  The RPCs of a client reach the node they are sent to, and their replies come back; \<open>lossy_env\<close> below
  drops this. A node that stops in the call gives no answer; the client has no connection to it.
\<close>

definition replica_env :: "(nat \<Rightarrow> byte) \<Rightarrow> 's world rsm_client_env" where
  "replica_env mem = \<lparr>
     call_primary = (\<lambda>b proc req (ns, fs).
       case client_invoke mem (view_env mem) proc req (ns b) (ns, fs) of
         Inl _ \<Rightarrow> (None, ns, fs)
       | Inr (ret, r, n', ns', fs') \<Rightarrow> (Some (ret, r), ns'(b := n'), fs')),
     call_members = (\<lambda>b (ns, fs).
       case client_members (ns b) of (ret, m, n) \<Rightarrow> (Some (ret, m), ns(b := n), fs))\<rparr>"

section \<open>The primary always answers\<close>

lemma invoke_slaves_returns:
  assumes "\<not> rsm_break1 n" "\<not> dopartition n"
  shows "\<exists>out w'. invoke_slaves env proc req slaves ret n w = Inr (out, n, w')"
  using assms
proof (induction slaves arbitrary: ret w)
  case (Cons b slaves)
  obtain r w1 where "call_invoke env b proc (myvs n) req w = (r, w1)" by fastforce
  then show ?case using Cons by (auto simp: rsm_breakpoint1_def partition1_def split: option.splits)
qed simp

lemma client_invoke_returns:
  assumes "view_inv V p view qs ns"
    and "run_req (start_mem V) (start_procs V) (proc, req) (rsm_app (ns p)) = Inr (rep, s')"
  shows "\<exists>x. client_invoke (start_mem V) (view_env (start_mem V)) proc req (ns p) (ns, fs) = Inr x"
proof -
  obtain slaves n1 where n1: "rsm_view (vs_vid (myvs (ns p))) (ns p) = (slaves, n1)" by fastforce
  note fr = rsm_view_frame [OF n1]
  have i: "\<not> rsm_break1 n1" "\<not> dopartition n1" "rsm_procs n1 = start_procs V" "rsm_app n1 = rsm_app (ns p)"
    using assms(1) fr by (auto simp: view_inv_def stable_primary_def at_hist_def)
  let ?ret = "if \<not> amiprimary (ns p) then client_NOTPRIMARY else if inviewchange (ns p) then client_BUSY else client_OK"
  obtain out w' where "invoke_slaves (view_env (start_mem V)) proc req slaves ?ret n1 (ns, fs) = Inr (out, n1, w')"
    using invoke_slaves_returns [OF i(1,2), of "view_env (start_mem V)" proc req slaves ?ret "(ns, fs)"] by blast
  then show ?thesis using n1 i(3,4) assms(2)
    by (cases out) (simp_all add: client_invoke_def Let_def execute_def next_vs_def)
qed

section \<open>The client's loop\<close>

lemma service_invoke:
  assumes "view_inv V p view qs ns" "rc_primary c = p"
    and "run_req (start_mem V) (start_procs V) (proc, req) (rsm_app (ns p)) = Inr (rep, s')"
    and "rsm_client_invoke (replica_env (start_mem V)) rounds proc req rep0 c (ns, fs) =
      Inr (Some ((ret, rep1), c', ns', fs'))"
  shows "ret = client_OK \<and> rep1 = rep \<and> c' = c \<and> view_inv V p view (qs @ [(proc, req)]) ns' \<and>
    (\<forall>b \<in> set view. rsm_app (ns' b) = s')"
  using assms
proof (induction rounds arbitrary: rep0 ns fs)
  case (Suc rounds)
  obtain e r n' ns1 fs1 where i: "client_invoke (start_mem V) (view_env (start_mem V)) proc req (ns p) (ns, fs) =
      Inr (e, r, n', ns1, fs1)"
    using client_invoke_returns [OF Suc.prems(1,3)] by (metis prod_cases5)
  have c: "call_primary (replica_env (start_mem V)) (rc_primary c) proc req (ns, fs) =
      (Some (e, r), ns1(p := n'), fs1)"
    using i Suc.prems(2) by (simp add: replica_env_def)
  have ne: "client_BUSY \<noteq> client_OK" by (simp add: rsm_status)
  from client_invoke_step [OF Suc.prems(1) i] consider
      (busy) "e = client_BUSY" "r = None" "view_inv V p view qs (ns1(p := n'))"
    | (ok) "e = client_OK" "view_inv V p view (qs @ [(proc, req)]) (ns1(p := n'))"
        "\<forall>b \<in> set view. at_hist V (qs @ [(proc, req)]) ((ns1(p := n')) b)" "r = Some rep"
    using Suc.prems(3) by fastforce
  then show ?case
  proof cases
    case busy
    have "rsm_app ((ns1(p := n')) p) = rsm_app (ns p)"
      using busy(3) Suc.prems(1) by (auto simp: view_inv_def dest: hist_determines)
    then have run: "run_req (start_mem V) (start_procs V) (proc, req) (rsm_app ((ns1(p := n')) p)) = Inr (rep, s')"
      using Suc.prems(3) by (simp only:)
    have "rsm_client_invoke (replica_env (start_mem V)) rounds proc req rep0 c (ns1(p := n'), fs1) =
        Inr (Some ((ret, rep1), c', ns', fs'))"
      using Suc.prems(4) c busy(1,2) ne by simp
    then show ?thesis by (rule Suc.IH [OF busy(3) Suc.prems(2) run])
  next
    case ok
    have "ret = client_OK" "rep1 = rep" "c' = c" "ns' = ns1(p := n')" using Suc.prems(4) c ok(1,4) by auto
    moreover have "at_hist V qs (ns p)" using Suc.prems(1) by (simp add: view_inv_def)
    then have "run_reqs (start_mem V) (start_procs V) (qs @ [(proc, req)]) (start_app V) = Inr s'"
      using Suc.prems(3) by (simp add: at_hist_def run_reqs_snoc)
    ultimately show ?thesis using ok(2,3) by (simp add: at_hist_def del: fun_upd_apply)
  qed
qed simp

text \<open>When no backup is ahead and every call is delivered, one round is enough.\<close>

lemma backup_invoke_delivered:
  assumes "at_hist V qs (ns b)" "\<not> rsm_break1 (ns b)" "fs = Delivered # fs'"
    and "run_req (start_mem V) (start_procs V) (proc, req) (rsm_app (ns b)) = Inr (rep, s')"
  shows "\<exists>n'. backup_invoke (start_mem V) b proc (hist_vs V qs) req (ns, fs) = (Some rsm_OK, ns(b := n'), fs')"
  using assms by (auto simp: backup_invoke_def next_delivery_def rsm_invoke_def at_hist_def execute_def
      next_vs_def rsm_breakpoint1_def)

lemma invoke_slaves_delivered:
  assumes "at_hist V qs n" "\<not> rsm_break1 n" "\<not> dopartition n" "distinct slaves"
    and "\<forall>b \<in> set slaves. at_hist V qs (ns b) \<and> \<not> rsm_break1 (ns b)"
    and "run_req (start_mem V) (start_procs V) (proc, req) (rsm_app n) = Inr (rep, s')"
    and "length slaves \<le> k"
  shows "\<exists>e w. invoke_slaves (view_env (start_mem V)) proc req slaves ret n (ns, replicate k Delivered) = Inr (Inr e, n, w)"
  using assms(4,5,7)
proof (induction slaves arbitrary: ret ns k)
  case (Cons b slaves)
  show ?case
  proof (cases "b = myaddr n")
    case False
    obtain k' where k: "k = Suc k'" using Cons.prems(3) by (cases k) auto
    have vs: "myvs n = hist_vs V qs" using assms(1) by (simp add: at_hist_def)
    have "rsm_app (ns b) = rsm_app n" using hist_determines assms(1) Cons.prems(2) by (meson list.set_intros(1))
    then obtain n' where b: "backup_invoke (start_mem V) b proc (hist_vs V qs) req (ns, replicate k Delivered) =
        (Some rsm_OK, ns(b := n'), replicate k' Delivered)"
      using backup_invoke_delivered [of V qs ns b] Cons.prems(2) assms(6) k by fastforce
    have "\<exists>e w. invoke_slaves (view_env (start_mem V)) proc req slaves rsm_OK n (ns(b := n'), replicate k' Delivered) =
        Inr (Inr e, n, w)"
      using Cons.prems k by (intro Cons.IH) auto
    then show ?thesis using b vs False assms(2,3)
      by (simp add: view_env_def rsm_breakpoint1_def partition1_def)
  qed (use Cons in simp)
qed simp

lemma service_progress:
  assumes "view_inv V p view qs ns" "rc_primary c = p" "distinct view"
    and "run_req (start_mem V) (start_procs V) (proc, req) (rsm_app (ns p)) = Inr (rep, s')"
    and "\<forall>b \<in> set view. myvs (ns b) = myvs (ns p) \<and> \<not> rsm_break1 (ns b)"
    and "length view \<le> k"
  shows "\<exists>x. rsm_client_invoke (replica_env (start_mem V)) (Suc rounds) proc req rep0 c (ns, replicate k Delivered) =
    Inr (Some x)"
proof -
  have i: "at_hist V qs (ns p)" "stable_primary (start_vid V) p view (ns p)"
    using assms(1) by (auto simp: view_inv_def)
  obtain q where q: "\<forall>b \<in> set view. follows V qs q (ns b)" using level_or_ahead [OF assms(1)] by blast
  have level: "at_hist V qs (ns b)" if "b \<in> set view" for b
  proof -
    have "myvs (ns b) = myvs (ns p)" using assms(5) that by blast
    then have "\<not> at_hist V (qs @ [q]) (ns b)" using i(1) by (auto simp: at_hist_def)
    then show ?thesis using q that by (auto simp: follows_def)
  qed
  obtain n1 where n1: "rsm_view (vs_vid (myvs (ns p))) (ns p) = (view, n1)"
    using i by (cases "rsm_view (start_vid V) (ns p)") (simp add: stable_primary_def at_hist_def)
  note fr = rsm_view_frame [OF n1]
  have at1: "at_hist V qs n1" "\<not> rsm_break1 n1" "\<not> dopartition n1" "rsm_app n1 = rsm_app (ns p)"
    using i fr by (auto simp: at_hist_def stable_primary_def)
  let ?ret = "if \<not> amiprimary (ns p) then client_NOTPRIMARY else if inviewchange (ns p) then client_BUSY else client_OK"
  obtain e ns1 fs1 where "invoke_slaves (view_env (start_mem V)) proc req view ?ret n1 (ns, replicate k Delivered) =
      Inr (Inr e, n1, ns1, fs1)"
    using invoke_slaves_delivered [OF at1(1-3) assms(3), where ns = ns and proc = proc and req = req and rep = rep
        and s' = s' and k = k and ret = ?ret] level assms(4-6) at1(4)
    by fastforce
  moreover have "rsm_procs n1 = start_procs V" using at1(1) by (simp add: at_hist_def)
  ultimately obtain r n' where c: "client_invoke (start_mem V) (view_env (start_mem V)) proc req (ns p)
      (ns, replicate k Delivered) = Inr (e, Some r, n', ns1, fs1)"
    using n1 assms(4) at1(4) by (simp add: client_invoke_def Let_def execute_def next_vs_def)
  have "e = client_OK" using client_invoke_step [OF assms(1) c] by auto
  then show ?thesis using c assms(2) by (simp add: replica_env_def)
qed

section \<open>A client that loses a reply\<close>

text \<open>
  The environment above with a client whose own RPCs may be lost; a lost call returns
  \<open>timeout_failure\<close> after its five seconds.
\<close>

definition lossy_env :: "(nat \<Rightarrow> byte) \<Rightarrow> (delivery list \<times> 's world) rsm_client_env" where
  "lossy_env mem = \<lparr>
     call_primary = (\<lambda>b proc req (cs, w).
       case next_delivery cs of (f, cs) \<Rightarrow>
       if f = Dropped then (Some (timeout_failure, None), cs, w)
       else
         case call_primary (replica_env mem) b proc req w of (r, w) \<Rightarrow>
         (if f = Delivered then r else Some (timeout_failure, None), cs, w)),
     call_members = (\<lambda>b (cs, w). case call_members (replica_env mem) b w of (r, w) \<Rightarrow> (r, cs, w))\<rparr>"

text \<open>
  \<open>rsm_client::invoke\<close> takes a time-out for a failure of the primary and sends the request to the
  next member; nothing tells the replicas that they have executed it already. If only the reply is
  lost, the request is executed twice: the client appends A once and the state is AA.
\<close>

lemma lost_reply_executed_twice:
  "\<exists>c ns fs. rsm_client_invoke (lossy_env (\<lambda>_. 0)) (Suc (Suc 0)) 7 (chars (enc_char CHR ''A'')) []
      \<lparr>rc_primary = ''n1'', known_mems = [''n3'', ''n2'']\<rparr>
      ([Unanswered, Delivered], note_node, [Delivered, Delivered, Delivered, Delivered]) =
    Inr (Some ((client_OK, rsm_reply 0 (enc_char CHR ''A'')), c, [], ns, fs)) \<and>
    (\<forall>m \<in> {''n1'', ''n2'', ''n3''}. rsm_app (ns m) = ''AA'')"
  by (simp add: lossy_env_def replica_env_def primary_failure_def note_defs note_node_def)

section \<open>Properties\<close>

text \<open>
  C3. A call to the replicated service is a call. In a reachable state of a view, let a client that
  knows the primary call a method with arguments \<open>a\<close>; let \<open>b\<close>, \<open>r\<close> and \<open>s'\<close> be the code, the
  result and the new state that the method gives on the primary's state, with \<open>b\<close> not negative. The
  RPC between the client and the primary is not lost and does not time out (lemma
  \<open>lost_reply_executed_twice\<close> shows what happens otherwise); the calls between the replicas may be.
  Whatever calls between the replicas get lost and however often the client is told BUSY and tries
  again: if the call returns, it returns exactly \<open>b\<close> and \<open>r\<close>, and every member of the view has the
  state \<open>s'\<close>, so the request was executed once on each. And it does return, in the first round, if
  all members are level and no call between them is lost.
\<close>

theorem replicated_call_exact:
  assumes "remote_method puta geta enca valida putr getr encr validr"
    and "valida a" "validr r" "24 + length (enca a) < 2 ^ 32" "32 + length (encr r) < 2 ^ 32"
    and "view_reach V p view ns" "rc_primary c = p"
    and "start_procs V proc = Some (rsm_h1_fn geta putr meth)"
    and "meth a (rsm_app (ns p)) = Inr (b, r, s')" "0 \<le> sint b"
  shows "(\<forall>rounds fs out c' ns' fs'.
      rsm_call_1 puta getr mem (replica_env (start_mem V)) rounds proc a c (ns, fs) = Inr (Some (out, c', ns', fs')) \<longrightarrow>
      out = (b, Some r) \<and> c' = c \<and> (\<forall>m \<in> set view. rsm_app (ns' m) = s')) \<and>
    (\<forall>rounds k. distinct view \<and> (\<forall>m \<in> set view. myvs (ns m) = myvs (ns p) \<and> \<not> rsm_break1 (ns m)) \<and>
        length view \<le> k \<longrightarrow>
      (\<exists>ns' fs'. rsm_call_1 puta getr mem (replica_env (start_mem V)) (Suc rounds) proc a c (ns, replicate k Delivered) =
         Inr (Some ((b, Some r), c, ns', fs'))))"
proof -
  let ?inv = "\<lambda>rounds. rsm_client_invoke (replica_env (start_mem V)) rounds proc (chars (enca a)) [] c"
  let ?call = "\<lambda>rounds. rsm_call_1 puta getr mem (replica_env (start_mem V)) rounds proc a c"
  obtain qs where i: "view_inv V p view qs ns" using view_inv_reach [OF assms(6)] by blast
  have run: "run_req (start_mem V) (start_procs V) (proc, chars (enca a)) (rsm_app (ns p)) =
      Inr (rsm_reply b (encr r), s')"
    using assms(1-5,8,9) by (rule remote_method.run_req_exact [where meth = meth and a = a and ps = "start_procs V"])
  have exact: "?inv rounds (ns, fs) = Inr (Some ((ret, rep), c', ns', fs')) \<Longrightarrow>
      ?call rounds (ns, fs) = Inr (Some ((b, Some r), c, ns', fs')) \<and> (\<forall>m \<in> set view. rsm_app (ns' m) = s')"
    for rounds fs ret rep c' ns' fs'
  proof -
    assume inv: "?inv rounds (ns, fs) = Inr (Some ((ret, rep), c', ns', fs'))"
    note s = service_invoke [OF i assms(7) run inv]
    have "?inv rounds (ns, fs) = Inr (Some ((client_OK, rsm_reply b (encr r)), c, ns', fs'))"
      using inv s by simp
    from remote_method.call_exact [OF assms(1,2,3,5,10) this] s show ?thesis by simp
  qed
  have none: "?call rounds (ns, fs) = Inr (Some y) \<Longrightarrow> \<exists>x. ?inv rounds (ns, fs) = Inr (Some x)" for rounds fs y
    by (rule remote_method.call_request [OF assms(1,2)])
  show ?thesis
  proof ((rule conjI; intro allI impI), goal_cases)
    case (1 rounds fs out c' ns' fs')
    obtain ret rep c1 ns1 fs1 where "?inv rounds (ns, fs) = Inr (Some ((ret, rep), c1, ns1, fs1))"
      using none [OF 1] by fastforce
    from exact [OF this] 1 show ?case by simp
  next
    case (2 rounds k)
    then obtain ret rep c1 ns1 fs1
      where "?inv (Suc rounds) (ns, replicate k Delivered) = Inr (Some ((ret, rep), c1, ns1, fs1))"
      using service_progress [OF i assms(7) _ run, where rounds = rounds and k = k and ?rep0.0 = "[]"] by fastforce
    from exact [OF this] show ?case by blast
  qed
qed

text \<open>
  In the view of n1, n2 and n3, a client that knows n1 appends A: one round, all members have A.
\<close>

theorem replicated_call_exact_witness:
  "\<exists>ns' fs'. rsm_call_1 put_char get_char (\<lambda>_. 0) (replica_env (\<lambda>_. 0)) 1 7 CHR ''A''
      \<lparr>rc_primary = ''n1'', known_mems = []\<rparr> (note_node, [Delivered, Delivered, Delivered]) =
      Inr (Some ((0, Some CHR ''A''), \<lparr>rc_primary = ''n1'', known_mems = []\<rparr>, ns', fs')) \<and>
    (\<forall>m \<in> {''n1'', ''n2'', ''n3''}. rsm_app (ns' m) = ''A'')"
proof -
  let ?c = "\<lparr>rc_primary = ''n1'', known_mems = []\<rparr>"
  note t = replicated_call_exact [where mem = "\<lambda>_. 0" and c = ?c and meth = note_down and a = "CHR ''A''" and b = 0
      and r = "CHR ''A''" and s' = "''A''" and proc = 7, OF note_method.remote_method_axioms _ _ _ _ note_reach]
  have a: "start_procs note_start 7 = Some (rsm_h1_fn get_char put_char note_down)"
      "note_down (CHR ''A'') (rsm_app (note_node ''n1'')) = Inr (0, CHR ''A'', ''A'')" "rc_primary ?c = ''n1''"
    by (simp_all add: note_start_def note_procs_def note_down_def)
  have m: "start_mem note_start = (\<lambda>_. 0)" by (simp add: note_start_def)
  have l: "[Delivered, Delivered, Delivered] = replicate 3 Delivered" by (simp add: numeral_eq_Suc)
  obtain ns' fs' where x: "rsm_call_1 put_char get_char (\<lambda>_. 0) (replica_env (\<lambda>_. 0)) (Suc 0) 7 CHR ''A'' ?c
      (note_node, replicate 3 Delivered) = Inr (Some ((0, Some CHR ''A''), ?c, ns', fs'))"
    using conjunct2 [OF t [OF _ _ _ _ a(3,1,2)], rule_format, of 3 0] m by (auto simp: enc_char_def)
  have "\<forall>m \<in> set [''n1'', ''n2'', ''n3'']. rsm_app (ns' m) = ''A''"
    using conjunct1 [OF t [OF _ _ _ _ a(3,1,2)], rule_format, of "Suc 0" "replicate 3 Delivered"] x m
    by (auto simp: enc_char_def)
  then show ?thesis using x unfolding l One_nat_def by auto
qed

end
