(* ===== verification/Extent_Cache.thy ===== *)
theory Extent_Cache
  imports Prelude
begin

text \<open>
  Extents at the client: src/extent_client/extent_client.cc, which asks the extent server for
  everything, and src/extent_client/extent_client_cache.cc, which keeps extents until \<open>flush\<close>.
  The server and its protocol are outside: the status codes are a record \<open>extent_protocol\<close>, the
  RPCs a record of functions on a world \<open>'w\<close>, extent ids a type \<open>'e\<close> and the numbers of an
  \<open>attr\<close> a type \<open>'n\<close>.

  The cache releases its mutex around an RPC. Its callers hold the lock of the extent (as the
  comment in extent_client.cc demands), so nothing else touches the entry meanwhile, and an operation
  on an extent is one step.

  The results are about contents and sizes. The times in the attributes are in the model, but \<open>get\<close> sets
  them to its own time in the cached copy, and no result compares them with those of the server.
\<close>

section \<open>The server's interface\<close>

record extent_protocol =
  ext_OK :: cint
  ext_NOENT :: cint

record 'n attr =
  atime :: 'n
  mtime :: 'n
  ctime :: 'n
  attr_size :: 'n

text \<open>Return code, and the result if the call has set it.\<close>

record ('e, 'n, 'w) extent_rpc =
  call_get :: "'e \<Rightarrow> 'w \<Rightarrow> (cint \<times> string option) \<times> 'w"
  call_getattr :: "'e \<Rightarrow> 'w \<Rightarrow> (cint \<times> 'n attr option) \<times> 'w"
  call_put :: "'e \<Rightarrow> string \<Rightarrow> 'w \<Rightarrow> cint \<times> 'w"
  call_remove :: "'e \<Rightarrow> 'w \<Rightarrow> cint \<times> 'w"

section \<open>The client without a cache\<close>

definition extent_get :: "('e, 'n, 'w) extent_rpc \<Rightarrow> 'e \<Rightarrow> string \<Rightarrow> 'w \<Rightarrow> (cint \<times> string) \<times> 'w" where
  "extent_get rpc eid buf w =
     (case call_get rpc eid w of ((ret, b), w) \<Rightarrow>
      ((ret, case b of None \<Rightarrow> buf | Some b \<Rightarrow> b), w))"

definition extent_getattr :: "('e, 'n, 'w) extent_rpc \<Rightarrow> 'e \<Rightarrow> 'n attr \<Rightarrow> 'w \<Rightarrow> (cint \<times> 'n attr) \<times> 'w" where
  "extent_getattr rpc eid a w =
     (case call_getattr rpc eid w of ((ret, a'), w) \<Rightarrow>
      ((ret, case a' of None \<Rightarrow> a | Some a \<Rightarrow> a), w))"

definition extent_put :: "('e, 'n, 'w) extent_rpc \<Rightarrow> 'e \<Rightarrow> string \<Rightarrow> 'w \<Rightarrow> cint \<times> 'w" where
  "extent_put rpc eid buf w = call_put rpc eid buf w"

definition extent_remove :: "('e, 'n, 'w) extent_rpc \<Rightarrow> 'e \<Rightarrow> 'w \<Rightarrow> cint \<times> 'w" where
  "extent_remove rpc eid w = call_remove rpc eid w"

section \<open>The cache\<close>

datatype ExtentState = DIRTY | REMOVE | NONE | CONSISTENT

record 'n eid_content =
  ec_buf :: string
  ec_attr :: "'n attr"
  ec_state :: ExtentState

type_synonym ('e, 'n) extent_cache = "'e \<rightharpoonup> 'n eid_content"

text \<open>\<open>extent_cache_[eid]\<close> makes an entry of zeros, with state \<open>DIRTY\<close>, where there is none.\<close>

definition ec_blank :: "'n::zero eid_content" where
  "ec_blank = \<lparr>ec_buf = [], ec_attr = \<lparr>atime = 0, mtime = 0, ctime = 0, attr_size = 0\<rparr>, ec_state = DIRTY\<rparr>"

definition ec_entry :: "'e \<Rightarrow> ('e, 'n::zero) extent_cache \<Rightarrow> 'n eid_content" where
  "ec_entry eid c = (case c eid of None \<Rightarrow> ec_blank | Some x \<Rightarrow> x)"

definition fresh_attr :: "'n \<Rightarrow> string \<Rightarrow> 'n::semiring_1 attr" where
  "fresh_attr now buf = \<lparr>atime = now, mtime = now, ctime = now, attr_size = of_nat (length buf)\<rparr>"

definition cache_put :: "extent_protocol \<Rightarrow> 'n \<Rightarrow> 'e \<Rightarrow> string \<Rightarrow> ('e, 'n::semiring_1) extent_cache \<Rightarrow>
    cint \<times> ('e, 'n) extent_cache" where
  "cache_put P now eid buf c =
     (if c eid \<noteq> None \<and> ec_state (ec_entry eid c) = REMOVE then (ext_NOENT P, c)
      else (ext_OK P, c(eid \<mapsto> \<lparr>ec_buf = buf, ec_attr = fresh_attr now buf, ec_state = DIRTY\<rparr>)))"

definition cache_get :: "extent_protocol \<Rightarrow> ('e, 'n, 'w) extent_rpc \<Rightarrow> 'n \<Rightarrow> 'e \<Rightarrow> string \<Rightarrow>
    ('e, 'n::semiring_1) extent_cache \<Rightarrow> 'w \<Rightarrow> (cint \<times> string) \<times> ('e, 'n) extent_cache \<times> 'w" where
  "cache_get P rpc now eid buf c w =
     (if c eid = None \<or> ec_state (ec_entry eid c) = NONE then
        case call_get rpc eid w of ((ret, b), w) \<Rightarrow>
        let buf = (case b of None \<Rightarrow> buf | Some b \<Rightarrow> b) in
        if ret \<noteq> ext_OK P then ((ext_NOENT P, buf), c, w)
        else ((ret, buf), c(eid \<mapsto> \<lparr>ec_buf = buf, ec_attr = fresh_attr now buf, ec_state = CONSISTENT\<rparr>), w)
      else if ec_state (ec_entry eid c) = REMOVE then ((ext_NOENT P, buf), c, w)
      else
        let x = ec_entry eid c in
        ((ext_OK P, ec_buf x), c(eid \<mapsto> x\<lparr>ec_attr := (ec_attr x)\<lparr>atime := now\<rparr>\<rparr>), w))"

definition cache_getattr :: "extent_protocol \<Rightarrow> ('e, 'n, 'w) extent_rpc \<Rightarrow> 'e \<Rightarrow> 'n attr \<Rightarrow>
    ('e, 'n::semiring_1) extent_cache \<Rightarrow> 'w \<Rightarrow> (cint \<times> 'n attr) \<times> ('e, 'n) extent_cache \<times> 'w" where
  "cache_getattr P rpc eid a c w =
     (if c eid = None then
        case call_getattr rpc eid w of ((ret, a'), w) \<Rightarrow>
        let a = (case a' of None \<Rightarrow> a | Some a \<Rightarrow> a) in
        if ret \<noteq> ext_OK P then ((ret, a), c, w)
        else ((ret, a), c(eid \<mapsto> (ec_entry eid c)\<lparr>ec_attr := a, ec_state := NONE\<rparr>), w)
      else if ec_state (ec_entry eid c) = REMOVE then ((ext_NOENT P, a), c, w)
      else ((ext_OK P, ec_attr (ec_entry eid c)), c, w))"

definition cache_remove :: "extent_protocol \<Rightarrow> 'e \<Rightarrow> ('e, 'n::zero) extent_cache \<Rightarrow> cint \<times> ('e, 'n) extent_cache" where
  "cache_remove P eid c =
     (let x = ec_entry eid c; c = c(eid \<mapsto> x) in
      if ec_state x = REMOVE then (ext_NOENT P, c) else (ext_OK P, c(eid \<mapsto> x\<lparr>ec_state := REMOVE\<rparr>)))"

definition cache_flush :: "extent_protocol \<Rightarrow> ('e, 'n, 'w) extent_rpc \<Rightarrow> 'e \<Rightarrow>
    ('e, 'n) extent_cache \<Rightarrow> 'w \<Rightarrow> cint \<times> ('e, 'n) extent_cache \<times> 'w" where
  "cache_flush P rpc eid c w =
     (case c eid of
        None \<Rightarrow> (ext_NOENT P, c, w)
      | Some x \<Rightarrow>
          if ec_state x = DIRTY then
            (case call_put rpc eid (ec_buf x) w of (ret, w) \<Rightarrow> (ret, c(eid := None), w))
          else if ec_state x = REMOVE then
            (case call_remove rpc eid w of (ret, w) \<Rightarrow> (ret, c(eid := None), w))
          else (ext_OK P, c(eid := None), w))"

text \<open>Class \<open>lock_release\<close> of include/lock_client/lock_client_cache.h: a lock is named like its extent.\<close>

definition dorelease :: "extent_protocol \<Rightarrow> ('e, 'n, 'w) extent_rpc \<Rightarrow> 'e \<Rightarrow>
    ('e, 'n) extent_cache \<Rightarrow> 'w \<Rightarrow> ('e, 'n) extent_cache \<times> 'w" where
  "dorelease P rpc lid c w = snd (cache_flush P rpc lid c w)"

section \<open>Clients that share a server\<close>

text \<open>
  Each client has a cache, and works on an extent only while it owns the extent's lock. To give up
  the lock it calls \<open>dorelease\<close> first.
\<close>

record ('c, 'e, 'n, 'w) ext_sys =
  es_world :: 'w
  es_cache :: "'c \<Rightarrow> ('e, 'n) extent_cache"
  es_owner :: "'e \<Rightarrow> 'c option"

datatype ('c, 'e, 'n) ext_op =
    X_acquire 'c 'e
  | X_release 'c 'e
  | X_put 'c 'e 'n string
  | X_get 'c 'e 'n
  | X_getattr 'c 'e
  | X_remove 'c 'e

datatype 'n ext_ret = R_void | R_status bool | R_buf "string option" | R_size "'n option"

text \<open>\<open>None\<close>: the operation is not allowed, as the client does not own the lock.\<close>

fun ext_step :: "extent_protocol \<Rightarrow> ('e, 'n, 'w) extent_rpc \<Rightarrow> ('c, 'e, 'n::semiring_1) ext_op \<Rightarrow>
    ('c, 'e, 'n, 'w) ext_sys \<Rightarrow> ('n ext_ret \<times> ('c, 'e, 'n, 'w) ext_sys) option" where
  "ext_step P rpc (X_acquire c e) s =
     (if es_owner s e = None then Some (R_void, s\<lparr>es_owner := (es_owner s)(e \<mapsto> c)\<rparr>) else None)"
| "ext_step P rpc (X_release c e) s =
     (if es_owner s e = Some c then
        case dorelease P rpc e (es_cache s c) (es_world s) of (k, w) \<Rightarrow>
        Some (R_void, s\<lparr>es_world := w, es_cache := (es_cache s)(c := k), es_owner := (es_owner s)(e := None)\<rparr>)
      else None)"
| "ext_step P rpc (X_put c e now buf) s =
     (if es_owner s e = Some c then
        case cache_put P now e buf (es_cache s c) of (ret, k) \<Rightarrow>
        Some (R_status (ret = ext_OK P), s\<lparr>es_cache := (es_cache s)(c := k)\<rparr>)
      else None)"
| "ext_step P rpc (X_get c e now) s =
     (if es_owner s e = Some c then
        case cache_get P rpc now e [] (es_cache s c) (es_world s) of ((ret, buf), k, w) \<Rightarrow>
        Some (R_buf (if ret = ext_OK P then Some buf else None),
          s\<lparr>es_world := w, es_cache := (es_cache s)(c := k)\<rparr>)
      else None)"
| "ext_step P rpc (X_getattr c e) s =
     (if es_owner s e = Some c then
        case cache_getattr P rpc e (ec_attr ec_blank) (es_cache s c) (es_world s) of ((ret, a), k, w) \<Rightarrow>
        Some (R_size (if ret = ext_OK P then Some (attr_size a) else None),
          s\<lparr>es_world := w, es_cache := (es_cache s)(c := k)\<rparr>)
      else None)"
| "ext_step P rpc (X_remove c e) s =
     (if es_owner s e = Some c then
        case cache_remove P e (es_cache s c) of (ret, k) \<Rightarrow>
        Some (R_status (ret = ext_OK P), s\<lparr>es_cache := (es_cache s)(c := k)\<rparr>)
      else None)"

section \<open>The specification: one store\<close>

text \<open>
  There is one map from extents to contents, and no cache. What an owner has removed it cannot write
  or remove again until it gives up the lock, and it may remove an extent that is not there, as the
  cache has it. (The results of \<open>Shared_Extents\<close> are stated without this record.)
\<close>

record ('c, 'e) ext_spec =
  sp_map :: "'e \<rightharpoonup> string"
  sp_owner :: "'e \<Rightarrow> 'c option"
  sp_removed :: "'e set"

fun spec_step :: "('c, 'e, 'n::semiring_1) ext_op \<Rightarrow> ('c, 'e) ext_spec \<Rightarrow> ('n ext_ret \<times> ('c, 'e) ext_spec) option" where
  "spec_step (X_acquire c e) s =
     (if sp_owner s e = None then Some (R_void, s\<lparr>sp_owner := (sp_owner s)(e \<mapsto> c)\<rparr>) else None)"
| "spec_step (X_release c e) s =
     (if sp_owner s e = Some c
      then Some (R_void, s\<lparr>sp_owner := (sp_owner s)(e := None), sp_removed := sp_removed s - {e}\<rparr>)
      else None)"
| "spec_step (X_put c e now buf) s =
     (if sp_owner s e = Some c then
        Some (if e \<in> sp_removed s then (R_status False, s)
              else (R_status True, s\<lparr>sp_map := (sp_map s)(e \<mapsto> buf)\<rparr>))
      else None)"
| "spec_step (X_get c e now) s =
     (if sp_owner s e = Some c then Some (R_buf (sp_map s e), s) else None)"
| "spec_step (X_getattr c e) s =
     (if sp_owner s e = Some c then Some (R_size (map_option (\<lambda>b. of_nat (length b)) (sp_map s e)), s) else None)"
| "spec_step (X_remove c e) s =
     (if sp_owner s e = Some c then
        Some (if e \<in> sp_removed s then (R_status False, s)
              else (R_status True, s\<lparr>sp_map := (sp_map s)(e := None), sp_removed := insert e (sp_removed s)\<rparr>))
      else None)"

text \<open>
  What the extent server promises: \<open>content w\<close> is what it stores; its four calls read and update
  it. No call fails otherwise: this is a condition on the run, and \<open>flush\<close>, which ignores the result of
  \<open>put\<close>, loses data without it.
\<close>

definition extent_server :: "extent_protocol \<Rightarrow> ('e, 'n::semiring_1, 'w) extent_rpc \<Rightarrow> ('w \<Rightarrow> 'e \<rightharpoonup> string) \<Rightarrow> bool" where
  "extent_server P rpc content =
     (ext_OK P \<noteq> ext_NOENT P \<and>
      (\<forall>e w. case call_get rpc e w of ((ret, b), w') \<Rightarrow> content w' = content w \<and>
         (case content w e of None \<Rightarrow> ret \<noteq> ext_OK P | Some x \<Rightarrow> ret = ext_OK P \<and> b = Some x)) \<and>
      (\<forall>e w. case call_getattr rpc e w of ((ret, a), w') \<Rightarrow> content w' = content w \<and>
         (case content w e of None \<Rightarrow> ret \<noteq> ext_OK P
          | Some x \<Rightarrow> ret = ext_OK P \<and> (\<exists>a'. a = Some a' \<and> attr_size a' = of_nat (length x)))) \<and>
      (\<forall>e b w. content (snd (call_put rpc e b w)) = (content w)(e \<mapsto> b)) \<and>
      (\<forall>e w. content (snd (call_remove rpc e w)) = (content w)(e := None)))"

section \<open>Refinement\<close>

text \<open>What a cache in front of a store shows of extent \<open>e\<close>.\<close>

definition cache_view :: "('e, 'n) extent_cache \<Rightarrow> ('e \<rightharpoonup> string) \<Rightarrow> 'e \<Rightarrow> string option" where
  "cache_view k m e =
     (case k e of
        None \<Rightarrow> m e
      | Some x \<Rightarrow> (case ec_state x of DIRTY \<Rightarrow> Some (ec_buf x) | CONSISTENT \<Rightarrow> Some (ec_buf x) | REMOVE \<Rightarrow> None | NONE \<Rightarrow> m e))"

definition cache_removed :: "('e, 'n) extent_cache \<Rightarrow> 'e \<Rightarrow> bool" where
  "cache_removed k e = (case k e of None \<Rightarrow> False | Some x \<Rightarrow> ec_state x = REMOVE)"

text \<open>The abstraction: the owner's view where there is an owner, the server's content elsewhere.\<close>

definition ext_abs :: "('w \<Rightarrow> 'e \<rightharpoonup> string) \<Rightarrow> ('c, 'e, 'n, 'w) ext_sys \<Rightarrow> ('c, 'e) ext_spec" where
  "ext_abs content s =
     \<lparr>sp_map = (\<lambda>e. case es_owner s e of None \<Rightarrow> content (es_world s) e
                   | Some c \<Rightarrow> cache_view (es_cache s c) (content (es_world s)) e),
      sp_owner = es_owner s,
      sp_removed = {e. \<exists>c. es_owner s e = Some c \<and> cache_removed (es_cache s c) e}\<rparr>"

text \<open>An entry agrees with the store, and its size with its content.\<close>

definition entry_ok :: "string option \<Rightarrow> 'n::semiring_1 eid_content \<Rightarrow> bool" where
  "entry_ok v x =
     (case ec_state x of
        REMOVE \<Rightarrow> True
      | NONE \<Rightarrow> (\<exists>b. v = Some b \<and> attr_size (ec_attr x) = of_nat (length b))
      | CONSISTENT \<Rightarrow> v = Some (ec_buf x) \<and> attr_size (ec_attr x) = of_nat (length (ec_buf x))
      | DIRTY \<Rightarrow> attr_size (ec_attr x) = of_nat (length (ec_buf x)))"

definition ext_inv :: "('w \<Rightarrow> 'e \<rightharpoonup> string) \<Rightarrow> ('c, 'e, 'n::semiring_1, 'w) ext_sys \<Rightarrow> bool" where
  "ext_inv content s =
     (\<forall>c e x. es_cache s c e = Some x \<longrightarrow> es_owner s e = Some c \<and> entry_ok (content (es_world s) e) x)"

lemma entry_some [simp]: "k e = Some x \<Longrightarrow> ec_entry e k = x"
  by (simp add: ec_entry_def)

lemma extent_serverD:
  assumes "extent_server P rpc content"
  shows "ext_OK P \<noteq> ext_NOENT P"
    and "call_get rpc e w = ((ret, b), w') \<Longrightarrow> content w' = content w \<and>
      (case content w e of None \<Rightarrow> ret \<noteq> ext_OK P | Some x \<Rightarrow> ret = ext_OK P \<and> b = Some x)"
    and "call_getattr rpc e w = ((ret, a), w') \<Longrightarrow> content w' = content w \<and>
      (case content w e of None \<Rightarrow> ret \<noteq> ext_OK P
       | Some x \<Rightarrow> ret = ext_OK P \<and> (\<exists>a'. a = Some a' \<and> attr_size a' = of_nat (length x)))"
    and "call_put rpc e v w = (ret, w') \<Longrightarrow> content w' = (content w)(e \<mapsto> v)"
    and "call_remove rpc e w = (ret, w') \<Longrightarrow> content w' = (content w)(e := None)"
proof -
  note server = assms [unfolded extent_server_def]
  note g = server [THEN conjunct2, THEN conjunct1, rule_format, where e = e and w = w]
  note a = server [THEN conjunct2, THEN conjunct2, THEN conjunct1, rule_format, where e = e and w = w]
  note p = server [THEN conjunct2, THEN conjunct2, THEN conjunct2, THEN conjunct1, rule_format, where e = e and b = v and w = w]
  note r = server [THEN conjunct2, THEN conjunct2, THEN conjunct2, THEN conjunct2, rule_format, where e = e and w = w]
  show "ext_OK P \<noteq> ext_NOENT P" using server by blast
  show "call_get rpc e w = ((ret, b), w') \<Longrightarrow> content w' = content w \<and>
      (case content w e of None \<Rightarrow> ret \<noteq> ext_OK P | Some x \<Rightarrow> ret = ext_OK P \<and> b = Some x)"
    using g by simp
  show "call_getattr rpc e w = ((ret, a), w') \<Longrightarrow> content w' = content w \<and>
      (case content w e of None \<Rightarrow> ret \<noteq> ext_OK P
       | Some x \<Rightarrow> ret = ext_OK P \<and> (\<exists>a'. a = Some a' \<and> attr_size a' = of_nat (length x)))"
    using a by simp
  show "call_put rpc e v w = (ret, w') \<Longrightarrow> content w' = (content w)(e \<mapsto> v)" using p by simp
  show "call_remove rpc e w = (ret, w') \<Longrightarrow> content w' = (content w)(e := None)" using r by simp
qed

text \<open>An operation of the owner \<open>c\<close> on extent \<open>e\<close> changes only its own entry, and not the store.\<close>

lemma ext_abs_op:
  assumes "es_owner s e = Some c" "content w = content (es_world s)"
    and "k = (es_cache s c)(e := x)"
  shows "ext_abs content (s\<lparr>es_world := w, es_cache := (es_cache s)(c := k)\<rparr>) =
    (ext_abs content s)\<lparr>sp_map := (sp_map (ext_abs content s))(e := cache_view k (content w) e),
      sp_removed := (if cache_removed k e then insert e (sp_removed (ext_abs content s))
                     else sp_removed (ext_abs content s) - {e})\<rparr>"
    (is "ext_abs content ?s = ?a")
proof (rule ext_spec.equality)
  show "sp_map (ext_abs content ?s) = sp_map ?a"
  proof
    fix e'
    show "sp_map (ext_abs content ?s) e' = sp_map ?a e'"
      using assms by (cases "e' = e") (auto simp: ext_abs_def cache_view_def split: option.split)
  qed
  have "e' \<in> sp_removed (ext_abs content ?s) \<longleftrightarrow> e' \<in> sp_removed ?a" for e'
    using assms by (cases "e' = e") (auto simp: ext_abs_def cache_removed_def split: if_splits)
  then show "sp_removed (ext_abs content ?s) = sp_removed ?a" by blast
qed (simp_all add: ext_abs_def)

lemma cache_view_cong: "k e = k' e \<Longrightarrow> m e = m' e \<Longrightarrow> cache_view k m e = cache_view k' m' e"
  by (simp add: cache_view_def split: option.split ExtentState.split)

lemma ext_invI:
  assumes "\<And>c e x. es_cache s c e = Some x \<Longrightarrow> es_owner s e = Some c \<and> entry_ok (content (es_world s) e) x"
  shows "ext_inv content s"
  using assms by (simp add: ext_inv_def)

lemma ext_invD:
  "ext_inv content s \<Longrightarrow> es_cache s c e = Some x \<Longrightarrow> es_owner s e = Some c \<and> entry_ok (content (es_world s) e) x"
  by (simp add: ext_inv_def)

lemma ext_inv_owner: "ext_inv content s \<Longrightarrow> es_owner s e \<noteq> Some c \<Longrightarrow> es_cache s c e = None"
  by (cases "es_cache s c e") (auto simp: ext_inv_def)

lemma ext_inv_op:
  assumes "ext_inv content s" "es_owner s e = Some c" "content w = content (es_world s)"
    and "k = (es_cache s c)(e := x)" "\<And>y. x = Some y \<Longrightarrow> entry_ok (content w e) y"
  shows "ext_inv content (s\<lparr>es_world := w, es_cache := (es_cache s)(c := k)\<rparr>)"
  using assms by (auto simp: ext_inv_def)

lemma ext_inv_entry:
  assumes "ext_inv content s" "es_cache s c e = Some x"
  shows "entry_ok (content (es_world s) e) x"
  using assms by (auto simp: ext_inv_def)

lemma spec_upd_same:
  assumes "sp_map a e = v" "e \<in> sp_removed a \<longleftrightarrow> r"
  shows "a\<lparr>sp_map := (sp_map a)(e := v), sp_removed := (if r then insert e (sp_removed a) else sp_removed a - {e})\<rparr> = a"
  using assms by (cases r) (simp_all add: fun_upd_idem insert_absorb)

lemma abs_owned:
  assumes "es_owner s e = Some c"
  shows "sp_owner (ext_abs content s) e = Some c"
    "sp_map (ext_abs content s) e = cache_view (es_cache s c) (content (es_world s)) e"
    "e \<in> sp_removed (ext_abs content s) \<longleftrightarrow> cache_removed (es_cache s c) e"
  using assms by (auto simp: ext_abs_def)

text \<open>
  So an operation that does not change what the cache shows of \<open>e\<close> is invisible, and one that does
  changes the abstract map at \<open>e\<close>.
\<close>

lemma ext_invisible:
  assumes "ext_inv content s" "es_owner s e = Some c" "content w = content (es_world s)"
    and "k = (es_cache s c)(e := x)" "\<And>y. x = Some y \<Longrightarrow> entry_ok (content w e) y"
    and "cache_view k (content w) e = cache_view (es_cache s c) (content w) e"
    and "cache_removed k e = cache_removed (es_cache s c) e"
  shows "ext_abs content (s\<lparr>es_world := w, es_cache := (es_cache s)(c := k)\<rparr>) = ext_abs content s \<and>
    ext_inv content (s\<lparr>es_world := w, es_cache := (es_cache s)(c := k)\<rparr>)"
  using ext_abs_op [OF assms(2-4)] ext_inv_op [OF assms(1-5)] assms(3,6,7) abs_owned [OF assms(2), of content]
  by (simp add: spec_upd_same)

lemma put_refines:
  assumes "extent_server P rpc content" "ext_inv content s" "es_owner s e = Some c"
    and "cache_put P now e buf (es_cache s c) = (ret, k)"
  shows "spec_step (X_put c e now buf) (ext_abs content s) =
      Some (R_status (ret = ext_OK P), ext_abs content (s\<lparr>es_cache := (es_cache s)(c := k)\<rparr>)) \<and>
    ext_inv content (s\<lparr>es_cache := (es_cache s)(c := k)\<rparr>)"
proof (cases "cache_removed (es_cache s c) e")
  case True
  then have "ret = ext_NOENT P" "k = es_cache s c"
    using assms(4) by (auto simp: cache_put_def cache_removed_def split: option.splits)
  then show ?thesis using True assms(2,3) extent_serverD(1) [OF assms(1)] abs_owned [OF assms(3), of content]
    by simp
next
  case False
  let ?x = "\<lparr>ec_buf = buf, ec_attr = fresh_attr now buf, ec_state = DIRTY\<rparr>"
  have k: "ret = ext_OK P" "k = (es_cache s c)(e := Some ?x)"
    using False assms(4) by (auto simp: cache_put_def cache_removed_def split: option.splits if_splits)
  have "entry_ok v ?x" for v by (simp add: entry_ok_def fresh_attr_def)
  then have inv: "ext_inv content (s\<lparr>es_world := es_world s, es_cache := (es_cache s)(c := k)\<rparr>)"
    using ext_inv_op [OF assms(2,3) refl k(2)] by blast
  have v: "cache_view k (content (es_world s)) e = Some buf" "\<not> cache_removed k e"
    by (simp_all add: k(2) cache_view_def cache_removed_def)
  have "sp_removed (ext_abs content s) - {e} = sp_removed (ext_abs content s)"
    using False abs_owned(3) [OF assms(3), of content] by auto
  then have "ext_abs content (s\<lparr>es_world := es_world s, es_cache := (es_cache s)(c := k)\<rparr>) =
      (ext_abs content s)\<lparr>sp_map := (sp_map (ext_abs content s))(e \<mapsto> buf)\<rparr>"
    unfolding ext_abs_op [OF assms(3) refl k(2)] v(1) using v(2) by simp
  then show ?thesis using inv False k(1) abs_owned [OF assms(3), of content] by simp
qed

lemma remove_refines:
  assumes "extent_server P rpc content" "ext_inv content s" "es_owner s e = Some c"
    and "cache_remove P e (es_cache s c) = (ret, k)"
  shows "spec_step (X_remove c e) (ext_abs content s) =
      Some (R_status (ret = ext_OK P), ext_abs content (s\<lparr>es_cache := (es_cache s)(c := k)\<rparr>)) \<and>
    ext_inv content (s\<lparr>es_cache := (es_cache s)(c := k)\<rparr>)"
proof (cases "cache_removed (es_cache s c) e")
  case True
  then obtain x where x: "es_cache s c e = Some x" "ec_state x = REMOVE"
    by (auto simp: cache_removed_def split: option.splits)
  then have "ret = ext_NOENT P" "k = es_cache s c"
    using assms(4) by (auto simp: cache_remove_def Let_def fun_upd_idem)
  then show ?thesis using True assms(2,3) extent_serverD(1) [OF assms(1)] abs_owned [OF assms(3), of content]
    by simp
next
  case False
  let ?x = "(ec_entry e (es_cache s c))\<lparr>ec_state := REMOVE\<rparr>"
  have "ec_state (ec_entry e (es_cache s c)) \<noteq> REMOVE"
    using False by (auto simp: cache_removed_def ec_entry_def ec_blank_def split: option.splits)
  then have k: "ret = ext_OK P" "k = (es_cache s c)(e := Some ?x)"
    using assms(4) by (auto simp: cache_remove_def Let_def)
  have "entry_ok v ?x" for v by (simp add: entry_ok_def)
  then have inv: "ext_inv content (s\<lparr>es_world := es_world s, es_cache := (es_cache s)(c := k)\<rparr>)"
    using ext_inv_op [OF assms(2,3) refl k(2)] by blast
  have v: "cache_view k (content (es_world s)) e = None" "cache_removed k e"
    by (simp_all add: k(2) cache_view_def cache_removed_def)
  have "ext_abs content (s\<lparr>es_world := es_world s, es_cache := (es_cache s)(c := k)\<rparr>) =
      (ext_abs content s)\<lparr>sp_map := (sp_map (ext_abs content s))(e := None), sp_removed := insert e (sp_removed (ext_abs content s))\<rparr>"
    unfolding ext_abs_op [OF assms(3) refl k(2)] v(1) using v(2) by simp
  then show ?thesis using inv False k(1) abs_owned [OF assms(3), of content] by simp
qed

lemma get_refines:
  assumes "extent_server P rpc content" "ext_inv content s" "es_owner s e = Some c"
    and "cache_get P rpc now e [] (es_cache s c) (es_world s) = ((ret, buf), k, w)"
  shows "cache_view (es_cache s c) (content (es_world s)) e = (if ret = ext_OK P then Some buf else None) \<and>
    ext_abs content (s\<lparr>es_world := w, es_cache := (es_cache s)(c := k)\<rparr>) = ext_abs content s \<and>
    ext_inv content (s\<lparr>es_world := w, es_cache := (es_cache s)(c := k)\<rparr>)"
proof (cases "es_cache s c e = None \<or> ec_state (ec_entry e (es_cache s c)) = NONE")
  case True
  obtain r b w1 where g: "call_get rpc e (es_world s) = ((r, b), w1)" by (metis prod.exhaust)
  note d = extent_serverD(2) [OF assms(1) g]
  have view: "cache_view (es_cache s c) (content (es_world s)) e = content (es_world s) e"
    "\<not> cache_removed (es_cache s c) e"
    using True by (auto simp: cache_view_def cache_removed_def split: option.splits)
  show ?thesis
  proof (cases "content (es_world s) e")
    case None
    then have "r \<noteq> ext_OK P" using d by simp
    then have o: "ret = ext_NOENT P" "k = es_cache s c" "w = w1"
      using assms(4) True g by (auto simp: cache_get_def Let_def split: option.splits)
    have k: "k = (es_cache s c)(e := es_cache s c e)" using o by simp
    have "ext_abs content (s\<lparr>es_world := w, es_cache := (es_cache s)(c := k)\<rparr>) = ext_abs content s \<and>
        ext_inv content (s\<lparr>es_world := w, es_cache := (es_cache s)(c := k)\<rparr>)"
      by (rule ext_invisible [OF assms(2,3) _ k]) (use d o ext_inv_entry [OF assms(2)] in auto)
    then show ?thesis using o view None extent_serverD(1) [OF assms(1)] by simp
  next
    case (Some v)
    let ?x = "\<lparr>ec_buf = v, ec_attr = fresh_attr now v, ec_state = CONSISTENT\<rparr>"
    have o: "ret = ext_OK P" "buf = v" "k = (es_cache s c)(e := Some ?x)" "w = w1"
      using assms(4) True g d Some by (auto simp: cache_get_def Let_def)
    have "ext_abs content (s\<lparr>es_world := w, es_cache := (es_cache s)(c := k)\<rparr>) = ext_abs content s \<and>
        ext_inv content (s\<lparr>es_world := w, es_cache := (es_cache s)(c := k)\<rparr>)"
      by (rule ext_invisible [OF assms(2,3) _ o(3)])
        (use d o view Some in \<open>auto simp: entry_ok_def fresh_attr_def cache_view_def cache_removed_def\<close>)
    then show ?thesis using o view Some by simp
  qed
next
  case False
  then obtain x where x: "es_cache s c e = Some x" "ec_state x \<noteq> NONE" by auto
  let ?x = "if ec_state x = REMOVE then x else x\<lparr>ec_attr := (ec_attr x)\<lparr>atime := now\<rparr>\<rparr>"
  have o: "k = (es_cache s c)(e := Some ?x)" "w = es_world s" "ret = (if ec_state x = REMOVE then ext_NOENT P else ext_OK P)"
      "ec_state x \<noteq> REMOVE \<Longrightarrow> buf = ec_buf x"
    using assms(4) x by (auto simp: cache_get_def Let_def fun_upd_idem split: if_splits)
  have ok: "entry_ok (content (es_world s) e) ?x"
    using ext_inv_entry [OF assms(2) x(1)] x(2) by (cases "ec_state x") (auto simp: entry_ok_def)
  have "ext_abs content (s\<lparr>es_world := w, es_cache := (es_cache s)(c := k)\<rparr>) = ext_abs content s \<and>
      ext_inv content (s\<lparr>es_world := w, es_cache := (es_cache s)(c := k)\<rparr>)"
    by (rule ext_invisible [OF assms(2,3) _ o(1)])
      (use o(1,2) x ok in \<open>auto simp: cache_view_def cache_removed_def split: ExtentState.splits\<close>)
  then show ?thesis using o(3,4) x extent_serverD(1) [OF assms(1)]
    by (auto simp: cache_view_def split: ExtentState.splits)
qed

lemma getattr_refines:
  assumes "extent_server P rpc content" "ext_inv content s" "es_owner s e = Some c"
    and "cache_getattr P rpc e a0 (es_cache s c) (es_world s) = ((ret, a), k, w)"
  shows "map_option (\<lambda>b. of_nat (length b)) (cache_view (es_cache s c) (content (es_world s)) e) =
      (if ret = ext_OK P then Some (attr_size a) else None) \<and>
    ext_abs content (s\<lparr>es_world := w, es_cache := (es_cache s)(c := k)\<rparr>) = ext_abs content s \<and>
    ext_inv content (s\<lparr>es_world := w, es_cache := (es_cache s)(c := k)\<rparr>)"
proof (cases "es_cache s c e")
  case None
  obtain r b w1 where g: "call_getattr rpc e (es_world s) = ((r, b), w1)" by (metis prod.exhaust)
  note d = extent_serverD(3) [OF assms(1) g]
  have view: "cache_view (es_cache s c) (content (es_world s)) e = content (es_world s) e"
    "\<not> cache_removed (es_cache s c) e"
    using None by (auto simp: cache_view_def cache_removed_def)
  show ?thesis
  proof (cases "content (es_world s) e")
    case n: None
    then have o: "ret \<noteq> ext_OK P" "k = (es_cache s c)(e := None)" "w = w1"
      using assms(4) None g d by (auto simp: cache_getattr_def Let_def fun_upd_idem split: option.splits if_splits)
    have "ext_abs content (s\<lparr>es_world := w, es_cache := (es_cache s)(c := k)\<rparr>) = ext_abs content s \<and>
        ext_inv content (s\<lparr>es_world := w, es_cache := (es_cache s)(c := k)\<rparr>)"
      by (rule ext_invisible [OF assms(2,3) _ o(2)]) (use d o None in \<open>auto simp: fun_upd_idem\<close>)
    then show ?thesis using o view n by simp
  next
    case (Some v)
    then obtain a' where a': "b = Some a'" "attr_size a' = of_nat (length v)" "r = ext_OK P" using d by auto
    let ?x = "(ec_blank :: 'b eid_content)\<lparr>ec_attr := a', ec_state := NONE\<rparr>"
    have o: "ret = ext_OK P" "a = a'" "k = (es_cache s c)(e := Some ?x)" "w = w1"
      using assms(4) None g a' by (auto simp: cache_getattr_def ec_entry_def Let_def)
    have "ext_abs content (s\<lparr>es_world := w, es_cache := (es_cache s)(c := k)\<rparr>) = ext_abs content s \<and>
        ext_inv content (s\<lparr>es_world := w, es_cache := (es_cache s)(c := k)\<rparr>)"
      by (rule ext_invisible [OF assms(2,3) _ o(3)])
        (use d o view Some a' in \<open>auto simp: entry_ok_def cache_view_def cache_removed_def\<close>)
    then show ?thesis using o view Some a' by simp
  qed
next
  case (Some x)
  have o: "k = (es_cache s c)(e := Some x)" "w = es_world s" "ret = (if ec_state x = REMOVE then ext_NOENT P else ext_OK P)"
      "ec_state x \<noteq> REMOVE \<Longrightarrow> a = ec_attr x"
    using assms(4) Some by (auto simp: cache_getattr_def fun_upd_idem split: if_splits)
  note ok = ext_inv_entry [OF assms(2) Some]
  have "ext_abs content (s\<lparr>es_world := w, es_cache := (es_cache s)(c := k)\<rparr>) = ext_abs content s \<and>
      ext_inv content (s\<lparr>es_world := w, es_cache := (es_cache s)(c := k)\<rparr>)"
    by (rule ext_invisible [OF assms(2,3) _ o(1)]) (use o(1,2) Some ok in \<open>auto simp: fun_upd_idem\<close>)
  then show ?thesis using o(3,4) Some ok extent_serverD(1) [OF assms(1)]
    by (cases "ec_state x") (auto simp: cache_view_def entry_ok_def)
qed

text \<open>\<open>flush\<close> writes back what the cache shows, and forgets the extent.\<close>

lemma flush_content:
  assumes "extent_server P rpc content" "cache_flush P rpc e k w = (ret, k', w')"
    and "\<And>x. k e = Some x \<Longrightarrow> entry_ok (content w e) x"
  shows "k' = k(e := None) \<and> content w' = (content w)(e := cache_view k (content w) e)"
proof (cases "k e")
  case None
  then show ?thesis using assms(2) by (auto simp: cache_flush_def cache_view_def fun_upd_idem)
next
  case (Some x)
  show ?thesis
  proof (cases "ec_state x")
    case DIRTY
    then show ?thesis using assms(2) Some extent_serverD(4) [OF assms(1), of e "ec_buf x" w]
      by (auto simp: cache_flush_def cache_view_def split: prod.splits)
  next
    case REMOVE
    then show ?thesis using assms(2) Some extent_serverD(5) [OF assms(1), of e w]
      by (auto simp: cache_flush_def cache_view_def split: prod.splits)
  next
    case NONE
    then show ?thesis using assms(2) Some by (auto simp: cache_flush_def cache_view_def fun_upd_idem)
  next
    case CONSISTENT
    then show ?thesis using assms(2) Some assms(3) [OF Some]
      by (auto simp: cache_flush_def cache_view_def entry_ok_def fun_upd_idem)
  qed
qed

lemma release_refines:
  assumes "extent_server P rpc content" "ext_inv content s" "es_owner s e = Some c"
    and "dorelease P rpc e (es_cache s c) (es_world s) = (k, w)"
    and "s' = s\<lparr>es_world := w, es_cache := (es_cache s)(c := k), es_owner := (es_owner s)(e := None)\<rparr>"
  shows "spec_step (X_release c e) (ext_abs content s) = Some (R_void, ext_abs content s') \<and> ext_inv content s'"
proof -
  obtain ret where f: "cache_flush P rpc e (es_cache s c) (es_world s) = (ret, k, w)"
    using assms(4) by (metis dorelease_def prod.collapse snd_conv)
  have k: "k = (es_cache s c)(e := None)"
      "content w = (content (es_world s))(e := cache_view (es_cache s c) (content (es_world s)) e)"
    using flush_content [OF assms(1) f] ext_inv_entry [OF assms(2)] by auto
  have "ext_inv content s'"
  proof (rule ext_invI)
    fix c' e' x assume x: "es_cache s' c' e' = Some x"
    have "e' \<noteq> e" using x k(1) ext_inv_owner [OF assms(2), of e c'] assms(3)
      by (cases "c' = c") (auto simp: assms(5))
    then show "es_owner s' e' = Some c' \<and> entry_ok (content (es_world s') e') x"
      using x k ext_invD [OF assms(2), of c' e' x] by (cases "c' = c") (simp_all add: assms(5))
  qed
  moreover have "sp_map (ext_abs content s') = sp_map (ext_abs content s)"
  proof
    fix e'
    have "cache_view (es_cache s' c') (content w) e' = cache_view (es_cache s c') (content (es_world s)) e'"
      if "e' \<noteq> e" for c'
      using that k by (intro cache_view_cong) (simp_all add: assms(5))
    then show "sp_map (ext_abs content s') e' = sp_map (ext_abs content s) e'"
      using assms(3) k(2) by (cases "e' = e") (auto simp: ext_abs_def assms(5) split: option.split)
  qed
  moreover have "sp_removed (ext_abs content s') = sp_removed (ext_abs content s) - {e}"
    using assms(3) k by (auto simp: ext_abs_def assms(5) cache_removed_def split: if_splits)
  moreover have "sp_owner (ext_abs content s') = (sp_owner (ext_abs content s))(e := None)"
    by (simp add: ext_abs_def assms(5))
  ultimately show ?thesis using abs_owned(1) [OF assms(3), of content] by simp
qed

lemma acquire_refines:
  assumes "ext_inv content s" "es_owner s e = None" "s' = s\<lparr>es_owner := (es_owner s)(e \<mapsto> c)\<rparr>"
  shows "spec_step (X_acquire c e) (ext_abs content s) = Some (R_void, ext_abs content s') \<and> ext_inv content s'"
proof -
  have none: "es_cache s c e = None" using assms(1,2) by (simp add: ext_inv_owner)
  have "ext_inv content s'"
  proof (rule ext_invI)
    fix c' e' x assume x: "es_cache s' c' e' = Some x"
    then show "es_owner s' e' = Some c' \<and> entry_ok (content (es_world s') e') x"
      using ext_invD [OF assms(1), of c' e' x] assms(2) by (auto simp: assms(3))
  qed
  moreover have "sp_map (ext_abs content s') = sp_map (ext_abs content s)"
    using assms(2) none by (auto simp: ext_abs_def assms(3) cache_view_def fun_eq_iff split: option.split)
  moreover have "sp_removed (ext_abs content s') = sp_removed (ext_abs content s)"
    using assms(2) none by (auto simp: ext_abs_def assms(3) cache_removed_def split: if_splits)
  ultimately show ?thesis using assms(2) by (simp add: ext_abs_def assms(3))
qed

lemma ext_step_refines:
  assumes "extent_server P rpc content" "ext_inv content s"
  shows "case ext_step P rpc op s of
      None \<Rightarrow> spec_step op (ext_abs content s) = None
    | Some (r, s') \<Rightarrow> spec_step op (ext_abs content s) = Some (r, ext_abs content s') \<and> ext_inv content s'"
proof (cases "ext_step P rpc op s")
  case None
  then have "spec_step op (ext_abs content s) = None"
    by (cases op) (auto simp: ext_abs_def split: if_splits prod.splits)
  then show ?thesis using None by simp
next
  case (Some rs)
  then obtain r s' where st: "ext_step P rpc op s = Some (r, s')" by (cases rs) auto
  have "spec_step op (ext_abs content s) = Some (r, ext_abs content s') \<and> ext_inv content s'"
  proof (cases op)
    case (X_acquire c e)
    then show ?thesis using st acquire_refines [OF assms(2), of e s' c]
      by (auto split: if_splits simp del: spec_step.simps)
  next
    case (X_release c e)
    then show ?thesis using st release_refines [OF assms, of e c]
      by (auto split: if_splits prod.splits simp del: spec_step.simps)
  next
    case (X_put c e now buf)
    then show ?thesis using st put_refines [OF assms, of e c now buf]
      by (auto split: if_splits prod.splits simp del: spec_step.simps)
  next
    case (X_get c e now)
    then show ?thesis using st get_refines [OF assms, of e c now] abs_owned [of s e c content]
      by (auto split: if_splits prod.splits)
  next
    case (X_getattr c e)
    then show ?thesis using st getattr_refines [OF assms, of e c] abs_owned [of s e c content]
      by (auto split: if_splits prod.splits)
  next
    case (X_remove c e)
    then show ?thesis using st remove_refines [OF assms, of e c]
      by (auto split: if_splits prod.splits simp del: spec_step.simps)
  qed
  then show ?thesis using st by simp
qed

section \<open>Runs\<close>

fun ext_run :: "extent_protocol \<Rightarrow> ('e, 'n, 'w) extent_rpc \<Rightarrow> ('c, 'e, 'n::semiring_1) ext_op list \<Rightarrow>
    ('c, 'e, 'n, 'w) ext_sys \<Rightarrow> ('n ext_ret list \<times> ('c, 'e, 'n, 'w) ext_sys) option" where
  "ext_run P rpc [] s = Some ([], s)"
| "ext_run P rpc (op # ops) s =
     (case ext_step P rpc op s of
        None \<Rightarrow> None
      | Some (r, s) \<Rightarrow> (case ext_run P rpc ops s of None \<Rightarrow> None | Some (rs, s) \<Rightarrow> Some (r # rs, s)))"

fun spec_run :: "('c, 'e, 'n::semiring_1) ext_op list \<Rightarrow> ('c, 'e) ext_spec \<Rightarrow>
    ('n ext_ret list \<times> ('c, 'e) ext_spec) option" where
  "spec_run [] s = Some ([], s)"
| "spec_run (op # ops) s =
     (case spec_step op s of
        None \<Rightarrow> None
      | Some (r, s) \<Rightarrow> (case spec_run ops s of None \<Rightarrow> None | Some (rs, s) \<Rightarrow> Some (r # rs, s)))"

definition ext_start :: "'w \<Rightarrow> ('c, 'e, 'n, 'w) ext_sys" where
  "ext_start w = \<lparr>es_world = w, es_cache = (\<lambda>_. Map.empty), es_owner = (\<lambda>_. None)\<rparr>"

definition spec_start :: "('e \<rightharpoonup> string) \<Rightarrow> ('c, 'e) ext_spec" where
  "spec_start m = \<lparr>sp_map = m, sp_owner = (\<lambda>_. None), sp_removed = {}\<rparr>"

lemma ext_run_refines:
  assumes "extent_server P rpc content" "ext_inv content s"
  shows "case ext_run P rpc ops s of
      None \<Rightarrow> spec_run ops (ext_abs content s) = None
    | Some (rs, s') \<Rightarrow> spec_run ops (ext_abs content s) = Some (rs, ext_abs content s')"
  using assms(2)
proof (induction ops arbitrary: s)
  case (Cons op ops)
  note st = ext_step_refines [OF assms(1) Cons.prems, of op]
  show ?case
  proof (cases "ext_step P rpc op s")
    case None
    then show ?thesis using st by simp
  next
    case (Some x)
    then obtain r s1 where x: "ext_step P rpc op s = Some (r, s1)" by (cases x) auto
    then have "spec_step op (ext_abs content s) = Some (r, ext_abs content s1)" "ext_inv content s1"
      using st by simp_all
    then show ?thesis using x Cons.IH [of s1] by (auto split: option.splits)
  qed
qed simp

section \<open>Properties\<close>

text \<open>
  The caches refine one store. Let any number of clients work on extents through their caches, each
  only while it owns the extent's lock, and flush an extent before giving up its lock. If the server
  stores what it is told and no call to it fails, then every sequence of operations returns the contents,
  sizes and refusals that the store above gives. When no lock is owned, the server has the contents of
  that store.
\<close>

theorem caches_coherent:
  assumes "extent_server P rpc content"
  shows "map_option fst (ext_run P rpc ops (ext_start w)) = map_option fst (spec_run ops (spec_start (content w))) \<and>
    (\<forall>rs s. ext_run P rpc ops (ext_start w) = Some (rs, s) \<and> (\<forall>e. es_owner s e = None) \<longrightarrow>
      (\<exists>s'. spec_run ops (spec_start (content w)) = Some (rs, s') \<and> content (es_world s) = sp_map s'))"
proof -
  have inv: "ext_inv content (ext_start w)" by (simp add: ext_inv_def ext_start_def)
  have abs: "ext_abs content (ext_start w) = spec_start (content w)"
    by (simp add: ext_abs_def ext_start_def spec_start_def)
  note run = ext_run_refines [OF assms inv, of ops, unfolded abs]
  show ?thesis
  proof (cases "ext_run P rpc ops (ext_start w)")
    case None
    then show ?thesis using run by simp
  next
    case (Some x)
    then obtain rs s where x: "ext_run P rpc ops (ext_start w) = Some (rs, s)" by (cases x) auto
    then have "spec_run ops (spec_start (content w)) = Some (rs, ext_abs content s)" using run by simp
    moreover have "sp_map (ext_abs content s) = content (es_world s)" if "\<forall>e. es_owner s e = None"
      using that by (simp add: ext_abs_def)
    ultimately show ?thesis using x by auto
  qed
qed

text \<open>
  A server that keeps a map. Client 1 writes extent 5, client 2 reads it, asks for its size, removes it
  and cannot write it again; client 1 finds it gone.
\<close>

definition map_protocol :: extent_protocol where
  "map_protocol = \<lparr>ext_OK = 0, ext_NOENT = 1\<rparr>"

definition map_server :: "(nat, int, nat \<rightharpoonup> string) extent_rpc" where
  "map_server = \<lparr>
     call_get = (\<lambda>e w. ((if w e = None then 1 else 0, w e), w)),
     call_getattr = (\<lambda>e w. ((if w e = None then 1 else 0,
       map_option (\<lambda>b. \<lparr>atime = 0, mtime = 0, ctime = 0, attr_size = int (length b)\<rparr>) (w e)), w)),
     call_put = (\<lambda>e b w. (0, w(e \<mapsto> b))),
     call_remove = (\<lambda>e w. (if w e = None then 1 else 0, w(e := None)))\<rparr>"

lemma map_server_ok: "extent_server map_protocol map_server (\<lambda>w. w)"
  by (simp add: extent_server_def map_protocol_def map_server_def split: option.split)

theorem caches_coherent_witness:
  "map_option fst (ext_run map_protocol map_server
      [X_acquire (1 :: nat) 5, X_put 1 5 100 ''abc'', X_release 1 5,
       X_acquire 2 5, X_getattr 2 5, X_get 2 5 101, X_remove 2 5, X_put 2 5 102 ''d'', X_release 2 5,
       X_acquire 1 5, X_get 1 5 103] (ext_start Map.empty)) =
    Some [R_void, R_status True, R_void, R_void, R_size (Some 3), R_buf (Some ''abc''), R_status True,
       R_status False, R_void, R_void, R_buf None]"
  unfolding conjunct1 [OF caches_coherent [OF map_server_ok]] by (simp add: spec_start_def)

end
