(* ===== verification/Lock_Client.thy ===== *)
theory Lock_Client
  imports Prelude
begin

text \<open>
  Clients of the lock server: src/lock_client/lock_client.cc, and what the two caching clients
  (theories \<open>Lock_Cache\<close> and \<open>Lock_Cache_Rsm\<close>) have in common. The lock server and its protocol are
  outside: the status codes are a record, lock ids a type \<open>'l\<close>.

  The locale \<open>lock_cache\<close> is the contract of a caching client: it accounts for the locks that the
  server has granted it. From this contract alone follows mutual exclusion in a system of many
  clients and one server that grants a lock only while no client has it.
\<close>

section \<open>The protocol\<close>

record lock_protocol =
  lock_OK :: cint
  lock_RETRY :: cint
  lock_NOENT :: cint
  lock_RPCERR :: cint
  rlock_OK :: cint
  rlock_RPCERR :: cint

datatype ClientLockState = NONE | FREE | LOCKED | ACQUIRING | RELEASING

section \<open>The client without a cache\<close>

text \<open>Each call gives the return code of the RPC and the integer it returned.\<close>

definition lock_stat :: "lock_protocol \<Rightarrow> ('l \<Rightarrow> 'w \<Rightarrow> (cint \<times> cint) \<times> 'w) \<Rightarrow> 'l \<Rightarrow> 'w \<Rightarrow> (cint \<times> 'w) result" where
  "lock_stat P call lid w =
     (case call lid w of ((ret, r), w) \<Rightarrow> rbind (VERIFY (ret = lock_OK P)) (\<lambda>_. Inr (r, w)))"

definition lock_acquire :: "lock_protocol \<Rightarrow> ('l \<Rightarrow> 'w \<Rightarrow> (cint \<times> cint) \<times> 'w) \<Rightarrow> 'l \<Rightarrow> 'w \<Rightarrow> (cint \<times> 'w) result" where
  "lock_acquire P call lid w =
     (case call lid w of ((ret, r), w) \<Rightarrow> rbind (VERIFY (ret = lock_OK P)) (\<lambda>_. Inr (r, w)))"

definition lock_release :: "lock_protocol \<Rightarrow> ('l \<Rightarrow> 'w \<Rightarrow> (cint \<times> cint) \<times> 'w) \<Rightarrow> 'l \<Rightarrow> 'w \<Rightarrow> (cint \<times> 'w) result" where
  "lock_release P call lid w =
     (case call lid w of ((ret, r), w) \<Rightarrow> rbind (VERIFY (ret = lock_OK P)) (\<lambda>_. Inr (r, w)))"

section \<open>Threads of a caching client\<close>

text \<open>
  What \<open>acquire\<close> does next: call the server (from the case NONE or from the case ACQUIRING), wait at
  \<open>retry_cv_\<close>, \<open>wait_cv_\<close> or \<open>release_cv_\<close>, or return.
\<close>

datatype acq_out = Acq_call bool | Acq_wait_retry | Acq_wait | Acq_wait_release | Acq_return cint

text \<open>
  Where a thread is. \<open>L_granted\<close>, \<open>L_freed\<close> and \<open>L_revoked\<close> are calls that the server has executed, with
  the reply under way: it has granted the lock, or taken it back. \<open>L_send\<close> and the two states of a
  handler occur in theory \<open>Lock_Cache\<close> only.
\<close>

datatype 'l lock_pc =
    L_idle
  | L_send 'l
  | L_call 'l bool
  | L_granted 'l bool
  | L_wait_retry 'l
  | L_wait 'l
  | L_wait_release 'l
  | L_hold 'l
  | L_rel 'l
  | L_freed 'l
  | L_revoke 'l
  | L_revoked 'l

fun acq_pc :: "'l \<Rightarrow> acq_out \<Rightarrow> 'l lock_pc" where
  "acq_pc l (Acq_call first) = L_call l first"
| "acq_pc l Acq_wait_retry = L_wait_retry l"
| "acq_pc l Acq_wait = L_wait l"
| "acq_pc l Acq_wait_release = L_wait_release l"
| "acq_pc l (Acq_return ret) = L_hold l"

text \<open>Threads that have a lock, or are about to get it or to give it back.\<close>

fun pc_token :: "'l \<Rightarrow> 'l lock_pc \<Rightarrow> nat" where
  "pc_token l (L_granted l' first) = (if l' = l then 1 else 0)"
| "pc_token l (L_hold l') = (if l' = l then 1 else 0)"
| "pc_token l (L_rel l') = (if l' = l then 1 else 0)"
| "pc_token l (L_revoke l') = (if l' = l then 1 else 0)"
| "pc_token l _ = 0"

lemma hold_tokens: "length (filter (\<lambda>pc. pc = L_hold l) xs) \<le> sum_list (map (pc_token l) xs)"
  by (induction xs) auto

lemma thread_tokens_update:
  assumes "t < length xs"
  shows "sum_list (map (pc_token l) (xs[t := pc])) + pc_token l (xs ! t) = sum_list (map (pc_token l) xs) + pc_token l pc"
  using assms elem_le_sum_list [of t "map (pc_token l) xs"] by (simp add: map_update sum_list_update)

lemma card_hold_tokens: "card {t. t < length xs \<and> xs ! t = L_hold l} \<le> sum_list (map (pc_token l) xs)"
  using hold_tokens [of l xs] by (simp add: length_filter_conv_card)

section \<open>Clients and the server\<close>

text \<open>
  \<open>cstep\<close> is a client's step function; \<open>grants\<close> and \<open>frees\<close> say at which lock a step of a client is
  the moment when the server grants a lock to it, or executes its release. The server grants a lock
  that nobody owns.
\<close>

record ('c, 'l, 's) lock_sys =
  ls_client :: "'c \<Rightarrow> 's"
  ls_owner :: "'l \<Rightarrow> 'c option"

definition lock_sys_step :: "('e \<Rightarrow> 's \<Rightarrow> 's option) \<Rightarrow> ('e \<Rightarrow> 's \<Rightarrow> 'l option) \<Rightarrow> ('e \<Rightarrow> 's \<Rightarrow> 'l option) \<Rightarrow>
    'c \<Rightarrow> 'e \<Rightarrow> ('c, 'l, 's) lock_sys \<Rightarrow> ('c, 'l, 's) lock_sys option" where
  "lock_sys_step cstep grants frees c ev y =
     (case cstep ev (ls_client y c) of
        None \<Rightarrow> None
      | Some s \<Rightarrow>
          let y' = y\<lparr>ls_client := (ls_client y)(c := s)\<rparr> in
          case grants ev (ls_client y c) of
            Some l \<Rightarrow>
              if ls_owner y l = None then Some (y'\<lparr>ls_owner := (ls_owner y)(l \<mapsto> c)\<rparr>) else None
          | None \<Rightarrow>
              (case frees ev (ls_client y c) of
                 None \<Rightarrow> Some y'
               | Some l \<Rightarrow>
                   Some (if ls_owner y l = Some c then y'\<lparr>ls_owner := (ls_owner y)(l := None)\<rparr> else y')))"

definition lock_sys_start :: "'s \<Rightarrow> ('c, 'l, 's) lock_sys" where
  "lock_sys_start s = \<lparr>ls_client = (\<lambda>_. s), ls_owner = (\<lambda>_. None)\<rparr>"

inductive lock_sys_reach :: "('e \<Rightarrow> 's \<Rightarrow> 's option) \<Rightarrow> ('e \<Rightarrow> 's \<Rightarrow> 'l option) \<Rightarrow> ('e \<Rightarrow> 's \<Rightarrow> 'l option) \<Rightarrow> 's \<Rightarrow>
    ('c, 'l, 's) lock_sys \<Rightarrow> bool"
  for cstep :: "'e \<Rightarrow> 's \<Rightarrow> 's option" and grants frees :: "'e \<Rightarrow> 's \<Rightarrow> 'l option" and s0 :: 's where
  start: "lock_sys_reach cstep grants frees s0 (lock_sys_start s0)"
| step: "lock_sys_reach cstep grants frees s0 y \<Longrightarrow> lock_sys_step cstep grants frees c ev y = Some y' \<Longrightarrow>
    lock_sys_reach cstep grants frees s0 y'"

fun lock_sys_exec :: "('e \<Rightarrow> 's \<Rightarrow> 's option) \<Rightarrow> ('e \<Rightarrow> 's \<Rightarrow> 'l option) \<Rightarrow> ('e \<Rightarrow> 's \<Rightarrow> 'l option) \<Rightarrow>
    ('c \<times> 'e) list \<Rightarrow> ('c, 'l, 's) lock_sys \<Rightarrow> ('c, 'l, 's) lock_sys option" where
  "lock_sys_exec cstep grants frees [] y = Some y"
| "lock_sys_exec cstep grants frees ((c, ev) # evs) y =
     (case lock_sys_step cstep grants frees c ev y of
        None \<Rightarrow> None | Some y \<Rightarrow> lock_sys_exec cstep grants frees evs y)"

lemma lock_sys_exec_reach:
  "lock_sys_reach cstep grants frees s0 y \<Longrightarrow> lock_sys_exec cstep grants frees evs y = Some y' \<Longrightarrow>
    lock_sys_reach cstep grants frees s0 y'"
  by (induction cstep grants frees evs y rule: lock_sys_exec.induct)
    (auto split: option.splits intro: lock_sys_reach.step)

section \<open>The contract of a caching client\<close>

text \<open>
  \<open>tokens s l\<close> is the number of places in client \<open>s\<close> where lock \<open>l\<close> is: with a thread, in the table,
  on its way back to the server. It grows only when the server grants the lock, and shrinks when the
  server executes a release. \<open>holders s l\<close> are the threads that are between \<open>acquire\<close> and \<open>release\<close>.
\<close>

locale lock_cache =
  fixes cstep :: "'e \<Rightarrow> 's \<Rightarrow> 's option"
    and grants :: "'e \<Rightarrow> 's \<Rightarrow> 'l option"
    and frees :: "'e \<Rightarrow> 's \<Rightarrow> 'l option"
    and tokens :: "'s \<Rightarrow> 'l \<Rightarrow> nat"
    and holders :: "'s \<Rightarrow> 'l \<Rightarrow> nat set"
    and s0 :: 's
  assumes tokens_start: "tokens s0 l = 0"
    and tokens_step: "cstep ev s = Some s' \<Longrightarrow>
      tokens s' l + (if frees ev s = Some l then 1 else 0) \<le> tokens s l + (if grants ev s = Some l then 1 else 0)"
    and not_both: "grants ev s = None \<or> frees ev s = None"
    and holders_tokens: "finite (holders s l) \<and> card (holders s l) \<le> tokens s l"
begin

lemma token_owner:
  assumes "lock_sys_reach cstep grants frees s0 y"
  shows "tokens (ls_client y c) l \<le> (if ls_owner y l = Some c then 1 else 0)"
  using assms
proof (induction arbitrary: c l)
  case start
  show ?case by (simp add: lock_sys_start_def tokens_start)
next
  case (step y d ev y')
  then obtain s where s: "cstep ev (ls_client y d) = Some s" and c': "ls_client y' = (ls_client y)(d := s)"
    by (auto simp: lock_sys_step_def Let_def split: option.splits if_splits)
  note t = tokens_step [OF s, of l]
  consider (grant) g where "grants ev (ls_client y d) = Some g" "ls_owner y g = None" "ls_owner y' = (ls_owner y)(g \<mapsto> d)"
        "frees ev (ls_client y d) = None"
    | (free) f where "grants ev (ls_client y d) = None" "frees ev (ls_client y d) = Some f"
        "ls_owner y' = (if ls_owner y f = Some d then (ls_owner y)(f := None) else ls_owner y)"
    | (other) "grants ev (ls_client y d) = None" "frees ev (ls_client y d) = None" "ls_owner y' = ls_owner y"
    using step.hyps(2) s not_both [of ev "ls_client y d"]
    by (auto simp: lock_sys_step_def Let_def split: option.splits if_splits)
  then show ?case
  proof cases
    case grant
    then show ?thesis using t step.IH [of c l] step.IH [of d l] c' by (cases "c = d"; cases "l = g") auto
  next
    case free
    then show ?thesis using t step.IH [of c l] step.IH [of d l] c'
      by (cases "c = d"; cases "l = f"; cases "ls_owner y f = Some d") (auto split: if_splits)
  next
    case other
    then show ?thesis using t step.IH [of c l] c' by (cases "c = d") auto
  qed
qed

lemma mutual_exclusion:
  assumes "lock_sys_reach cstep grants frees s0 y" "t \<in> holders (ls_client y c) l" "t' \<in> holders (ls_client y c') l"
  shows "c = c' \<and> t = t' \<and> ls_owner y l = Some c"
proof -
  have pos: "0 < tokens (ls_client y d) l" if "u \<in> holders (ls_client y d) l" for d u
  proof -
    have "0 < card (holders (ls_client y d) l)" using that holders_tokens by (auto simp: card_gt_0_iff)
    then show ?thesis using holders_tokens by (meson less_le_trans)
  qed
  have o: "ls_owner y l = Some c" "ls_owner y l = Some c'"
    using pos [OF assms(2)] pos [OF assms(3)] token_owner [OF assms(1), of c l] token_owner [OF assms(1), of c' l]
    by (auto split: if_splits)
  then have "c = c'" by simp
  have "card (holders (ls_client y c) l) \<le> Suc 0"
    using token_owner [OF assms(1), of c l] holders_tokens [of "ls_client y c" l] o(1) by simp
  then have "t = t'"
    using assms(2,3) holders_tokens [of "ls_client y c" l] \<open>c = c'\<close> by (simp add: card_le_Suc0_iff_eq)
  then show ?thesis using o \<open>c = c'\<close> by simp
qed

end

end
