(* ===== verification/Lock_Cache.thy ===== *)
theory Lock_Cache
  imports Lock_Client
begin

text \<open>
  The lock client that caches locks of the plain lock server: class \<open>lock_client_cache\<close> of
  src/lock_client/lock_client_cache.cc. It is modelled like the one of theory \<open>Lock_Cache_Rsm\<close>. It has
  no sequence numbers, no releaser and no time-out; \<open>revoke_handler\<close> itself calls the server.
\<close>

section \<open>State\<close>

record lock_rec =
  lk_revoked :: bool
  lk_retry :: bool
  lk_state :: ClientLockState

type_synonym 'l lock_table = "'l \<rightharpoonup> lock_rec"

definition lock_rec_new :: lock_rec where
  "lock_rec_new = \<lparr>lk_revoked = False, lk_retry = False, lk_state = NONE\<rparr>"

definition lock_rec_at :: "'l \<Rightarrow> 'l lock_table \<Rightarrow> lock_rec" where
  "lock_rec_at lid s = (case s lid of None \<Rightarrow> lock_rec_new | Some k \<Rightarrow> k)"

section \<open>Operations\<close>

text \<open>
  One round of the loop of \<open>acquire\<close>. In the case ACQUIRING \<open>retry_\<close> is cleared only after \<open>mutex_\<close> was
  given up (\<open>cache_send\<close>).
\<close>

definition cache_acquire_loop :: "lock_protocol \<Rightarrow> 'l \<Rightarrow> 'l lock_table \<Rightarrow> acq_out \<times> 'l lock_table" where
  "cache_acquire_loop P lid s =
     (let k = lock_rec_at lid s in
      case lk_state k of
        NONE \<Rightarrow> (Acq_call True, s(lid \<mapsto> k\<lparr>lk_state := ACQUIRING, lk_retry := False\<rparr>))
      | FREE \<Rightarrow> (Acq_return (lock_OK P), s(lid \<mapsto> k\<lparr>lk_state := LOCKED\<rparr>))
      | LOCKED \<Rightarrow> (Acq_wait, s)
      | ACQUIRING \<Rightarrow> if \<not> lk_retry k then (Acq_wait, s) else (Acq_call False, s)
      | RELEASING \<Rightarrow> (Acq_wait_release, s))"

definition cache_acquire :: "lock_protocol \<Rightarrow> 'l \<Rightarrow> 'l lock_table \<Rightarrow> acq_out \<times> 'l lock_table" where
  "cache_acquire P lid s = cache_acquire_loop P lid (if s lid = None then s(lid \<mapsto> lock_rec_new) else s)"

definition cache_send :: "'l \<Rightarrow> 'l lock_table \<Rightarrow> 'l lock_table" where
  "cache_send lid s = s(lid \<mapsto> (lock_rec_at lid s)\<lparr>lk_retry := False\<rparr>)"

definition cache_acquire_reply :: "lock_protocol \<Rightarrow> bool \<Rightarrow> cint \<Rightarrow> 'l \<Rightarrow> 'l lock_table \<Rightarrow> acq_out \<times> 'l lock_table" where
  "cache_acquire_reply P first ret lid s =
     (let k = lock_rec_at lid s in
      if first then
        if ret = lock_RETRY P then (if \<not> lk_retry k then (Acq_wait_retry, s) else cache_acquire_loop P lid s)
        else if ret = lock_OK P then (Acq_return (lock_OK P), s(lid \<mapsto> k\<lparr>lk_state := LOCKED\<rparr>))
        else cache_acquire_loop P lid s
      else
        if ret = lock_OK P then (Acq_return ret, s(lid \<mapsto> k\<lparr>lk_state := LOCKED\<rparr>))
        else if ret = lock_RETRY P then (if \<not> lk_retry k then (Acq_wait_retry, s) else cache_acquire_loop P lid s)
        else cache_acquire_loop P lid s)"

text \<open>
  \<open>None\<close> is a call of \<open>dorelease\<close> and then of the server, \<open>Some\<close> a return. \<open>lu\<close> says whether there is a
  \<open>lock_release_user\<close>; without one the call goes through a null pointer.
\<close>

definition cache_release :: "lock_protocol \<Rightarrow> bool \<Rightarrow> 'l \<Rightarrow> 'l lock_table \<Rightarrow> (cint option \<times> 'l lock_table) result" where
  "cache_release P lu lid s =
     (case s lid of
        None \<Rightarrow> Inr (Some (lock_NOENT P), s)
      | Some k \<Rightarrow>
          if lk_revoked k then
            if lu then Inr (None, s(lid \<mapsto> k\<lparr>lk_revoked := False, lk_state := RELEASING\<rparr>)) else Inl Undefined
          else Inr (Some (lock_OK P), s(lid \<mapsto> k\<lparr>lk_state := FREE\<rparr>)))"

definition cache_release_reply :: "'l \<Rightarrow> 'l lock_table \<Rightarrow> 'l lock_table" where
  "cache_release_reply lid s = s(lid \<mapsto> (lock_rec_at lid s)\<lparr>lk_state := NONE\<rparr>)"

definition cache_revoke :: "lock_protocol \<Rightarrow> bool \<Rightarrow> 'l \<Rightarrow> 'l lock_table \<Rightarrow> (cint option \<times> 'l lock_table) result" where
  "cache_revoke P lu lid s =
     (case s lid of
        None \<Rightarrow> Inr (Some (rlock_RPCERR P), s)
      | Some k \<Rightarrow>
          if lk_state k = NONE then Inr (Some (rlock_RPCERR P), s)
          else if lk_state k = FREE then
            if lu then Inr (None, s(lid \<mapsto> k\<lparr>lk_state := RELEASING\<rparr>)) else Inl Undefined
          else Inr (Some (rlock_OK P), s(lid \<mapsto> k\<lparr>lk_revoked := True\<rparr>)))"

definition cache_revoke_reply :: "lock_protocol \<Rightarrow> cint \<Rightarrow> 'l \<Rightarrow> 'l lock_table \<Rightarrow> cint \<times> 'l lock_table" where
  "cache_revoke_reply P ret lid s =
     (if ret \<noteq> lock_OK P then (lock_RPCERR P, s)
      else (ret, s(lid \<mapsto> (lock_rec_at lid s)\<lparr>lk_state := NONE\<rparr>)))"

definition cache_retry :: "lock_protocol \<Rightarrow> 'l \<Rightarrow> 'l lock_table \<Rightarrow> cint \<times> 'l lock_table" where
  "cache_retry P lid s =
     (case s lid of
        None \<Rightarrow> (rlock_RPCERR P, s)
      | Some k \<Rightarrow> (rlock_OK P, s(lid \<mapsto> k\<lparr>lk_retry := True\<rparr>)))"

section \<open>Threads\<close>

text \<open>
  The threads include those that run \<open>revoke_handler\<close>. There is no step where the program would go
  through a null pointer.
\<close>

type_synonym 'l lock_cache_run = "'l lock_table \<times> 'l lock_pc list"

datatype 'l lock_cache_ev =
    C_acquire nat 'l
  | C_send nat
  | C_grant nat
  | C_reply nat cint
  | C_wake nat
  | C_release nat
  | C_free nat
  | C_release_reply nat
  | C_revoke nat 'l
  | C_revoke_reply nat cint
  | C_retry 'l

definition cache_pc :: "nat \<Rightarrow> 'l lock_cache_run \<Rightarrow> 'l lock_pc option" where
  "cache_pc t r = (if t < length (snd r) then Some (snd r ! t) else None)"

definition cache_goto :: "nat \<Rightarrow> 'l lock_pc \<Rightarrow> 'l lock_table \<Rightarrow> 'l lock_cache_run \<Rightarrow> 'l lock_cache_run" where
  "cache_goto t pc s r = (s, (snd r)[t := pc])"

fun cache_acq_pc :: "'l \<Rightarrow> acq_out \<Rightarrow> 'l lock_pc" where
  "cache_acq_pc l (Acq_call False) = L_send l"
| "cache_acq_pc l out = acq_pc l out"

definition cache_acq :: "nat \<Rightarrow> 'l \<Rightarrow> acq_out \<times> 'l lock_table \<Rightarrow> 'l lock_cache_run \<Rightarrow> 'l lock_cache_run" where
  "cache_acq t l out r = cache_goto t (cache_acq_pc l (fst out)) (snd out) r"

fun lock_cache_step :: "lock_protocol \<Rightarrow> bool \<Rightarrow> 'l lock_cache_ev \<Rightarrow> 'l lock_cache_run \<Rightarrow> 'l lock_cache_run option" where
  "lock_cache_step P lu (C_acquire t l) r =
     (if cache_pc t r = Some L_idle then Some (cache_acq t l (cache_acquire P l (fst r)) r) else None)"
| "lock_cache_step P lu (C_send t) r =
     (case cache_pc t r of
        Some (L_send l) \<Rightarrow> Some (cache_goto t (L_call l False) (cache_send l (fst r)) r)
      | _ \<Rightarrow> None)"
| "lock_cache_step P lu (C_grant t) r =
     (case cache_pc t r of
        Some (L_call l first) \<Rightarrow> Some (cache_goto t (L_granted l first) (fst r) r)
      | _ \<Rightarrow> None)"
| "lock_cache_step P lu (C_reply t ret) r =
     (case cache_pc t r of
        Some (L_call l first) \<Rightarrow>
          if ret = lock_OK P then None else Some (cache_acq t l (cache_acquire_reply P first ret l (fst r)) r)
      | Some (L_granted l first) \<Rightarrow> Some (cache_acq t l (cache_acquire_reply P first ret l (fst r)) r)
      | _ \<Rightarrow> None)"
| "lock_cache_step P lu (C_wake t) r =
     (case cache_pc t r of
        Some (L_wait_retry l) \<Rightarrow> Some (cache_acq t l (cache_acquire_loop P l (fst r)) r)
      | Some (L_wait l) \<Rightarrow> Some (cache_acq t l (cache_acquire_loop P l (fst r)) r)
      | Some (L_wait_release l) \<Rightarrow> Some (cache_acq t l (cache_acquire_loop P l (fst r)) r)
      | _ \<Rightarrow> None)"
| "lock_cache_step P lu (C_release t) r =
     (case cache_pc t r of
        Some (L_hold l) \<Rightarrow>
          (case cache_release P lu l (fst r) of
             Inl _ \<Rightarrow> None
           | Inr (Some ret, s) \<Rightarrow> Some (cache_goto t L_idle s r)
           | Inr (None, s) \<Rightarrow> Some (cache_goto t (L_rel l) s r))
      | _ \<Rightarrow> None)"
| "lock_cache_step P lu (C_free t) r =
     (case cache_pc t r of
        Some (L_rel l) \<Rightarrow> Some (cache_goto t (L_freed l) (fst r) r)
      | Some (L_revoke l) \<Rightarrow> Some (cache_goto t (L_revoked l) (fst r) r)
      | _ \<Rightarrow> None)"
| "lock_cache_step P lu (C_release_reply t) r =
     (case cache_pc t r of
        Some (L_rel l) \<Rightarrow> Some (cache_goto t L_idle (cache_release_reply l (fst r)) r)
      | Some (L_freed l) \<Rightarrow> Some (cache_goto t L_idle (cache_release_reply l (fst r)) r)
      | _ \<Rightarrow> None)"
| "lock_cache_step P lu (C_revoke t l) r =
     (if cache_pc t r = Some L_idle then
        case cache_revoke P lu l (fst r) of
          Inl _ \<Rightarrow> None
        | Inr (Some ret, s) \<Rightarrow> Some (cache_goto t L_idle s r)
        | Inr (None, s) \<Rightarrow> Some (cache_goto t (L_revoke l) s r)
      else None)"
| "lock_cache_step P lu (C_revoke_reply t ret) r =
     (case cache_pc t r of
        Some (L_revoke l) \<Rightarrow> Some (cache_goto t L_idle (snd (cache_revoke_reply P ret l (fst r))) r)
      | Some (L_revoked l) \<Rightarrow> Some (cache_goto t L_idle (snd (cache_revoke_reply P ret l (fst r))) r)
      | _ \<Rightarrow> None)"
| "lock_cache_step P lu (C_retry l) r = Some (snd (cache_retry P l (fst r)), snd r)"

definition lock_cache_start :: "nat \<Rightarrow> 'l lock_cache_run" where
  "lock_cache_start n = (Map.empty, replicate n L_idle)"

fun cache_grants :: "'l lock_cache_ev \<Rightarrow> 'l lock_cache_run \<Rightarrow> 'l option" where
  "cache_grants (C_grant t) r = (case cache_pc t r of Some (L_call l first) \<Rightarrow> Some l | _ \<Rightarrow> None)"
| "cache_grants _ r = None"

fun cache_frees :: "'l lock_cache_ev \<Rightarrow> 'l lock_cache_run \<Rightarrow> 'l option" where
  "cache_frees (C_free t) r =
     (case cache_pc t r of Some (L_rel l) \<Rightarrow> Some l | Some (L_revoke l) \<Rightarrow> Some l | _ \<Rightarrow> None)"
| "cache_frees _ r = None"

section \<open>Where a lock is\<close>

definition table_token :: "'l \<Rightarrow> 'l lock_table \<Rightarrow> nat" where
  "table_token l s = (case s l of None \<Rightarrow> 0 | Some k \<Rightarrow> if lk_state k = FREE then 1 else 0)"

definition cache_tokens :: "'l lock_cache_run \<Rightarrow> 'l \<Rightarrow> nat" where
  "cache_tokens r l = table_token l (fst r) + sum_list (map (pc_token l) (snd r))"

definition cache_holders :: "'l lock_cache_run \<Rightarrow> 'l \<Rightarrow> nat set" where
  "cache_holders r l = {t. cache_pc t r = Some (L_hold l)}"

lemma cache_acq_token [simp]: "pc_token l (cache_acq_pc l' out) = pc_token l (acq_pc l' out)"
  by (cases "(l', out)" rule: cache_acq_pc.cases) auto

lemma cache_loop_token:
  assumes "cache_acquire_loop P l' s = (out, s')"
  shows "table_token l s' + pc_token l (acq_pc l' out) \<le> table_token l s"
  using assms
  by (cases "s l'") (auto simp: cache_acquire_loop_def lock_rec_at_def Let_def lock_rec_new_def table_token_def
      split: ClientLockState.splits if_splits option.splits)

lemma cache_acquire_token:
  assumes "cache_acquire P l' s = (out, s')"
  shows "table_token l s' + pc_token l (acq_pc l' out) \<le> table_token l s"
proof -
  have "table_token l (if s l' = None then s(l' \<mapsto> lock_rec_new) else s) = table_token l s"
    by (auto simp: table_token_def lock_rec_new_def)
  then show ?thesis using cache_loop_token [OF assms [unfolded cache_acquire_def], of l] by simp
qed

lemma cache_reply_token:
  assumes "cache_acquire_reply P first ret l' s = (out, s')"
  shows "table_token l s' + pc_token l (acq_pc l' out) \<le>
    table_token l s + (if ret = lock_OK P \<and> l' = l then 1 else 0)"
proof -
  have "(out = Acq_wait_retry \<and> s' = s) \<or> cache_acquire_loop P l' s = (out, s') \<or>
      (ret = lock_OK P \<and> out = Acq_return (lock_OK P) \<and> s' = s(l' \<mapsto> (lock_rec_at l' s)\<lparr>lk_state := LOCKED\<rparr>))"
    using assms unfolding cache_acquire_reply_def Let_def
    by (cases first; cases "ret = lock_OK P"; cases "ret = lock_RETRY P"; cases "lk_retry (lock_rec_at l' s)") simp_all
  then show ?thesis
  proof (elim disjE)
    assume "cache_acquire_loop P l' s = (out, s')"
    from cache_loop_token [OF this, of l] show ?thesis by simp
  qed (auto simp: table_token_def)
qed

lemma send_token: "table_token l (cache_send l' s) = table_token l s"
  by (cases "s l'") (auto simp: cache_send_def lock_rec_at_def lock_rec_new_def table_token_def)

lemma cache_release_token:
  assumes "cache_release P lu l' s = Inr (out, s')"
  shows "table_token l s' + (if l' = l \<and> out = None then 1 else 0) \<le> table_token l s + (if l' = l then 1 else 0)"
  using assms by (auto simp: cache_release_def table_token_def split: option.splits if_splits)

lemma none_token: "table_token l (s(l' \<mapsto> k\<lparr>lk_state := NONE\<rparr>)) \<le> table_token l s"
  by (auto simp: table_token_def)

lemma cache_revoke_token:
  assumes "cache_revoke P lu l' s = Inr (out, s')"
  shows "table_token l s' + (if l' = l \<and> out = None then 1 else 0) \<le> table_token l s"
  using assms by (auto simp: cache_revoke_def table_token_def split: option.splits if_splits)

lemma revoke_reply_token: "table_token l (snd (cache_revoke_reply P ret l' s)) \<le> table_token l s"
  by (simp add: cache_revoke_reply_def none_token)

lemma cache_retry_token: "table_token l (snd (cache_retry P l' s)) = table_token l s"
  by (auto simp: cache_retry_def table_token_def split: option.splits)

lemma cache_goto_le:
  assumes "cache_pc t r = Some pc" "table_token l s + pc_token l pc' + f \<le> table_token l (fst r) + pc_token l pc + g"
  shows "cache_tokens (cache_goto t pc' s r) l + f \<le> cache_tokens r l + g"
proof -
  have "t < length (snd r)" "snd r ! t = pc" using assms(1) by (auto simp: cache_pc_def split: if_splits)
  from thread_tokens_update [OF this(1), of l pc'] this(2) assms(2) show ?thesis
    by (simp add: cache_tokens_def cache_goto_def)
qed

lemma cache_acq_le:
  assumes "cache_pc t r = Some pc"
    and "table_token l (snd x) + pc_token l (acq_pc l' (fst x)) \<le> table_token l (fst r) + pc_token l pc"
  shows "cache_tokens (cache_acq t l' x r) l \<le> cache_tokens r l"
  using cache_goto_le [OF assms(1), of l "snd x" "cache_acq_pc l' (fst x)" 0 0] assms(2)
  by (simp add: cache_acq_def)

text \<open>Every step keeps the account.\<close>

lemma cache_tokens_step:
  assumes "lock_cache_step P lu ev r = Some r'"
  shows "cache_tokens r' l + (if cache_frees ev r = Some l then 1 else 0) \<le>
    cache_tokens r l + (if cache_grants ev r = Some l then 1 else 0)"
proof (cases ev)
  case (C_acquire t l')
  then have pc: "cache_pc t r = Some L_idle" "r' = cache_acq t l' (cache_acquire P l' (fst r)) r"
    using assms by (auto split: if_splits)
  then show ?thesis using C_acquire cache_acq_le [OF pc(1), of l "cache_acquire P l' (fst r)" l']
      cache_acquire_token [of P l' "fst r" "fst (cache_acquire P l' (fst r))"] by simp
next
  case (C_send t)
  then obtain l' where pc: "cache_pc t r = Some (L_send l')" "r' = cache_goto t (L_call l' False) (cache_send l' (fst r)) r"
    using assms by (auto split: option.splits lock_pc.splits)
  then show ?thesis using C_send cache_goto_le [OF pc(1), of l "cache_send l' (fst r)" "L_call l' False" 0 0]
    by (simp add: send_token)
next
  case (C_grant t)
  then obtain l' first where pc: "cache_pc t r = Some (L_call l' first)" "r' = cache_goto t (L_granted l' first) (fst r) r"
    using assms by (auto split: option.splits lock_pc.splits)
  then show ?thesis
    using C_grant cache_goto_le [OF pc(1), of l "fst r" "L_granted l' first" 0 "if l' = l then 1 else 0"] by auto
next
  case (C_reply t ret)
  then obtain l' first pc where pc: "cache_pc t r = Some pc" "pc = L_call l' first \<and> ret \<noteq> lock_OK P \<or> pc = L_granted l' first"
      "r' = cache_acq t l' (cache_acquire_reply P first ret l' (fst r)) r"
    using assms by (auto split: option.splits lock_pc.splits if_splits)
  have "cache_tokens r' l \<le> cache_tokens r l" unfolding pc(3)
    using cache_reply_token [of P first ret l' "fst r" "fst (cache_acquire_reply P first ret l' (fst r))"
        "snd (cache_acquire_reply P first ret l' (fst r))" l] pc(2)
    by (intro cache_acq_le [OF pc(1)]) (auto split: if_splits)
  then show ?thesis using C_reply by simp
next
  case (C_wake t)
  then obtain pc l' where pc: "cache_pc t r = Some pc" "pc_token l pc = 0"
      "r' = cache_acq t l' (cache_acquire_loop P l' (fst r)) r"
    using assms by (auto split: option.splits lock_pc.splits)
  then show ?thesis using C_wake cache_acq_le [OF pc(1), of l "cache_acquire_loop P l' (fst r)" l']
      cache_loop_token [of P l' "fst r" "fst (cache_acquire_loop P l' (fst r))"] by simp
next
  case (C_release t)
  then obtain l' where pc: "cache_pc t r = Some (L_hold l')"
    using assms by (auto split: option.splits lock_pc.splits)
  obtain out s where o: "cache_release P lu l' (fst r) = Inr (out, s)"
    using assms C_release pc by (auto split: sum.splits)
  have r': "r' = cache_goto t (if out = None then L_rel l' else L_idle) s r"
    using assms C_release pc o by (auto split: option.splits)
  have "cache_tokens r' l + 0 \<le> cache_tokens r l + 0" unfolding r'
    by (rule cache_goto_le [OF pc]) (use cache_release_token [OF o, of l] in \<open>auto split: if_splits\<close>)
  then show ?thesis using C_release by simp
next
  case (C_free t)
  then obtain pc l' pc' where pc: "cache_pc t r = Some pc" "pc_token l pc = (if l' = l then 1 else 0)"
      "r' = cache_goto t pc' (fst r) r" "pc_token l pc' = 0" "cache_frees ev r = Some l'"
    using assms by (auto split: option.splits lock_pc.splits)
  then show ?thesis
    using C_free cache_goto_le [OF pc(1), of l "fst r" pc' "if l' = l then 1 else 0" 0] by auto
next
  case (C_release_reply t)
  then obtain pc l' where pc: "cache_pc t r = Some pc" "r' = cache_goto t L_idle (cache_release_reply l' (fst r)) r"
    using assms by (auto split: option.splits lock_pc.splits)
  then show ?thesis using C_release_reply cache_goto_le [OF pc(1), of l "cache_release_reply l' (fst r)" L_idle 0 0]
      none_token [of l "fst r" l'] by (simp add: cache_release_reply_def trans_le_add1)
next
  case (C_revoke t l')
  then have pc: "cache_pc t r = Some L_idle" using assms by (auto split: if_splits)
  obtain out s where o: "cache_revoke P lu l' (fst r) = Inr (out, s)"
    using assms C_revoke pc by (auto split: sum.splits)
  have r': "r' = cache_goto t (if out = None then L_revoke l' else L_idle) s r"
    using assms C_revoke pc o by (auto split: option.splits)
  have "cache_tokens r' l + 0 \<le> cache_tokens r l + 0" unfolding r'
    by (rule cache_goto_le [OF pc]) (use cache_revoke_token [OF o, of l] in \<open>auto split: if_splits\<close>)
  then show ?thesis using C_revoke by simp
next
  case (C_revoke_reply t ret)
  then obtain pc l' where pc: "cache_pc t r = Some pc" "r' = cache_goto t L_idle (snd (cache_revoke_reply P ret l' (fst r))) r"
    using assms by (auto split: option.splits lock_pc.splits)
  then show ?thesis using C_revoke_reply
      cache_goto_le [OF pc(1), of l "snd (cache_revoke_reply P ret l' (fst r))" L_idle 0 0]
      revoke_reply_token [of l P ret l' "fst r"] by (simp add: trans_le_add1)
next
  case (C_retry l')
  then show ?thesis using assms by (auto simp: cache_tokens_def cache_retry_token)
qed

lemma cache_tokens_start: "cache_tokens (lock_cache_start n) l = 0"
  by (simp add: cache_tokens_def lock_cache_start_def table_token_def sum_list_replicate)

lemma cache_not_both: "cache_grants ev r = None \<or> cache_frees ev r = None"
  by (cases ev) auto

lemma cache_holders_le: "finite (cache_holders r l) \<and> card (cache_holders r l) \<le> cache_tokens r l"
proof -
  have h: "cache_holders r l = {t. t < length (snd r) \<and> snd r ! t = L_hold l}"
    by (auto simp: cache_holders_def cache_pc_def split: if_splits)
  show ?thesis unfolding h using card_hold_tokens [of "snd r" l] by (simp add: cache_tokens_def)
qed

interpretation plain_locks: lock_cache "lock_cache_step P lu" cache_grants cache_frees cache_tokens cache_holders
  "lock_cache_start n" for P lu n
  by unfold_locales (rule cache_tokens_start cache_tokens_step cache_not_both cache_holders_le; assumption?)+

section \<open>Properties\<close>

text \<open>
  C16. Mutual exclusion of the locks that the plain caching client keeps, under the same conditions: at
  most one thread of one client has a lock, and the server has granted the lock to its client. Here
  the threads that run \<open>revoke_handler\<close> give locks back themselves.
\<close>

theorem plain_locks_exclusive:
  assumes "lock_sys_reach (lock_cache_step P lu) cache_grants cache_frees (lock_cache_start n) y"
    and "cache_pc t (ls_client y c) = Some (L_hold l)" "cache_pc t' (ls_client y c') = Some (L_hold l)"
  shows "c = c' \<and> t = t' \<and> ls_owner y l = Some c"
  using plain_locks.mutual_exclusion [OF assms(1), of t c l t' c'] assms(2,3)
  by (simp add: cache_holders_def)

text \<open>
  Client 0 releases lock 7 into its cache; the server asks for it on behalf of client 1, the handler
  gives it back, and client 1 gets it.
\<close>

definition plain_protocol :: lock_protocol where
  "plain_protocol = \<lparr>lock_OK = 0, lock_RETRY = 1, lock_NOENT = 2, lock_RPCERR = 3, rlock_OK = 0, rlock_RPCERR = 1\<rparr>"

definition plain_exec :: "(nat, nat, nat lock_cache_run) lock_sys option" where
  "plain_exec =
     lock_sys_exec (lock_cache_step plain_protocol True) cache_grants cache_frees
       [(0, C_acquire 0 7), (0, C_grant 0), (0, C_reply 0 0), (0, C_release 0), (1, C_acquire 0 7), (1, C_reply 0 1),
        (0, C_revoke 1 7), (0, C_free 1), (1, C_retry 7), (1, C_wake 0), (1, C_send 0), (1, C_grant 0),
        (0, C_revoke_reply 1 0), (1, C_reply 0 0)]
       (lock_sys_start (lock_cache_start 2))"

theorem plain_locks_exclusive_witness:
  "\<exists>y. plain_exec = Some y \<and> cache_pc 0 (ls_client y 1) = Some (L_hold 7) \<and> ls_owner y 7 = Some 1"
proof -
  have "case plain_exec of None \<Rightarrow> False | Some y \<Rightarrow> cache_pc 0 (ls_client y 1) = Some (L_hold 7)"
    by code_simp
  then obtain y where y: "plain_exec = Some y" "cache_pc 0 (ls_client y 1) = Some (L_hold 7)"
    by (auto split: option.splits)
  from lock_sys_exec_reach [OF lock_sys_reach.start y(1) [unfolded plain_exec_def]]
  have "lock_sys_reach (lock_cache_step plain_protocol True) cache_grants cache_frees (lock_cache_start 2) y" .
  from plain_locks_exclusive [OF this y(2) y(2)] y show ?thesis by blast
qed

end
