(* ===== verification/Lock_Cache_Rsm.thy ===== *)
theory Lock_Cache_Rsm
  imports Lock_Client Thr_Pool
begin

text \<open>
  The lock client that caches locks of the replicated lock service: class \<open>lock_client_cache_rsm\<close>
  of src/lock_client/lock_client_cache_rsm.cc. Each section of a method between two points where it
  gives up \<open>mutex_\<close> is one function; what it does next is its outcome. A condition variable is a
  place to wait at: a waiting thread may go on at any time, and looks at the state again. Sequence
  numbers are of any type with \<open>0\<close>, \<open>1\<close> and \<open>+\<close>.
\<close>

section \<open>State\<close>

record 'x client_lock =
  revoked :: bool
  retry :: bool
  lstate :: ClientLockState
  lxid :: 'x

record ('l, 'x) lock_client_rsm =
  lock_table :: "'l \<rightharpoonup> 'x client_lock"
  lc_xid :: 'x
  release_queue :: "('l \<times> 'x) fifo"

definition client_lock_new :: "'x::zero client_lock" where
  "client_lock_new = \<lparr>revoked = False, retry = False, lstate = NONE, lxid = 0\<rparr>"

definition lock_client_rsm_new :: "('l, 'x::zero) lock_client_rsm" where
  "lock_client_rsm_new = \<lparr>lock_table = Map.empty, lc_xid = 0, release_queue = fifo_new 0\<rparr>"

text \<open>\<open>lock_table_[lid]\<close>: a new lock where there is none.\<close>

definition lock_at :: "'l \<Rightarrow> ('l, 'x::zero) lock_client_rsm \<Rightarrow> 'x client_lock" where
  "lock_at lid s = (case lock_table s lid of None \<Rightarrow> client_lock_new | Some k \<Rightarrow> k)"

definition set_lock :: "'l \<Rightarrow> 'x client_lock \<Rightarrow> ('l, 'x) lock_client_rsm \<Rightarrow> ('l, 'x) lock_client_rsm" where
  "set_lock lid k s = s\<lparr>lock_table := (lock_table s)(lid \<mapsto> k)\<rparr>"

section \<open>Acquire\<close>

text \<open>One round of the loop, from its head.\<close>

definition acquire_loop :: "lock_protocol \<Rightarrow> 'l \<Rightarrow> ('l, 'x::{zero, one, plus}) lock_client_rsm \<Rightarrow>
    acq_out \<times> ('l, 'x) lock_client_rsm" where
  "acquire_loop P lid s =
     (let k = lock_at lid s in
      case lstate k of
        NONE \<Rightarrow>
          (Acq_call True,
           set_lock lid (k\<lparr>lstate := ACQUIRING, retry := False, lxid := lc_xid s\<rparr>) (s\<lparr>lc_xid := lc_xid s + 1\<rparr>))
      | FREE \<Rightarrow> (Acq_return (lock_OK P), set_lock lid (k\<lparr>lstate := LOCKED\<rparr>) s)
      | LOCKED \<Rightarrow> (Acq_wait, s)
      | ACQUIRING \<Rightarrow>
          if \<not> retry k then (Acq_wait, s)
          else
            (Acq_call False, set_lock lid (k\<lparr>retry := False, lxid := lc_xid s\<rparr>) (s\<lparr>lc_xid := lc_xid s + 1\<rparr>))
      | RELEASING \<Rightarrow> (Acq_wait_release, s))"

definition acquire_enter :: "lock_protocol \<Rightarrow> 'l \<Rightarrow> ('l, 'x::{zero, one, plus}) lock_client_rsm \<Rightarrow>
    acq_out \<times> ('l, 'x) lock_client_rsm" where
  "acquire_enter P lid s =
     acquire_loop P lid (if lock_table s lid = None then set_lock lid client_lock_new s else s)"

text \<open>The sequence number that the RPC sends: it is read after \<open>mutex_\<close> was given up.\<close>

definition acquire_arg :: "'l \<Rightarrow> ('l, 'x::zero) lock_client_rsm \<Rightarrow> 'x" where
  "acquire_arg lid s = lxid (lock_at lid s)"

text \<open>After the RPC: the rest of the case NONE (\<open>first\<close>) or ACQUIRING.\<close>

definition acquire_reply :: "lock_protocol \<Rightarrow> bool \<Rightarrow> cint \<Rightarrow> 'l \<Rightarrow> ('l, 'x::{zero, one, plus}) lock_client_rsm \<Rightarrow>
    acq_out \<times> ('l, 'x) lock_client_rsm" where
  "acquire_reply P first ret lid s =
     (let k = lock_at lid s in
      if first then
        if ret = lock_RETRY P then (if \<not> retry k then (Acq_wait_retry, s) else acquire_loop P lid s)
        else if ret = lock_OK P then (Acq_return (lock_OK P), set_lock lid (k\<lparr>lstate := LOCKED\<rparr>) s)
        else acquire_loop P lid s
      else
        if ret = lock_OK P then (Acq_return ret, set_lock lid (k\<lparr>lstate := LOCKED\<rparr>) s)
        else if ret = lock_RETRY P then (if \<not> retry k then (Acq_wait_retry, s) else acquire_loop P lid s)
        else acquire_loop P lid s)"

text \<open>The wait of three seconds ends without a notification.\<close>

definition acquire_timeout :: "lock_protocol \<Rightarrow> 'l \<Rightarrow> ('l, 'x::{zero, one, plus}) lock_client_rsm \<Rightarrow>
    acq_out \<times> ('l, 'x) lock_client_rsm" where
  "acquire_timeout P lid s = acquire_loop P lid (set_lock lid ((lock_at lid s)\<lparr>retry := True\<rparr>) s)"

section \<open>Release and the handlers\<close>

text \<open>
  \<open>release\<close> returns at once, or calls \<open>dorelease\<close> and then the server with this sequence number.
\<close>

datatype 'x rel_out = Rel_return cint | Rel_call 'x

definition release :: "lock_protocol \<Rightarrow> 'l \<Rightarrow> ('l, 'x) lock_client_rsm \<Rightarrow> 'x rel_out \<times> ('l, 'x) lock_client_rsm" where
  "release P lid s =
     (case lock_table s lid of
        None \<Rightarrow> (Rel_return (lock_NOENT P), s)
      | Some k \<Rightarrow>
          if revoked k then (Rel_call (lxid k), set_lock lid (k\<lparr>revoked := False, lstate := RELEASING\<rparr>) s)
          else (Rel_return (lock_OK P), set_lock lid (k\<lparr>lstate := FREE\<rparr>) s))"

definition release_reply :: "'l \<Rightarrow> ('l, 'x::zero) lock_client_rsm \<Rightarrow> ('l, 'x) lock_client_rsm" where
  "release_reply lid s = set_lock lid ((lock_at lid s)\<lparr>lstate := NONE\<rparr>) s"

definition revoke_handler :: "lock_protocol \<Rightarrow> 'l \<Rightarrow> 'x \<Rightarrow> ('l, 'x) lock_client_rsm \<Rightarrow> cint \<times> ('l, 'x) lock_client_rsm" where
  "revoke_handler P lid xid s =
     (case lock_table s lid of
        None \<Rightarrow> (rlock_RPCERR P, s)
      | Some k \<Rightarrow>
          if lstate k = NONE then (rlock_RPCERR P, s)
          else if lxid k \<noteq> xid then (rlock_RPCERR P, s)
          else if lstate k = FREE then
            (rlock_OK P, (set_lock lid (k\<lparr>lstate := RELEASING\<rparr>) s)
               \<lparr>release_queue := snd (fifo_enq (lid, xid) True (release_queue s))\<rparr>)
          else (rlock_OK P, set_lock lid (k\<lparr>revoked := True\<rparr>) s))"

definition retry_handler :: "lock_protocol \<Rightarrow> 'l \<Rightarrow> 'x \<Rightarrow> ('l, 'x) lock_client_rsm \<Rightarrow> cint \<times> ('l, 'x) lock_client_rsm" where
  "retry_handler P lid xid s =
     (case lock_table s lid of
        None \<Rightarrow> (rlock_RPCERR P, s)
      | Some k \<Rightarrow> (rlock_OK P, set_lock lid (k\<lparr>retry := True\<rparr>) s))"

text \<open>The loop of \<open>releaser\<close>: up to its RPC (\<open>None\<close> while the queue is empty), and after it.\<close>

definition releaser_take :: "('l, 'x) lock_client_rsm \<Rightarrow> (('l \<times> 'x) \<times> ('l, 'x) lock_client_rsm) option" where
  "releaser_take s =
     (case fifo_deq (release_queue s) of
        (None, _) \<Rightarrow> None
      | (Some e, q) \<Rightarrow> Some (e, s\<lparr>release_queue := q\<rparr>))"

definition releaser_done :: "'l \<Rightarrow> ('l, 'x::zero) lock_client_rsm \<Rightarrow> ('l, 'x) lock_client_rsm" where
  "releaser_done lid s = set_lock lid ((lock_at lid s)\<lparr>lstate := NONE\<rparr>) s"

section \<open>Threads\<close>

datatype 'l releaser_pc = R_idle | R_call 'l | R_freed 'l

record ('l, 'x) lock_client_run =
  lr_client :: "('l, 'x) lock_client_rsm"
  lr_threads :: "'l lock_pc list"
  lr_releaser :: "'l releaser_pc"

datatype ('l, 'x) lock_ev =
    E_acquire nat 'l
  | E_grant nat
  | E_reply nat cint
  | E_timeout nat
  | E_wake nat
  | E_release nat
  | E_free nat
  | E_release_reply nat
  | E_revoke 'l 'x
  | E_retry 'l 'x
  | E_take
  | E_take_free
  | E_take_reply

definition pc_at :: "nat \<Rightarrow> ('l, 'x) lock_client_run \<Rightarrow> 'l lock_pc option" where
  "pc_at t r = (if t < length (lr_threads r) then Some (lr_threads r ! t) else None)"

definition goto :: "nat \<Rightarrow> 'l lock_pc \<Rightarrow> ('l, 'x) lock_client_rsm \<Rightarrow> ('l, 'x) lock_client_run \<Rightarrow> ('l, 'x) lock_client_run" where
  "goto t pc s r = r\<lparr>lr_client := s, lr_threads := (lr_threads r)[t := pc]\<rparr>"

definition acq_goto :: "nat \<Rightarrow> 'l \<Rightarrow> acq_out \<times> ('l, 'x) lock_client_rsm \<Rightarrow> ('l, 'x) lock_client_run \<Rightarrow>
    ('l, 'x) lock_client_run" where
  "acq_goto t l out r = goto t (acq_pc l (fst out)) (snd out) r"

text \<open>
  A thread calls \<open>release\<close> for the lock it holds. The reply of an RPC is any code; it is OK for an
  acquire only if the server has granted the lock.
\<close>

fun lock_run_step :: "lock_protocol \<Rightarrow> ('l, 'x::{zero, one, plus}) lock_ev \<Rightarrow> ('l, 'x) lock_client_run \<Rightarrow>
    ('l, 'x) lock_client_run option" where
  "lock_run_step P (E_acquire t l) r =
     (if pc_at t r = Some L_idle then Some (acq_goto t l (acquire_enter P l (lr_client r)) r) else None)"
| "lock_run_step P (E_grant t) r =
     (case pc_at t r of
        Some (L_call l first) \<Rightarrow> Some (goto t (L_granted l first) (lr_client r) r)
      | _ \<Rightarrow> None)"
| "lock_run_step P (E_reply t ret) r =
     (case pc_at t r of
        Some (L_call l first) \<Rightarrow>
          if ret = lock_OK P then None else Some (acq_goto t l (acquire_reply P first ret l (lr_client r)) r)
      | Some (L_granted l first) \<Rightarrow> Some (acq_goto t l (acquire_reply P first ret l (lr_client r)) r)
      | _ \<Rightarrow> None)"
| "lock_run_step P (E_timeout t) r =
     (case pc_at t r of
        Some (L_wait_retry l) \<Rightarrow> Some (acq_goto t l (acquire_timeout P l (lr_client r)) r)
      | _ \<Rightarrow> None)"
| "lock_run_step P (E_wake t) r =
     (case pc_at t r of
        Some (L_wait_retry l) \<Rightarrow> Some (acq_goto t l (acquire_loop P l (lr_client r)) r)
      | Some (L_wait l) \<Rightarrow> Some (acq_goto t l (acquire_loop P l (lr_client r)) r)
      | Some (L_wait_release l) \<Rightarrow> Some (acq_goto t l (acquire_loop P l (lr_client r)) r)
      | _ \<Rightarrow> None)"
| "lock_run_step P (E_release t) r =
     (case pc_at t r of
        Some (L_hold l) \<Rightarrow>
          (case release P l (lr_client r) of
             (Rel_return ret, s) \<Rightarrow> Some (goto t L_idle s r)
           | (Rel_call xid, s) \<Rightarrow> Some (goto t (L_rel l) s r))
      | _ \<Rightarrow> None)"
| "lock_run_step P (E_free t) r =
     (case pc_at t r of
        Some (L_rel l) \<Rightarrow> Some (goto t (L_freed l) (lr_client r) r)
      | _ \<Rightarrow> None)"
| "lock_run_step P (E_release_reply t) r =
     (case pc_at t r of
        Some (L_rel l) \<Rightarrow> Some (goto t L_idle (release_reply l (lr_client r)) r)
      | Some (L_freed l) \<Rightarrow> Some (goto t L_idle (release_reply l (lr_client r)) r)
      | _ \<Rightarrow> None)"
| "lock_run_step P (E_revoke l xid) r = Some (r\<lparr>lr_client := snd (revoke_handler P l xid (lr_client r))\<rparr>)"
| "lock_run_step P (E_retry l xid) r = Some (r\<lparr>lr_client := snd (retry_handler P l xid (lr_client r))\<rparr>)"
| "lock_run_step P E_take r =
     (case (lr_releaser r, releaser_take (lr_client r)) of
        (R_idle, Some ((l, xid), s)) \<Rightarrow> Some (r\<lparr>lr_client := s, lr_releaser := R_call l\<rparr>)
      | _ \<Rightarrow> None)"
| "lock_run_step P E_take_free r =
     (case lr_releaser r of R_call l \<Rightarrow> Some (r\<lparr>lr_releaser := R_freed l\<rparr>) | _ \<Rightarrow> None)"
| "lock_run_step P E_take_reply r =
     (case lr_releaser r of
        R_call l \<Rightarrow> Some (r\<lparr>lr_client := releaser_done l (lr_client r), lr_releaser := R_idle\<rparr>)
      | R_freed l \<Rightarrow> Some (r\<lparr>lr_client := releaser_done l (lr_client r), lr_releaser := R_idle\<rparr>)
      | R_idle \<Rightarrow> None)"

definition lock_run_start :: "nat \<Rightarrow> ('l, 'x::zero) lock_client_run" where
  "lock_run_start n = \<lparr>lr_client = lock_client_rsm_new, lr_threads = replicate n L_idle, lr_releaser = R_idle\<rparr>"

text \<open>The moments at which the server acts.\<close>

fun run_grants :: "('l, 'x) lock_ev \<Rightarrow> ('l, 'x) lock_client_run \<Rightarrow> 'l option" where
  "run_grants (E_grant t) r = (case pc_at t r of Some (L_call l first) \<Rightarrow> Some l | _ \<Rightarrow> None)"
| "run_grants _ r = None"

fun run_frees :: "('l, 'x) lock_ev \<Rightarrow> ('l, 'x) lock_client_run \<Rightarrow> 'l option" where
  "run_frees (E_free t) r = (case pc_at t r of Some (L_rel l) \<Rightarrow> Some l | _ \<Rightarrow> None)"
| "run_frees E_take_free r = (case lr_releaser r of R_call l \<Rightarrow> Some l | _ \<Rightarrow> None)"
| "run_frees _ r = None"

section \<open>Where a lock is\<close>

fun releaser_token :: "'l \<Rightarrow> 'l releaser_pc \<Rightarrow> nat" where
  "releaser_token l (R_call l') = (if l' = l then 1 else 0)"
| "releaser_token l _ = 0"

definition client_token :: "'l \<Rightarrow> ('l, 'x) lock_client_rsm \<Rightarrow> nat" where
  "client_token l s =
     (case lock_table s l of None \<Rightarrow> 0 | Some k \<Rightarrow> if lstate k = FREE then 1 else 0) +
     count_list (map fst (fifo_q (release_queue s))) l"

definition run_tokens :: "('l, 'x) lock_client_run \<Rightarrow> 'l \<Rightarrow> nat" where
  "run_tokens r l =
     client_token l (lr_client r) + sum_list (map (pc_token l) (lr_threads r)) + releaser_token l (lr_releaser r)"

definition run_holders :: "('l, 'x) lock_client_run \<Rightarrow> 'l \<Rightarrow> nat set" where
  "run_holders r l = {t. pc_at t r = Some (L_hold l)}"

lemma client_token_new [simp]: "client_token l lock_client_rsm_new = 0"
  by (simp add: client_token_def lock_client_rsm_new_def fifo_new_def)

lemma lock_at_cases:
  obtains "lock_table s l = None" "lock_at l s = client_lock_new"
  | k where "lock_table s l = Some k" "lock_at l s = k"
  by (cases "lock_table s l") (auto simp: lock_at_def)

text \<open>What a round of \<open>acquire\<close> hands to its thread, it takes from the table.\<close>

lemma acquire_loop_token:
  assumes "acquire_loop P l' s = (out, s')"
  shows "client_token l s' + pc_token l (acq_pc l' out) \<le> client_token l s"
  using assms
  by (cases s rule: lock_at_cases [of _ l'])
    (auto simp: acquire_loop_def Let_def client_lock_new_def client_token_def set_lock_def
      split: ClientLockState.splits if_splits option.splits)

lemma acquire_enter_token:
  assumes "acquire_enter P l' s = (out, s')"
  shows "client_token l s' + pc_token l (acq_pc l' out) \<le> client_token l s"
proof -
  have "client_token l (if lock_table s l' = None then set_lock l' client_lock_new s else s) = client_token l s"
    by (auto simp: client_token_def set_lock_def client_lock_new_def split: option.split)
  then show ?thesis using acquire_loop_token [OF assms [unfolded acquire_enter_def], of l] by simp
qed

lemma acquire_reply_token:
  assumes "acquire_reply P first ret l' s = (out, s')"
  shows "client_token l s' + pc_token l (acq_pc l' out) \<le>
    client_token l s + (if ret = lock_OK P \<and> l' = l then 1 else 0)"
proof -
  have locked: "client_token l (set_lock l' (k\<lparr>lstate := LOCKED\<rparr>) s) \<le> client_token l s" for k
    by (auto simp: client_token_def set_lock_def split: option.split)
  have "(out = Acq_wait_retry \<and> s' = s) \<or> acquire_loop P l' s = (out, s') \<or>
      (ret = lock_OK P \<and> out = Acq_return (lock_OK P) \<and> s' = set_lock l' ((lock_at l' s)\<lparr>lstate := LOCKED\<rparr>) s)"
    using assms unfolding acquire_reply_def Let_def
    by (cases first; cases "ret = lock_OK P"; cases "ret = lock_RETRY P"; cases "retry (lock_at l' s)") simp_all
  then show ?thesis
  proof (elim disjE)
    assume "acquire_loop P l' s = (out, s')"
    from acquire_loop_token [OF this, of l] show ?thesis by simp
  next
    assume "ret = lock_OK P \<and> out = Acq_return (lock_OK P) \<and> s' = set_lock l' ((lock_at l' s)\<lparr>lstate := LOCKED\<rparr>) s"
    then show ?thesis using locked [of "lock_at l' s"] by auto
  qed simp
qed

lemma acquire_timeout_token:
  assumes "acquire_timeout P l' s = (out, s')"
  shows "client_token l s' + pc_token l (acq_pc l' out) \<le> client_token l s"
proof -
  have "client_token l (set_lock l' ((lock_at l' s)\<lparr>retry := True\<rparr>) s) = client_token l s"
    by (cases s rule: lock_at_cases [of _ l']) (auto simp: client_token_def set_lock_def client_lock_new_def split: option.split)
  then show ?thesis using acquire_loop_token [OF assms [unfolded acquire_timeout_def], of l] by simp
qed

lemma release_token:
  assumes "release P l' s = (out, s')"
  shows "client_token l s' + (if l' = l \<and> (\<exists>x. out = Rel_call x) then 1 else 0) \<le>
    client_token l s + (if l' = l then 1 else 0)"
  using assms by (auto simp: release_def client_token_def set_lock_def split: option.splits if_splits)

lemma done_token: "client_token l (set_lock l' (k\<lparr>lstate := NONE\<rparr>) s) \<le> client_token l s"
  by (auto simp: client_token_def set_lock_def split: option.split)

lemma revoke_token: "client_token l (snd (revoke_handler P l' xid s)) \<le> client_token l s"
  by (auto simp: revoke_handler_def client_token_def set_lock_def fifo_enq_def split: option.splits)

lemma retry_token: "client_token l (snd (retry_handler P l' xid s)) \<le> client_token l s"
  by (auto simp: retry_handler_def client_token_def set_lock_def split: option.splits)

lemma take_token:
  "releaser_take s = Some ((l', xid), s') \<Longrightarrow> client_token l s' + (if l' = l then 1 else 0) = client_token l s"
  by (auto simp: releaser_take_def fifo_deq_def client_token_def split: list.splits prod.splits)

lemma goto_tokens:
  assumes "pc_at t r = Some pc"
  shows "run_tokens (goto t pc' s r) l + client_token l (lr_client r) + pc_token l pc =
    run_tokens r l + client_token l s + pc_token l pc'"
proof -
  have t: "t < length (lr_threads r)" "lr_threads r ! t = pc" using assms by (auto simp: pc_at_def split: if_splits)
  have "sum_list (map (pc_token l) ((lr_threads r)[t := pc'])) + pc_token l pc =
      sum_list (map (pc_token l) (lr_threads r)) + pc_token l pc'"
    using thread_tokens_update [OF t(1), of l pc'] t(2) by simp
  then show ?thesis by (simp add: run_tokens_def goto_def)
qed

lemma goto_le:
  assumes "pc_at t r = Some pc" "client_token l s + pc_token l pc' + f \<le> client_token l (lr_client r) + pc_token l pc + g"
  shows "run_tokens (goto t pc' s r) l + f \<le> run_tokens r l + g"
  using goto_tokens [OF assms(1), of pc' s l] assms(2) by linarith

lemma acq_goto_le:
  assumes "pc_at t r = Some pc"
    and "\<And>out s'. x = (out, s') \<Longrightarrow>
      client_token l s' + pc_token l (acq_pc l' out) \<le> client_token l (lr_client r) + pc_token l pc"
  shows "run_tokens (acq_goto t l' x r) l \<le> run_tokens r l"
  using goto_le [OF assms(1), of l "snd x" "acq_pc l' (fst x)" 0 0] assms(2) [of "fst x" "snd x"]
  by (simp add: acq_goto_def)

lemma holders_le: "finite (run_holders r l) \<and> card (run_holders r l) \<le> run_tokens r l"
proof -
  let ?xs = "lr_threads r"
  have h: "run_holders r l = {t. t < length ?xs \<and> ?xs ! t = L_hold l}"
    by (auto simp: run_holders_def pc_at_def split: if_splits)
  show ?thesis unfolding h using card_hold_tokens [of ?xs l] by (simp add: run_tokens_def)
qed

lemma wait_tokens:
  assumes "pc_at t r = Some pc" "pc_token l pc = 0" "acquire_loop P l' (lr_client r) = (out, s)"
  shows "run_tokens (acq_goto t l' (out, s) r) l \<le> run_tokens r l"
  by (rule acq_goto_le [OF assms(1)]) (use acquire_loop_token [OF assms(3), of l] assms(2) in auto)

lemma reply_tokens:
  assumes "lock_run_step P (E_reply t ret) r = Some r'"
  shows "run_tokens r' l \<le> run_tokens r l"
proof -
  obtain l' first pc where pc: "pc_at t r = Some pc" "pc = L_call l' first \<and> ret \<noteq> lock_OK P \<or> pc = L_granted l' first"
      "r' = acq_goto t l' (acquire_reply P first ret l' (lr_client r)) r"
    using assms by (auto split: option.splits lock_pc.splits if_splits)
  have "client_token l s' + pc_token l (acq_pc l' out) \<le> client_token l (lr_client r) + pc_token l pc"
    if "acquire_reply P first ret l' (lr_client r) = (out, s')" for out s'
    using acquire_reply_token [OF that, of l] pc(2) by (auto split: if_splits)
  then show ?thesis unfolding pc(3) by (rule acq_goto_le [OF pc(1)])
qed

lemma release_tokens:
  assumes "lock_run_step P (E_release t) r = Some r'"
  shows "run_tokens r' l \<le> run_tokens r l"
proof -
  obtain l' where pc: "pc_at t r = Some (L_hold l')"
    using assms by (auto split: option.splits lock_pc.splits)
  obtain out s where o: "release P l' (lr_client r) = (out, s)" by fastforce
  have r': "r' = goto t (case out of Rel_return ret \<Rightarrow> L_idle | Rel_call x \<Rightarrow> L_rel l') s r"
    using assms pc o by (auto split: rel_out.splits)
  have "client_token l s + pc_token l (case out of Rel_return ret \<Rightarrow> L_idle | Rel_call x \<Rightarrow> L_rel l') + 0 \<le>
      client_token l (lr_client r) + pc_token l (L_hold l') + 0"
    using release_token [OF o, of l] by (auto split: rel_out.splits)
  from goto_le [OF pc this] show ?thesis unfolding r' by simp
qed

text \<open>Every step keeps the account.\<close>

lemma run_tokens_step:
  assumes "lock_run_step P ev r = Some r'"
  shows "run_tokens r' l + (if run_frees ev r = Some l then 1 else 0) \<le>
    run_tokens r l + (if run_grants ev r = Some l then 1 else 0)"
proof (cases ev)
  case (E_acquire t l')
  then have "pc_at t r = Some L_idle" "r' = acq_goto t l' (acquire_enter P l' (lr_client r)) r"
    using assms by (auto split: if_splits)
  with acq_goto_le [of t r L_idle "acquire_enter P l' (lr_client r)" l l'] show ?thesis
    using E_acquire acquire_enter_token [of P l' "lr_client r"] by simp
next
  case (E_grant t)
  then obtain l' first where pc: "pc_at t r = Some (L_call l' first)" "r' = goto t (L_granted l' first) (lr_client r) r"
    using assms by (auto split: option.splits lock_pc.splits)
  then show ?thesis using E_grant goto_tokens [OF pc(1), of "L_granted l' first" "lr_client r" l] by auto
next
  case (E_reply t ret)
  then show ?thesis using reply_tokens assms by fastforce
next
  case (E_timeout t)
  then obtain l' where pc: "pc_at t r = Some (L_wait_retry l')" "r' = acq_goto t l' (acquire_timeout P l' (lr_client r)) r"
    using assms by (auto split: option.splits lock_pc.splits)
  then show ?thesis using E_timeout acq_goto_le [OF pc(1), of "acquire_timeout P l' (lr_client r)" l l']
      acquire_timeout_token [of P l' "lr_client r"] by simp
next
  case (E_wake t)
  then obtain pc l' where pc: "pc_at t r = Some pc" "pc_token l pc = 0"
      "r' = acq_goto t l' (acquire_loop P l' (lr_client r)) r"
    using assms by (auto split: option.splits lock_pc.splits)
  then have "run_tokens r' l \<le> run_tokens r l"
    using wait_tokens [OF pc(1,2), of P l' "fst (acquire_loop P l' (lr_client r))" "snd (acquire_loop P l' (lr_client r))"]
    by simp
  then show ?thesis using E_wake by simp
next
  case (E_release t)
  then show ?thesis using release_tokens assms by fastforce
next
  case (E_free t)
  then obtain l' where pc: "pc_at t r = Some (L_rel l')" "r' = goto t (L_freed l') (lr_client r) r"
    using assms by (auto split: option.splits lock_pc.splits)
  then show ?thesis using E_free goto_tokens [OF pc(1), of "L_freed l'" "lr_client r" l] by auto
next
  case (E_release_reply t)
  then obtain pc l' where pc: "pc_at t r = Some pc" "r' = goto t L_idle (release_reply l' (lr_client r)) r"
    using assms by (auto split: option.splits lock_pc.splits)
  have "client_token l (release_reply l' (lr_client r)) \<le> client_token l (lr_client r)"
    unfolding release_reply_def by (rule done_token)
  then show ?thesis using E_release_reply goto_tokens [OF pc(1), of L_idle "release_reply l' (lr_client r)" l] pc(2) by simp
next
  case (E_revoke l' xid)
  then show ?thesis using assms revoke_token [of l P l' xid "lr_client r"] by (auto simp: run_tokens_def)
next
  case (E_retry l' xid)
  then show ?thesis using assms retry_token [of l P l' xid "lr_client r"] by (auto simp: run_tokens_def)
next
  case E_take
  then obtain l' xid s where t: "lr_releaser r = R_idle" "releaser_take (lr_client r) = Some ((l', xid), s)"
      "r' = r\<lparr>lr_client := s, lr_releaser := R_call l'\<rparr>"
    using assms by (auto split: option.splits releaser_pc.splits)
  then show ?thesis using E_take take_token [OF t(2), of l] by (auto simp: run_tokens_def)
next
  case E_take_free
  then show ?thesis using assms by (auto simp: run_tokens_def split: releaser_pc.splits)
next
  case E_take_reply
  then obtain l' where "r' = r\<lparr>lr_client := releaser_done l' (lr_client r), lr_releaser := R_idle\<rparr>"
    using assms by (auto split: releaser_pc.splits)
  then show ?thesis using E_take_reply done_token [of l l' "lock_at l' (lr_client r)" "lr_client r"]
    by (simp add: run_tokens_def releaser_done_def)
qed

lemma run_tokens_start: "run_tokens (lock_run_start n) l = 0"
  by (simp add: run_tokens_def lock_run_start_def sum_list_replicate)

lemma run_not_both: "run_grants ev r = None \<or> run_frees ev r = None"
  by (cases ev) auto

interpretation rsm_locks: lock_cache "lock_run_step P" run_grants run_frees run_tokens run_holders "lock_run_start n"
  for P n
  by unfold_locales (rule run_tokens_start run_tokens_step run_not_both holders_le; assumption?)+

section \<open>Properties\<close>

text \<open>
  C8. Mutual exclusion of the cached locks. Take any number of clients of the replicated lock service,
  each with any number of threads and its releaser, and a server that grants a lock only while no
  client owns it. Let RPCs, replies, revocations, retries, time-outs and wake-ups come in any order,
  let replies be lost and retries and revocations be spurious. Then at every moment at most one thread
  of one client is between a return of \<open>acquire\<close> and its call of \<open>release\<close> for a lock, and the server
  has granted the lock to its client.
\<close>

theorem locks_exclusive:
  assumes "lock_sys_reach (lock_run_step P) run_grants run_frees (lock_run_start n) y"
    and "pc_at t (ls_client y c) = Some (L_hold l)" "pc_at t' (ls_client y c') = Some (L_hold l)"
  shows "c = c' \<and> t = t' \<and> ls_owner y l = Some c"
  using rsm_locks.mutual_exclusion [OF assms(1), of t c l t' c'] assms(2,3)
  by (simp add: run_holders_def)

text \<open>
  Two clients with two threads. Thread 0 of client 0 gets lock 7 from the server and releases it; thread
  1 of client 0 takes it from the cache. Client 1 asks and is told to retry; the server revokes the
  lock, thread 1 gives it back, and client 1 gets it.
\<close>

definition demo_protocol :: lock_protocol where
  "demo_protocol = \<lparr>lock_OK = 0, lock_RETRY = 1, lock_NOENT = 2, lock_RPCERR = 3, rlock_OK = 0, rlock_RPCERR = 1\<rparr>"

definition demo_locks :: "(nat \<times> (nat, nat) lock_ev) list \<Rightarrow> (nat, nat, (nat, nat) lock_client_run) lock_sys option" where
  "demo_locks evs =
     lock_sys_exec (lock_run_step demo_protocol) run_grants run_frees evs (lock_sys_start (lock_run_start 2))"

definition demo_events :: "(nat \<times> (nat, nat) lock_ev) list" where
  "demo_events =
     [(0, E_acquire 0 7), (0, E_grant 0), (0, E_reply 0 0), (0, E_acquire 1 7), (0, E_release 0), (0, E_wake 1),
      (1, E_acquire 0 7), (1, E_reply 0 1), (0, E_revoke 7 0), (0, E_release 1), (0, E_free 1),
      (1, E_timeout 0), (1, E_grant 0), (0, E_release_reply 1), (1, E_reply 0 0)]"

theorem locks_exclusive_witness:
  "\<exists>y. demo_locks demo_events = Some y \<and> pc_at 0 (ls_client y 1) = Some (L_hold 7) \<and> ls_owner y 7 = Some 1"
proof -
  have "case demo_locks demo_events of None \<Rightarrow> False | Some y \<Rightarrow> pc_at 0 (ls_client y 1) = Some (L_hold 7)"
    by code_simp
  then obtain y where y: "demo_locks demo_events = Some y" "pc_at 0 (ls_client y 1) = Some (L_hold 7)"
    by (auto split: option.splits)
  from lock_sys_exec_reach [OF lock_sys_reach.start y(1) [unfolded demo_locks_def]]
  have "lock_sys_reach (lock_run_step demo_protocol) run_grants run_frees (lock_run_start 2) y" .
  from locks_exclusive [OF this y(2) y(2)] y show ?thesis by blast
qed

end
