(* ===== verification/Pollmgr.thy ===== *)
theory Pollmgr
  imports Prelude
begin

text \<open>
  The poll manager of src/rpc/pollmgr.cc: the two implementations of \<open>aio_mgr\<close>, on \<open>select\<close> and on
  \<open>epoll\<close>, and \<open>PollMgr\<close>, which keeps a callback per file descriptor and calls it from its thread.
  A file descriptor is an \<open>int\<close>. \<open>select\<close> and \<open>epoll_ctl\<close> are calls of the system: what \<open>select\<close>
  found ready is an argument, \<open>epoll_ctl\<close> keeps a table of what is registered, as its manual says.
  The locale \<open>aio\<close> is what \<open>PollMgr\<close> relies on; both implementations keep it.
\<close>

unbundle bit_operations_syntax

definition MAX_POLL_FDS :: int where
  "MAX_POLL_FDS = 128"

definition FD_SETSIZE :: int where
  "FD_SETSIZE = 1024"

datatype poll_flag = CB_NONE | CB_RDONLY | CB_WRONLY | CB_RDWR | CB_MASK

fun flag_code :: "poll_flag \<Rightarrow> cint" where
  "flag_code CB_NONE = 0"
| "flag_code CB_RDONLY = 0x1"
| "flag_code CB_WRONLY = 0x10"
| "flag_code CB_RDWR = 0x11"
| "flag_code CB_MASK = NOT 0x11"

section \<open>\<open>SelectAIO\<close>\<close>

type_synonym fd_set = "int \<Rightarrow> bool"

text \<open>\<open>pipe_rd\<close> is \<open>pipefd_[0]\<close>; \<open>pipe_len\<close> is the number of bytes in the pipe, which are all 1.\<close>

record select_aio =
  rfds :: fd_set
  wfds :: fd_set
  highfds :: int
  pipe_rd :: int
  pipe_len :: nat

definition fd_ok :: "int \<Rightarrow> bool" where
  "fd_ok fd = (0 \<le> fd \<and> fd < FD_SETSIZE)"

text \<open>The argument is the read end that \<open>pipe\<close> returns, \<open>None\<close> if it fails.\<close>

definition select_new :: "int option \<Rightarrow> select_aio result" where
  "select_new p =
     (case p of
        None \<Rightarrow> Inl Verify_failed
      | Some fd \<Rightarrow>
          if fd_ok fd then Inr \<lparr>rfds = (\<lambda>_. False)(fd := True), wfds = (\<lambda>_. False), highfds = fd, pipe_rd = fd, pipe_len = 0\<rparr>
          else Inl Undefined)"

definition select_watch_fd :: "int \<Rightarrow> poll_flag \<Rightarrow> select_aio \<Rightarrow> select_aio result" where
  "select_watch_fd fd flag s =
     (if \<not> fd_ok fd then Inl Undefined
      else
        let s = (if highfds s \<le> fd then s\<lparr>highfds := fd\<rparr> else s);
            s = (if flag = CB_RDONLY then s\<lparr>rfds := (rfds s)(fd := True)\<rparr>
                 else if flag = CB_WRONLY then s\<lparr>wfds := (wfds s)(fd := True)\<rparr>
                 else s\<lparr>rfds := (rfds s)(fd := True), wfds := (wfds s)(fd := True)\<rparr>)
        in Inr (s\<lparr>pipe_len := Suc (pipe_len s)\<rparr>))"

definition select_is_watched :: "int \<Rightarrow> poll_flag \<Rightarrow> select_aio \<Rightarrow> bool result" where
  "select_is_watched fd flag s =
     (if \<not> fd_ok fd then Inl Undefined
      else if flag = CB_RDONLY then Inr (rfds s fd)
      else if flag = CB_WRONLY then Inr (wfds s fd)
      else Inr (rfds s fd \<and> wfds s fd))"

text \<open>The loop of \<open>unwatch_fd\<close> over the descriptors up to \<open>highfds_\<close>.\<close>

definition new_high :: "select_aio \<Rightarrow> int" where
  "new_high s = foldl (\<lambda>newh i. if rfds s i then i else if wfds s i then i else newh) (pipe_rd s) [0..highfds s]"

definition select_clear :: "int \<Rightarrow> poll_flag \<Rightarrow> select_aio \<Rightarrow> select_aio result" where
  "select_clear fd flag s =
     (case flag of
        CB_RDONLY \<Rightarrow> Inr (s\<lparr>rfds := (rfds s)(fd := False)\<rparr>)
      | CB_WRONLY \<Rightarrow> Inr (s\<lparr>wfds := (wfds s)(fd := False)\<rparr>)
      | CB_RDWR \<Rightarrow> Inr (s\<lparr>wfds := (wfds s)(fd := False), rfds := (rfds s)(fd := False)\<rparr>)
      | _ \<Rightarrow> Inl Verify_failed)"

definition select_shrink :: "int \<Rightarrow> select_aio \<Rightarrow> select_aio" where
  "select_shrink fd s =
     (if \<not> rfds s fd \<and> \<not> wfds s fd then if fd = highfds s then s\<lparr>highfds := new_high s\<rparr> else s else s)"

definition select_unwatch_fd :: "int \<Rightarrow> poll_flag \<Rightarrow> select_aio \<Rightarrow> (bool \<times> select_aio) result" where
  "select_unwatch_fd fd flag s =
     (if \<not> fd_ok fd then Inl Undefined
      else rbind (select_clear fd flag s) (\<lambda>s.
        let s = select_shrink fd s;
            s = (if flag = CB_RDWR then s\<lparr>pipe_len := Suc (pipe_len s)\<rparr> else s)
        in Inr (\<not> rfds s fd \<and> \<not> wfds s fd, s)))"

text \<open>
  \<open>wait_ready\<close> up to the call of \<open>select\<close>, the call, and the rest. \<open>Sel_ok r w\<close> says which descriptors
  are ready; \<open>select\<close> keeps those in the sets.
\<close>

datatype sel_obs = Sel_ok fd_set fd_set | Sel_intr | Sel_err

definition wait_snapshot :: "select_aio \<Rightarrow> fd_set \<times> fd_set \<times> int" where
  "wait_snapshot s = (rfds s, wfds s, highfds s)"

definition select_call :: "int \<Rightarrow> fd_set \<Rightarrow> fd_set \<Rightarrow> fd_set \<Rightarrow> fd_set \<Rightarrow> fd_set \<times> fd_set" where
  "select_call nfds tr tw r w = (\<lambda>fd. fd < nfds \<and> tr fd \<and> r fd, \<lambda>fd. fd < nfds \<and> tw fd \<and> w fd)"

fun collect_ready :: "fd_set \<Rightarrow> fd_set \<Rightarrow> int list \<Rightarrow> select_aio \<Rightarrow> ((int list \<times> int list) \<times> select_aio) result" where
  "collect_ready tr tw [] s = Inr (([], []), s)"
| "collect_ready tr tw (fd # fds) s =
     (if fd = pipe_rd s \<and> tr fd then
        (if pipe_len s = 0 then Inl Verify_failed
         else collect_ready tr tw fds (s\<lparr>pipe_len := pipe_len s - 1\<rparr>))
      else
        rbind (collect_ready tr tw fds s) (\<lambda>((rd, wr), s).
          Inr ((if tr fd then fd # rd else rd, if tw fd then fd # wr else wr), s)))"

definition select_wait_ready :: "sel_obs \<Rightarrow> fd_set \<times> fd_set \<times> int \<Rightarrow> select_aio \<Rightarrow>
    ((int list \<times> int list) \<times> select_aio) result" where
  "select_wait_ready obs snap s =
     (case snap of (tr, tw, high) \<Rightarrow>
      case obs of
        Sel_intr \<Rightarrow> Inr (([], []), s)
      | Sel_err \<Rightarrow> Inl Verify_failed
      | Sel_ok r w \<Rightarrow>
          (case select_call (high + 1) tr tw r w of (tr, tw) \<Rightarrow> collect_ready tr tw [0..high] s))"

section \<open>\<open>EPollAIO\<close>\<close>

text \<open>\<open>ep_reg\<close> is the kernel's table of the descriptors registered with \<open>pollfd_\<close>, with their events.\<close>

record epoll_aio =
  fdstatus :: "int \<Rightarrow> cint"
  ep_reg :: "int \<rightharpoonup> u32"

definition EPOLLIN :: u32 where "EPOLLIN = 1"

definition EPOLLOUT :: u32 where "EPOLLOUT = 4"

definition EPOLLET :: u32 where "EPOLLET = 0x80000000"

datatype epoll_op = EPOLL_CTL_ADD | EPOLL_CTL_MOD | EPOLL_CTL_DEL

text \<open>\<open>epoll_ctl\<close> fails when it adds a registered descriptor or changes one that is not; \<open>None\<close> is -1.\<close>

definition epoll_ctl :: "epoll_op \<Rightarrow> int \<Rightarrow> u32 \<Rightarrow> (int \<rightharpoonup> u32) \<Rightarrow> (int \<rightharpoonup> u32) option" where
  "epoll_ctl op fd ev reg =
     (case op of
        EPOLL_CTL_ADD \<Rightarrow> if reg fd = None then Some (reg(fd \<mapsto> ev)) else None
      | EPOLL_CTL_MOD \<Rightarrow> if reg fd = None then None else Some (reg(fd \<mapsto> ev))
      | EPOLL_CTL_DEL \<Rightarrow> if reg fd = None then None else Some (reg(fd := None)))"

text \<open>The argument says whether \<open>epoll_create\<close> succeeds.\<close>

definition epoll_new :: "bool \<Rightarrow> epoll_aio result" where
  "epoll_new created = (if created then Inr \<lparr>fdstatus = (\<lambda>_. 0), ep_reg = (\<lambda>_. None)\<rparr> else Inl Verify_failed)"

definition poll_flag_to_event :: "poll_flag \<Rightarrow> u32" where
  "poll_flag_to_event flag =
     (if flag = CB_RDONLY then EPOLLIN else if flag = CB_WRONLY then EPOLLOUT else EPOLLIN OR EPOLLOUT)"

definition status_events :: "cint \<Rightarrow> u32" where
  "status_events st =
     (let ev = EPOLLET;
          ev = (if st AND flag_code CB_RDONLY \<noteq> 0 then ev OR EPOLLIN else ev)
      in if st AND flag_code CB_WRONLY \<noteq> 0 then ev OR EPOLLOUT else ev)"

definition fd_index :: "int \<Rightarrow> unit result" where
  "fd_index fd = (if fd < MAX_POLL_FDS then if 0 \<le> fd then Inr () else Inl Undefined else Inl Verify_failed)"

definition epoll_do :: "epoll_op \<Rightarrow> int \<Rightarrow> u32 \<Rightarrow> epoll_aio \<Rightarrow> epoll_aio result" where
  "epoll_do op fd ev s =
     (case epoll_ctl op fd ev (ep_reg s) of None \<Rightarrow> Inl Verify_failed | Some reg \<Rightarrow> Inr (s\<lparr>ep_reg := reg\<rparr>))"

definition epoll_watch_fd :: "int \<Rightarrow> poll_flag \<Rightarrow> epoll_aio \<Rightarrow> epoll_aio result" where
  "epoll_watch_fd fd flag s =
     rbind (fd_index fd) (\<lambda>_.
     let op = (if fdstatus s fd \<noteq> 0 then EPOLL_CTL_MOD else EPOLL_CTL_ADD);
         st = fdstatus s fd OR flag_code flag;
         ev = status_events st
     in rbind (VERIFY (flag = CB_RDWR \<longrightarrow> ev = EPOLLET OR EPOLLIN OR EPOLLOUT)) (\<lambda>_.
        epoll_do op fd ev (s\<lparr>fdstatus := (fdstatus s)(fd := st)\<rparr>)))"

definition epoll_unwatch_fd :: "int \<Rightarrow> poll_flag \<Rightarrow> epoll_aio \<Rightarrow> (bool \<times> epoll_aio) result" where
  "epoll_unwatch_fd fd flag s =
     rbind (fd_index fd) (\<lambda>_.
     let st = fdstatus s fd AND NOT (flag_code flag);
         op = (if st \<noteq> 0 then EPOLL_CTL_MOD else EPOLL_CTL_DEL)
     in rbind (VERIFY (flag = CB_RDWR \<longrightarrow> op = EPOLL_CTL_DEL)) (\<lambda>_.
        rbind (epoll_do op fd (status_events st) (s\<lparr>fdstatus := (fdstatus s)(fd := st)\<rparr>)) (\<lambda>s.
        Inr (op = EPOLL_CTL_DEL, s))))"

definition epoll_is_watched :: "int \<Rightarrow> poll_flag \<Rightarrow> epoll_aio \<Rightarrow> bool result" where
  "epoll_is_watched fd flag s =
     rbind (fd_index fd) (\<lambda>_. Inr (fdstatus s fd AND flag_code CB_MASK = flag_code flag))"

text \<open>The argument is what \<open>epoll_wait\<close> returned in \<open>ready_\<close>: descriptors with their events.\<close>

definition epoll_wait_ready :: "(int \<times> u32) list \<Rightarrow> int list \<times> int list" where
  "epoll_wait_ready ready =
     (map fst (filter (\<lambda>(fd, ev). ev AND EPOLLIN \<noteq> 0) ready),
      map fst (filter (\<lambda>(fd, ev). ev AND EPOLLOUT \<noteq> 0) ready))"

section \<open>\<open>PollMgr\<close>\<close>

text \<open>\<open>aio_mgr\<close> is the table of virtual functions; \<open>'c\<close> are the callback objects.\<close>

record 's aio_mgr =
  aio_watch_fd :: "int \<Rightarrow> poll_flag \<Rightarrow> 's \<Rightarrow> 's result"
  aio_unwatch_fd :: "int \<Rightarrow> poll_flag \<Rightarrow> 's \<Rightarrow> (bool \<times> 's) result"
  aio_is_watched :: "int \<Rightarrow> poll_flag \<Rightarrow> 's \<Rightarrow> bool result"

definition SelectAIO :: "select_aio aio_mgr" where
  "SelectAIO = \<lparr>aio_watch_fd = select_watch_fd, aio_unwatch_fd = select_unwatch_fd, aio_is_watched = select_is_watched\<rparr>"

definition EPollAIO :: "epoll_aio aio_mgr" where
  "EPollAIO = \<lparr>aio_watch_fd = epoll_watch_fd, aio_unwatch_fd = epoll_unwatch_fd, aio_is_watched = epoll_is_watched\<rparr>"

record ('s, 'c) pollmgr =
  callbacks :: "int \<Rightarrow> 'c option"
  pm_aio :: 's
  pending_change :: bool

definition PollMgr_new :: "int option \<Rightarrow> (select_aio, 'c) pollmgr result" where
  "PollMgr_new p = rbind (select_new p) (\<lambda>s. Inr \<lparr>callbacks = (\<lambda>_. None), pm_aio = s, pending_change = False\<rparr>)"

definition cb_index :: "int \<Rightarrow> unit result" where
  "cb_index fd = (if 0 \<le> fd \<and> fd < MAX_POLL_FDS then Inr () else Inl Undefined)"

definition add_callback :: "'s aio_mgr \<Rightarrow> int \<Rightarrow> poll_flag \<Rightarrow> 'c \<Rightarrow> ('s, 'c) pollmgr \<Rightarrow> ('s, 'c) pollmgr result" where
  "add_callback A fd flag ch p =
     rbind (VERIFY (fd < MAX_POLL_FDS)) (\<lambda>_.
     rbind (aio_watch_fd A fd flag (pm_aio p)) (\<lambda>s.
     rbind (cb_index fd) (\<lambda>_.
     rbind (VERIFY (callbacks p fd = None \<or> callbacks p fd = Some ch)) (\<lambda>_.
     Inr (p\<lparr>pm_aio := s, callbacks := (callbacks p)(fd := Some ch)\<rparr>)))))"

text \<open>\<open>block_remove_fd\<close> up to the wait on \<open>changedone_c_\<close>, and after it.\<close>

definition block_remove_fd :: "'s aio_mgr \<Rightarrow> int \<Rightarrow> ('s, 'c) pollmgr \<Rightarrow> ('s, 'c) pollmgr result" where
  "block_remove_fd A fd p =
     rbind (aio_unwatch_fd A fd CB_RDWR (pm_aio p)) (\<lambda>(_, s). Inr (p\<lparr>pm_aio := s, pending_change := True\<rparr>))"

definition block_remove_done :: "int \<Rightarrow> ('s, 'c) pollmgr \<Rightarrow> ('s, 'c) pollmgr result" where
  "block_remove_done fd p = rbind (cb_index fd) (\<lambda>_. Inr (p\<lparr>callbacks := (callbacks p)(fd := None)\<rparr>))"

definition del_callback :: "'s aio_mgr \<Rightarrow> int \<Rightarrow> poll_flag \<Rightarrow> ('s, 'c) pollmgr \<Rightarrow> ('s, 'c) pollmgr result" where
  "del_callback A fd flag p =
     rbind (aio_unwatch_fd A fd flag (pm_aio p)) (\<lambda>(none, s).
     if none then rbind (cb_index fd) (\<lambda>_. Inr (p\<lparr>pm_aio := s, callbacks := (callbacks p)(fd := None)\<rparr>))
     else Inr (p\<lparr>pm_aio := s\<rparr>))"

definition has_callback :: "'s aio_mgr \<Rightarrow> int \<Rightarrow> poll_flag \<Rightarrow> 'c \<Rightarrow> ('s, 'c) pollmgr \<Rightarrow> bool result" where
  "has_callback A fd flag c p =
     rbind (cb_index fd) (\<lambda>_.
     if callbacks p fd = None \<or> callbacks p fd \<noteq> Some c then Inr False
     else aio_is_watched A fd flag (pm_aio p))"

text \<open>
  \<open>wait_loop\<close>, where the thread is: at the top of the loop, before the snapshot of \<open>wait_ready\<close>, in
  \<open>select\<close>, between two callbacks, or in one.
\<close>

datatype 'c wait_pc =
    W_top
  | W_enter
  | W_select "fd_set \<times> fd_set \<times> int"
  | W_ready "int list" "int list"
  | W_read 'c int "int list" "int list"
  | W_write 'c int "int list"

text \<open>One step of the thread; the flag says that it wakes the threads that wait on \<open>changedone_c_\<close>.\<close>

fun wait_step :: "sel_obs \<Rightarrow> 'c wait_pc \<Rightarrow> (select_aio, 'c) pollmgr \<Rightarrow>
    (bool \<times> 'c wait_pc \<times> (select_aio, 'c) pollmgr) result" where
  "wait_step obs W_top p = Inr (pending_change p, W_enter, p\<lparr>pending_change := False\<rparr>)"
| "wait_step obs W_enter p = Inr (False, W_select (wait_snapshot (pm_aio p)), p)"
| "wait_step obs (W_select snap) p =
     rbind (select_wait_ready obs snap (pm_aio p)) (\<lambda>((rd, wr), s).
     Inr (False, if rd = [] \<and> wr = [] then W_top else W_ready rd wr, p\<lparr>pm_aio := s\<rparr>))"
| "wait_step obs (W_ready (fd # rd) wr) p =
     rbind (cb_index fd) (\<lambda>_.
     Inr (False, case callbacks p fd of Some c \<Rightarrow> W_read c fd rd wr | None \<Rightarrow> W_ready rd wr, p))"
| "wait_step obs (W_ready [] (fd # wr)) p =
     rbind (cb_index fd) (\<lambda>_.
     Inr (False, case callbacks p fd of Some c \<Rightarrow> W_write c fd wr | None \<Rightarrow> W_ready [] wr, p))"
| "wait_step obs (W_ready [] []) p = Inr (False, W_top, p)"
| "wait_step obs (W_read c fd rd wr) p = Inr (False, W_ready rd wr, p)"
| "wait_step obs (W_write c fd wr) p = Inr (False, W_ready [] wr, p)"

section \<open>Threads\<close>

text \<open>
  Any thread may add or delete a callback, also the poll thread from a callback. A thread \<open>'t\<close> that
  removes a descriptor waits for the poll thread. \<open>ps_gone\<close> are the descriptors whose removal has
  returned and that no thread has added since. \<open>P_spurious\<close> is a return from \<open>pthread_cond_wait\<close>
  without a broadcast, which POSIX allows.
\<close>

datatype removal = R_none | R_wait int | R_woken int

record ('t, 'c) poll_sys =
  ps_pm :: "(select_aio, 'c) pollmgr"
  ps_pc :: "'c wait_pc"
  ps_rem :: "'t \<Rightarrow> removal"
  ps_gone :: "int set"

datatype ('t, 'c) poll_ev =
    P_add int poll_flag 'c
  | P_del int poll_flag
  | P_remove 't int
  | P_return 't
  | P_poll sel_obs
  | P_spurious 't

definition wake_all :: "('t \<Rightarrow> removal) \<Rightarrow> 't \<Rightarrow> removal" where
  "wake_all r = (\<lambda>t. case r t of R_wait fd \<Rightarrow> R_woken fd | x \<Rightarrow> x)"

definition removing :: "int \<Rightarrow> removal \<Rightarrow> bool" where
  "removing fd r = (r = R_wait fd \<or> r = R_woken fd)"

definition opt :: "'a result \<Rightarrow> 'a option" where
  "opt r = (case r of Inl _ \<Rightarrow> None | Inr x \<Rightarrow> Some x)"

fun poll_step :: "('t, 'c) poll_ev \<Rightarrow> ('t, 'c) poll_sys \<Rightarrow> ('t, 'c) poll_sys option" where
  "poll_step (P_add fd flag c) y =
     map_option (\<lambda>p. y\<lparr>ps_pm := p, ps_gone := ps_gone y - {fd}\<rparr>) (opt (add_callback SelectAIO fd flag c (ps_pm y)))"
| "poll_step (P_del fd flag) y =
     map_option (\<lambda>p. y\<lparr>ps_pm := p\<rparr>) (opt (del_callback SelectAIO fd flag (ps_pm y)))"
| "poll_step (P_remove t fd) y =
     (if ps_rem y t = R_none then
        map_option (\<lambda>p. y\<lparr>ps_pm := p, ps_rem := (ps_rem y)(t := R_wait fd)\<rparr>) (opt (block_remove_fd SelectAIO fd (ps_pm y)))
      else None)"
| "poll_step (P_return t) y =
     (case ps_rem y t of
        R_woken fd \<Rightarrow>
          map_option (\<lambda>p. y\<lparr>ps_pm := p, ps_rem := (ps_rem y)(t := R_none), ps_gone := insert fd (ps_gone y)\<rparr>)
            (opt (block_remove_done fd (ps_pm y)))
      | _ \<Rightarrow> None)"
| "poll_step (P_poll obs) y =
     map_option (\<lambda>(wake, pc, p). y\<lparr>ps_pm := p, ps_pc := pc, ps_rem := (if wake then wake_all (ps_rem y) else ps_rem y)\<rparr>)
       (opt (wait_step obs (ps_pc y) (ps_pm y)))"
| "poll_step (P_spurious t) y =
     (case ps_rem y t of R_wait fd \<Rightarrow> Some (y\<lparr>ps_rem := (ps_rem y)(t := R_woken fd)\<rparr>) | _ \<Rightarrow> None)"

definition poll_start :: "(select_aio, 'c) pollmgr \<Rightarrow> ('t, 'c) poll_sys" where
  "poll_start p = \<lparr>ps_pm = p, ps_pc = W_top, ps_rem = (\<lambda>_. R_none), ps_gone = {}\<rparr>"

text \<open>
  What the users of the poll manager keep to: they name descriptors other than the pipe's, they pass
  one of the three flags, and none adds a descriptor that another removes. Waits that end without
  a broadcast (\<open>P_spurious\<close>), which POSIX allows, are steps of the system but not of these runs.
\<close>

definition poll_client :: "('t, 'c) poll_sys \<Rightarrow> ('t, 'c) poll_ev \<Rightarrow> bool" where
  "poll_client y ev =
     (case ev of
        P_add fd flag c \<Rightarrow>
          fd \<noteq> pipe_rd (pm_aio (ps_pm y)) \<and> flag \<in> {CB_RDONLY, CB_WRONLY, CB_RDWR} \<and> (\<forall>t. \<not> removing fd (ps_rem y t))
      | P_del fd flag \<Rightarrow> fd \<noteq> pipe_rd (pm_aio (ps_pm y))
      | P_remove t fd \<Rightarrow> fd \<noteq> pipe_rd (pm_aio (ps_pm y))
      | P_spurious t \<Rightarrow> False
      | _ \<Rightarrow> True)"

inductive poll_reach :: "('t, 'c) poll_sys \<Rightarrow> bool" where
  start: "PollMgr_new (Some fd) = Inr p \<Longrightarrow> poll_reach (poll_start p)"
| step: "poll_reach y \<Longrightarrow> poll_client y ev \<Longrightarrow> poll_step ev y = Some y' \<Longrightarrow> poll_reach y'"

inductive_cases poll_reach_cases: "poll_reach y"

section \<open>Well-formed states of \<open>SelectAIO\<close>\<close>

definition select_ok :: "select_aio \<Rightarrow> bool" where
  "select_ok s =
     (fd_ok (highfds s) \<and> rfds s (pipe_rd s) \<and> \<not> wfds s (pipe_rd s) \<and>
      (\<forall>fd. rfds s fd \<or> wfds s fd \<longrightarrow> 0 \<le> fd \<and> fd \<le> highfds s))"

lemma select_okD:
  assumes "select_ok s"
  shows "fd_ok (highfds s)" "rfds s (pipe_rd s)" "\<not> wfds s (pipe_rd s)"
    "rfds s fd \<Longrightarrow> 0 \<le> fd \<and> fd \<le> highfds s" "wfds s fd \<Longrightarrow> 0 \<le> fd \<and> fd \<le> highfds s"
    "0 \<le> pipe_rd s" "pipe_rd s \<le> highfds s"
  using assms by (auto simp: select_ok_def)

text \<open>The loop finds the greatest member of the sets, or leaves its start value.\<close>

lemma last_member:
  fixes M :: "int \<Rightarrow> bool"
  defines "g \<equiv> \<lambda>newh i. if M i then i else newh"
  shows "(\<forall>i. 0 \<le> i \<and> i < int n \<and> M i \<longrightarrow> i \<le> foldl g b [0..int n - 1]) \<and>
     (foldl g b [0..int n - 1] = b \<and> (\<forall>i. 0 \<le> i \<and> i < int n \<longrightarrow> \<not> M i) \<or>
      M (foldl g b [0..int n - 1]) \<and> 0 \<le> foldl g b [0..int n - 1] \<and> foldl g b [0..int n - 1] < int n)"
proof (induction n)
  case 0
  show ?case by auto
next
  case (Suc n)
  have s: "[0..int (Suc n) - 1] = [0..int n - 1] @ [int n]" using upto_rec2 [of 0 "int n"] by simp
  show ?case
  proof (cases "M (int n)")
    case True
    then have e: "foldl g b [0..int (Suc n) - 1] = int n" by (simp only: s foldl_append foldl.simps g_def if_True)
    show ?thesis unfolding e using True by auto
  next
    case False
    then have e: "foldl g b [0..int (Suc n) - 1] = foldl g b [0..int n - 1]"
      by (simp only: s foldl_append foldl.simps g_def if_False)
    have lt: "M i \<Longrightarrow> i < int (Suc n) \<Longrightarrow> i < int n" for i using False by (cases "i = int n") auto
    show ?thesis unfolding e
    proof (intro conjI allI impI)
      show "i \<le> foldl g b [0..int n - 1]" if "0 \<le> i \<and> i < int (Suc n) \<and> M i" for i using Suc.IH lt that by blast
      show "foldl g b [0..int n - 1] = b \<and> (\<forall>i. 0 \<le> i \<and> i < int (Suc n) \<longrightarrow> \<not> M i) \<or>
        M (foldl g b [0..int n - 1]) \<and> 0 \<le> foldl g b [0..int n - 1] \<and> foldl g b [0..int n - 1] < int (Suc n)"
        using Suc.IH
      proof (elim conjE disjE)
        assume "foldl g b [0..int n - 1] = b" "\<forall>i. 0 \<le> i \<and> i < int n \<longrightarrow> \<not> M i"
        then show ?thesis using lt by blast
      qed simp
    qed
  qed
qed

lemma new_high_greatest:
  assumes "0 \<le> highfds s" "rfds s (pipe_rd s)" "0 \<le> pipe_rd s" "pipe_rd s \<le> highfds s"
  shows "rfds s (new_high s) \<or> wfds s (new_high s)" "0 \<le> new_high s" "new_high s \<le> highfds s"
    "0 \<le> fd \<Longrightarrow> fd \<le> highfds s \<Longrightarrow> rfds s fd \<or> wfds s fd \<Longrightarrow> fd \<le> new_high s"
proof -
  have g: "(\<lambda>newh i. if rfds s i then i else if wfds s i then i else newh) = (\<lambda>newh i. if rfds s i \<or> wfds s i then i else newh)"
    by (intro ext) simp
  have h: "int (nat (highfds s + 1)) = highfds s + 1" using assms(1) by simp
  note * = last_member [of "nat (highfds s + 1)" "\<lambda>i. rfds s i \<or> wfds s i" "pipe_rd s",
      unfolded h, simplified, folded g, folded new_high_def]
  show "rfds s (new_high s) \<or> wfds s (new_high s)" "0 \<le> new_high s" "new_high s \<le> highfds s"
    "0 \<le> fd \<Longrightarrow> fd \<le> highfds s \<Longrightarrow> rfds s fd \<or> wfds s fd \<Longrightarrow> fd \<le> new_high s"
    using * assms by auto
qed

lemma select_new_ok: "select_new p = Inr s \<Longrightarrow> select_ok s"
  by (auto simp: select_new_def select_ok_def fd_ok_def split: option.splits if_splits)

lemma select_watch_fd_ok:
  assumes "select_ok s" "select_watch_fd fd flag s = Inr s'" "fd \<noteq> pipe_rd s"
  shows "select_ok s'" "rfds s' = (rfds s)(fd := rfds s fd \<or> flag \<noteq> CB_WRONLY)"
    "wfds s' = (wfds s)(fd := wfds s fd \<or> flag \<noteq> CB_RDONLY)" "pipe_rd s' = pipe_rd s" "pipe_len s' = Suc (pipe_len s)"
  using assms by (auto simp: select_watch_fd_def select_ok_def fd_ok_def Let_def fun_eq_iff split: if_splits)

lemma select_watch_fd_total: "fd_ok fd \<Longrightarrow> \<exists>s'. select_watch_fd fd flag s = Inr s'"
  by (simp add: select_watch_fd_def Let_def)

lemma select_clear_ok:
  assumes "select_clear fd flag s = Inr s'"
  shows "rfds s' = (rfds s)(fd := rfds s fd \<and> flag = CB_WRONLY)"
    "wfds s' = (wfds s)(fd := wfds s fd \<and> flag = CB_RDONLY)" "flag \<in> {CB_RDONLY, CB_WRONLY, CB_RDWR}"
    "pipe_rd s' = pipe_rd s" "pipe_len s' = pipe_len s" "highfds s' = highfds s"
  using assms by (auto simp: select_clear_def fun_eq_iff split: poll_flag.splits)

lemma select_shrink_simps [simp]:
  "rfds (select_shrink fd s) = rfds s" "wfds (select_shrink fd s) = wfds s" "pipe_rd (select_shrink fd s) = pipe_rd s"
  "pipe_len (select_shrink fd s) = pipe_len s"
  by (simp_all add: select_shrink_def)

lemma select_shrink_ok:
  assumes "select_ok s"
  shows "select_ok (select_shrink fd s)"
proof -
  note k = select_okD [OF assms]
  have h: "0 \<le> highfds s" using k(1) by (simp add: fd_ok_def)
  note n = new_high_greatest [OF h k(2,6,7)]
  have "rfds s i \<or> wfds s i \<Longrightarrow> 0 \<le> i \<and> i \<le> new_high s" for i using k(4,5) [of i] n(4) [of i] by blast
  then have "select_ok (s\<lparr>highfds := new_high s\<rparr>)" using n(2,3) k by (simp add: select_ok_def fd_ok_def)
  then show ?thesis using assms by (simp add: select_shrink_def)
qed

lemma select_clear_keeps:
  assumes "select_ok s" "select_clear fd flag s = Inr s'" "fd \<noteq> pipe_rd s"
  shows "select_ok s'"
  using assms(1,3) select_clear_ok [OF assms(2)] by (auto simp: select_ok_def)

lemma select_unwatch_fd_ok:
  assumes ok: "select_ok s" and u: "select_unwatch_fd fd flag s = Inr (b, s')" and fd: "fd \<noteq> pipe_rd s"
  shows "select_ok s'" "rfds s' = (rfds s)(fd := rfds s fd \<and> flag = CB_WRONLY)"
    "wfds s' = (wfds s)(fd := wfds s fd \<and> flag = CB_RDONLY)" "b = (\<not> rfds s' fd \<and> \<not> wfds s' fd)"
    "pipe_rd s' = pipe_rd s" "pipe_len s' = (if flag = CB_RDWR then Suc (pipe_len s) else pipe_len s)"
    "flag \<in> {CB_RDONLY, CB_WRONLY, CB_RDWR}"
proof -
  obtain s1 where c: "select_clear fd flag s = Inr s1" using u
    by (auto simp: select_unwatch_fd_def rbind_eq_Inr split: if_splits)
  define s2 where "s2 = select_shrink fd s1"
  have s': "s' = (if flag = CB_RDWR then s2\<lparr>pipe_len := Suc (pipe_len s2)\<rparr> else s2)"
    and b: "b = (\<not> rfds s2 fd \<and> \<not> wfds s2 fd)"
    using u c by (auto simp: select_unwatch_fd_def Let_def s2_def split: if_splits)
  have "select_ok s2" unfolding s2_def by (rule select_shrink_ok [OF select_clear_keeps [OF ok c fd]])
  then show "select_ok s'" by (simp add: s' select_ok_def)
  show "rfds s' = (rfds s)(fd := rfds s fd \<and> flag = CB_WRONLY)" "wfds s' = (wfds s)(fd := wfds s fd \<and> flag = CB_RDONLY)"
    "b = (\<not> rfds s' fd \<and> \<not> wfds s' fd)" "pipe_rd s' = pipe_rd s"
    "pipe_len s' = (if flag = CB_RDWR then Suc (pipe_len s) else pipe_len s)" "flag \<in> {CB_RDONLY, CB_WRONLY, CB_RDWR}"
    using select_clear_ok [OF c] b by (simp_all add: s' s2_def)
qed

lemma select_unwatch_fd_total:
  "fd_ok fd \<Longrightarrow> flag \<in> {CB_RDONLY, CB_WRONLY, CB_RDWR} \<Longrightarrow> \<exists>b s'. select_unwatch_fd fd flag s = Inr (b, s')"
  by (auto simp: select_unwatch_fd_def select_clear_def Let_def)

text \<open>
  What \<open>wait_ready\<close> reports of a list of descriptors: the ready members of the sets in their order,
  without the pipe, of which it takes one byte.
\<close>

lemma collect_ready_exact:
  assumes "distinct fds" "tr (pipe_rd s) \<and> pipe_rd s \<in> set fds \<longrightarrow> 0 < pipe_len s" "\<not> tw (pipe_rd s)"
  shows "collect_ready tr tw fds s =
    Inr ((filter (\<lambda>fd. tr fd \<and> fd \<noteq> pipe_rd s) fds, filter tw fds),
      if tr (pipe_rd s) \<and> pipe_rd s \<in> set fds then s\<lparr>pipe_len := pipe_len s - 1\<rparr> else s)"
  using assms
proof (induction fds arbitrary: s)
  case Nil
  then show ?case by simp
next
  case (Cons fd fds)
  show ?case
  proof (cases "fd = pipe_rd s \<and> tr fd")
    case True
    let ?s = "s\<lparr>pipe_len := pipe_len s - 1\<rparr>"
    have "collect_ready tr tw fds ?s = Inr ((filter (\<lambda>fd. tr fd \<and> fd \<noteq> pipe_rd ?s) fds, filter tw fds),
      if tr (pipe_rd ?s) \<and> pipe_rd ?s \<in> set fds then ?s\<lparr>pipe_len := pipe_len ?s - 1\<rparr> else ?s)"
      using Cons.prems True by (intro Cons.IH) auto
    moreover have "pipe_rd s \<notin> set fds" "0 < pipe_len s" using Cons.prems True by auto
    ultimately show ?thesis using Cons.prems(3) conjunct1 [OF True] conjunct2 [OF True] by simp
  next
    case False
    have "collect_ready tr tw fds s = Inr ((filter (\<lambda>fd. tr fd \<and> fd \<noteq> pipe_rd s) fds, filter tw fds),
      if tr (pipe_rd s) \<and> pipe_rd s \<in> set fds then s\<lparr>pipe_len := pipe_len s - 1\<rparr> else s)"
      using Cons.prems False by (intro Cons.IH) auto
    then show ?thesis using False by (cases "fd = pipe_rd s") auto
  qed
qed

section \<open>What \<open>PollMgr\<close> relies on\<close>

text \<open>
  \<open>reads\<close> and \<open>writes\<close> are the descriptors watched for its users, \<open>own\<close> those that it keeps for itself.
\<close>

locale aio =
  fixes A :: "'s aio_mgr" and ok :: "'s \<Rightarrow> bool" and reads :: "'s \<Rightarrow> int \<Rightarrow> bool" and writes :: "'s \<Rightarrow> int \<Rightarrow> bool"
    and own :: "'s \<Rightarrow> int \<Rightarrow> bool"
  assumes watch: "ok s \<Longrightarrow> 0 \<le> fd \<Longrightarrow> fd < MAX_POLL_FDS \<Longrightarrow> \<not> own s fd \<Longrightarrow> flag \<in> {CB_RDONLY, CB_WRONLY, CB_RDWR} \<Longrightarrow>
      \<exists>s'. aio_watch_fd A fd flag s = Inr s' \<and> ok s' \<and> own s' = own s \<and>
        reads s' = (reads s)(fd := reads s fd \<or> flag \<noteq> CB_WRONLY) \<and> writes s' = (writes s)(fd := writes s fd \<or> flag \<noteq> CB_RDONLY)"
    and unwatch: "ok s \<Longrightarrow> \<not> own s fd \<Longrightarrow> flag \<in> {CB_RDONLY, CB_WRONLY, CB_RDWR} \<Longrightarrow> aio_unwatch_fd A fd flag s = Inr (b, s') \<Longrightarrow>
      ok s' \<and> own s' = own s \<and> reads s' = (reads s)(fd := reads s fd \<and> flag = CB_WRONLY) \<and>
        writes s' = (writes s)(fd := writes s fd \<and> flag = CB_RDONLY) \<and> b = (\<not> reads s' fd \<and> \<not> writes s' fd)"
    and unwatch_watched: "ok s \<Longrightarrow> \<not> own s fd \<Longrightarrow> flag \<in> {CB_RDONLY, CB_WRONLY, CB_RDWR} \<Longrightarrow> 0 \<le> fd \<Longrightarrow> fd < MAX_POLL_FDS \<Longrightarrow>
      reads s fd \<or> writes s fd \<Longrightarrow> \<exists>r. aio_unwatch_fd A fd flag s = Inr r"

locale aio_query = aio +
  assumes is_watched: "ok s \<Longrightarrow> 0 \<le> fd \<Longrightarrow> fd < MAX_POLL_FDS \<Longrightarrow> \<not> own s fd \<Longrightarrow> flag \<in> {CB_RDONLY, CB_WRONLY, CB_RDWR} \<Longrightarrow>
      aio_is_watched A fd flag s = Inr ((flag \<noteq> CB_WRONLY \<longrightarrow> reads s fd) \<and> (flag \<noteq> CB_RDONLY \<longrightarrow> writes s fd))"

text \<open>Whoever is watched has a callback.\<close>

definition pm_ok :: "('s \<Rightarrow> bool) \<Rightarrow> ('s \<Rightarrow> int \<Rightarrow> bool) \<Rightarrow> ('s \<Rightarrow> int \<Rightarrow> bool) \<Rightarrow> ('s, 'c) pollmgr \<Rightarrow> bool" where
  "pm_ok ok reads writes p =
     (ok (pm_aio p) \<and>
      (\<forall>fd. reads (pm_aio p) fd \<or> writes (pm_aio p) fd \<longrightarrow> 0 \<le> fd \<and> fd < MAX_POLL_FDS \<and> callbacks p fd \<noteq> None))"

context aio
begin

lemma add_callback_works:
  assumes "pm_ok ok reads writes p" "0 \<le> fd" "fd < MAX_POLL_FDS" "\<not> own (pm_aio p) fd"
    and "flag \<in> {CB_RDONLY, CB_WRONLY, CB_RDWR}" "callbacks p fd = None \<or> callbacks p fd = Some ch"
  shows "\<exists>p'. add_callback A fd flag ch p = Inr p' \<and> pm_ok ok reads writes p' \<and> callbacks p' = (callbacks p)(fd := Some ch) \<and>
    own (pm_aio p') = own (pm_aio p) \<and> pending_change p' = pending_change p \<and>
    reads (pm_aio p') = (reads (pm_aio p))(fd := reads (pm_aio p) fd \<or> flag \<noteq> CB_WRONLY) \<and>
    writes (pm_aio p') = (writes (pm_aio p))(fd := writes (pm_aio p) fd \<or> flag \<noteq> CB_RDONLY)"
proof -
  have k: "ok (pm_aio p)" using assms(1) by (simp add: pm_ok_def)
  from watch [OF k assms(2-5)] obtain s' where s': "aio_watch_fd A fd flag (pm_aio p) = Inr s'" "ok s'"
    "own s' = own (pm_aio p)" "reads s' = (reads (pm_aio p))(fd := reads (pm_aio p) fd \<or> flag \<noteq> CB_WRONLY)"
    "writes s' = (writes (pm_aio p))(fd := writes (pm_aio p) fd \<or> flag \<noteq> CB_RDONLY)" by blast
  have "add_callback A fd flag ch p = Inr (p\<lparr>pm_aio := s', callbacks := (callbacks p)(fd := Some ch)\<rparr>)"
    using assms s'(1) by (simp add: add_callback_def cb_index_def VERIFY_def)
  then show ?thesis using assms(1-3) s' by (auto simp: pm_ok_def)
qed

lemma add_callback_inv:
  assumes "pm_ok ok reads writes p" "\<not> own (pm_aio p) fd" "flag \<in> {CB_RDONLY, CB_WRONLY, CB_RDWR}"
    and a: "add_callback A fd flag ch p = Inr p'"
  shows "pm_ok ok reads writes p'" "callbacks p' = (callbacks p)(fd := Some ch)" "own (pm_aio p') = own (pm_aio p)"
    "pending_change p' = pending_change p"
    "reads (pm_aio p') = (reads (pm_aio p))(fd := reads (pm_aio p) fd \<or> flag \<noteq> CB_WRONLY)"
    "writes (pm_aio p') = (writes (pm_aio p))(fd := writes (pm_aio p) fd \<or> flag \<noteq> CB_RDONLY)"
proof -
  have fd: "0 \<le> fd" "fd < MAX_POLL_FDS" "callbacks p fd = None \<or> callbacks p fd = Some ch"
    using a by (auto simp: add_callback_def rbind_eq_Inr VERIFY_eq_Inr cb_index_def split: if_splits)
  from add_callback_works [OF assms(1) fd(1,2) assms(2,3) fd(3)] a
  show "pm_ok ok reads writes p'" "callbacks p' = (callbacks p)(fd := Some ch)" "own (pm_aio p') = own (pm_aio p)"
    "pending_change p' = pending_change p"
    "reads (pm_aio p') = (reads (pm_aio p))(fd := reads (pm_aio p) fd \<or> flag \<noteq> CB_WRONLY)"
    "writes (pm_aio p') = (writes (pm_aio p))(fd := writes (pm_aio p) fd \<or> flag \<noteq> CB_RDONLY)"
    by auto
qed

lemma del_callback_inv:
  assumes "pm_ok ok reads writes p" "\<not> own (pm_aio p) fd" "flag \<in> {CB_RDONLY, CB_WRONLY, CB_RDWR}"
    and d: "del_callback A fd flag p = Inr p'"
  shows "pm_ok ok reads writes p'" "own (pm_aio p') = own (pm_aio p)" "pending_change p' = pending_change p"
    "reads (pm_aio p') = (reads (pm_aio p))(fd := reads (pm_aio p) fd \<and> flag = CB_WRONLY)"
    "writes (pm_aio p') = (writes (pm_aio p))(fd := writes (pm_aio p) fd \<and> flag = CB_RDONLY)"
    "callbacks p' = (if reads (pm_aio p') fd \<or> writes (pm_aio p') fd then callbacks p else (callbacks p)(fd := None))"
proof -
  obtain b s where u: "aio_unwatch_fd A fd flag (pm_aio p) = Inr (b, s)"
    and p': "p' = (if b then p\<lparr>pm_aio := s, callbacks := (callbacks p)(fd := None)\<rparr> else p\<lparr>pm_aio := s\<rparr>)"
    using d by (auto simp: del_callback_def rbind_eq_Inr split: if_splits)
  have k: "ok (pm_aio p)" using assms(1) by (simp add: pm_ok_def)
  note w = unwatch [OF k assms(2,3) u]
  then show "own (pm_aio p') = own (pm_aio p)" "pending_change p' = pending_change p"
    "reads (pm_aio p') = (reads (pm_aio p))(fd := reads (pm_aio p) fd \<and> flag = CB_WRONLY)"
    "writes (pm_aio p') = (writes (pm_aio p))(fd := writes (pm_aio p) fd \<and> flag = CB_RDONLY)"
    "callbacks p' = (if reads (pm_aio p') fd \<or> writes (pm_aio p') fd then callbacks p else (callbacks p)(fd := None))"
    by (auto simp: p')
  show "pm_ok ok reads writes p'" using assms(1) w by (auto simp: pm_ok_def p')
qed

lemma del_callback_works:
  assumes "pm_ok ok reads writes p" "\<not> own (pm_aio p) fd" "flag \<in> {CB_RDONLY, CB_WRONLY, CB_RDWR}"
    and "reads (pm_aio p) fd \<or> writes (pm_aio p) fd"
  shows "\<exists>p'. del_callback A fd flag p = Inr p'"
proof -
  have r: "ok (pm_aio p)" "0 \<le> fd" "fd < MAX_POLL_FDS" using assms by (auto simp: pm_ok_def)
  from unwatch_watched [OF r(1) assms(2,3) r(2,3) assms(4)] obtain b s where
    "aio_unwatch_fd A fd flag (pm_aio p) = Inr (b, s)" by auto
  then show ?thesis using r by (simp add: del_callback_def cb_index_def)
qed

lemma block_remove_inv:
  assumes "pm_ok ok reads writes p" "\<not> own (pm_aio p) fd" and d: "block_remove_fd A fd p = Inr p'"
  shows "pm_ok ok reads writes p'" "own (pm_aio p') = own (pm_aio p)" "pending_change p'" "callbacks p' = callbacks p"
    "reads (pm_aio p') = (reads (pm_aio p))(fd := False)" "writes (pm_aio p') = (writes (pm_aio p))(fd := False)"
proof -
  obtain b s where u: "aio_unwatch_fd A fd CB_RDWR (pm_aio p) = Inr (b, s)"
    and p': "p' = p\<lparr>pm_aio := s, pending_change := True\<rparr>"
    using d by (auto simp: block_remove_fd_def rbind_eq_Inr)
  have k: "ok (pm_aio p)" using assms(1) by (simp add: pm_ok_def)
  have w: "ok s \<and> own s = own (pm_aio p) \<and> reads s = (reads (pm_aio p))(fd := False) \<and> writes s = (writes (pm_aio p))(fd := False)"
    using unwatch [OF k assms(2) _ u] by simp
  then show "own (pm_aio p') = own (pm_aio p)" "pending_change p'" "callbacks p' = callbacks p"
    "reads (pm_aio p') = (reads (pm_aio p))(fd := False)" "writes (pm_aio p') = (writes (pm_aio p))(fd := False)"
    by (auto simp: p')
  show "pm_ok ok reads writes p'" using assms(1) w by (auto simp: pm_ok_def p')
qed

lemma block_remove_done_inv:
  assumes "pm_ok ok reads writes p" "\<not> reads (pm_aio p) fd" "\<not> writes (pm_aio p) fd" "block_remove_done fd p = Inr p'"
  shows "pm_ok ok reads writes p'"
  using assms by (auto simp: pm_ok_def block_remove_done_def rbind_eq_Inr)

end

context aio_query
begin

lemma has_callback_exact:
  assumes "pm_ok ok reads writes p" "\<not> own (pm_aio p) fd" "flag \<in> {CB_RDONLY, CB_WRONLY, CB_RDWR}" "0 \<le> fd" "fd < MAX_POLL_FDS"
  shows "has_callback A fd flag c p =
    Inr (callbacks p fd = Some c \<and> (flag \<noteq> CB_WRONLY \<longrightarrow> reads (pm_aio p) fd) \<and> (flag \<noteq> CB_RDONLY \<longrightarrow> writes (pm_aio p) fd))"
  using assms is_watched [of "pm_aio p" fd flag] by (auto simp: has_callback_def cb_index_def pm_ok_def)

end

section \<open>Both implementations keep the contract\<close>

definition select_reads :: "select_aio \<Rightarrow> int \<Rightarrow> bool" where
  "select_reads s fd = (rfds s fd \<and> fd \<noteq> pipe_rd s)"

definition select_own :: "select_aio \<Rightarrow> int \<Rightarrow> bool" where
  "select_own s fd = (fd = pipe_rd s)"

interpretation select: aio_query SelectAIO select_ok select_reads wfds select_own
proof unfold_locales
  fix s fd and flag :: poll_flag
  assume a: "select_ok s" "0 \<le> fd" "fd < MAX_POLL_FDS" "\<not> select_own s fd" "flag \<in> {CB_RDONLY, CB_WRONLY, CB_RDWR}"
  then have fd: "fd_ok fd" "fd \<noteq> pipe_rd s" by (auto simp: fd_ok_def MAX_POLL_FDS_def FD_SETSIZE_def select_own_def)
  from select_watch_fd_total [OF fd(1)] obtain s' where s': "select_watch_fd fd flag s = Inr s'" by blast
  show "\<exists>s'. aio_watch_fd SelectAIO fd flag s = Inr s' \<and> select_ok s' \<and> select_own s' = select_own s \<and>
      select_reads s' = (select_reads s)(fd := select_reads s fd \<or> flag \<noteq> CB_WRONLY) \<and>
      wfds s' = (wfds s)(fd := wfds s fd \<or> flag \<noteq> CB_RDONLY)"
    using s' select_watch_fd_ok [OF a(1) s' fd(2)] fd(2) by (auto simp: SelectAIO_def fun_eq_iff select_reads_def select_own_def)
  show "aio_is_watched SelectAIO fd flag s = Inr ((flag \<noteq> CB_WRONLY \<longrightarrow> select_reads s fd) \<and> (flag \<noteq> CB_RDONLY \<longrightarrow> wfds s fd))"
    using a(5) fd by (auto simp: SelectAIO_def select_is_watched_def select_reads_def)
next
  fix s fd b s' and flag :: poll_flag
  assume a: "select_ok s" "\<not> select_own s fd" "aio_unwatch_fd SelectAIO fd flag s = Inr (b, s')"
  then have u: "select_unwatch_fd fd flag s = Inr (b, s')" "fd \<noteq> pipe_rd s" by (simp_all add: SelectAIO_def select_own_def)
  show "select_ok s' \<and> select_own s' = select_own s \<and> select_reads s' = (select_reads s)(fd := select_reads s fd \<and> flag = CB_WRONLY) \<and>
      wfds s' = (wfds s)(fd := wfds s fd \<and> flag = CB_RDONLY) \<and> b = (\<not> select_reads s' fd \<and> \<not> wfds s' fd)"
    using select_unwatch_fd_ok [OF a(1) u] u(2) by (auto simp: fun_eq_iff select_reads_def select_own_def)
next
  fix s fd and flag :: poll_flag
  assume "0 \<le> fd" "fd < MAX_POLL_FDS" "flag \<in> {CB_RDONLY, CB_WRONLY, CB_RDWR}"
  then show "\<exists>r. aio_unwatch_fd SelectAIO fd flag s = Inr r"
    using select_unwatch_fd_total [of fd flag s]
    by (auto simp: SelectAIO_def fd_ok_def MAX_POLL_FDS_def FD_SETSIZE_def)
qed

definition epoll_reads :: "epoll_aio \<Rightarrow> int \<Rightarrow> bool" where
  "epoll_reads s fd = (fdstatus s fd AND flag_code CB_RDONLY \<noteq> 0)"

definition epoll_writes :: "epoll_aio \<Rightarrow> int \<Rightarrow> bool" where
  "epoll_writes s fd = (fdstatus s fd AND flag_code CB_WRONLY \<noteq> 0)"

text \<open>The kernel's table agrees with \<open>fdstatus_\<close>.\<close>

definition epoll_ok :: "epoll_aio \<Rightarrow> bool" where
  "epoll_ok s =
     (\<forall>fd. fdstatus s fd \<in> {0, 0x1, 0x10, 0x11} \<and>
       ep_reg s fd = (if fdstatus s fd = 0 then None else Some (status_events (fdstatus s fd))))"

lemma epoll_new_ok: "epoll_new True = Inr s \<Longrightarrow> epoll_ok s"
  by (auto simp: epoll_new_def epoll_ok_def)

lemma epoll_status_cases:
  assumes "epoll_ok s"
  obtains "fdstatus s fd = 0" "ep_reg s fd = None" | "fdstatus s fd = 0x1" "ep_reg s fd = Some (status_events 0x1)"
  | "fdstatus s fd = 0x10" "ep_reg s fd = Some (status_events 0x10)" | "fdstatus s fd = 0x11" "ep_reg s fd = Some (status_events 0x11)"
  using assms by (auto simp: epoll_ok_def split: if_splits)

lemma epoll_ok_upd:
  assumes "epoll_ok s" "st \<in> {0, 0x1, 0x10, 0x11}" "r = (if st = 0 then None else Some (status_events st))"
  shows "epoll_ok (s\<lparr>fdstatus := (fdstatus s)(fd := st), ep_reg := (ep_reg s)(fd := r)\<rparr>)"
  unfolding epoll_ok_def
proof
  fix fda
  have "fdstatus s fda \<in> {0, 0x1, 0x10, 0x11} \<and> ep_reg s fda = (if fdstatus s fda = 0 then None else Some (status_events (fdstatus s fda)))"
    using assms(1) unfolding epoll_ok_def by blast
  then show "fdstatus (s\<lparr>fdstatus := (fdstatus s)(fd := st), ep_reg := (ep_reg s)(fd := r)\<rparr>) fda \<in> {0, 0x1, 0x10, 0x11} \<and>
      ep_reg (s\<lparr>fdstatus := (fdstatus s)(fd := st), ep_reg := (ep_reg s)(fd := r)\<rparr>) fda =
      (if fdstatus (s\<lparr>fdstatus := (fdstatus s)(fd := st), ep_reg := (ep_reg s)(fd := r)\<rparr>) fda = 0 then None
       else Some (status_events (fdstatus (s\<lparr>fdstatus := (fdstatus s)(fd := st), ep_reg := (ep_reg s)(fd := r)\<rparr>) fda)))"
    using assms(2,3) by (cases "fda = fd") auto
qed

lemma epoll_watch_fd_eq:
  assumes "epoll_ok s" "0 \<le> fd" "fd < MAX_POLL_FDS" "flag \<in> {CB_RDONLY, CB_WRONLY, CB_RDWR}"
  shows "epoll_watch_fd fd flag s =
    Inr (s\<lparr>fdstatus := (fdstatus s)(fd := fdstatus s fd OR flag_code flag),
           ep_reg := (ep_reg s)(fd \<mapsto> status_events (fdstatus s fd OR flag_code flag))\<rparr>)"
  using assms(2-4)
  by (cases rule: epoll_status_cases [OF assms(1), of fd])
     (auto simp: epoll_watch_fd_def fd_index_def epoll_do_def epoll_ctl_def Let_def VERIFY_def status_events_def
        EPOLLET_def EPOLLIN_def EPOLLOUT_def)

lemma epoll_unwatch_fd_eq:
  assumes "epoll_ok s" "flag \<in> {CB_RDONLY, CB_WRONLY, CB_RDWR}" "epoll_unwatch_fd fd flag s = Inr (b, s')"
  defines "st \<equiv> fdstatus s fd AND NOT (flag_code flag)"
  shows "s' = s\<lparr>fdstatus := (fdstatus s)(fd := st), ep_reg := (ep_reg s)(fd := if st = 0 then None else Some (status_events st))\<rparr>"
    "b = (st = 0)"
  using assms(3)
  by (auto simp: epoll_unwatch_fd_def rbind_eq_Inr epoll_do_def epoll_ctl_def Let_def st_def split: if_splits option.splits)

interpretation epoll: aio EPollAIO epoll_ok epoll_reads epoll_writes "\<lambda>_ _. False"
proof unfold_locales
  fix s fd and flag :: poll_flag
  assume a: "epoll_ok s" "0 \<le> fd" "fd < MAX_POLL_FDS" "flag \<in> {CB_RDONLY, CB_WRONLY, CB_RDWR}"
  define s' where "s' = s\<lparr>fdstatus := (fdstatus s)(fd := fdstatus s fd OR flag_code flag),
           ep_reg := (ep_reg s)(fd := Some (status_events (fdstatus s fd OR flag_code flag)))\<rparr>"
  have f: "fdstatus s fd OR flag_code flag \<in> {0x1, 0x10, 0x11}"
    using a(4) by (cases rule: epoll_status_cases [OF a(1), of fd]) auto
  have "epoll_ok s'" unfolding s'_def by (rule epoll_ok_upd [OF a(1)]) (use f in auto)
  moreover have "epoll_reads s' = (epoll_reads s)(fd := epoll_reads s fd \<or> flag \<noteq> CB_WRONLY)"
    "epoll_writes s' = (epoll_writes s)(fd := epoll_writes s fd \<or> flag \<noteq> CB_RDONLY)"
    using a(4) by (cases rule: epoll_status_cases [OF a(1), of fd]; auto simp: s'_def epoll_reads_def epoll_writes_def fun_eq_iff)+
  ultimately show "\<exists>s'. aio_watch_fd EPollAIO fd flag s = Inr s' \<and> epoll_ok s' \<and> (\<lambda>_. False) = (\<lambda>_. False) \<and>
      epoll_reads s' = (epoll_reads s)(fd := epoll_reads s fd \<or> flag \<noteq> CB_WRONLY) \<and>
      epoll_writes s' = (epoll_writes s)(fd := epoll_writes s fd \<or> flag \<noteq> CB_RDONLY)"
    using epoll_watch_fd_eq [OF a] by (auto simp: EPollAIO_def s'_def)
next
  fix s fd b s' and flag :: poll_flag
  assume a: "epoll_ok s" "flag \<in> {CB_RDONLY, CB_WRONLY, CB_RDWR}" and "aio_unwatch_fd EPollAIO fd flag s = Inr (b, s')"
  then have u: "epoll_unwatch_fd fd flag s = Inr (b, s')" by (simp add: EPollAIO_def)
  note e = epoll_unwatch_fd_eq [OF a u]
  have "fdstatus s fd AND NOT (flag_code flag) \<in> {0, 0x1, 0x10, 0x11}"
    using a(2) by (cases rule: epoll_status_cases [OF a(1), of fd]) auto
  from epoll_ok_upd [OF a(1) this refl] have "epoll_ok s'" unfolding e(1) .
  moreover have "epoll_reads s' = (epoll_reads s)(fd := epoll_reads s fd \<and> flag = CB_WRONLY)"
    "epoll_writes s' = (epoll_writes s)(fd := epoll_writes s fd \<and> flag = CB_RDONLY)"
    "b = (\<not> epoll_reads s' fd \<and> \<not> epoll_writes s' fd)"
    using a(2) by (cases rule: epoll_status_cases [OF a(1), of fd]; auto simp: e epoll_reads_def epoll_writes_def fun_eq_iff)+
  ultimately show "epoll_ok s' \<and> (\<lambda>_. False) = (\<lambda>_. False) \<and> epoll_reads s' = (epoll_reads s)(fd := epoll_reads s fd \<and> flag = CB_WRONLY) \<and>
      epoll_writes s' = (epoll_writes s)(fd := epoll_writes s fd \<and> flag = CB_RDONLY) \<and> b = (\<not> epoll_reads s' fd \<and> \<not> epoll_writes s' fd)"
    by simp
next
  fix s fd and flag :: poll_flag
  assume a: "epoll_ok s" "flag \<in> {CB_RDONLY, CB_WRONLY, CB_RDWR}" "0 \<le> fd" "fd < MAX_POLL_FDS" "epoll_reads s fd \<or> epoll_writes s fd"
  then show "\<exists>r. aio_unwatch_fd EPollAIO fd flag s = Inr r"
    by (cases rule: epoll_status_cases [OF a(1), of fd])
       (auto simp: EPollAIO_def epoll_unwatch_fd_def fd_index_def epoll_do_def epoll_ctl_def Let_def VERIFY_def epoll_reads_def epoll_writes_def)
qed

text \<open>\<open>EPollAIO::is_watched\<close> masks the wrong bits: it never says that a descriptor is watched.\<close>

lemma epoll_is_watched_never:
  assumes "epoll_ok s" "flag \<in> {CB_RDONLY, CB_WRONLY, CB_RDWR}" "0 \<le> fd" "fd < MAX_POLL_FDS"
  shows "epoll_is_watched fd flag s = Inr False"
  using assms(2-4)
  by (cases rule: epoll_status_cases [OF assms(1), of fd]) (auto simp: epoll_is_watched_def fd_index_def)

section \<open>Invariant of the threads\<close>

text \<open>The poll thread has nothing to do with \<open>fd\<close> before it takes the next snapshot.\<close>

fun pc_free :: "int \<Rightarrow> 'c wait_pc \<Rightarrow> bool" where
  "pc_free fd W_top = True"
| "pc_free fd W_enter = True"
| "pc_free fd (W_select (tr, tw, high)) = (\<not> tr fd \<and> \<not> tw fd)"
| "pc_free fd (W_ready rd wr) = (fd \<notin> set rd \<and> fd \<notin> set wr)"
| "pc_free fd (W_read c f rd wr) = (fd \<noteq> f \<and> fd \<notin> set rd \<and> fd \<notin> set wr)"
| "pc_free fd (W_write c f wr) = (fd \<noteq> f \<and> fd \<notin> set wr)"

definition client_fd :: "int \<Rightarrow> int \<Rightarrow> bool" where
  "client_fd pipe fd = (0 \<le> fd \<and> fd < MAX_POLL_FDS \<and> fd \<noteq> pipe)"

fun pc_ok :: "int \<Rightarrow> 'c wait_pc \<Rightarrow> bool" where
  "pc_ok pipe W_top = True"
| "pc_ok pipe W_enter = True"
| "pc_ok pipe (W_select (tr, tw, high)) =
     (tr pipe \<and> 0 \<le> pipe \<and> pipe \<le> high \<and> high < FD_SETSIZE \<and> (\<forall>fd. tr fd \<longrightarrow> fd = pipe \<or> client_fd pipe fd) \<and>
      (\<forall>fd. tw fd \<longrightarrow> client_fd pipe fd))"
| "pc_ok pipe (W_ready rd wr) = list_all (client_fd pipe) (rd @ wr)"
| "pc_ok pipe (W_read c f rd wr) = list_all (client_fd pipe) (rd @ wr)"
| "pc_ok pipe (W_write c f wr) = list_all (client_fd pipe) wr"

fun polling :: "'c wait_pc \<Rightarrow> bool" where
  "polling W_enter = True"
| "polling (W_select snap) = True"
| "polling _ = False"

abbreviation sys_aio :: "('t, 'c) poll_sys \<Rightarrow> select_aio" where
  "sys_aio y \<equiv> pm_aio (ps_pm y)"

definition unwatched :: "int \<Rightarrow> ('t, 'c) poll_sys \<Rightarrow> bool" where
  "unwatched fd y = (\<not> rfds (sys_aio y) fd \<and> \<not> wfds (sys_aio y) fd)"

definition poll_inv :: "('t, 'c) poll_sys \<Rightarrow> bool" where
  "poll_inv y =
     (pm_ok select_ok select_reads wfds (ps_pm y) \<and> pc_ok (pipe_rd (sys_aio y)) (ps_pc y) \<and>
      (\<forall>t fd. removing fd (ps_rem y t) \<longrightarrow> unwatched fd y) \<and>
      (\<forall>fd\<in>ps_gone y. unwatched fd y \<and> callbacks (ps_pm y) fd = None \<and> pc_free fd (ps_pc y)) \<and>
      (\<forall>t fd. ps_rem y t = R_woken fd \<longrightarrow> pc_free fd (ps_pc y)) \<and>
      (\<forall>t fd. ps_rem y t = R_wait fd \<longrightarrow> pending_change (ps_pm y)) \<and>
      (pending_change (ps_pm y) \<and> polling (ps_pc y) \<longrightarrow> 0 < pipe_len (sys_aio y)))"

lemma poll_invD:
  assumes "poll_inv y"
  shows "pm_ok select_ok select_reads wfds (ps_pm y)" "pc_ok (pipe_rd (sys_aio y)) (ps_pc y)"
    "removing fd (ps_rem y t) \<Longrightarrow> unwatched fd y" "fd \<in> ps_gone y \<Longrightarrow> unwatched fd y"
    "fd \<in> ps_gone y \<Longrightarrow> callbacks (ps_pm y) fd = None" "fd \<in> ps_gone y \<Longrightarrow> pc_free fd (ps_pc y)"
    "ps_rem y t = R_woken fd \<Longrightarrow> pc_free fd (ps_pc y)" "ps_rem y t = R_wait fd \<Longrightarrow> pending_change (ps_pm y)"
    "pending_change (ps_pm y) \<Longrightarrow> polling (ps_pc y) \<Longrightarrow> 0 < pipe_len (sys_aio y)"
  using assms unfolding poll_inv_def by blast+

lemma poll_invI:
  assumes "pm_ok select_ok select_reads wfds (ps_pm y)" "pc_ok (pipe_rd (sys_aio y)) (ps_pc y)"
    "\<And>t fd. removing fd (ps_rem y t) \<Longrightarrow> unwatched fd y" "\<And>fd. fd \<in> ps_gone y \<Longrightarrow> unwatched fd y"
    "\<And>fd. fd \<in> ps_gone y \<Longrightarrow> callbacks (ps_pm y) fd = None" "\<And>fd. fd \<in> ps_gone y \<Longrightarrow> pc_free fd (ps_pc y)"
    "\<And>t fd. ps_rem y t = R_woken fd \<Longrightarrow> pc_free fd (ps_pc y)" "\<And>t fd. ps_rem y t = R_wait fd \<Longrightarrow> pending_change (ps_pm y)"
    "pending_change (ps_pm y) \<Longrightarrow> polling (ps_pc y) \<Longrightarrow> 0 < pipe_len (sys_aio y)"
  shows "poll_inv y"
  using assms unfolding poll_inv_def by blast

lemma opt_eq_Some [simp]: "opt r = Some x \<longleftrightarrow> r = Inr x"
  by (cases r) (simp_all add: opt_def)

lemma SelectAIO_simps [simp]:
  "aio_watch_fd SelectAIO = select_watch_fd" "aio_unwatch_fd SelectAIO = select_unwatch_fd"
  "aio_is_watched SelectAIO = select_is_watched"
  by (simp_all add: SelectAIO_def)

lemma select_own_pipe: "select_own s' = select_own s \<Longrightarrow> pipe_rd s' = pipe_rd s"
  by (drule fun_cong [where x = "pipe_rd s"]) (simp add: select_own_def)

lemma poll_inv_start:
  assumes "PollMgr_new (Some fd) = Inr p"
  shows "poll_inv (poll_start p)"
proof (rule poll_invI)
  have "rfds (pm_aio p) = (\<lambda>_. False)(fd := True)" "wfds (pm_aio p) = (\<lambda>_. False)" "pipe_rd (pm_aio p) = fd"
    using assms by (auto simp: PollMgr_new_def rbind_eq_Inr select_new_def split: if_splits)
  moreover have "select_ok (pm_aio p)" using assms select_new_ok by (auto simp: PollMgr_new_def rbind_eq_Inr)
  ultimately show "pm_ok select_ok select_reads wfds (ps_pm (poll_start p))"
    by (simp add: poll_start_def pm_ok_def select_reads_def)
qed (use assms in \<open>auto simp: poll_start_def PollMgr_new_def rbind_eq_Inr removing_def\<close>)

text \<open>Adding and deleting callbacks leave the poll thread and the pipe's byte alone.\<close>

lemma poll_inv_add:
  assumes inv: "poll_inv y" and c: "poll_client y (P_add fd flag c)" and s: "poll_step (P_add fd flag c) y = Some y'"
  shows "poll_inv y'"
proof -
  obtain p where a: "add_callback SelectAIO fd flag c (ps_pm y) = Inr p"
    and y': "y' = y\<lparr>ps_pm := p, ps_gone := ps_gone y - {fd}\<rparr>" using s by auto
  have cl: "fd \<noteq> pipe_rd (sys_aio y)" "flag \<in> {CB_RDONLY, CB_WRONLY, CB_RDWR}" "\<And>t. \<not> removing fd (ps_rem y t)"
    using c by (auto simp: poll_client_def)
  note i = poll_invD [OF inv]
  have own: "\<not> select_own (sys_aio y) fd" using cl(1) by (simp add: select_own_def)
  note k = select.add_callback_inv [OF i(1) own cl(2) a]
  note pipe = select_own_pipe [OF k(3)]
  have ok: "select_ok (sys_aio y)" and u: "select_watch_fd fd flag (sys_aio y) = Inr (pm_aio p)"
    using i(1) a by (auto simp: pm_ok_def add_callback_def rbind_eq_Inr)
  note u1 = select_watch_fd_ok [OF ok u cl(1)]
  have w: "unwatched f y'" if "unwatched f y" "f \<noteq> fd" for f using that u1(2,3) by (simp add: y' unwatched_def)
  show ?thesis
  proof (rule poll_invI)
    show "unwatched f y'" if "removing f (ps_rem y' t)" for t f using that i(3) [of f t] cl(3) w by (auto simp: y')
    show "unwatched f y'" if "f \<in> ps_gone y'" for f using that i(4) w by (auto simp: y')
    show "callbacks (ps_pm y') f = None" if "f \<in> ps_gone y'" for f using that i(5) k(2) by (auto simp: y')
  qed (use k(1,4) pipe u1(5) i in \<open>auto simp: y'\<close>)
qed

lemma poll_inv_del:
  assumes inv: "poll_inv y" and c: "poll_client y (P_del fd flag)" and s: "poll_step (P_del fd flag) y = Some y'"
  shows "poll_inv y'"
proof -
  obtain p where d: "del_callback SelectAIO fd flag (ps_pm y) = Inr p" and y': "y' = y\<lparr>ps_pm := p\<rparr>" using s by auto
  note i = poll_invD [OF inv]
  have own: "\<not> select_own (sys_aio y) fd" and fd: "fd \<noteq> pipe_rd (sys_aio y)" using c by (auto simp: poll_client_def select_own_def)
  obtain b where u: "select_unwatch_fd fd flag (sys_aio y) = Inr (b, pm_aio p)"
    using d by (auto simp: del_callback_def rbind_eq_Inr split: if_splits)
  have ok: "select_ok (sys_aio y)" using i(1) by (simp add: pm_ok_def)
  note u1 = select_unwatch_fd_ok [OF ok u fd]
  note k = select.del_callback_inv [OF i(1) own u1(7) d]
  have w: "unwatched f y'" if "unwatched f y" for f using that u1(2,3) by (auto simp: y' unwatched_def)
  have n: "callbacks p f = None" if "callbacks (ps_pm y) f = None" for f using that k(6) by auto
  show ?thesis by (rule poll_invI) (use i w n k(1,3) u1(5,6) in \<open>auto simp: y'\<close>)
qed

lemma poll_inv_remove:
  assumes inv: "poll_inv y" and c: "poll_client y (P_remove t fd)" and s: "poll_step (P_remove t fd) y = Some y'"
  shows "poll_inv y'"
proof -
  obtain p where b: "block_remove_fd SelectAIO fd (ps_pm y) = Inr p" and r: "ps_rem y t = R_none"
    and y': "y' = y\<lparr>ps_pm := p, ps_rem := (ps_rem y)(t := R_wait fd)\<rparr>" using s by (auto split: if_splits)
  note i = poll_invD [OF inv]
  have own: "\<not> select_own (sys_aio y) fd" and fd: "fd \<noteq> pipe_rd (sys_aio y)" using c by (auto simp: poll_client_def select_own_def)
  obtain b where u: "select_unwatch_fd fd CB_RDWR (sys_aio y) = Inr (b, pm_aio p)"
    using b by (auto simp: block_remove_fd_def rbind_eq_Inr)
  have ok: "select_ok (sys_aio y)" using i(1) by (simp add: pm_ok_def)
  note u1 = select_unwatch_fd_ok [OF ok u fd] and k = select.block_remove_inv [OF i(1) own b]
  have w: "unwatched f y'" if "unwatched f y \<or> f = fd" for f using that u1(2,3) by (auto simp: y' unwatched_def)
  show ?thesis
  proof (rule poll_invI)
    show "unwatched f y'" if "removing f (ps_rem y' t')" for t' f
      using that i(3) [of f t'] w by (auto simp: y' removing_def split: if_splits)
    show "pc_free f (ps_pc y')" if "ps_rem y' t' = R_woken f" for t' f
      using that i(7) [of t' f] by (simp add: y' split: if_splits)
  qed (use i w k(1,3,4) u1(5,6) in \<open>auto simp: y'\<close>)
qed

lemma poll_inv_return:
  assumes inv: "poll_inv y" and s: "poll_step (P_return t) y = Some y'"
  shows "poll_inv y'"
proof -
  obtain fd p where r: "ps_rem y t = R_woken fd" and b: "block_remove_done fd (ps_pm y) = Inr p"
    and y': "y' = y\<lparr>ps_pm := p, ps_rem := (ps_rem y)(t := R_none), ps_gone := insert fd (ps_gone y)\<rparr>"
    using s by (auto split: removal.splits)
  note i = poll_invD [OF inv]
  have p: "p = ps_pm y\<lparr>callbacks := (callbacks (ps_pm y))(fd := None)\<rparr>"
    using b by (auto simp: block_remove_done_def rbind_eq_Inr)
  have u: "unwatched fd y" using i(3) [of fd t] r by (simp add: removing_def)
  have w: "unwatched f y' = unwatched f y" for f by (simp add: y' p unwatched_def)
  have k: "pm_ok select_ok select_reads wfds p"
    by (rule select.block_remove_done_inv [OF i(1) _ _ b]) (use u in \<open>auto simp: unwatched_def select_reads_def\<close>)
  show ?thesis
  proof (rule poll_invI)
    show "unwatched f y'" if "removing f (ps_rem y' t')" for t' f
      using that i(3) [of f t'] by (simp add: w) (simp add: y' removing_def split: if_splits)
    show "unwatched f y'" if "f \<in> ps_gone y'" for f using that i(4) u by (auto simp: w) (auto simp: y')
    show "pc_free f (ps_pc y')" if "ps_rem y' t' = R_woken f" for t' f
      using that i(7) [of t' f] by (simp add: y' split: if_splits)
    show "pc_free f (ps_pc y')" if "f \<in> ps_gone y'" for f using that i(6) i(7) [OF r] by (auto simp: y')
    show "pending_change (ps_pm y')" if "ps_rem y' t' = R_wait f" for t' f
      using that i(8) [of t' f] by (simp add: y' p split: if_splits)
  qed (use i(1,2,5,9) k in \<open>auto simp: y' p\<close>)
qed

text \<open>
  What \<open>select\<close> found fits the pipe: it is readable exactly when there is a byte in it. A call that
  fails for another reason than a signal ends the program.
\<close>

definition sel_fits :: "sel_obs \<Rightarrow> select_aio \<Rightarrow> bool" where
  "sel_fits obs s = (case obs of Sel_ok r w \<Rightarrow> r (pipe_rd s) \<longleftrightarrow> 0 < pipe_len s | Sel_intr \<Rightarrow> True | Sel_err \<Rightarrow> False)"

lemma collect_ready_keeps:
  "collect_ready tr tw fds s = Inr ((rd, wr), s') \<Longrightarrow>
    set rd \<subseteq> {fd. tr fd \<and> fd \<noteq> pipe_rd s} \<and> set wr \<subseteq> {fd. tw fd} \<and> (\<exists>n. s' = s\<lparr>pipe_len := n\<rparr>)"
proof (induction fds arbitrary: s rd wr s')
  case Nil
  then show ?case by (auto intro: exI [of _ "pipe_len s"])
next
  case (Cons fd fds)
  show ?case
  proof (cases "fd = pipe_rd s \<and> tr fd")
    case True
    then show ?thesis using Cons.prems Cons.IH [of "s\<lparr>pipe_len := pipe_len s - 1\<rparr>" rd wr s']
      by (auto split: if_splits)
  next
    case False
    then obtain rd1 wr1 where "collect_ready tr tw fds s = Inr ((rd1, wr1), s')"
      "rd = (if tr fd then fd # rd1 else rd1)" "wr = (if tw fd then fd # wr1 else wr1)"
      using Cons.prems [unfolded collect_ready.simps if_not_P [OF False]] by (auto simp: rbind_eq_Inr)
    with Cons.IH [OF this(1)] False show ?thesis by auto
  qed
qed

lemma select_wait_ready_keeps:
  assumes "select_wait_ready obs (tr, tw, high) s = Inr ((rd, wr), s')"
  shows "set rd \<subseteq> {fd. tr fd \<and> fd \<noteq> pipe_rd s}" "set wr \<subseteq> {fd. tw fd}" "\<exists>n. s' = s\<lparr>pipe_len := n\<rparr>"
proof -
  have "set rd \<subseteq> {fd. tr fd \<and> fd \<noteq> pipe_rd s} \<and> set wr \<subseteq> {fd. tw fd} \<and> (\<exists>n. s' = s\<lparr>pipe_len := n\<rparr>)"
  proof (cases obs)
    case (Sel_ok r w)
    with assms collect_ready_keeps show ?thesis by (fastforce simp: select_wait_ready_def select_call_def)
  qed (use assms in \<open>auto simp: select_wait_ready_def intro: exI [of _ "pipe_len s"]\<close>)
  then show "set rd \<subseteq> {fd. tr fd \<and> fd \<noteq> pipe_rd s}" "set wr \<subseteq> {fd. tw fd}" "\<exists>n. s' = s\<lparr>pipe_len := n\<rparr>" by auto
qed

text \<open>A step of the poll thread by where it is; only the step in \<open>select\<close> touches the pipe.\<close>

lemma poll_inv_top:
  assumes inv: "poll_inv y" and pc: "ps_pc y = W_top" and s: "poll_step (P_poll obs) y = Some y'"
  shows "poll_inv y'"
proof -
  note i = poll_invD [OF inv]
  have y': "y' = y\<lparr>ps_pm := ps_pm y\<lparr>pending_change := False\<rparr>, ps_pc := W_enter,
      ps_rem := (if pending_change (ps_pm y) then wake_all (ps_rem y) else ps_rem y)\<rparr>" using s pc by simp
  have r: "removing f (ps_rem y' t) = removing f (ps_rem y t)" for f t
    by (auto simp: y' removing_def wake_all_def split: removal.splits)
  have n: "ps_rem y' t \<noteq> R_wait f" for f t
    using i(8) [of t f] by (auto simp: y' wake_all_def split: removal.splits)
  show ?thesis
  proof (rule poll_invI)
    show "unwatched f y'" if "removing f (ps_rem y' t)" for f t
      using i(3) [of f t] that unfolding r by (simp add: y' unwatched_def)
  qed (use i(1,4,5) n in \<open>auto simp: y' unwatched_def pm_ok_def\<close>)
qed

lemma poll_inv_enter:
  assumes inv: "poll_inv y" and pc: "ps_pc y = W_enter" and s: "poll_step (P_poll obs) y = Some y'"
  shows "poll_inv y'"
proof -
  note i = poll_invD [OF inv]
  have y': "y' = y\<lparr>ps_pc := W_select (wait_snapshot (sys_aio y))\<rparr>" using s pc by simp
  have ok: "select_ok (sys_aio y)" using i(1) by (simp add: pm_ok_def)
  have w: "client_fd (pipe_rd (sys_aio y)) fd" if "select_reads (sys_aio y) fd \<or> wfds (sys_aio y) fd" for fd
    using that i(1) select_okD(3) [OF ok] by (auto simp: pm_ok_def client_fd_def select_reads_def)
  show ?thesis
  proof (rule poll_invI)
    show "pc_ok (pipe_rd (sys_aio y')) (ps_pc y')"
      using select_okD [OF ok] w by (auto simp: y' wait_snapshot_def select_reads_def fd_ok_def)
    show "pc_free f (ps_pc y')" if "f \<in> ps_gone y'" for f
      using i(4) [of f] that by (simp add: y' wait_snapshot_def unwatched_def)
    show "pc_free f (ps_pc y')" if "ps_rem y' t = R_woken f" for t f
      using i(3) [of f t] that by (simp add: y' wait_snapshot_def unwatched_def removing_def)
  qed (use i(1,3,4,5,8,9) pc in \<open>auto simp: y' unwatched_def\<close>)
qed

lemma poll_inv_select:
  assumes inv: "poll_inv y" and pc: "ps_pc y = W_select snap" and s: "poll_step (P_poll obs) y = Some y'"
  shows "poll_inv y'"
proof -
  note i = poll_invD [OF inv]
  obtain tr tw high where sn: "snap = (tr, tw, high)" by (cases snap)
  obtain rd wr a where r: "select_wait_ready obs (tr, tw, high) (sys_aio y) = Inr ((rd, wr), a)"
    and y': "y' = y\<lparr>ps_pm := ps_pm y\<lparr>pm_aio := a\<rparr>, ps_pc := (if rd = [] \<and> wr = [] then W_top else W_ready rd wr)\<rparr>"
    using s pc by (auto simp: sn rbind_eq_Inr)
  note k = select_wait_ready_keeps [OF r]
  obtain n where a: "a = sys_aio y\<lparr>pipe_len := n\<rparr>" using k(3) by blast
  have w: "unwatched f y' = unwatched f y" for f by (simp add: unwatched_def y' a)
  have fr: "pc_free f (ps_pc y')" if "pc_free f (ps_pc y)" for f using that k(1,2) pc by (auto simp: sn y')
  have ok: "pm_ok select_ok select_reads wfds (ps_pm y')"
    using i(1) by (simp add: pm_ok_def select_ok_def select_reads_def y' a)
  have c: "pc_ok (pipe_rd (sys_aio y')) (ps_pc y')"
    using i(2) pc k(1,2) by (auto simp: sn y' a list_all_iff)
  have np: "\<not> polling (ps_pc y')" by (simp add: y')
  show ?thesis
    by (rule poll_invI) (use i(3-8) w fr ok c np in \<open>auto simp: y'\<close>)
qed

lemma poll_inv_calls:
  assumes inv: "poll_inv y" and pc: "ps_pc y \<noteq> W_top" "ps_pc y \<noteq> W_enter" "\<And>snap. ps_pc y \<noteq> W_select snap"
    and s: "poll_step (P_poll obs) y = Some y'"
  shows "poll_inv y'"
proof -
  note i = poll_invD [OF inv]
  obtain pc' where y': "y' = y\<lparr>ps_pc := pc'\<rparr>" and w: "wait_step obs (ps_pc y) (ps_pm y) = Inr (False, pc', ps_pm y)"
    using s pc by (cases "(obs, ps_pc y, ps_pm y)" rule: wait_step.cases) (auto simp: rbind_eq_Inr)
  have fr: "pc_free f pc'" if "pc_free f (ps_pc y)" for f
    using that w pc by (cases "(obs, ps_pc y, ps_pm y)" rule: wait_step.cases) (auto simp: rbind_eq_Inr split: option.splits)
  have ok: "pc_ok (pipe_rd (sys_aio y)) pc'" and np: "\<not> polling pc'"
    using i(2) w pc by (cases "(obs, ps_pc y, ps_pm y)" rule: wait_step.cases; auto simp: rbind_eq_Inr split: option.splits)+
  show ?thesis
    by (rule poll_invI) (use i(1,3-8) fr ok np in \<open>auto simp: y' unwatched_def\<close>)
qed

lemma poll_inv_step:
  assumes "poll_inv y" "poll_client y ev" "poll_step ev y = Some y'"
  shows "poll_inv y'"
proof (cases ev)
  case (P_poll obs)
  with assms show ?thesis
    using poll_inv_top poll_inv_enter poll_inv_select poll_inv_calls by (metis (no_types))
next
  case (P_spurious t)
  with assms show ?thesis by (simp add: poll_client_def)
next
  case (P_add fd flag c)
  with assms show ?thesis by (blast intro: poll_inv_add)
next
  case (P_del fd flag)
  with assms show ?thesis by (blast intro: poll_inv_del)
next
  case (P_remove t fd)
  with assms show ?thesis by (blast intro: poll_inv_remove)
next
  case (P_return t)
  with assms show ?thesis by (blast intro: poll_inv_return)
qed

lemma poll_reach_inv: "poll_reach y \<Longrightarrow> poll_inv y"
  by (induction rule: poll_reach.induct) (auto intro: poll_inv_start poll_inv_step)

text \<open>A snapshot and a \<open>select\<close> without a change between them report exactly the watched descriptors that are ready.\<close>

lemma select_wait_ready_eq:
  assumes "pc_ok (pipe_rd s) (W_select (tr, tw, high))" "sel_fits (Sel_ok r w) s"
  shows "\<exists>s'. select_wait_ready (Sel_ok r w) (tr, tw, high) s =
    Inr ((filter (\<lambda>fd. tr fd \<and> r fd \<and> fd \<noteq> pipe_rd s) [0..high], filter (\<lambda>fd. tw fd \<and> w fd) [0..high]), s')"
proof -
  let ?tr = "\<lambda>fd. fd < high + 1 \<and> tr fd \<and> r fd" and ?tw = "\<lambda>fd. fd < high + 1 \<and> tw fd \<and> w fd"
  have "collect_ready ?tr ?tw [0..high] s =
    Inr ((filter (\<lambda>fd. ?tr fd \<and> fd \<noteq> pipe_rd s) [0..high], filter ?tw [0..high]),
      if ?tr (pipe_rd s) \<and> pipe_rd s \<in> set [0..high] then s\<lparr>pipe_len := pipe_len s - 1\<rparr> else s)"
    using assms by (intro collect_ready_exact) (auto simp: sel_fits_def client_fd_def)
  moreover have "filter (\<lambda>fd. ?tr fd \<and> fd \<noteq> pipe_rd s) [0..high] = filter (\<lambda>fd. tr fd \<and> r fd \<and> fd \<noteq> pipe_rd s) [0..high]"
    "filter ?tw [0..high] = filter (\<lambda>fd. tw fd \<and> w fd) [0..high]"
    by (rule filter_cong; auto)+
  ultimately show ?thesis by (simp add: select_wait_ready_def select_call_def)
qed

lemma poll_thread_progress:
  assumes "poll_inv y" "sel_fits obs (sys_aio y)"
  shows "\<exists>y'. poll_step (P_poll obs) y = Some y'"
proof -
  note i = poll_invD [OF assms(1)]
  have "\<exists>x. wait_step obs (ps_pc y) (ps_pm y) = Inr x"
  proof (cases "(obs, ps_pc y, ps_pm y)" rule: wait_step.cases)
    case (3 obs' snap p)
    obtain tr tw high where sn: "snap = (tr, tw, high)" by (cases snap)
    show ?thesis
    proof (cases obs)
      case (Sel_ok r w)
      obtain s' where s': "select_wait_ready obs (tr, tw, high) (sys_aio y) = Inr ((filter (\<lambda>fd. tr fd \<and> r fd \<and> fd \<noteq> pipe_rd (sys_aio y)) [0..high],
          filter (\<lambda>fd. tw fd \<and> w fd) [0..high]), s')"
        using select_wait_ready_eq [of "sys_aio y" tr tw high r w] i(2) assms(2) 3 Sel_ok by (auto simp: sn)
      have "\<exists>x. wait_step obs (W_select snap) (ps_pm y) = Inr x" unfolding wait_step.simps sn s' by auto
      then show ?thesis using 3 by simp
    qed (use 3 assms(2) in \<open>auto simp: sn select_wait_ready_def sel_fits_def\<close>)
  qed (use i(2) in \<open>auto simp: cb_index_def client_fd_def\<close>)
  then obtain x where "wait_step obs (ps_pc y) (ps_pm y) = Inr x" by blast
  then show ?thesis by (cases x) (auto simp: opt_def)
qed

section \<open>The wait of \<open>block_remove_fd\<close> ends\<close>

text \<open>How many steps the poll thread takes at most until it is through the top of its loop.\<close>

fun poll_distance :: "'c wait_pc \<Rightarrow> nat" where
  "poll_distance W_top = 1"
| "poll_distance (W_ready rd wr) = 2 * (length rd + length wr) + 2"
| "poll_distance (W_read c f rd wr) = 2 * (length rd + length wr) + 3"
| "poll_distance (W_write c f wr) = 2 * length wr + 3"
| "poll_distance (W_select (tr, tw, high)) = 4 * nat (high + 1) + 3"
| "poll_distance W_enter = 4 * nat FD_SETSIZE + 4"

lemma collect_ready_length:
  "collect_ready tr tw fds s = Inr ((rd, wr), s') \<Longrightarrow> length rd \<le> length fds \<and> length wr \<le> length fds"
proof (induction fds arbitrary: s rd wr s')
  case (Cons fd fds)
  show ?case
  proof (cases "fd = pipe_rd s \<and> tr fd")
    case True
    then show ?thesis using Cons.prems Cons.IH [of "s\<lparr>pipe_len := pipe_len s - 1\<rparr>" rd wr s']
      by (auto split: if_splits)
  next
    case False
    then obtain rd1 wr1 where "collect_ready tr tw fds s = Inr ((rd1, wr1), s')"
      "rd = (if tr fd then fd # rd1 else rd1)" "wr = (if tw fd then fd # wr1 else wr1)"
      using Cons.prems [unfolded collect_ready.simps if_not_P [OF False]] by (auto simp: rbind_eq_Inr)
    with Cons.IH [OF this(1)] show ?thesis by auto
  qed
qed simp

lemma poll_distance_step:
  assumes "poll_inv y" "wait_step obs (ps_pc y) (ps_pm y) = Inr (b, pc', p')" "ps_pc y \<noteq> W_top"
  shows "poll_distance pc' < poll_distance (ps_pc y)"
proof (cases "(obs, ps_pc y, ps_pm y)" rule: wait_step.cases)
  case (2 obs' p)
  have "highfds (sys_aio y) < FD_SETSIZE" using poll_invD(1) [OF assms(1)] by (auto simp: pm_ok_def select_ok_def fd_ok_def)
  then show ?thesis using assms(2) 2 by (auto simp: wait_snapshot_def)
next
  case (3 obs' snap p)
  obtain tr tw high where sn: "snap = (tr, tw, high)" by (cases snap)
  obtain rd wr a where r: "select_wait_ready obs (tr, tw, high) (sys_aio y) = Inr ((rd, wr), a)"
    and pc': "pc' = (if rd = [] \<and> wr = [] then W_top else W_ready rd wr)"
    using assms(2) 3 by (auto simp: sn rbind_eq_Inr)
  have "length rd \<le> nat (high + 1) \<and> length wr \<le> nat (high + 1)"
  proof (cases obs)
    case (Sel_ok r' w')
    with r show ?thesis by (auto simp: select_wait_ready_def select_call_def dest: collect_ready_length)
  qed (use r in \<open>auto simp: select_wait_ready_def\<close>)
  then show ?thesis using 3 by (simp add: pc' sn)
qed (use assms in \<open>auto simp: rbind_eq_Inr split: option.splits\<close>)

text \<open>A step of the poll thread wakes who waits or brings it nearer to the top of the loop.\<close>

lemma poll_step_nearer:
  assumes "poll_inv y" "ps_rem y t = R_wait fd" "poll_step (P_poll obs) y = Some y'"
  shows "ps_rem y' t = R_woken fd \<or> ps_rem y' t = R_wait fd \<and> poll_distance (ps_pc y') < poll_distance (ps_pc y)"
proof (cases "ps_pc y = W_top")
  case True
  then show ?thesis using assms poll_invD(8) [OF assms(1,2)] by (auto simp: wake_all_def)
next
  case False
  obtain b pc' p' where w: "wait_step obs (ps_pc y) (ps_pm y) = Inr (b, pc', p')"
    and y': "ps_pc y' = pc'" "ps_rem y' = (if b then wake_all (ps_rem y) else ps_rem y)" using assms(3) by auto
  from poll_distance_step [OF assms(1) w False] y' assms(2) show ?thesis by (auto simp: wake_all_def)
qed

lemma poll_step_other:
  assumes "poll_client y ev" "ps_rem y t = R_wait fd" "poll_step ev y = Some y'" "\<And>obs. ev \<noteq> P_poll obs"
  shows "ps_rem y' t = R_wait fd" "ps_pc y' = ps_pc y"
  using assms by (cases ev; auto simp: poll_client_def split: if_splits removal.splits)+

text \<open>Runs of the users and the poll thread, with the calls of \<open>select\<close> that fit the pipe.\<close>

inductive poll_run :: "('t, 'c) poll_sys \<Rightarrow> ('t, 'c) poll_ev list \<Rightarrow> ('t, 'c) poll_sys \<Rightarrow> bool" where
  Nil: "poll_run y [] y"
| Cons: "poll_client y ev \<Longrightarrow> poll_step ev y = Some y1 \<Longrightarrow> poll_run y1 evs y' \<Longrightarrow> poll_run y (ev # evs) y'"

inductive_cases poll_run_Cons: "poll_run y (ev # evs) y'"

definition is_poll :: "('t, 'c) poll_ev \<Rightarrow> bool" where
  "is_poll ev = (case ev of P_poll obs \<Rightarrow> True | _ \<Rightarrow> False)"

lemma poll_run_wakes:
  assumes "poll_run y evs y'" "poll_inv y" "ps_rem y t = R_wait fd" "poll_distance (ps_pc y) < length (filter is_poll evs)"
  shows "\<exists>evs1 evs2 y1. evs = evs1 @ evs2 \<and> poll_run y evs1 y1 \<and> ps_rem y1 t = R_woken fd"
  using assms
proof (induction rule: poll_run.induct)
  case (Nil y)
  then show ?case by simp
next
  case (Cons y ev y1 evs y')
  have inv: "poll_inv y1" using poll_inv_step Cons.hyps(1,2) Cons.prems(1) by blast
  have one: "poll_run y [ev] y1" using Cons.hyps(1,2) by (auto intro: poll_run.intros)
  have go: ?case if "ps_rem y1 t = R_wait fd" "poll_distance (ps_pc y1) < length (filter is_poll evs)"
  proof -
    from Cons.IH [OF inv that] obtain evs1 evs2 y2 where "evs = evs1 @ evs2" "poll_run y1 evs1 y2" "ps_rem y2 t = R_woken fd"
      by blast
    then have "ev # evs = (ev # evs1) @ evs2" "poll_run y (ev # evs1) y2" "ps_rem y2 t = R_woken fd"
      using Cons.hyps(1,2) by (auto intro: poll_run.Cons)
    then show ?thesis by blast
  qed
  show ?case
  proof (cases "is_poll ev")
    case True
    then obtain obs where ev: "ev = P_poll obs" by (auto simp: is_poll_def split: poll_ev.splits)
    from poll_step_nearer [OF Cons.prems(1,2)] Cons.hyps(2) ev
    consider "ps_rem y1 t = R_woken fd" | "ps_rem y1 t = R_wait fd" "poll_distance (ps_pc y1) < poll_distance (ps_pc y)" by blast
    then show ?thesis
    proof cases
      case 1
      then show ?thesis using one by (metis append_Cons append_Nil)
    next
      case 2
      then show ?thesis using Cons.prems(3) True by (intro go) auto
    qed
  next
    case False
    then have "\<And>obs. ev \<noteq> P_poll obs" by (auto simp: is_poll_def)
    from poll_step_other [OF Cons.hyps(1) Cons.prems(2) Cons.hyps(2) this] show ?thesis
      using Cons.prems(3) False by (intro go) auto
  qed
qed

lemma poll_run_inv: "poll_run y evs y' \<Longrightarrow> poll_inv y \<Longrightarrow> poll_inv y'"
  by (induction rule: poll_run.induct) (auto intro: poll_inv_step)

text \<open>A removed descriptor stays removed until a thread adds it.\<close>

lemma poll_step_gone:
  assumes "poll_step ev y = Some y'" "fd \<in> ps_gone y" "\<forall>flag c. ev \<noteq> P_add fd flag c"
  shows "fd \<in> ps_gone y'"
  using assms by (cases ev) (auto split: if_splits removal.splits)

lemma poll_run_gone:
  "poll_run y evs y' \<Longrightarrow> fd \<in> ps_gone y \<Longrightarrow> (\<And>flag c. P_add fd flag c \<notin> set evs) \<Longrightarrow> fd \<in> ps_gone y'"
proof (induction rule: poll_run.induct)
  case (Cons y ev y1 evs y')
  have "fd \<in> ps_gone y1" by (rule poll_step_gone [OF Cons.hyps(2) Cons.prems(1)]) (use Cons.prems(2) in auto)
  then show ?case using Cons.IH Cons.prems(2) by auto
qed

fun running :: "int \<Rightarrow> 'c wait_pc \<Rightarrow> bool" where
  "running fd (W_read c f rd wr) = (fd = f)"
| "running fd (W_write c f wr) = (fd = f)"
| "running fd _ = False"

lemma pc_free_running: "pc_free fd pc \<Longrightarrow> \<not> running fd pc"
  by (cases "(fd, pc)" rule: running.cases) auto

section \<open>Executable runs\<close>

fun poll_exec :: "('t::enum, 'c) poll_ev list \<Rightarrow> ('t, 'c) poll_sys \<Rightarrow> ('t, 'c) poll_sys option" where
  "poll_exec [] y = Some y"
| "poll_exec (ev # evs) y =
     (if poll_client y ev then case poll_step ev y of None \<Rightarrow> None | Some y1 \<Rightarrow> poll_exec evs y1 else None)"

lemma poll_exec_run: "poll_exec evs y = Some y' \<Longrightarrow> poll_run y evs y'"
  by (induction evs y rule: poll_exec.induct) (auto intro: poll_run.intros split: if_splits option.splits)

lemma poll_run_reach: "poll_run y evs y' \<Longrightarrow> poll_reach y \<Longrightarrow> poll_reach y'"
  by (induction rule: poll_run.induct) (auto intro: poll_reach.step)

text \<open>The pipe is descriptor 3. Descriptor 5 is added and readable; its callback runs while a thread removes it.\<close>

definition demo_poll :: "(unit, nat) poll_sys" where
  "demo_poll = poll_start (projr (PollMgr_new (Some 3)))"

definition demo_sel :: "(unit, nat) poll_ev" where
  "demo_sel = P_poll (Sel_ok (\<lambda>fd. fd = 3 \<or> fd = 5) (\<lambda>_. False))"

definition demo_called :: "(unit, nat) poll_sys option" where
  "demo_called = poll_exec [P_add 5 CB_RDONLY 1, demo_sel, demo_sel, demo_sel, demo_sel, P_remove () 5] demo_poll"

definition demo_woken :: "(unit, nat) poll_sys option" where
  "demo_woken =
     poll_exec [P_add 5 CB_RDONLY 1, demo_sel, demo_sel, demo_sel, demo_sel, P_remove () 5, demo_sel, demo_sel, demo_sel] demo_poll"

lemma demo_poll_reach: "poll_reach demo_poll"
proof -
  have "PollMgr_new (Some 3) = Inr (projr (PollMgr_new (Some 3)))"
    by (simp add: PollMgr_new_def select_new_def fd_ok_def FD_SETSIZE_def)
  from poll_reach.start [OF this] show ?thesis unfolding demo_poll_def .
qed

lemma demo_called_ok:
  obtains y where "demo_called = Some y" "poll_reach y" "ps_rem y () = R_wait 5" "running 5 (ps_pc y)" "poll_distance (ps_pc y) = 3"
    "rfds (sys_aio y) 3" "pipe_rd (sys_aio y) = 3"
proof -
  have "case demo_called of None \<Rightarrow> False | Some y \<Rightarrow> ps_rem y () = R_wait 5 \<and> running 5 (ps_pc y) \<and> poll_distance (ps_pc y) = 3 \<and>
    rfds (sys_aio y) 3 \<and> pipe_rd (sys_aio y) = 3"
    by code_simp
  then obtain y where y: "demo_called = Some y" "ps_rem y () = R_wait 5" "running 5 (ps_pc y)" "poll_distance (ps_pc y) = 3"
    "rfds (sys_aio y) 3" "pipe_rd (sys_aio y) = 3" by (auto split: option.splits)
  from poll_run_reach [OF poll_exec_run [OF y(1) [unfolded demo_called_def]] demo_poll_reach] show thesis
    by (rule that [OF y(1) _ y(2-6)])
qed

lemma demo_woken_ok:
  obtains y y1 y2 where "poll_reach y" "ps_rem y () = R_woken 5" "poll_step (P_return ()) y = Some y1"
    "poll_run y1 [demo_sel, demo_sel] y2"
proof -
  have "case demo_woken of None \<Rightarrow> False | Some y \<Rightarrow> ps_rem y () = R_woken 5 \<and>
    (case poll_step (P_return ()) y of None \<Rightarrow> False | Some y1 \<Rightarrow> poll_exec [demo_sel, demo_sel] y1 \<noteq> None)"
    by code_simp
  then obtain y y1 y2 where y: "demo_woken = Some y" "ps_rem y () = R_woken 5" "poll_step (P_return ()) y = Some y1"
    "poll_exec [demo_sel, demo_sel] y1 = Some y2" by (auto simp del: poll_exec.simps split: option.splits)
  from poll_run_reach [OF poll_exec_run [OF y(1) [unfolded demo_woken_def]] demo_poll_reach] poll_exec_run [OF y(4)]
  show thesis by (rule that [OF _ y(2,3)])
qed

section \<open>Properties\<close>

text \<open>
  C26. Every state of the poll manager that its users and its thread reach is well formed: the
  descriptors that \<open>select\<close> is to watch lie between 0 and \<open>highfds_\<close>, the pipe's among them; every
  watched descriptor is an index of \<open>callbacks_\<close> and has a callback there; and \<open>wait_ready\<close> succeeds
  and reports exactly the watched descriptors that are ready, each once.
\<close>

theorem poll_wellformed:
  assumes "poll_reach y"
  shows "select_ok (sys_aio y) \<and>
    (\<forall>fd. rfds (sys_aio y) fd \<and> fd \<noteq> pipe_rd (sys_aio y) \<or> wfds (sys_aio y) fd \<longrightarrow>
      0 \<le> fd \<and> fd < MAX_POLL_FDS \<and> callbacks (ps_pm y) fd \<noteq> None) \<and>
    (\<forall>r w. sel_fits (Sel_ok r w) (sys_aio y) \<longrightarrow>
      (\<exists>rd wr s'. select_wait_ready (Sel_ok r w) (wait_snapshot (sys_aio y)) (sys_aio y) = Inr ((rd, wr), s') \<and>
        distinct rd \<and> set rd = {fd. rfds (sys_aio y) fd \<and> fd \<noteq> pipe_rd (sys_aio y) \<and> r fd} \<and>
        distinct wr \<and> set wr = {fd. wfds (sys_aio y) fd \<and> w fd}))"
proof -
  let ?s = "sys_aio y"
  have inv: "pm_ok select_ok select_reads wfds (ps_pm y)" by (rule poll_invD(1) [OF poll_reach_inv [OF assms]])
  then have ok: "select_ok ?s" by (simp add: pm_ok_def)
  note k = select_okD [OF ok]
  have c: "0 \<le> fd \<and> fd < MAX_POLL_FDS \<and> callbacks (ps_pm y) fd \<noteq> None"
    if "rfds ?s fd \<and> fd \<noteq> pipe_rd ?s \<or> wfds ?s fd" for fd
    using inv that unfolding pm_ok_def select_reads_def by blast
  have "pc_ok (pipe_rd ?s) (W_select (rfds ?s, wfds ?s, highfds ?s))"
    using k c by (auto simp: client_fd_def fd_ok_def)
  note w = select_wait_ready_eq [OF this]
  have m: "set (filter (\<lambda>fd. rfds ?s fd \<and> r fd \<and> fd \<noteq> pipe_rd ?s) [0..highfds ?s]) = {fd. rfds ?s fd \<and> fd \<noteq> pipe_rd ?s \<and> r fd}"
    "set (filter (\<lambda>fd. wfds ?s fd \<and> r fd) [0..highfds ?s]) = {fd. wfds ?s fd \<and> r fd}" for r
    using k(4,5) by auto
  show ?thesis unfolding wait_snapshot_def using ok c w m distinct_filter distinct_upto by (meson)
qed

theorem poll_wellformed_witness:
  "\<exists>y. demo_called = Some y \<and> select_ok (sys_aio y) \<and>
    (\<exists>rd wr s'. select_wait_ready (Sel_ok (\<lambda>fd. fd = 3) (\<lambda>_. False)) (wait_snapshot (sys_aio y)) (sys_aio y) = Inr ((rd, wr), s') \<and>
      set rd = {})"
proof -
  obtain y where y: "demo_called = Some y" "poll_reach y" "pipe_rd (sys_aio y) = 3" by (rule demo_called_ok)
  have "case demo_called of None \<Rightarrow> False | Some y \<Rightarrow> pipe_len (sys_aio y) = 1" by code_simp
  then have "pipe_len (sys_aio y) = 1" unfolding y(1) option.case .
  then have "sel_fits (Sel_ok (\<lambda>fd. fd = 3) (\<lambda>_. False)) (sys_aio y)" using y by (simp add: sel_fits_def)
  with poll_wellformed [OF y(2)] obtain rd wr s' where ok: "select_ok (sys_aio y)"
    and r: "select_wait_ready (Sel_ok (\<lambda>fd. fd = 3) (\<lambda>_. False)) (wait_snapshot (sys_aio y)) (sys_aio y) = Inr ((rd, wr), s')"
      "set rd = {fd. rfds (sys_aio y) fd \<and> fd \<noteq> pipe_rd (sys_aio y) \<and> fd = 3}" by meson
  have e: "{fd. rfds (sys_aio y) fd \<and> fd \<noteq> pipe_rd (sys_aio y) \<and> fd = 3} = {}" by (simp add: y(3))
  show ?thesis by (intro exI conjI) (rule y(1), rule ok, rule r(1), rule r(2) [unfolded e])
qed

text \<open>
  C17. If waits on the condition variable end only by a broadcast, \<open>block_remove_fd\<close> keeps the promise
  of its comment: once it has returned, the callbacks of the descriptor are not running and never run
  again, in any interleaving of all threads, until some thread adds a callback for it. POSIX also lets
  \<open>pthread_cond_wait\<close> return without a broadcast, and then the promise is broken:
  \<open>spurious_wakeup_unsafe\<close> below.
\<close>

theorem removal_final:
  assumes "poll_reach y" "ps_rem y t = R_woken fd" "poll_step (P_return t) y = Some y1" "poll_run y1 evs y2"
    and "\<forall>flag c. P_add fd flag c \<notin> set evs"
  shows "\<not> running fd (ps_pc y1) \<and> \<not> running fd (ps_pc y2) \<and> callbacks (ps_pm y2) fd = None \<and> unwatched fd y2"
proof -
  have "poll_inv y1" by (rule poll_inv_step [OF poll_reach_inv [OF assms(1)] _ assms(3)]) (simp add: poll_client_def)
  moreover from this have "poll_inv y2" by (rule poll_run_inv [OF assms(4)])
  moreover have "fd \<in> ps_gone y1" using assms(2,3) by auto
  moreover from this have "fd \<in> ps_gone y2" by (rule poll_run_gone [OF assms(4)]) (use assms(5) in blast)
  ultimately show ?thesis by (blast dest: poll_invD pc_free_running)
qed

theorem removal_final_witness:
  "\<exists>y y1 y2. ps_rem y () = R_woken 5 \<and> poll_step (P_return ()) y = Some y1 \<and> poll_run y1 [demo_sel, demo_sel] y2 \<and>
    \<not> running 5 (ps_pc y2)"
proof -
  obtain y y1 y2 where y: "poll_reach y" "ps_rem y () = R_woken 5" "poll_step (P_return ()) y = Some y1"
    "poll_run y1 [demo_sel, demo_sel] y2" by (rule demo_woken_ok)
  have "\<forall>flag c. P_add 5 flag c \<notin> set [demo_sel, demo_sel]" by (simp add: demo_sel_def)
  from removal_final [OF y this] y(2-4) show ?thesis by blast
qed

text \<open>
  C18. The wait of \<open>block_remove_fd\<close> ends. While a thread waits, the poll thread is never stuck: there
  is a byte in the pipe when it is about to call \<open>select\<close>, and its next step succeeds. In every run
  in which it takes more steps than its distance from the top of the loop, the waiting thread is woken.
\<close>

theorem removal_returns:
  assumes "poll_reach y" "ps_rem y t = R_wait fd"
  shows "(polling (ps_pc y) \<longrightarrow> 0 < pipe_len (sys_aio y)) \<and>
    (\<forall>obs. sel_fits obs (sys_aio y) \<longrightarrow> (\<exists>y'. poll_step (P_poll obs) y = Some y')) \<and>
    (\<forall>evs y'. poll_run y evs y' \<and> poll_distance (ps_pc y) < length (filter is_poll evs) \<longrightarrow>
      (\<exists>evs1 evs2 y1. evs = evs1 @ evs2 \<and> poll_run y evs1 y1 \<and> ps_rem y1 t = R_woken fd))"
  using poll_reach_inv [OF assms(1)] assms(2)
  by (blast intro: poll_thread_progress poll_run_wakes dest: poll_invD(8,9))

theorem removal_returns_witness:
  "\<exists>y evs1 y1. demo_called = Some y \<and> poll_run y evs1 y1 \<and> ps_rem y1 () = R_woken 5"
proof -
  obtain y where y: "demo_called = Some y" "poll_reach y" "ps_rem y () = R_wait 5" "poll_distance (ps_pc y) = 3"
    by (rule demo_called_ok)
  have "case demo_called of None \<Rightarrow> False | Some y \<Rightarrow> poll_exec [demo_sel, demo_sel, demo_sel, demo_sel] y \<noteq> None" by code_simp
  then have "poll_exec [demo_sel, demo_sel, demo_sel, demo_sel] y \<noteq> None" unfolding y(1) option.case .
  then obtain y' where "poll_exec [demo_sel, demo_sel, demo_sel, demo_sel] y = Some y'" by blast
  then have "poll_run y [demo_sel, demo_sel, demo_sel, demo_sel] y'" by (rule poll_exec_run)
  moreover have "poll_distance (ps_pc y) < length (filter is_poll [demo_sel, demo_sel, demo_sel, demo_sel])"
    by (simp add: y(4) is_poll_def demo_sel_def)
  ultimately show ?thesis using removal_returns [OF y(2,3)] y(1) by blast
qed

text \<open>
  The wait is not in a loop, so a return from it without a broadcast, which POSIX allows, breaks
  the promise: \<open>block_remove_fd\<close> has returned and the callback of the descriptor is still running.
\<close>

theorem spurious_wakeup_unsafe:
  "\<exists>y y1 y2. demo_called = Some y \<and> poll_step (P_spurious ()) y = Some y1 \<and> poll_step (P_return ()) y1 = Some y2 \<and>
    ps_rem y2 () = R_none \<and> running 5 (ps_pc y2)"
proof -
  have "case demo_called of None \<Rightarrow> False | Some y \<Rightarrow>
    case poll_step (P_spurious ()) y of None \<Rightarrow> False | Some y1 \<Rightarrow>
    case poll_step (P_return ()) y1 of None \<Rightarrow> False | Some y2 \<Rightarrow> ps_rem y2 () = R_none \<and> running 5 (ps_pc y2)"
    by code_simp
  then show ?thesis by (auto simp del: poll_step.simps split: option.splits)
qed

end
