(* ===== verification/Connection.thy ===== *)
theory Connection
  imports Codec Pollmgr "HOL-Library.Sublist"
begin

text \<open>
  TCP connections: class \<open>connection\<close> and class \<open>tcpsconn\<close> of src/rpc/connection.cc. A connection
  sends a PDU with its size in the first four bytes and cuts the bytes it receives into PDUs again.
  \<open>read\<close> and \<open>write\<close> of the system are functions on the state \<open>'w\<close> of the world. A method that waits
  on a condition variable is split there. What a method does to other objects is a list of events.

  The bytes of a C buffer are a list. Of a receive buffer, which is allocated and then filled, the list
  has the part that is filled.
\<close>

unbundle bit_operations_syntax

definition MAX_PDU :: int where
  "MAX_PDU = 10 * 2 ^ 20"

text \<open>\<open>ntohl\<close> of four bytes; \<^const>\<open>enc_uint\<close> are the bytes of \<open>htonl\<close>.\<close>

fun dec_uint :: "byte list \<Rightarrow> u32" where
  "dec_uint [a, b, c, d] = push_bit 24 (ucast a) OR push_bit 16 (ucast b) OR push_bit 8 (ucast c) OR ucast d"
| "dec_uint _ = 0"

section \<open>\<open>connection\<close>\<close>

record charbuf =
  cb_buf :: "byte list option"
  cb_sz :: int
  cb_solong :: int

definition charbuf_new :: charbuf where
  "charbuf_new = \<lparr>cb_buf = None, cb_sz = 0, cb_solong = 0\<rparr>"

record connection =
  cn_fd :: int
  cn_dead :: bool
  cn_wpdu :: charbuf
  cn_rpdu :: charbuf
  cn_create_time :: "int \<times> int"
  cn_waiters :: int
  cn_refno :: int
  cn_lossy :: int

datatype conn_ev =
    Shutdown
  | Add_callback poll_flag
  | Del_callback poll_flag
  | Block_remove_fd
  | Signal_complete
  | Broadcast_wait
  | Got_pdu "byte list" int

datatype read_res = R_data "byte list" | R_eof bool | R_err bool

datatype write_res = W_done nat | W_err bool

text \<open>
  A result of \<open>read\<close>: some bytes; end of file, with whether the old \<open>errno\<close> happens to be \<open>EAGAIN\<close>; an
  error, with whether it is \<open>EAGAIN\<close>.
\<close>

type_synonym 'w sys_read = "nat \<Rightarrow> 'w \<Rightarrow> read_res \<times> 'w"
type_synonym 'w sys_write = "byte list \<Rightarrow> 'w \<Rightarrow> write_res \<times> 'w"

definition connection_new :: "int \<Rightarrow> int \<Rightarrow> int \<times> int \<Rightarrow> conn_ev list \<times> connection" where
  "connection_new f1 l1 now =
     ([Add_callback CB_RDONLY],
      \<lparr>cn_fd = f1, cn_dead = False, cn_wpdu = charbuf_new, cn_rpdu = charbuf_new, cn_create_time = now,
       cn_waiters = 0, cn_refno = 1, cn_lossy = l1\<rparr>)"

definition connection_delete :: "connection \<Rightarrow> unit result" where
  "connection_delete c = rbind (VERIFY (cn_dead c)) (\<lambda>_. VERIFY (cb_buf (cn_wpdu c) = None))"

definition incref :: "connection \<Rightarrow> connection" where
  "incref c = c\<lparr>cn_refno := cn_refno c + 1\<rparr>"

definition isdead :: "connection \<Rightarrow> bool" where
  "isdead c = cn_dead c"

definition closeconn :: "connection \<Rightarrow> conn_ev list \<times> connection" where
  "closeconn c = (if \<not> cn_dead c then ([Shutdown, Block_remove_fd], c\<lparr>cn_dead := True\<rparr>) else ([], c))"

text \<open>\<open>None\<close> is a connection that has been deleted.\<close>

definition decref :: "connection \<Rightarrow> connection option result" where
  "decref c =
     (let c = c\<lparr>cn_refno := cn_refno c - 1\<rparr>
      in rbind (VERIFY (cn_refno c \<ge> 0)) (\<lambda>_.
         if cn_refno c = 0 \<and> cn_dead c then rbind (connection_delete c) (\<lambda>_. Inr None)
         else Inr (Some c)))"

definition conn_ref :: "connection \<Rightarrow> int" where
  "conn_ref c = cn_refno c"

definition conn_compare :: "connection \<Rightarrow> connection \<Rightarrow> int" where
  "conn_compare c another =
     (case (cn_create_time c, cn_create_time another) of ((s1, u1), (s2, u2)) \<Rightarrow>
      if s1 > s2 then 1 else if s1 < s2 then - 1 else if u1 > u2 then 1 else if u1 < u2 then - 1 else 0)"

text \<open>\<open>writepdu\<close>: the size in front of the PDU, and what it makes of the result of \<open>write\<close>.\<close>

definition write_size :: "charbuf \<Rightarrow> byte list \<Rightarrow> byte list" where
  "write_size p b = (if cb_solong p = 0 then enc_uint (word_of_int (cb_sz p)) @ drop 4 b else b)"

definition write_result :: "write_res \<Rightarrow> byte list \<Rightarrow> connection \<Rightarrow> bool \<times> connection" where
  "write_result r b c =
     (let p = (cn_wpdu c)\<lparr>cb_buf := Some b\<rparr> in
      case r of
        W_err again \<Rightarrow> (again, c\<lparr>cn_wpdu := (if again then p else p\<lparr>cb_solong := - 1, cb_sz := 0\<rparr>)\<rparr>)
      | W_done n \<Rightarrow> (True, c\<lparr>cn_wpdu := p\<lparr>cb_solong := cb_solong p + int n\<rparr>\<rparr>))"

definition writepdu :: "'w sys_write \<Rightarrow> connection \<Rightarrow> 'w \<Rightarrow> (bool \<times> connection \<times> 'w) result" where
  "writepdu sys_write c w =
     (let p = cn_wpdu c in
      rbind (VERIFY (cb_solong p \<ge> 0)) (\<lambda>_.
      if cb_solong p = cb_sz p then Inr (True, c, w)
      else case cb_buf p of
        None \<Rightarrow> Inl Undefined
      | Some b \<Rightarrow>
          if length b < 4 \<or> cb_sz p < cb_solong p \<or> int (length b) < cb_sz p then Inl Undefined
          else
            let b = write_size p b in
            case sys_write (take (nat (cb_sz p - cb_solong p)) (drop (nat (cb_solong p)) b)) w of (r, w) \<Rightarrow>
            case write_result r b c of (ok, c) \<Rightarrow> Inr (ok, c, w)))"

text \<open>\<open>send\<close>: its end, its wait for \<open>send_complete_\<close>, and the part after its turn has come.\<close>

datatype send_out = S_wait_turn | S_wait_remove | S_wait_complete | S_return bool

definition send_finish :: "connection \<Rightarrow> bool \<times> conn_ev list \<times> connection" where
  "send_finish c =
     (\<not> cn_dead c \<and> cb_solong (cn_wpdu c) = cb_sz (cn_wpdu c),
      if cn_waiters c > 0 then [Broadcast_wait] else [],
      c\<lparr>cn_wpdu := \<lparr>cb_buf = None, cb_sz = 0, cb_solong = 0\<rparr>\<rparr>)"

definition send_wait :: "connection \<Rightarrow> send_out \<times> conn_ev list \<times> connection" where
  "send_wait c =
     (if \<not> cn_dead c \<and> cb_solong (cn_wpdu c) \<ge> 0 \<and> cb_solong (cn_wpdu c) < cb_sz (cn_wpdu c) then (S_wait_complete, [], c)
      else case send_finish c of (ret, ev, c) \<Rightarrow> (S_return ret, ev, c))"

definition send_enter :: "connection \<Rightarrow> connection" where
  "send_enter c = c\<lparr>cn_waiters := cn_waiters c + 1\<rparr>"

definition send_turn :: "'w sys_write \<Rightarrow> int \<Rightarrow> byte list \<Rightarrow> int \<Rightarrow> connection \<Rightarrow> 'w \<Rightarrow>
    (send_out \<times> conn_ev list \<times> connection \<times> 'w) result" where
  "send_turn sys_write rnd b sz c w =
     (if \<not> cn_dead c \<and> cb_buf (cn_wpdu c) \<noteq> None then Inr (S_wait_turn, [], c, w)
      else
        let c = c\<lparr>cn_waiters := cn_waiters c - 1\<rparr> in
        if cn_dead c then Inr (S_return False, [], c, w)
        else
          let c = c\<lparr>cn_wpdu := \<lparr>cb_buf = Some b, cb_sz = sz, cb_solong = 0\<rparr>\<rparr>;
              ev = (if cn_lossy c \<noteq> 0 \<and> rnd mod 100 < cn_lossy c then [Shutdown] else [])
          in rbind (writepdu sys_write c w) (\<lambda>(ok, c, w).
             if \<not> ok then Inr (S_wait_remove, ev @ [Block_remove_fd], c\<lparr>cn_dead := True\<rparr>, w)
             else if cb_solong (cn_wpdu c) = cb_sz (cn_wpdu c) then
               (case send_finish c of (ret, ev', c) \<Rightarrow> Inr (S_return ret, ev @ ev', c, w))
             else (case send_wait c of (out, ev', c) \<Rightarrow> Inr (out, ev @ [Add_callback CB_WRONLY] @ ev', c, w))))"

definition write_cb :: "'w sys_write \<Rightarrow> int \<Rightarrow> connection \<Rightarrow> 'w \<Rightarrow> (conn_ev list \<times> connection \<times> 'w) result" where
  "write_cb sys_write s c w =
     rbind (VERIFY (\<not> cn_dead c)) (\<lambda>_.
     rbind (VERIFY (cn_fd c = s)) (\<lambda>_.
     if cb_sz (cn_wpdu c) = 0 then Inr ([Del_callback CB_WRONLY], c, w)
     else rbind (writepdu sys_write c w) (\<lambda>(ok, c, w).
       if \<not> ok then Inr ([Del_callback CB_RDWR, Signal_complete], c\<lparr>cn_dead := True\<rparr>, w)
       else rbind (VERIFY (cb_solong (cn_wpdu c) \<ge> 0)) (\<lambda>_.
         if cb_solong (cn_wpdu c) < cb_sz (cn_wpdu c) then Inr ([], c, w)
         else Inr ([Signal_complete], c, w)))))"

text \<open>
  \<open>readpdu\<close>, the two reads. The buffer has \<open>sz + 4\<close> bytes, computed in \<open>size_t\<close>; \<open>malloc\<close> succeeds
  unless it is asked for more than it can ever give.
\<close>

definition size_t :: "int \<Rightarrow> nat" where
  "size_t n = nat (n mod 2 ^ 64)"

definition readpdu_header :: "'w sys_read \<Rightarrow> connection \<Rightarrow> 'w \<Rightarrow> (bool \<times> connection \<times> 'w) result" where
  "readpdu_header sys_read c w =
     (case sys_read 4 w of (r, w) \<Rightarrow>
      case r of
        R_eof _ \<Rightarrow> Inr (False, c, w)
      | R_err again \<Rightarrow> rbind (VERIFY (\<not> again)) (\<lambda>_. Inr (False, c, w))
      | R_data sz1 \<Rightarrow>
          if length sz1 \<noteq> 4 then Inr (False, c, w)
          else
            let sz = sint (dec_uint sz1) in
            if sz > MAX_PDU then Inr (False, c, w)
            else rbind (VERIFY (cb_buf (cn_rpdu c) = None)) (\<lambda>_.
              rbind (VERIFY (int (size_t (sz + 4)) < 2 ^ 63)) (\<lambda>_.
              if size_t (sz + 4) < 4 then Inl Undefined
              else Inr (True, c\<lparr>cn_rpdu := \<lparr>cb_buf = Some sz1, cb_sz = sz, cb_solong = 4\<rparr>\<rparr>, w))))"

definition readpdu_body :: "'w sys_read \<Rightarrow> connection \<Rightarrow> 'w \<Rightarrow> (bool \<times> connection \<times> 'w) result" where
  "readpdu_body sys_read c w =
     (let p = cn_rpdu c in
      case sys_read (size_t (cb_sz p - cb_solong p)) w of (r, w) \<Rightarrow>
      case r of
        R_data bs \<Rightarrow>
          (case cb_buf p of
             None \<Rightarrow> Inl Undefined
           | Some b \<Rightarrow>
               if cb_sz p + 4 < cb_solong p + int (length bs) then Inl Undefined
               else Inr (True, c\<lparr>cn_rpdu := p\<lparr>cb_buf := Some (b @ bs), cb_solong := cb_solong p + int (length bs)\<rparr>\<rparr>, w))
      | R_eof again \<Rightarrow> Inr (again, if again then c else c\<lparr>cn_rpdu := charbuf_new\<rparr>, w)
      | R_err again \<Rightarrow> Inr (again, if again then c else c\<lparr>cn_rpdu := charbuf_new\<rparr>, w))"

definition readpdu :: "'w sys_read \<Rightarrow> connection \<Rightarrow> 'w \<Rightarrow> (bool \<times> connection \<times> 'w) result" where
  "readpdu sys_read c w =
     rbind (if cb_sz (cn_rpdu c) = 0 then readpdu_header sys_read c w else Inr (True, c, w)) (\<lambda>(go, c, w).
     if go then readpdu_body sys_read c w else Inr (False, c, w))"

text \<open>\<open>taken\<close> is what \<open>mgr_->got_pdu\<close> returns.\<close>

definition read_deliver :: "bool \<Rightarrow> connection \<Rightarrow> conn_ev list \<times> connection" where
  "read_deliver taken c =
     (case cb_buf (cn_rpdu c) of
        None \<Rightarrow> ([], c)
      | Some b \<Rightarrow>
          if cb_sz (cn_rpdu c) = cb_solong (cn_rpdu c) then
            ([Got_pdu b (cb_sz (cn_rpdu c))], if taken then c\<lparr>cn_rpdu := charbuf_new\<rparr> else c)
          else ([], c))"

definition read_cb :: "'w sys_read \<Rightarrow> bool \<Rightarrow> int \<Rightarrow> connection \<Rightarrow> 'w \<Rightarrow> (conn_ev list \<times> connection \<times> 'w) result" where
  "read_cb sys_read taken s c w =
     rbind (VERIFY (cn_fd c = s)) (\<lambda>_.
     if cn_dead c then Inr ([], c, w)
     else
       rbind (if cb_buf (cn_rpdu c) = None \<or> cb_solong (cn_rpdu c) < cb_sz (cn_rpdu c) then readpdu sys_read c w
              else Inr (True, c, w)) (\<lambda>(succ, c, w).
       let ev = (if succ then [] else [Del_callback CB_RDWR, Signal_complete]);
           c = (if succ then c else c\<lparr>cn_dead := True\<rparr>)
       in case read_deliver taken c of (ev', c) \<Rightarrow> Inr (ev @ ev', c, w)))"

section \<open>\<open>tcpsconn\<close>\<close>

text \<open>
  Connections are shared through pointers \<open>'p\<close>; the heap maps a pointer to its object until it is
  deleted. \<open>conns_\<close> is the list of its entries in the order of the descriptors.
\<close>

type_synonym 'p conn_heap = "'p \<rightharpoonup> connection"

record 'p tcpsconn =
  tc_port :: u16
  tc_pipe :: int
  tc_tcp :: int
  tc_lossy :: int
  tc_conns :: "(int \<times> 'p) list"

text \<open>
  The results of the calls in the constructor: \<open>socket\<close>, \<open>bind\<close>, \<open>listen\<close>, the port of \<open>getsockname\<close>, the
  read end of \<open>pipe\<close> and whether the thread starts.
\<close>

record listen_obs =
  lo_socket :: "int option"
  lo_bind :: bool
  lo_listen :: bool
  lo_port :: "u16 option"
  lo_pipe :: "int option"
  lo_thread :: bool

definition tcpsconn_new :: "listen_obs \<Rightarrow> int \<Rightarrow> 'p tcpsconn result" where
  "tcpsconn_new l lossytest =
     rbind (VERIFY (lo_socket l \<noteq> None)) (\<lambda>_.
     rbind (VERIFY (lo_bind l)) (\<lambda>_.
     rbind (VERIFY (lo_listen l)) (\<lambda>_.
     rbind (VERIFY (lo_port l \<noteq> None)) (\<lambda>_.
     rbind (VERIFY (lo_pipe l \<noteq> None)) (\<lambda>_.
     rbind (VERIFY (lo_thread l)) (\<lambda>_.
     Inr \<lparr>tc_port = the (lo_port l), tc_pipe = the (lo_pipe l), tc_tcp = the (lo_socket l), tc_lossy = lossytest, tc_conns = []\<rparr>))))))"

definition decref_at :: "'p \<Rightarrow> 'p conn_heap \<Rightarrow> 'p conn_heap result" where
  "decref_at p h = (case h p of None \<Rightarrow> Inl Undefined | Some c \<Rightarrow> rbind (decref c) (\<lambda>r. Inr (h(p := r))))"

text \<open>The loop of the destructor.\<close>

fun close_all :: "(int \<times> 'p) list \<Rightarrow> 'p conn_heap \<Rightarrow> 'p conn_heap result" where
  "close_all [] h = Inr h"
| "close_all ((fd, p) # conns) h =
     (case h p of
        None \<Rightarrow> Inl Undefined
      | Some c \<Rightarrow> rbind (decref_at p (h(p \<mapsto> snd (closeconn c)))) (close_all conns))"

text \<open>The loop of \<open>process_accept\<close>.\<close>

fun collect_conns :: "(int \<times> 'p) list \<Rightarrow> 'p conn_heap \<Rightarrow> ((int \<times> 'p) list \<times> 'p conn_heap) result" where
  "collect_conns [] h = Inr ([], h)"
| "collect_conns ((fd, p) # conns) h =
     (case h p of
        None \<Rightarrow> Inl Undefined
      | Some c \<Rightarrow>
          if isdead c \<and> conn_ref c = 1 then rbind (decref_at p h) (collect_conns conns)
          else rbind (collect_conns conns h) (\<lambda>(conns, h). Inr ((fd, p) # conns, h)))"

fun conns_put :: "int \<Rightarrow> 'p \<Rightarrow> (int \<times> 'p) list \<Rightarrow> (int \<times> 'p) list" where
  "conns_put fd p [] = [(fd, p)]"
| "conns_put fd p ((fd', p') # conns) =
     (if fd = fd' then (fd, p) # conns
      else if fd < fd' then (fd, p) # (fd', p') # conns
      else (fd', p') # conns_put fd p conns)"

text \<open>
  The arguments are what \<open>accept\<close> returned, the address of the new object and the time. \<open>None\<close> is the
  end of the thread.
\<close>

definition process_accept :: "int option \<Rightarrow> 'p \<Rightarrow> int \<times> int \<Rightarrow> 'p tcpsconn \<Rightarrow> 'p conn_heap \<Rightarrow>
    ('p tcpsconn \<times> 'p conn_heap) option result" where
  "process_accept s1 p now t h =
     (case s1 of
        None \<Rightarrow> Inr None
      | Some fd \<Rightarrow>
          (case connection_new fd (tc_lossy t) now of (ev, ch) \<Rightarrow>
           rbind (collect_conns (tc_conns t) (h(p \<mapsto> ch))) (\<lambda>(conns, h).
           Inr (Some (t\<lparr>tc_conns := conns_put (cn_fd ch) p conns\<rparr>, h)))))"

text \<open>\<open>accept_conn\<close>, one turn of the loop: what it does after \<open>select\<close>.\<close>

datatype accept_sel = A_intr | A_err | A_ready bool bool

datatype accept_out = A_again | A_stop | A_accept

definition accept_conn :: "accept_sel \<Rightarrow> accept_out result" where
  "accept_conn r =
     (case r of
        A_intr \<Rightarrow> Inr A_again
      | A_err \<Rightarrow> Inl Verify_failed
      | A_ready pipe tcp \<Rightarrow> if pipe then Inr A_stop else if tcp then Inr A_accept else Inl Verify_failed)"

text \<open>The arguments are the new socket and whether \<open>connect\<close> succeeds.\<close>

definition connect_to_dst :: "int \<Rightarrow> bool \<Rightarrow> int \<Rightarrow> int \<times> int \<Rightarrow> (conn_ev list \<times> connection) option" where
  "connect_to_dst s connected lossy now = (if connected then Some (connection_new s lossy now) else None)"

section \<open>Two ends of a stream\<close>

text \<open>
  A network between two connections: the bytes that one has written and the other has not yet read, and
  a list of choices, one for each call. A call of \<open>write\<close> takes some of the bytes, or fails; a call of
  \<open>read\<close> returns some of the bytes that are there and at most as many as asked for, \<open>EAGAIN\<close> if there are
  none, or it fails or says that the stream has ended. It fails if it is asked for more than \<open>SSIZE_MAX\<close> bytes.
\<close>

datatype io_choice = Io_some nat | Io_end bool | Io_fail bool

type_synonym net = "byte list \<times> io_choice list"

definition net_read :: "net sys_read" where
  "net_read count n =
     (if 2 ^ 63 \<le> int count then (R_err False, fst n, tl (snd n)) else
      case n of
        (wire, Io_end stale # cs) \<Rightarrow> (R_eof stale, wire, cs)
      | (wire, Io_fail again # cs) \<Rightarrow> (R_err again, wire, cs)
      | (wire, Io_some k # cs) \<Rightarrow>
          let bs = take (min count (Suc k)) wire in
          if bs = [] then (R_err True, wire, cs) else (R_data bs, drop (min count (Suc k)) wire, cs)
      | (wire, []) \<Rightarrow> (R_err True, wire, []))"

definition net_write :: "net sys_write" where
  "net_write bs n =
     (case n of
        (wire, Io_some k # cs) \<Rightarrow> (W_done (min k (length bs)), wire @ take k bs, cs)
      | (wire, Io_fail again # cs) \<Rightarrow> (W_err again, wire, cs)
      | (wire, Io_end stale # cs) \<Rightarrow> (W_err stale, wire, cs)
      | (wire, []) \<Rightarrow> (W_err True, wire, []))"

text \<open>
  The sender \<open>ln_a\<close>, the receiver \<open>ln_b\<close> and the bytes under way. \<open>ln_sent\<close> are the PDUs as \<open>send\<close> puts them
  on the wire, in the order in which their turn came; \<open>ln_got\<close> those the receiver's manager has taken.
\<close>

record link =
  ln_a :: connection
  ln_b :: connection
  ln_wire :: "byte list"
  ln_sent :: "byte list list"
  ln_got :: "byte list list"

datatype link_ev =
    K_send int "byte list" int io_choice
  | K_write io_choice
  | K_finish
  | K_close
  | K_read bool io_choice io_choice
  | K_close_receiver

definition frame :: "byte list \<Rightarrow> int \<Rightarrow> byte list" where
  "frame b sz = enc_uint (word_of_int sz) @ take (nat sz - 4) (drop 4 b)"

text \<open>The PDUs of the RPC layer: longer than their size field, not longer than the limit, and inside the buffer.\<close>

definition pdu_ok :: "byte list \<Rightarrow> int \<Rightarrow> bool" where
  "pdu_ok b sz = (4 < sz \<and> sz \<le> MAX_PDU \<and> sz \<le> int (length b))"

definition got_of :: "conn_ev list \<Rightarrow> byte list list" where
  "got_of ev = concat (map (\<lambda>e. case e of Got_pdu b sz \<Rightarrow> [take (nat sz) b] | _ \<Rightarrow> []) ev)"

fun link_step :: "link_ev \<Rightarrow> link \<Rightarrow> link result option" where
  "link_step (K_send rnd b sz ch) l =
     (if pdu_ok b sz \<and> (cn_dead (ln_a l) \<or> cb_buf (cn_wpdu (ln_a l)) = None) then
        Some (rbind (send_turn net_write rnd b sz (send_enter (ln_a l)) (ln_wire l, [ch])) (\<lambda>(out, ev, a, w).
          Inr (l\<lparr>ln_a := a, ln_wire := fst w,
            ln_sent := (if cn_dead (ln_a l) then ln_sent l else ln_sent l @ [frame b sz])\<rparr>)))
      else None)"
| "link_step (K_write ch) l =
     (if cn_dead (ln_a l) then None
      else Some (rbind (write_cb net_write (cn_fd (ln_a l)) (ln_a l) (ln_wire l, [ch])) (\<lambda>(ev, a, w).
        Inr (l\<lparr>ln_a := a, ln_wire := fst w\<rparr>))))"
| "link_step K_finish l =
     (case send_wait (ln_a l) of (S_return ret, ev, a) \<Rightarrow> Some (Inr (l\<lparr>ln_a := a\<rparr>)) | _ \<Rightarrow> None)"
| "link_step K_close l = Some (Inr (l\<lparr>ln_a := snd (closeconn (ln_a l))\<rparr>))"
| "link_step (K_read taken ch1 ch2) l =
     Some (rbind (read_cb net_read taken (cn_fd (ln_b l)) (ln_b l) (ln_wire l, [ch1, ch2])) (\<lambda>(ev, b, w).
       Inr (l\<lparr>ln_b := b, ln_wire := fst w, ln_got := (if taken then ln_got l @ got_of ev else ln_got l)\<rparr>)))"
| "link_step K_close_receiver l = Some (Inr (l\<lparr>ln_b := snd (closeconn (ln_b l))\<rparr>))"

definition link_start :: "int \<Rightarrow> int \<Rightarrow> int \<Rightarrow> int \<Rightarrow> int \<times> int \<Rightarrow> int \<times> int \<Rightarrow> link" where
  "link_start fd1 lossy1 fd2 lossy2 t1 t2 =
     \<lparr>ln_a = snd (connection_new fd1 lossy1 t1), ln_b = snd (connection_new fd2 lossy2 t2), ln_wire = [], ln_sent = [], ln_got = []\<rparr>"

inductive link_reach :: "link \<Rightarrow> bool" where
  start: "link_reach (link_start fd1 lossy1 fd2 lossy2 t1 t2)"
| step: "link_reach l \<Longrightarrow> link_step ev l = Some (Inr l') \<Longrightarrow> link_reach l'"

section \<open>Framing\<close>

lemma dec_enc_uint [simp]: "dec_uint (enc_uint x) = x"
  by (simp add: enc_uint_def u32_bytes)

definition frame_ok :: "byte list \<Rightarrow> bool" where
  "frame_ok f = (4 < length f \<and> int (length f) \<le> MAX_PDU \<and> sint (dec_uint (take 4 f)) = int (length f))"

lemma sint_word_of_size:
  assumes "0 \<le> sz" "sz \<le> MAX_PDU"
  shows "sint (word_of_int sz :: u32) = sz"
  using assms by (simp add: MAX_PDU_def sint_word_ariths signed_take_bit_int_eq_self sint_uint uint_word_of_int_eq
      take_bit_int_eq_self signed_take_bit_int_eq_self_iff)

lemma frame_length: "pdu_ok b sz \<Longrightarrow> int (length (frame b sz)) = sz"
  by (auto simp: pdu_ok_def frame_def)

lemma frame_frame_ok:
  assumes "pdu_ok b sz"
  shows "frame_ok (frame b sz)"
proof -
  have "take 4 (frame b sz) = enc_uint (word_of_int sz)" by (simp add: frame_def)
  then show ?thesis using assms frame_length [OF assms] sint_word_of_size [of sz]
    by (simp add: frame_ok_def pdu_ok_def)
qed

text \<open>With the size in its place the buffer begins with the frame.\<close>

lemma frame_take:
  assumes "pdu_ok b sz"
  shows "take (nat sz) (enc_uint (word_of_int sz) @ drop 4 b) = frame b sz"
    "frame (enc_uint (word_of_int sz) @ drop 4 b) sz = frame b sz"
  using assms by (auto simp: frame_def pdu_ok_def)

subsection \<open>The sender\<close>

text \<open>A sender with the frame \<open>f\<close> of its PDU, of which \<open>rest\<close> is still to be written.\<close>

definition sending :: "connection \<Rightarrow> byte list \<Rightarrow> byte list \<Rightarrow> bool" where
  "sending c f rest =
     (\<exists>b. cb_buf (cn_wpdu c) = Some b \<and> pdu_ok b (cb_sz (cn_wpdu c)) \<and> 0 \<le> cb_solong (cn_wpdu c) \<and>
       cb_solong (cn_wpdu c) \<le> cb_sz (cn_wpdu c) \<and> f = frame b (cb_sz (cn_wpdu c)) \<and>
       (0 < cb_solong (cn_wpdu c) \<longrightarrow> take (nat (cb_sz (cn_wpdu c))) b = f) \<and> rest = drop (nat (cb_solong (cn_wpdu c))) f)"

lemma sending_done: "sending c f rest \<Longrightarrow> cb_solong (cn_wpdu c) = cb_sz (cn_wpdu c) \<longleftrightarrow> rest = []"
  using frame_length by (fastforce simp: sending_def)

lemma writepdu_net:
  assumes s: "sending c f rest"
  obtains ok c' wire' where "writepdu net_write c (wire, [ch]) = Inr (ok, c', wire', if rest = [] then [ch] else [])"
    "cn_dead c' = cn_dead c" "cn_fd c' = cn_fd c" "cn_waiters c' = cn_waiters c" "cn_lossy c' = cn_lossy c"
    "\<exists>n. wire' = wire @ take n rest \<and> (ok \<longrightarrow> sending c' f (drop n rest)) \<and> (\<not> ok \<longrightarrow> n = 0)"
proof -
  note wit = that
  obtain b where b: "cb_buf (cn_wpdu c) = Some b" "pdu_ok b (cb_sz (cn_wpdu c))" "0 \<le> cb_solong (cn_wpdu c)"
    "cb_solong (cn_wpdu c) \<le> cb_sz (cn_wpdu c)" "f = frame b (cb_sz (cn_wpdu c))"
    "0 < cb_solong (cn_wpdu c) \<longrightarrow> take (nat (cb_sz (cn_wpdu c))) b = f" "rest = drop (nat (cb_solong (cn_wpdu c))) f"
    using s by (auto simp: sending_def)
  let ?p = "cn_wpdu c"
  define b' where "b' = write_size ?p b"
  have b': "take (nat (cb_sz ?p)) b' = f" "f = frame b' (cb_sz ?p)" "pdu_ok b' (cb_sz ?p)" "length b' = length b"
    using b frame_take [OF b(2)] by (auto simp: b'_def write_size_def pdu_ok_def)
  have data: "take (nat (cb_sz ?p - cb_solong ?p)) (drop (nat (cb_solong ?p)) b') = rest"
    unfolding b(7) b'(1) [symmetric] using b(3,4) by (simp add: drop_take nat_diff_distrib)
  show thesis
  proof (cases "cb_solong ?p = cb_sz ?p")
    case True
    then have "rest = []" using sending_done [OF s] by simp
    with True b(3) show ?thesis
      using s by (intro that [of True c wire]) (auto simp: writepdu_def Let_def VERIFY_def)
  next
    case False
    then have ne: "rest \<noteq> []" using sending_done [OF s] by simp
    have w: "writepdu net_write c (wire, [ch]) =
      (case net_write rest (wire, [ch]) of (r, w) \<Rightarrow> case write_result r b' c of (ok, c) \<Rightarrow> Inr (ok, c, w))"
      using b(1-4) False data unfolding writepdu_def b'_def [symmetric] Let_def by (simp add: pdu_ok_def b'_def)
    have len: "int (length rest) = cb_sz ?p - cb_solong ?p" using b frame_length [OF b(2)] by simp
    have err: thesis if "writepdu net_write c (wire, [ch]) = (case write_result (W_err again) b' c of (ok, c) \<Rightarrow> Inr (ok, c, wire, []))" for again
    proof -
      have "again \<longrightarrow> sending (snd (write_result (W_err again) b' c)) f rest" using b b' by (auto simp: sending_def write_result_def Let_def)
      with that ne show thesis
        by (intro wit [of again "snd (write_result (W_err again) b' c)" wire])
           (auto simp: write_result_def Let_def intro: exI [of _ 0])
    qed
    show ?thesis
    proof (cases ch)
      case (Io_some k)
      let ?c = "c\<lparr>cn_wpdu := ?p\<lparr>cb_buf := Some b', cb_solong := cb_solong ?p + int (min k (length rest))\<rparr>\<rparr>"
      have "sending ?c f (drop k rest)"
        using b b' len by (auto simp: sending_def nat_add_distrib min_def add.commute)
      then show ?thesis using Io_some ne w
        by (intro that [of True ?c "wire @ take k rest"]) (auto simp: net_write_def write_result_def)
    next
      case (Io_end again)
      with w have "writepdu net_write c (wire, [ch]) = (case write_result (W_err again) b' c of (ok, c) \<Rightarrow> Inr (ok, c, wire, []))"
        by (simp add: net_write_def)
      then show ?thesis by (rule err)
    next
      case (Io_fail again)
      with w have "writepdu net_write c (wire, [ch]) = (case write_result (W_err again) b' c of (ok, c) \<Rightarrow> Inr (ok, c, wire, []))"
        by (simp add: net_write_def)
      then show ?thesis by (rule err)
    qed
  qed
qed

text \<open>A sender that is alive has written everything of the frames it has begun but \<open>rest\<close>.\<close>

definition sender_ok :: "connection \<Rightarrow> byte list list \<Rightarrow> byte list \<Rightarrow> bool" where
  "sender_ok c sent rest =
     (\<not> cn_dead c \<longrightarrow>
       (if cb_buf (cn_wpdu c) = None then rest = [] \<and> cb_sz (cn_wpdu c) = 0 \<and> cb_solong (cn_wpdu c) = 0
        else sent \<noteq> [] \<and> sending c (last sent) rest))"

lemma sender_ok_finish:
  assumes "sending c f []"
  shows "sender_ok (snd (snd (send_finish c))) sent []"
  by (simp add: sender_ok_def send_finish_def)

lemma send_turn_net:
  assumes "\<not> cn_dead c" "cb_buf (cn_wpdu c) = None" "pdu_ok b sz"
  shows "\<exists>out ev c' w n. send_turn net_write rnd b sz (send_enter c) (wire, [ch]) = Inr (out, ev, c', w) \<and>
    fst w = wire @ take n (frame b sz) \<and> sender_ok c' (sent @ [frame b sz]) (drop n (frame b sz))"
proof -
  let ?c = "c\<lparr>cn_wpdu := \<lparr>cb_buf = Some b, cb_sz = sz, cb_solong = 0\<rparr>\<rparr>"
  let ?f = "frame b sz"
  have s: "sending ?c ?f ?f" using assms(3) by (simp add: sending_def) (simp add: pdu_ok_def)
  obtain ok c' wire' n where w: "writepdu net_write ?c (wire, [ch]) = Inr (ok, c', wire', if ?f = [] then [ch] else [])"
    and d: "cn_dead c' = cn_dead c"
    and n: "wire' = wire @ take n ?f" "ok \<longrightarrow> sending c' ?f (drop n ?f)" "\<not> ok \<longrightarrow> n = 0"
    by (rule writepdu_net [OF s, of wire ch]) auto
  have e: "send_enter c\<lparr>cn_waiters := cn_waiters (send_enter c) - 1\<rparr> = c" by (simp add: send_enter_def)
  have d0: "\<not> cn_dead (send_enter c)" "cb_buf (cn_wpdu (send_enter c)) = None" using assms by (simp_all add: send_enter_def)
  show ?thesis
  proof (cases ok)
    case False
    with w n assms d0 show ?thesis unfolding send_turn_def e Let_def
      by (auto simp: sender_ok_def intro!: exI [of _ 0])
  next
    case True
    then have s': "sending c' ?f (drop n ?f)" using n by simp
    show ?thesis
    proof (cases "cb_solong (cn_wpdu c') = cb_sz (cn_wpdu c')")
      case fin: True
      then have "drop n ?f = []" using sending_done [OF s'] by simp
      with s' sender_ok_finish have "sender_ok (snd (snd (send_finish c'))) (sent @ [?f]) (drop n ?f)" by simp
      with True fin w n assms d0 show ?thesis unfolding send_turn_def e Let_def
        by (auto split: prod.split intro!: exI [of _ n])
    next
      case False
      have "send_wait c' = (S_wait_complete, [], c')"
        using s' False d assms(1) by (auto simp: send_wait_def sending_def)
      moreover have "sender_ok c' (sent @ [?f]) (drop n ?f)" using s' by (auto simp: sender_ok_def sending_def)
      ultimately show ?thesis using True False w n assms d0 unfolding send_turn_def e Let_def
        by (auto intro!: exI [of _ n])
    qed
  qed
qed

lemma write_cb_net:
  assumes "sender_ok c sent rest" "\<not> cn_dead c"
  shows "\<exists>ev c' w n. write_cb net_write (cn_fd c) c (wire, [ch]) = Inr (ev, c', w) \<and> fst w = wire @ take n rest \<and>
    sender_ok c' sent (drop n rest)"
proof (cases "cb_buf (cn_wpdu c) = None")
  case True
  with assms show ?thesis by (auto simp: write_cb_def sender_ok_def VERIFY_def intro!: exI [of _ 0])
next
  case False
  with assms have ne: "sent \<noteq> []" and s: "sending c (last sent) rest" by (auto simp: sender_ok_def)
  have sz: "cb_sz (cn_wpdu c) \<noteq> 0" using s by (auto simp: sending_def pdu_ok_def)
  obtain ok c' wire' n where w: "writepdu net_write c (wire, [ch]) = Inr (ok, c', wire', if rest = [] then [ch] else [])"
    and d: "cn_dead c' = cn_dead c"
    and n: "wire' = wire @ take n rest" "ok \<longrightarrow> sending c' (last sent) (drop n rest)" "\<not> ok \<longrightarrow> n = 0"
    by (rule writepdu_net [OF s, of wire ch]) auto
  show ?thesis
  proof (cases ok)
    case True
    then have s': "sending c' (last sent) (drop n rest)" using n by simp
    then have "sender_ok c' sent (drop n rest)" "0 \<le> cb_solong (cn_wpdu c')" using ne by (auto simp: sender_ok_def sending_def)
    with True w n assms sz show ?thesis by (auto simp: write_cb_def VERIFY_def intro!: exI [of _ n])
  next
    case False
    with w n assms sz show ?thesis by (auto simp: write_cb_def VERIFY_def sender_ok_def intro!: exI [of _ 0])
  qed
qed

lemma send_wait_net:
  assumes "sender_ok c sent rest" "send_wait c = (S_return ret, ev, c')"
  shows "sender_ok c' sent rest"
proof (cases "cn_dead c")
  case True
  then show ?thesis using assms by (auto simp: send_wait_def send_finish_def sender_ok_def)
next
  case False
  have "rest = []"
  proof (cases "cb_buf (cn_wpdu c) = None")
    case True
    with False assms(1) show ?thesis by (simp add: sender_ok_def)
  next
    case buf: False
    with False assms(1) have s: "sending c (last sent) rest" by (simp add: sender_ok_def)
    then have "cb_solong (cn_wpdu c) = cb_sz (cn_wpdu c)"
      using assms(2) False by (auto simp: send_wait_def sending_def split: if_splits)
    then show ?thesis using sending_done [OF s] by simp
  qed
  then show ?thesis using assms(2) by (auto simp: send_wait_def send_finish_def sender_ok_def split: if_splits)
qed

subsection \<open>The receiver\<close>

text \<open>A receiver has \<open>part\<close> of the first of the frames \<open>fs\<close> that are still to come.\<close>

definition receiving :: "connection \<Rightarrow> byte list \<Rightarrow> byte list list \<Rightarrow> bool" where
  "receiving c part fs =
     (case cb_buf (cn_rpdu c) of
        None \<Rightarrow> part = [] \<and> cb_sz (cn_rpdu c) = 0 \<and> cb_solong (cn_rpdu c) = 0
      | Some x \<Rightarrow> x = part \<and> fs \<noteq> [] \<and> part = take (length part) (hd fs) \<and> cb_solong (cn_rpdu c) = int (length part) \<and>
          4 \<le> length part \<and> length part \<le> length (hd fs) \<and> cb_sz (cn_rpdu c) = int (length (hd fs)))"

lemma net_read_data:
  assumes "net_read count (wire, cs) = (R_data bs, wire', cs')"
  shows "wire = bs @ wire'" "bs \<noteq> []" "length bs \<le> count"
  using assms by (auto simp: net_read_def Let_def min_def split: list.splits io_choice.splits if_splits)

lemma net_read_keeps:
  assumes "net_read count (wire, cs) = (r, wire', cs')" "\<And>bs. r \<noteq> R_data bs"
  shows "wire' = wire"
  using assms by (auto simp: net_read_def Let_def split: list.splits io_choice.splits if_splits)

text \<open>The first bytes of the stream are those of the first frame.\<close>

lemma stream_take:
  assumes "concat fs = part @ bs @ rest" "fs \<noteq> []" "length part + length bs \<le> length (hd fs)"
  shows "take (length part + length bs) (hd fs) = part @ bs"
proof -
  have "take (length part + length bs) (concat fs) = part @ bs" using assms(1) by simp
  moreover have "concat fs = hd fs @ concat (tl fs)" using assms(2) by (cases fs) auto
  ultimately show ?thesis using assms(3) by simp
qed

lemma size_t_small: "0 \<le> n \<Longrightarrow> n \<le> MAX_PDU + 4 \<Longrightarrow> size_t n = nat n"
  by (simp add: size_t_def MAX_PDU_def)

lemma readpdu_body_net:
  assumes r: "receiving c part fs" "cb_buf (cn_rpdu c) \<noteq> None" and ok: "list_all frame_ok fs" and st: "concat fs = part @ wire @ rest"
  shows "\<exists>succ c' wire' cs'. readpdu_body net_read c (wire, cs) = Inr (succ, c', wire', cs') \<and> cn_dead c' = cn_dead c \<and> cn_fd c' = cn_fd c \<and>
    (succ \<longrightarrow> (\<exists>part'. receiving c' part' fs \<and> concat fs = part' @ wire' @ rest)) \<and> (\<not> succ \<longrightarrow> cb_buf (cn_rpdu c') = None)"
proof -
  let ?p = "cn_rpdu c"
  have p: "cb_buf ?p = Some part" "fs \<noteq> []" "part = take (length part) (hd fs)" "cb_solong ?p = int (length part)"
    "4 \<le> length part" "length part \<le> length (hd fs)" "cb_sz ?p = int (length (hd fs))"
    using r by (auto simp: receiving_def split: option.splits)
  have f: "int (length (hd fs)) \<le> MAX_PDU" using ok p(2) by (cases fs) (auto simp: frame_ok_def)
  have sz: "size_t (cb_sz ?p - cb_solong ?p) = length (hd fs) - length part"
  proof -
    have "cb_sz ?p - cb_solong ?p = int (length (hd fs) - length part)" using p(4,6,7) by linarith
    moreover have "size_t (int (length (hd fs) - length part)) = nat (int (length (hd fs) - length part))"
      by (rule size_t_small) (use f in linarith)+
    ultimately show ?thesis by simp
  qed
  obtain rr wire' cs' where n: "net_read (length (hd fs) - length part) (wire, cs) = (rr, wire', cs')" by (metis prod.collapse)
  show ?thesis
  proof (cases rr)
    case (R_data bs)
    note d = net_read_data [OF n [unfolded R_data]]
    let ?c = "c\<lparr>cn_rpdu := ?p\<lparr>cb_buf := Some (part @ bs), cb_solong := cb_solong ?p + int (length bs)\<rparr>\<rparr>"
    have le: "length part + length bs \<le> length (hd fs)" using d(3) p(6) by simp
    have "receiving ?c (part @ bs) fs" using p(2,4,5,7) le stream_take [of fs part bs "wire' @ rest"] st d(1)
      by (simp add: receiving_def)
    moreover have "readpdu_body net_read c (wire, cs) = Inr (True, ?c, wire', cs')"
      unfolding readpdu_body_def Let_def sz n R_data using p(1,4,7) le by simp
    ultimately show ?thesis using st d(1) by auto
  next
    case (R_eof again)
    have "wire' = wire" using net_read_keeps [OF n] R_eof by simp
    then show ?thesis using n R_eof r(1) st by (auto simp: readpdu_body_def Let_def sz charbuf_new_def)
  next
    case (R_err again)
    have "wire' = wire" using net_read_keeps [OF n] R_err by simp
    then show ?thesis using n R_err r(1) st by (auto simp: readpdu_body_def Let_def sz charbuf_new_def)
  qed
qed

lemma readpdu_header_net:
  assumes r: "receiving c [] fs" "cb_buf (cn_rpdu c) = None" and ok: "list_all frame_ok fs" and st: "concat fs = wire @ rest"
    and e: "readpdu_header net_read c (wire, cs) = x"
  shows "x = Inl Verify_failed \<or> (\<exists>succ c' wire' cs'. x = Inr (succ, c', wire', cs') \<and> cn_dead c' = cn_dead c \<and> cn_fd c' = cn_fd c \<and>
    (succ \<longrightarrow> cb_buf (cn_rpdu c') \<noteq> None \<and> (\<exists>part'. receiving c' part' fs \<and> concat fs = part' @ wire' @ rest)) \<and>
    (\<not> succ \<longrightarrow> cb_buf (cn_rpdu c') = None))"
proof -
  obtain rr wire' cs' where n: "net_read 4 (wire, cs) = (rr, wire', cs')" by (metis prod.collapse)
  show ?thesis
  proof (cases "\<exists>bs. rr = R_data bs \<and> length bs = 4")
    case True
    then obtain bs where bs: "rr = R_data bs" "length bs = 4" by blast
    note d = net_read_data [OF n [unfolded bs(1)]]
    have ne: "fs \<noteq> []" using st d(1,2) by auto
    then have f: "4 < length (hd fs)" "int (length (hd fs)) \<le> MAX_PDU" "sint (dec_uint (take 4 (hd fs))) = int (length (hd fs))"
      using ok by (cases fs; simp add: frame_ok_def)+
    have h: "take 4 (hd fs) = bs" using stream_take [of fs "[]" bs "wire' @ rest"] st d(1) ne bs(2) f(1) by simp
    let ?c = "c\<lparr>cn_rpdu := \<lparr>cb_buf = Some bs, cb_sz = int (length (hd fs)), cb_solong = 4\<rparr>\<rparr>"
    have "receiving ?c bs fs" using ne h bs(2) f(1) by (simp add: receiving_def)
    moreover have "size_t (int (length (hd fs)) + 4) = length (hd fs) + 4"
      using size_t_small [of "int (length (hd fs)) + 4"] f(2) by simp
    then have "x = Inr (True, ?c, wire', cs')"
      using e [symmetric] n bs f r(2) by (simp add: readpdu_header_def Let_def h VERIFY_def MAX_PDU_def)
    ultimately show ?thesis using st d(1) by auto
  next
    case False
    then have "x = Inl Verify_failed \<or> x = Inr (False, c, wire', cs')"
      using e n by (cases rr) (auto simp: readpdu_header_def VERIFY_def split: if_splits)
    then show ?thesis using r(2) by blast
  qed
qed

lemma readpdu_net:
  assumes r: "receiving c part fs" and ok: "list_all frame_ok fs" and st: "concat fs = part @ wire @ rest"
    and e: "readpdu net_read c (wire, cs) = x"
  shows "x = Inl Verify_failed \<or> (\<exists>succ c' wire' cs'. x = Inr (succ, c', wire', cs') \<and> cn_dead c' = cn_dead c \<and> cn_fd c' = cn_fd c \<and>
    (succ \<longrightarrow> (\<exists>part'. receiving c' part' fs \<and> concat fs = part' @ wire' @ rest)) \<and> (\<not> succ \<longrightarrow> cb_buf (cn_rpdu c') = None))"
proof (cases "cb_buf (cn_rpdu c) = None")
  case False
  then have "cb_sz (cn_rpdu c) \<noteq> 0" using r by (auto simp: receiving_def split: option.splits)
  then show ?thesis using readpdu_body_net [OF r False ok st] e by (auto simp: readpdu_def)
next
  case True
  then have p: "part = []" "cb_sz (cn_rpdu c) = 0" using r by (auto simp: receiving_def)
  obtain y where y: "readpdu_header net_read c (wire, cs) = y" by blast
  from readpdu_header_net [OF _ True ok _ y] r st p
  consider "y = Inl Verify_failed" | succ c1 wire1 cs1 where "y = Inr (succ, c1, wire1, cs1)" "cn_dead c1 = cn_dead c" "cn_fd c1 = cn_fd c"
    "succ \<longrightarrow> cb_buf (cn_rpdu c1) \<noteq> None \<and> (\<exists>part'. receiving c1 part' fs \<and> concat fs = part' @ wire1 @ rest)"
    "\<not> succ \<longrightarrow> cb_buf (cn_rpdu c1) = None" by auto
  then show ?thesis
  proof cases
    case 1
    then show ?thesis using e y p by (auto simp: readpdu_def)
  next
    case 2
    show ?thesis
    proof (cases succ)
      case True
      then obtain part' where q: "cb_buf (cn_rpdu c1) \<noteq> None" "receiving c1 part' fs" "concat fs = part' @ wire1 @ rest"
        using 2 by blast
      from readpdu_body_net [OF q(2,1) ok q(3)] e y p 2 True show ?thesis by (fastforce simp: readpdu_def)
    next
      case False
      then show ?thesis using e y p 2 by (auto simp: readpdu_def)
    qed
  qed
qed

lemma read_deliver_net:
  assumes "receiving c part fs" "concat fs = part @ wire @ rest" "read_deliver taken c = (ev, c')"
  defines "g \<equiv> (if taken then got_of ev else [])"
  shows "cn_dead c' = cn_dead c" "g = [] \<or> fs \<noteq> [] \<and> g = [hd fs]"
    "\<exists>part'. receiving c' part' (drop (length g) fs) \<and> concat (drop (length g) fs) = part' @ wire @ rest"
proof -
  show "cn_dead c' = cn_dead c" using assms(3) by (auto simp: read_deliver_def split: option.splits if_splits)
  have "(g = [] \<or> fs \<noteq> [] \<and> g = [hd fs]) \<and>
    (\<exists>part'. receiving c' part' (drop (length g) fs) \<and> concat (drop (length g) fs) = part' @ wire @ rest)"
  proof (cases "taken \<and> cb_buf (cn_rpdu c) \<noteq> None \<and> cb_sz (cn_rpdu c) = cb_solong (cn_rpdu c)")
    case False
    then have "g = []" "c' = c" using assms(3) by (auto simp: read_deliver_def g_def got_of_def split: option.splits if_splits)
    then show ?thesis using assms(1,2) by auto
  next
    case True
    then obtain x where x: "cb_buf (cn_rpdu c) = Some x" by blast
    have p: "x = part" "fs \<noteq> []" "length part = length (hd fs)" "part = take (length part) (hd fs)"
      using assms(1) True by (auto simp: receiving_def x)
    then have part: "part = hd fs" by simp
    have "ev = [Got_pdu part (int (length part))]" "c' = c\<lparr>cn_rpdu := charbuf_new\<rparr>"
      using assms(1,3) True x p(1,3) by (auto simp: read_deliver_def receiving_def)
    then have g: "g = [hd fs]" and "receiving c' [] (tl fs)" using True part
      by (simp_all add: g_def got_of_def receiving_def charbuf_new_def)
    moreover have "concat (tl fs) = wire @ rest" using assms(2) p(2) unfolding part by (cases fs) auto
    ultimately show ?thesis using p(2) by (auto simp: drop_Suc)
  qed
  then show "g = [] \<or> fs \<noteq> [] \<and> g = [hd fs]"
    "\<exists>part'. receiving c' part' (drop (length g) fs) \<and> concat (drop (length g) fs) = part' @ wire @ rest" by blast+
qed

lemma read_cb_net:
  assumes d: "\<not> cn_dead c" and r: "receiving c part fs" and ok: "list_all frame_ok fs" and st: "concat fs = part @ wire @ rest"
    and e: "read_cb net_read taken (cn_fd c) c (wire, cs) = x"
  shows "x = Inl Verify_failed \<or> (\<exists>ev c' w g. x = Inr (ev, c', w) \<and> g = (if taken then got_of ev else []) \<and>
    (g = [] \<or> fs \<noteq> [] \<and> g = [hd fs]) \<and>
    (cn_dead c' \<or> (\<exists>part'. receiving c' part' (drop (length g) fs) \<and> concat (drop (length g) fs) = part' @ fst w @ rest)))"
proof -
  define y where "y = (if cb_buf (cn_rpdu c) = None \<or> cb_solong (cn_rpdu c) < cb_sz (cn_rpdu c) then readpdu net_read c (wire, cs)
    else Inr (True, c, wire, cs))"
  have "y = Inl Verify_failed \<or> (\<exists>succ c' wire' cs'. y = Inr (succ, c', wire', cs') \<and> cn_dead c' = cn_dead c \<and> cn_fd c' = cn_fd c \<and>
    (succ \<longrightarrow> (\<exists>part'. receiving c' part' fs \<and> concat fs = part' @ wire' @ rest)) \<and> (\<not> succ \<longrightarrow> cb_buf (cn_rpdu c') = None))"
    using readpdu_net [OF r ok st refl, of cs] r st unfolding y_def by (cases "cb_buf (cn_rpdu c) = None \<or> cb_solong (cn_rpdu c) < cb_sz (cn_rpdu c)") auto
  then consider "y = Inl Verify_failed" | c1 wire1 cs1 part1 where "y = Inr (True, c1, wire1, cs1)" "receiving c1 part1 fs"
      "concat fs = part1 @ wire1 @ rest"
    | c1 wire1 cs1 where "y = Inr (False, c1, wire1, cs1)" "cb_buf (cn_rpdu c1) = None" by (metis (full_types))
  then show ?thesis
  proof cases
    case 1
    then show ?thesis using e d unfolding read_cb_def y_def [symmetric] by (simp add: VERIFY_def)
  next
    case 2
    obtain ev c' where v: "read_deliver taken c1 = (ev, c')" by fastforce
    have "x = Inr (ev, c', wire1, cs1)" using e d 2(1) v unfolding read_cb_def y_def [symmetric] by (auto simp: VERIFY_def)
    then show ?thesis using read_deliver_net [OF 2(2,3) v] by auto
  next
    case 3
    have "x = Inr ([Del_callback CB_RDWR, Signal_complete], c1\<lparr>cn_dead := True\<rparr>, wire1, cs1)"
      using e d 3 unfolding read_cb_def y_def [symmetric] by (auto simp: VERIFY_def read_deliver_def)
    then show ?thesis by (auto simp: got_of_def)
  qed
qed

section \<open>Invariant of the stream\<close>

definition receiver_ok :: "link \<Rightarrow> byte list \<Rightarrow> bool" where
  "receiver_ok l rest =
     (cn_dead (ln_b l) \<or>
      (\<exists>part. receiving (ln_b l) part (drop (length (ln_got l)) (ln_sent l)) \<and>
        concat (drop (length (ln_got l)) (ln_sent l)) = part @ ln_wire l @ rest))"

definition link_inv :: "link \<Rightarrow> bool" where
  "link_inv l =
     (list_all frame_ok (ln_sent l) \<and> prefix (ln_got l) (ln_sent l) \<and>
      (\<exists>rest. sender_ok (ln_a l) (ln_sent l) rest \<and> receiver_ok l rest))"

lemma link_inv_start: "link_inv (link_start fd1 lossy1 fd2 lossy2 t1 t2)"
  by (simp add: link_inv_def link_start_def connection_new_def sender_ok_def receiver_ok_def receiving_def charbuf_new_def)

text \<open>The sender moves some of the rest to the wire.\<close>

lemma receiver_ok_written:
  assumes "receiver_ok l rest"
  shows "receiver_ok (l\<lparr>ln_a := a, ln_wire := ln_wire l @ take n rest\<rparr>) (drop n rest)"
  using assms by (auto simp: receiver_ok_def)

lemma receiver_ok_begun:
  assumes "receiver_ok l []" "prefix (ln_got l) (ln_sent l)"
  shows "receiver_ok (l\<lparr>ln_sent := ln_sent l @ [f]\<rparr>) f"
proof -
  have le: "length (ln_got l) \<le> length (ln_sent l)" using assms(2) by (rule prefix_length_le)
  have m: "receiving c part fs \<Longrightarrow> receiving c part (fs @ [f])" for c part fs
    by (auto simp: receiving_def split: option.splits)
  show ?thesis using assms(1) le m by (fastforce simp: receiver_ok_def)
qed

lemma prefix_snoc_next:
  assumes "prefix gs fs" "drop (length gs) fs \<noteq> []"
  shows "prefix (gs @ [hd (drop (length gs) fs)]) fs"
  using assms by (auto simp: prefix_def neq_Nil_conv)

text \<open>
  A step of either end keeps the invariant; the only fault is the \<open>VERIFY\<close> of \<open>readpdu\<close> that there is
  something to read.
\<close>

lemma link_inv_send:
  assumes inv: "link_inv l" and s: "link_step (K_send rnd b sz ch) l = Some x"
  shows "\<exists>l'. x = Inr l' \<and> link_inv l'"
proof (cases "cn_dead (ln_a l)")
  case True
  then have "send_turn net_write rnd b sz (send_enter (ln_a l)) (ln_wire l, [ch]) = Inr (S_return False, [], ln_a l, ln_wire l, [ch])"
    by (simp add: send_turn_def send_enter_def)
  then show ?thesis using s inv True by (auto split: if_splits)
next
  case False
  let ?f = "frame b sz"
  have g: "pdu_ok b sz" "cb_buf (cn_wpdu (ln_a l)) = None" using s False by (auto split: if_splits)
  obtain rest where i: "list_all frame_ok (ln_sent l)" "prefix (ln_got l) (ln_sent l)" "sender_ok (ln_a l) (ln_sent l) rest" "receiver_ok l rest"
    using inv by (auto simp: link_inv_def)
  have "rest = []" using i(3) False g(2) by (simp add: sender_ok_def)
  with receiver_ok_begun i have r: "receiver_ok (l\<lparr>ln_sent := ln_sent l @ [?f]\<rparr>) ?f" by blast
  from send_turn_net [OF False g(2,1), of rnd "ln_wire l" ch "ln_sent l"] obtain out ev a w n where
    t: "send_turn net_write rnd b sz (send_enter (ln_a l)) (ln_wire l, [ch]) = Inr (out, ev, a, w)"
      "fst w = ln_wire l @ take n ?f" "sender_ok a (ln_sent l @ [?f]) (drop n ?f)" by blast
  let ?l = "l\<lparr>ln_sent := ln_sent l @ [?f], ln_a := a, ln_wire := ln_wire l @ take n ?f\<rparr>"
  have "receiver_ok ?l (drop n ?f)" using receiver_ok_written [OF r, where a = a and n = n] by simp
  then have "link_inv ?l" using i(1,2) t(3) frame_frame_ok [OF g(1)] by (auto simp: link_inv_def)
  moreover have "x = Inr ?l" using s t(1,2) g False by auto
  ultimately show ?thesis by blast
qed

lemma link_inv_write:
  assumes inv: "link_inv l" and s: "link_step (K_write ch) l = Some x"
  shows "\<exists>l'. x = Inr l' \<and> link_inv l'"
proof -
  have d: "\<not> cn_dead (ln_a l)" using s by (auto split: if_splits)
  obtain rest where i: "list_all frame_ok (ln_sent l)" "prefix (ln_got l) (ln_sent l)" "sender_ok (ln_a l) (ln_sent l) rest" "receiver_ok l rest"
    using inv by (auto simp: link_inv_def)
  from write_cb_net [OF i(3) d, of "ln_wire l" ch] obtain ev a w n where
    t: "write_cb net_write (cn_fd (ln_a l)) (ln_a l) (ln_wire l, [ch]) = Inr (ev, a, w)"
      "fst w = ln_wire l @ take n rest" "sender_ok a (ln_sent l) (drop n rest)" by blast
  have "link_inv (l\<lparr>ln_a := a, ln_wire := ln_wire l @ take n rest\<rparr>)"
    using i(1,2) t(3) receiver_ok_written [OF i(4), where a = a and n = n] by (auto simp: link_inv_def)
  moreover have "x = Inr (l\<lparr>ln_a := a, ln_wire := ln_wire l @ take n rest\<rparr>)" using s t(1,2) d by auto
  ultimately show ?thesis by blast
qed

lemma link_inv_finish:
  assumes inv: "link_inv l" and s: "link_step K_finish l = Some x"
  shows "\<exists>l'. x = Inr l' \<and> link_inv l'"
proof -
  obtain ret ev a where w: "send_wait (ln_a l) = (S_return ret, ev, a)" "x = Inr (l\<lparr>ln_a := a\<rparr>)"
    using s by (auto split: prod.splits send_out.splits)
  then show ?thesis using inv send_wait_net [OF _ w(1)] by (auto simp: link_inv_def receiver_ok_def)
qed

lemma link_inv_read:
  assumes inv: "link_inv l" and s: "link_step (K_read taken ch1 ch2) l = Some x"
  shows "x = Inl Verify_failed \<or> (\<exists>l'. x = Inr l' \<and> link_inv l')"
proof (cases "cn_dead (ln_b l)")
  case True
  then show ?thesis using s inv by (auto simp: read_cb_def VERIFY_def got_of_def)
next
  case False
  let ?fs = "drop (length (ln_got l)) (ln_sent l)"
  obtain rest part where i: "list_all frame_ok (ln_sent l)" "prefix (ln_got l) (ln_sent l)" "sender_ok (ln_a l) (ln_sent l) rest"
    and p: "receiving (ln_b l) part ?fs" "concat ?fs = part @ ln_wire l @ rest"
    using inv False by (auto simp: link_inv_def receiver_ok_def)
  have ok: "list_all frame_ok ?fs" using i(1) by (metis append_take_drop_id list_all_append)
  obtain y where y: "read_cb net_read taken (cn_fd (ln_b l)) (ln_b l) (ln_wire l, [ch1, ch2]) = y" by blast
  from read_cb_net [OF False p(1) ok p(2) y]
  consider "y = Inl Verify_failed" | ev b w g where "y = Inr (ev, b, w)" "g = (if taken then got_of ev else [])"
      "g = [] \<or> ?fs \<noteq> [] \<and> g = [hd ?fs]"
      "cn_dead b \<or> (\<exists>part'. receiving b part' (drop (length g) ?fs) \<and> concat (drop (length g) ?fs) = part' @ fst w @ rest)"
    by blast
  then show ?thesis
  proof cases
    case 1
    then show ?thesis using s y by auto
  next
    case r: (2 ev b w g)
    note g = r(3) and q = r(4)
    let ?l = "l\<lparr>ln_b := b, ln_wire := fst w, ln_got := ln_got l @ g\<rparr>"
    have "prefix (ln_got l @ g) (ln_sent l)" using g i(2) prefix_snoc_next [OF i(2)] by auto
    moreover have "receiver_ok ?l rest" using q by (auto simp: receiver_ok_def add.commute)
    ultimately have "link_inv ?l" using i(1,3) by (auto simp: link_inv_def)
    moreover have "x = Inr ?l" using s y r(1,2) by auto
    ultimately show ?thesis by blast
  qed
qed

lemma link_inv_step:
  assumes "link_inv l" "link_step ev l = Some x"
  shows "(\<exists>l'. x = Inr l' \<and> link_inv l') \<or> x = Inl Verify_failed \<and> (\<exists>taken ch1 ch2. ev = K_read taken ch1 ch2)"
proof (cases ev)
  case (K_read taken ch1 ch2)
  then show ?thesis using link_inv_read assms by blast
next
  case K_close
  have "sender_ok (ln_a l) sent rest \<Longrightarrow> sender_ok (snd (closeconn (ln_a l))) sent rest" for sent rest
    by (simp add: closeconn_def sender_ok_def)
  moreover have "receiver_ok (l\<lparr>ln_a := a\<rparr>) rest = receiver_ok l rest" for a rest by (simp add: receiver_ok_def)
  ultimately have "link_inv (l\<lparr>ln_a := snd (closeconn (ln_a l))\<rparr>)" using assms(1) by (auto simp: link_inv_def)
  then show ?thesis using assms(2) K_close by auto
next
  case K_close_receiver
  have "receiver_ok l rest \<Longrightarrow> receiver_ok (l\<lparr>ln_b := snd (closeconn (ln_b l))\<rparr>) rest" for rest
    by (simp add: receiver_ok_def closeconn_def)
  then have "link_inv (l\<lparr>ln_b := snd (closeconn (ln_b l))\<rparr>)" using assms(1) by (auto simp: link_inv_def)
  then show ?thesis using assms(2) K_close_receiver by auto
qed (use assms link_inv_send link_inv_write link_inv_finish in blast)+

lemma link_reach_inv: "link_reach l \<Longrightarrow> link_inv l"
proof (induction rule: link_reach.induct)
  case (step l ev l')
  then show ?case using link_inv_step [of l ev "Inr l'"] by auto
qed (rule link_inv_start)

section \<open>Reference counts and accepted connections\<close>

lemma conn_compare_antisym: "conn_compare c d = - conn_compare d c"
  by (auto simp: conn_compare_def split: prod.splits)

text \<open>
  \<open>process_accept\<close> deletes exactly the dead connections that nobody else refers to and keeps the rest,
  when no pointer occurs twice and no such connection is in the middle of a \<open>send\<close>.
\<close>

definition collectable :: "'p conn_heap \<Rightarrow> 'p \<Rightarrow> bool" where
  "collectable h p = (case h p of None \<Rightarrow> False | Some c \<Rightarrow> isdead c \<and> conn_ref c = 1)"

lemma collect_conns_exact:
  assumes "distinct (map snd conns)"
    and "\<forall>p\<in>snd ` set conns. \<exists>c. h p = Some c \<and> (isdead c \<and> conn_ref c = 1 \<longrightarrow> cb_buf (cn_wpdu c) = None)"
  shows "collect_conns conns h =
    Inr (filter (\<lambda>(fd, p). \<not> collectable h p) conns, \<lambda>p. if p \<in> snd ` set conns \<and> collectable h p then None else h p)"
  using assms
proof (induction conns arbitrary: h)
  case Nil
  then show ?case by simp
next
  case (Cons e conns)
  obtain fd p where e: "e = (fd, p)" by (cases e)
  obtain c where c: "h p = Some c" "isdead c \<and> conn_ref c = 1 \<longrightarrow> cb_buf (cn_wpdu c) = None" using Cons.prems(2) e by auto
  have np: "p \<notin> snd ` set conns" using Cons.prems(1) e by auto
  show ?case
  proof (cases "isdead c \<and> conn_ref c = 1")
    case True
    have d: "decref_at p h = Inr (h(p := None))"
      using True c by (auto simp: decref_at_def decref_def connection_delete_def isdead_def conn_ref_def VERIFY_def Let_def)
    have q: "collectable (h(p := None)) p' = collectable h p'" if "p' \<noteq> p" for p' using that by (simp add: collectable_def)
    have "collect_conns conns (h(p := None)) =
      Inr (filter (\<lambda>(fd, p'). \<not> collectable (h(p := None)) p') conns,
        \<lambda>p'. if p' \<in> snd ` set conns \<and> collectable (h(p := None)) p' then None else (h(p := None)) p')"
      using Cons.prems np by (intro Cons.IH) (auto simp: e)
    moreover have "filter (\<lambda>(fd, p'). \<not> collectable (h(p := None)) p') conns = filter (\<lambda>(fd, p'). \<not> collectable h p') conns"
      using np q by (intro filter_cong) (force, force)
    ultimately show ?thesis using True c np q d by (auto simp: e collectable_def [of h p] fun_eq_iff)
  next
    case False
    have "collect_conns conns h =
      Inr (filter (\<lambda>(fd, p). \<not> collectable h p) conns, \<lambda>p. if p \<in> snd ` set conns \<and> collectable h p then None else h p)"
      using Cons.prems by (intro Cons.IH) (auto simp: e)
    then show ?thesis using False c np by (auto simp: e collectable_def [of h p] fun_eq_iff)
  qed
qed

section \<open>Properties\<close>

text \<open>
  C10. Framing. Two connections with a byte stream between them, the sender's calls of \<open>send\<close> and
  \<open>write_cb\<close> and the receiver's \<open>read_cb\<close> in any order, with every \<open>write\<close> and \<open>read\<close> partial as the
  system likes: the PDUs the receiver hands to its manager are the first of the PDUs sent, in order
  and each exactly once. When both ends are alive and idle and nothing is under way, they are all of
  them. No step accesses memory outside its buffers.
\<close>

theorem framing_exact:
  assumes "link_reach l"
  shows "prefix (ln_got l) (ln_sent l) \<and>
    (\<not> cn_dead (ln_a l) \<and> cb_buf (cn_wpdu (ln_a l)) = None \<and> \<not> cn_dead (ln_b l) \<and> cb_buf (cn_rpdu (ln_b l)) = None \<and>
       ln_wire l = [] \<longrightarrow> ln_got l = ln_sent l) \<and>
    (\<forall>ev. link_step ev l \<noteq> Some (Inl Undefined))"
proof (intro conjI impI allI)
  have inv: "link_inv l" by (rule link_reach_inv [OF assms])
  show p: "prefix (ln_got l) (ln_sent l)" using inv by (simp add: link_inv_def)
  show "link_step ev l \<noteq> Some (Inl Undefined)" for ev using link_inv_step [OF inv, of ev "Inl Undefined"] by auto
  show "ln_got l = ln_sent l"
    if "\<not> cn_dead (ln_a l) \<and> cb_buf (cn_wpdu (ln_a l)) = None \<and> \<not> cn_dead (ln_b l) \<and> cb_buf (cn_rpdu (ln_b l)) = None \<and> ln_wire l = []"
  proof -
    have "concat (drop (length (ln_got l)) (ln_sent l)) = []"
      using inv that by (auto simp: link_inv_def sender_ok_def receiver_ok_def receiving_def)
    moreover have "list_all frame_ok (drop (length (ln_got l)) (ln_sent l))"
      using inv unfolding link_inv_def by (metis append_take_drop_id list_all_append)
    ultimately have "drop (length (ln_got l)) (ln_sent l) = []"
      by (cases "drop (length (ln_got l)) (ln_sent l)") (auto simp: frame_ok_def)
    then show ?thesis using p by (auto simp: prefix_def)
  qed
qed

fun link_exec :: "link_ev list \<Rightarrow> link \<Rightarrow> link option" where
  "link_exec [] l = Some l"
| "link_exec (ev # evs) l = (case link_step ev l of Some (Inr l') \<Rightarrow> link_exec evs l' | _ \<Rightarrow> None)"

lemma link_exec_reach: "link_exec evs l = Some l' \<Longrightarrow> link_reach l \<Longrightarrow> link_reach l'"
  by (induction evs l rule: link_exec.induct) (auto intro: link_reach.step split: option.splits sum.splits)

text \<open>A PDU of six bytes, written in two parts and read in two.\<close>

definition link_demo :: "link option" where
  "link_demo =
     link_exec [K_send 0 [0, 0, 0, 0, 7, 8] 6 (Io_some 3), K_write (Io_some 5), K_finish,
       K_read True (Io_some 9) (Io_some 0), K_read True (Io_some 9) (Io_some 9)]
       (link_start 5 0 6 0 (0, 0) (0, 0))"

theorem framing_exact_witness:
  "\<exists>l. link_demo = Some l \<and> ln_sent l = [[0, 0, 0, 6, 7, 8]] \<and> ln_got l = ln_sent l"
proof -
  have "case link_demo of None \<Rightarrow> False | Some l \<Rightarrow> ln_sent l = [[0, 0, 0, 6, 7, 8]] \<and> \<not> cn_dead (ln_a l) \<and>
      cb_buf (cn_wpdu (ln_a l)) = None \<and> \<not> cn_dead (ln_b l) \<and> cb_buf (cn_rpdu (ln_b l)) = None \<and> ln_wire l = []"
    by code_simp
  then obtain l where l: "link_demo = Some l" "ln_sent l = [[0, 0, 0, 6, 7, 8]]" "\<not> cn_dead (ln_a l) \<and>
      cb_buf (cn_wpdu (ln_a l)) = None \<and> \<not> cn_dead (ln_b l) \<and> cb_buf (cn_rpdu (ln_b l)) = None \<and> ln_wire l = []"
    by (auto split: option.splits)
  from link_exec_reach [OF l(1) [unfolded link_demo_def] link_reach.start] have "link_reach l" .
  from framing_exact [OF this] l show ?thesis by auto
qed

text \<open>
  C37. \<open>readpdu\<close> does not bound the announced size from below. Whatever the system, where \<open>read\<close> fails when it
  is asked for more than \<open>SSIZE_MAX\<close> bytes: a peer that announces a size of -3, -2 or -1 makes \<open>readpdu\<close> copy the four
  bytes of the size into a buffer of one, two or three bytes; a size of 0 to 3 makes the count of
  the second \<open>read\<close> wrap around, that \<open>read\<close> fails and the connection counts as broken.
\<close>

theorem short_size_overflows:
  assumes "cn_rpdu c = charbuf_new" "sys_read 4 w = (R_data (enc_uint (word_of_int sz)), w1)" "- 4 < sz" "sz < 4"
    and "\<And>count v. 2 ^ 63 \<le> int count \<Longrightarrow> fst (sys_read count v) = R_err False"
  shows "if sz < 0 then readpdu sys_read c w = Inl Undefined
    else readpdu sys_read c w = Inr (False, c, snd (sys_read (size_t (sz - 4)) w1))"
proof -
  have "sz \<in> {- 3, - 2, - 1, 0, 1, 2, 3}" using assms(3,4) by auto
  then have i: "sint (word_of_int sz :: u32) = sz" by auto
  have h: "readpdu_header sys_read c w = (if sz < 0 then Inl Undefined
      else Inr (True, c\<lparr>cn_rpdu := \<lparr>cb_buf = Some (enc_uint (word_of_int sz)), cb_sz = sz, cb_solong = 4\<rparr>\<rparr>, w1))"
    using assms(1-4) i by (simp add: readpdu_header_def Let_def VERIFY_def MAX_PDU_def charbuf_new_def size_t_def) linarith
  show ?thesis
  proof (cases "sz < 0")
    case True
    then show ?thesis using h assms(1) by (simp add: readpdu_def charbuf_new_def)
  next
    case False
    then have "sz \<in> {0, 1, 2, 3}" using assms(4) by auto
    then have "2 ^ 63 \<le> int (size_t (sz - 4))" by (auto simp: size_t_def)
    then obtain v where v: "sys_read (size_t (sz - 4)) w1 = (R_err False, v)" using assms(5) by (metis prod.collapse)
    have "c\<lparr>cn_rpdu := charbuf_new\<rparr> = c" using assms(1) by (cases c) simp
    then show ?thesis using False h v assms(1) by (simp add: readpdu_def readpdu_body_def Let_def charbuf_new_def)
  qed
qed

text \<open>A size of -2, and one of 2.\<close>

theorem short_size_overflows_witness:
  "readpdu net_read (snd (connection_new 5 0 (0, 0))) (enc_uint (word_of_int (- 2)) @ [1, 2, 3], [Io_some 3, Io_some 5]) = Inl Undefined \<and>
   readpdu net_read (snd (connection_new 5 0 (0, 0))) (enc_uint (word_of_int 2) @ [1, 2, 3], [Io_some 3, Io_some 5]) =
     Inr (False, snd (connection_new 5 0 (0, 0)), [1, 2, 3], [])"
proof -
  let ?c = "snd (connection_new 5 0 (0, 0))"
  have c: "cn_rpdu ?c = charbuf_new" by (simp add: connection_new_def)
  have lim: "2 ^ 63 \<le> int count \<Longrightarrow> fst (net_read count v) = R_err False" for count v by (simp add: net_read_def)
  have r: "net_read 4 (enc_uint x @ [1, 2, 3], [Io_some 3, Io_some 5]) = (R_data (enc_uint x), [1, 2, 3], [Io_some 5])" for x
    by (simp add: net_read_def enc_uint_def)
  have "net_read (size_t (2 - 4)) ([1, 2, 3], [Io_some 5]) = (R_err False, [1, 2, 3], [])"
    by (simp add: net_read_def size_t_def)
  then show ?thesis
    using short_size_overflows [where sys_read = net_read and sz = "- 2", OF c r _ _ lim] short_size_overflows [where sys_read = net_read and sz = 2, OF c r _ _ lim] by simp
qed

end
