(* ===== verification/Fuse.thy ===== *)
theory Fuse
  imports Prelude
begin

text \<open>
  The file system server of src/util/fuse.cc: the handlers that FUSE calls. Class \<open>yfs_client\<close> is not
  part of the sources; it is a record of functions on the state \<open>'w\<close> of the world. An output parameter
  of its methods is also an argument: the value of the variable before the call. A handler has a list
  of replies.
\<close>

unbundle bit_operations_syntax

type_synonym inum = u64

record fileinfo =
  fi_size :: u64
  fi_atime :: u64
  fi_mtime :: u64
  fi_ctime :: u64

record dirinfo =
  di_atime :: u64
  di_mtime :: u64
  di_ctime :: u64

record stat =
  st_ino :: inum
  st_mode :: u32
  st_nlink :: u64
  st_atime :: u64
  st_mtime :: u64
  st_ctime :: u64
  st_size :: u64

record 'w yfs_client =
  yfs_OK :: cint
  yfs_NOENT :: cint
  yfs_EXIST :: cint
  yfs_isfile :: "inum \<Rightarrow> 'w \<Rightarrow> bool \<times> 'w"
  yfs_isdir :: "inum \<Rightarrow> 'w \<Rightarrow> bool \<times> 'w"
  yfs_getfile :: "inum \<Rightarrow> 'w \<Rightarrow> (cint \<times> fileinfo) \<times> 'w"
  yfs_getdir :: "inum \<Rightarrow> 'w \<Rightarrow> (cint \<times> dirinfo) \<times> 'w"
  yfs_setattr :: "inum \<Rightarrow> stat \<Rightarrow> 'w \<Rightarrow> cint \<times> 'w"
  yfs_read :: "inum \<Rightarrow> u64 \<Rightarrow> int \<Rightarrow> 'w \<Rightarrow> (cint \<times> string) \<times> 'w"
  yfs_write :: "inum \<Rightarrow> u64 \<Rightarrow> int \<Rightarrow> string \<Rightarrow> 'w \<Rightarrow> cint \<times> 'w"
  yfs_create :: "inum \<Rightarrow> string \<Rightarrow> inum \<Rightarrow> 'w \<Rightarrow> (cint \<times> inum) \<times> 'w"
  yfs_lookup :: "inum \<Rightarrow> string \<Rightarrow> inum \<Rightarrow> 'w \<Rightarrow> (cint \<times> inum) \<times> 'w"
  yfs_mkdir :: "inum \<Rightarrow> inum \<Rightarrow> string \<Rightarrow> 'w \<Rightarrow> (cint \<times> inum) \<times> 'w"
  yfs_readdir :: "inum \<Rightarrow> 'w \<Rightarrow> (cint \<times> (string \<times> inum) list) \<times> 'w"
  yfs_unlink :: "inum \<Rightarrow> string \<Rightarrow> 'w \<Rightarrow> cint \<times> 'w"

section \<open>Replies\<close>

datatype errno = E_none | ENOENT | ENOSYS | EEXIST | ENOTDIR

record entry_param =
  e_ino :: inum
  e_attr :: stat

record statvfs =
  f_namemax :: u64
  f_bsize :: u64

datatype reply =
    Reply_err errno
  | Reply_attr stat
  | Reply_buf string
  | Reply_write u64
  | Reply_create entry_param
  | Reply_entry entry_param
  | Reply_open
  | Reply_statfs statvfs

type_synonym 'w handler = "'w \<Rightarrow> reply list \<times> 'w"

section \<open>Attributes\<close>

definition S_IFREG :: u32 where "S_IFREG = 0x8000"

definition S_IFDIR :: u32 where "S_IFDIR = 0x4000"

definition FUSE_SET_ATTR_SIZE :: cint where "FUSE_SET_ATTR_SIZE = 8"

definition stat_zero :: stat where
  "stat_zero = \<lparr>st_ino = 0, st_mode = 0, st_nlink = 0, st_atime = 0, st_mtime = 0, st_ctime = 0, st_size = 0\<rparr>"

text \<open>The first \<open>isfile\<close> is the one in the call of \<open>printf\<close>. Modes are octal in the source: 0666 and 0777.\<close>

definition getattr :: "'w yfs_client \<Rightarrow> inum \<Rightarrow> 'w \<Rightarrow> (cint \<times> stat) \<times> 'w" where
  "getattr Y inum w =
     (let st = stat_zero\<lparr>st_ino := inum\<rparr> in
      case yfs_isfile Y inum w of (_, w) \<Rightarrow>
      case yfs_isfile Y inum w of (isf, w) \<Rightarrow>
      if isf then
        case yfs_getfile Y inum w of ((ret, info), w) \<Rightarrow>
        if ret \<noteq> yfs_OK Y then ((ret, st), w)
        else ((yfs_OK Y, st\<lparr>st_mode := S_IFREG OR 0x1B6, st_nlink := 1, st_atime := fi_atime info, st_mtime := fi_mtime info,
          st_ctime := fi_ctime info, st_size := fi_size info\<rparr>), w)
      else
        case yfs_getdir Y inum w of ((ret, info), w) \<Rightarrow>
        if ret \<noteq> yfs_OK Y then ((ret, st), w)
        else ((yfs_OK Y, st\<lparr>st_mode := S_IFDIR OR 0x1FF, st_nlink := 2, st_atime := di_atime info, st_mtime := di_mtime info,
          st_ctime := di_ctime info\<rparr>), w))"

definition fuseserver_getattr :: "'w yfs_client \<Rightarrow> inum \<Rightarrow> 'w handler" where
  "fuseserver_getattr Y ino w =
     (case getattr Y ino w of ((ret, st), w) \<Rightarrow>
      if ret \<noteq> yfs_OK Y then ([Reply_err ENOENT], w) else ([Reply_attr st], w))"

definition fuseserver_setattr :: "'w yfs_client \<Rightarrow> inum \<Rightarrow> stat \<Rightarrow> cint \<Rightarrow> 'w handler" where
  "fuseserver_setattr Y ino attr to_set w =
     (if FUSE_SET_ATTR_SIZE AND to_set \<noteq> 0 then
        case yfs_setattr Y ino attr w of (ret, w) \<Rightarrow>
        let rs = (if ret \<noteq> yfs_OK Y then [Reply_err ENOSYS] else []) in
        case getattr Y ino w of ((ret, st), w) \<Rightarrow>
        if ret \<noteq> yfs_OK Y then (rs @ [Reply_err ENOSYS], w) else (rs @ [Reply_attr st], w)
      else ([Reply_err ENOSYS], w))"

section \<open>Files\<close>

definition fuseserver_read :: "'w yfs_client \<Rightarrow> inum \<Rightarrow> u64 \<Rightarrow> int \<Rightarrow> 'w handler" where
  "fuseserver_read Y ino sz off w =
     (case yfs_read Y ino sz off w of ((ret, buf), w) \<Rightarrow>
      if ret \<noteq> yfs_OK Y then ([Reply_err ENOSYS], w) else ([Reply_buf buf], w))"

definition fuseserver_write :: "'w yfs_client \<Rightarrow> inum \<Rightarrow> string \<Rightarrow> u64 \<Rightarrow> int \<Rightarrow> 'w handler" where
  "fuseserver_write Y ino buf sz off w =
     (case yfs_write Y ino sz off buf w of (ret, w) \<Rightarrow>
      if ret \<noteq> yfs_OK Y then ([Reply_err ENOSYS], w) else ([Reply_write sz], w))"

text \<open>\<open>junk\<close> is the value of the uninitialised variable \<open>child_inum\<close>.\<close>

definition fuseserver_createhelper :: "'w yfs_client \<Rightarrow> inum \<Rightarrow> inum \<Rightarrow> string \<Rightarrow> 'w \<Rightarrow> (cint \<times> entry_param option) \<times> 'w" where
  "fuseserver_createhelper Y junk parent name w =
     (case yfs_create Y parent name junk w of ((ret, child_inum), w) \<Rightarrow>
      if ret = yfs_EXIST Y then ((yfs_EXIST Y, None), w)
      else
        case getattr Y child_inum w of ((ret, st), w) \<Rightarrow>
        if ret \<noteq> yfs_OK Y then ((yfs_NOENT Y, None), w)
        else ((yfs_OK Y, Some \<lparr>e_ino = child_inum, e_attr = st\<rparr>), w))"

definition create_replies :: "'w yfs_client \<Rightarrow> (entry_param \<Rightarrow> reply) \<Rightarrow> cint \<times> entry_param option \<Rightarrow> reply list result" where
  "create_replies Y rep r =
     (if fst r = yfs_OK Y then (case snd r of None \<Rightarrow> Inl Undefined | Some e \<Rightarrow> Inr [rep e])
      else if fst r = yfs_EXIST Y then Inr [Reply_err EEXIST]
      else Inr [Reply_err ENOENT])"

definition fuseserver_create :: "'w yfs_client \<Rightarrow> inum \<Rightarrow> inum \<Rightarrow> string \<Rightarrow> 'w \<Rightarrow> (reply list \<times> 'w) result" where
  "fuseserver_create Y junk parent name w =
     (case fuseserver_createhelper Y junk parent name w of (r, w) \<Rightarrow>
      rbind (create_replies Y Reply_create r) (\<lambda>rs. Inr (rs, w)))"

definition fuseserver_mknod :: "'w yfs_client \<Rightarrow> inum \<Rightarrow> inum \<Rightarrow> string \<Rightarrow> 'w \<Rightarrow> (reply list \<times> 'w) result" where
  "fuseserver_mknod Y junk parent name w =
     (case fuseserver_createhelper Y junk parent name w of (r, w) \<Rightarrow>
      rbind (create_replies Y Reply_entry r) (\<lambda>rs. Inr (rs, w)))"

definition fuseserver_lookup :: "'w yfs_client \<Rightarrow> inum \<Rightarrow> inum \<Rightarrow> string \<Rightarrow> 'w handler" where
  "fuseserver_lookup Y junk parent name w =
     (case yfs_lookup Y parent name junk w of ((ret, inum), w) \<Rightarrow>
      if ret = yfs_OK Y then
        case getattr Y inum w of ((_, st), w) \<Rightarrow> ([Reply_entry \<lparr>e_ino = inum, e_attr = st\<rparr>], w)
      else ([Reply_err ENOENT], w))"

definition fuseserver_open :: "'w handler" where
  "fuseserver_open w = ([Reply_open], w)"

section \<open>Directories\<close>

text \<open>
  The bytes of a directory entry come from \<open>fuse_add_dirent\<close>; its last argument is the offset at which
  a later call goes on.
\<close>

type_synonym fuse_add_dirent = "string \<Rightarrow> stat \<Rightarrow> nat \<Rightarrow> string"

definition c_str :: "string \<Rightarrow> string" where
  "c_str s = takeWhile (\<lambda>c. c \<noteq> CHR 0x00) s"

definition dirbuf_add :: "(nat \<Rightarrow> nat) \<Rightarrow> fuse_add_dirent \<Rightarrow> string \<Rightarrow> string \<Rightarrow> inum \<Rightarrow> string" where
  "dirbuf_add dirent_size add_dirent b name ino =
     b @ add_dirent name (stat_zero\<lparr>st_ino := ino\<rparr>) (length b + dirent_size (length name))"

definition reply_buf_limited :: "string \<Rightarrow> int \<Rightarrow> u64 \<Rightarrow> reply" where
  "reply_buf_limited buf off maxsize =
     (if off mod 2 ^ 64 < int (length buf) then Reply_buf (take (unat maxsize) (drop (nat (off mod 2 ^ 64)) buf))
      else Reply_buf [])"

definition dir_buf :: "(nat \<Rightarrow> nat) \<Rightarrow> fuse_add_dirent \<Rightarrow> (string \<times> inum) list \<Rightarrow> string" where
  "dir_buf dirent_size add_dirent dirs =
     foldl (\<lambda>b (name, inum). dirbuf_add dirent_size add_dirent b (c_str name) inum) [] dirs"

definition fuseserver_readdir :: "'w yfs_client \<Rightarrow> (nat \<Rightarrow> nat) \<Rightarrow> fuse_add_dirent \<Rightarrow> inum \<Rightarrow> u64 \<Rightarrow> int \<Rightarrow> 'w handler" where
  "fuseserver_readdir Y dirent_size add_dirent ino sz off w =
     (case yfs_isdir Y ino w of (isd, w) \<Rightarrow>
      if \<not> isd then ([Reply_err ENOTDIR], w)
      else
        case yfs_readdir Y ino w of ((ret, dirs), w) \<Rightarrow>
        if ret \<noteq> yfs_OK Y then ([Reply_err ENOSYS], w)
        else ([reply_buf_limited (dir_buf dirent_size add_dirent dirs) off sz], w))"

definition fuseserver_mkdir :: "'w yfs_client \<Rightarrow> inum \<Rightarrow> inum \<Rightarrow> string \<Rightarrow> 'w handler" where
  "fuseserver_mkdir Y junk parent name w =
     (case yfs_mkdir Y parent junk name w of ((ret, child_inum), w) \<Rightarrow>
      let rs = (if ret \<noteq> yfs_OK Y then [Reply_err ENOSYS] else []) in
      case getattr Y child_inum w of ((ret, st), w) \<Rightarrow>
      if ret \<noteq> yfs_OK Y then (rs @ [Reply_err ENOSYS], w)
      else (rs @ [Reply_entry \<lparr>e_ino = child_inum, e_attr = st\<rparr>], w))"

definition fuseserver_unlink :: "'w yfs_client \<Rightarrow> inum \<Rightarrow> string \<Rightarrow> 'w handler" where
  "fuseserver_unlink Y parent name w =
     (case yfs_unlink Y parent name w of (ret, w) \<Rightarrow>
      if ret = yfs_NOENT Y then ([Reply_err ENOENT], w)
      else if ret = yfs_OK Y then ([Reply_err E_none], w)
      else ([Reply_err ENOSYS], w))"

definition fuseserver_statfs :: "'w handler" where
  "fuseserver_statfs w = ([Reply_statfs \<lparr>f_namemax = 255, f_bsize = 512\<rparr>], w)"

section \<open>The server\<close>

datatype fuse_req =
    Q_getattr inum
  | Q_statfs
  | Q_readdir inum u64 int
  | Q_lookup inum string
  | Q_create inum string
  | Q_mknod inum string
  | Q_open inum
  | Q_read inum u64 int
  | Q_write inum string u64 int
  | Q_setattr inum stat cint
  | Q_unlink inum string
  | Q_mkdir inum string

text \<open>The table of handlers that \<open>main\<close> fills; \<open>junk\<close> are the values of uninitialised variables.\<close>

fun fuseserver_oper :: "'w yfs_client \<Rightarrow> (nat \<Rightarrow> nat) \<Rightarrow> fuse_add_dirent \<Rightarrow> inum \<Rightarrow> fuse_req \<Rightarrow> 'w \<Rightarrow> (reply list \<times> 'w) result" where
  "fuseserver_oper Y ds ad junk (Q_getattr ino) w = Inr (fuseserver_getattr Y ino w)"
| "fuseserver_oper Y ds ad junk Q_statfs w = Inr (fuseserver_statfs w)"
| "fuseserver_oper Y ds ad junk (Q_readdir ino sz off) w = Inr (fuseserver_readdir Y ds ad ino sz off w)"
| "fuseserver_oper Y ds ad junk (Q_lookup parent name) w = Inr (fuseserver_lookup Y junk parent name w)"
| "fuseserver_oper Y ds ad junk (Q_create parent name) w = fuseserver_create Y junk parent name w"
| "fuseserver_oper Y ds ad junk (Q_mknod parent name) w = fuseserver_mknod Y junk parent name w"
| "fuseserver_oper Y ds ad junk (Q_open ino) w = Inr (fuseserver_open w)"
| "fuseserver_oper Y ds ad junk (Q_read ino sz off) w = Inr (fuseserver_read Y ino sz off w)"
| "fuseserver_oper Y ds ad junk (Q_write ino buf sz off) w = Inr (fuseserver_write Y ino buf sz off w)"
| "fuseserver_oper Y ds ad junk (Q_setattr ino attr to_set) w = Inr (fuseserver_setattr Y ino attr to_set w)"
| "fuseserver_oper Y ds ad junk (Q_unlink parent name) w = Inr (fuseserver_unlink Y parent name w)"
| "fuseserver_oper Y ds ad junk (Q_mkdir parent name) w = Inr (fuseserver_mkdir Y junk parent name w)"

text \<open>\<open>main\<close>: what the calls of the FUSE library return, and the exit code.\<close>

record main_obs =
  mo_argc :: nat
  mo_parse :: bool
  mo_mount :: bool
  mo_session :: bool
  mo_chan :: bool
  mo_loop :: cint

definition fuse_main :: "main_obs \<Rightarrow> nat result" where
  "fuse_main m =
     (if mo_argc m \<noteq> 4 then Inl Exited
      else if \<not> mo_parse m then Inr 0
      else if \<not> mo_mount m then Inl Exited
      else if \<not> mo_session m then Inl Exited
      else if \<not> mo_chan m then Inl Exited
      else Inr (if mo_loop m \<noteq> 0 then 1 else 0))"

section \<open>How often a handler replies\<close>

text \<open>A failed \<open>setattr\<close> or \<open>mkdir\<close>, after which the handler goes on.\<close>

definition replies_twice :: "'w yfs_client \<Rightarrow> inum \<Rightarrow> fuse_req \<Rightarrow> 'w \<Rightarrow> bool" where
  "replies_twice Y junk q w =
     (case q of
        Q_setattr ino attr to_set \<Rightarrow> FUSE_SET_ATTR_SIZE AND to_set \<noteq> 0 \<and> fst (yfs_setattr Y ino attr w) \<noteq> yfs_OK Y
      | Q_mkdir parent name \<Rightarrow> fst (fst (yfs_mkdir Y parent junk name w)) \<noteq> yfs_OK Y
      | _ \<Rightarrow> False)"

text \<open>The codes of \<open>yfs_client\<close> differ.\<close>

definition yfs_codes :: "'w yfs_client \<Rightarrow> bool" where
  "yfs_codes Y = (yfs_OK Y \<noteq> yfs_NOENT Y \<and> yfs_OK Y \<noteq> yfs_EXIST Y)"

lemma createhelper_cases:
  assumes "yfs_codes Y" "fuseserver_createhelper Y junk parent name w = ((ret, eo), w')"
  obtains e where "ret = yfs_OK Y" "eo = Some e" | "ret \<noteq> yfs_OK Y" "eo = None"
  using assms by (auto simp: fuseserver_createhelper_def yfs_codes_def Let_def split: prod.splits if_splits)

lemma create_replies_once:
  assumes "yfs_codes Y" "fuseserver_createhelper Y junk parent name w = (r, w')"
  shows "\<exists>rep'. create_replies Y rep r = Inr [rep']"
proof (cases r)
  case (Pair ret eo)
  show ?thesis
    by (rule createhelper_cases [OF assms(1) assms(2) [unfolded Pair]]) (simp_all add: create_replies_def Pair)
qed

lemma fuse_reply_count:
  assumes "yfs_codes Y"
  shows "\<exists>rs w'. fuseserver_oper Y ds ad junk q w = Inr (rs, w') \<and> length rs = (if replies_twice Y junk q w then 2 else 1)"
proof (cases q)
  case (Q_create parent name)
  obtain r w' where h: "fuseserver_createhelper Y junk parent name w = (r, w')" by fastforce
  from create_replies_once [OF assms h, of Reply_create] show ?thesis using Q_create h by (auto simp: fuseserver_create_def replies_twice_def)
next
  case (Q_mknod parent name)
  obtain r w' where h: "fuseserver_createhelper Y junk parent name w = (r, w')" by fastforce
  from create_replies_once [OF assms h, of Reply_entry] show ?thesis using Q_mknod h by (auto simp: fuseserver_mknod_def replies_twice_def)
qed (auto simp: replies_twice_def fuseserver_getattr_def fuseserver_statfs_def fuseserver_readdir_def reply_buf_limited_def
    fuseserver_lookup_def fuseserver_open_def fuseserver_read_def fuseserver_write_def fuseserver_setattr_def
    fuseserver_unlink_def fuseserver_mkdir_def Let_def split: prod.splits if_splits)

section \<open>Listing a directory in parts\<close>

text \<open>The entries of a directory and where each begins.\<close>

definition dirent_bytes :: "(nat \<Rightarrow> nat) \<Rightarrow> fuse_add_dirent \<Rightarrow> nat \<Rightarrow> string \<times> inum \<Rightarrow> string" where
  "dirent_bytes ds ad off d = ad (c_str (fst d)) (stat_zero\<lparr>st_ino := snd d\<rparr>) (off + ds (length (c_str (fst d))))"

fun dirents :: "(nat \<Rightarrow> nat) \<Rightarrow> fuse_add_dirent \<Rightarrow> nat \<Rightarrow> (string \<times> inum) list \<Rightarrow> string" where
  "dirents ds ad off [] = []"
| "dirents ds ad off (d # dirs) = dirent_bytes ds ad off d @ dirents ds ad (off + ds (length (c_str (fst d)))) dirs"

definition dirs_size :: "(nat \<Rightarrow> nat) \<Rightarrow> (string \<times> inum) list \<Rightarrow> nat" where
  "dirs_size ds dirs = sum_list (map (\<lambda>d. ds (length (c_str (fst d)))) dirs)"

text \<open>What the manual of FUSE says: \<open>fuse_add_dirent\<close> fills as many bytes as \<open>fuse_dirent_size\<close> says.\<close>

definition dirent_sized :: "(nat \<Rightarrow> nat) \<Rightarrow> fuse_add_dirent \<Rightarrow> bool" where
  "dirent_sized ds ad = (\<forall>name st off. length (ad name st off) = ds (length name))"

lemma length_dirents: "dirent_sized ds ad \<Longrightarrow> length (dirents ds ad off dirs) = dirs_size ds dirs"
  by (induction dirs arbitrary: off) (simp_all add: dirent_bytes_def dirent_sized_def dirs_size_def)

lemma dirents_append: "dirents ds ad off (ds1 @ ds2) = dirents ds ad off ds1 @ dirents ds ad (off + dirs_size ds ds1) ds2"
  by (induction ds1 arbitrary: off) (simp_all add: dirs_size_def add.assoc)

lemma dir_buf_dirents:
  assumes "dirent_sized ds ad"
  shows "dir_buf ds ad dirs = dirents ds ad 0 dirs"
proof (induction dirs rule: rev_induct)
  case Nil
  then show ?case by (simp add: dir_buf_def)
next
  case (snoc d dirs)
  have "dir_buf ds ad (dirs @ [d]) = dirents ds ad 0 dirs @ dirent_bytes ds ad (length (dirents ds ad 0 dirs)) d"
    using snoc by (auto simp: dir_buf_def dirbuf_add_def dirent_bytes_def split: prod.splits)
  then show ?case by (simp add: dirents_append length_dirents [OF assms])
qed

section \<open>Properties\<close>

text \<open>
  C40. Every handler in the table answers its request, and answers it once, but two: after a failed
  \<open>yfs->setattr\<close> and after a failed \<open>yfs->mkdir\<close> the handler replies a second time to the same request.
\<close>

theorem fuse_replies_once:
  assumes "yfs_codes Y"
  shows "\<exists>rs w'. fuseserver_oper Y ds ad junk q w = Inr (rs, w') \<and> length rs = (if replies_twice Y junk q w then 2 else 1)"
  by (rule fuse_reply_count [OF assms])

text \<open>A file system with one directory, in which everything else fails.\<close>

definition demo_yfs :: "unit yfs_client" where
  "demo_yfs =
     \<lparr>yfs_OK = 0, yfs_NOENT = 2, yfs_EXIST = 4, yfs_isfile = (\<lambda>_ w. (False, w)), yfs_isdir = (\<lambda>_ w. (True, w)),
      yfs_getfile = (\<lambda>_ w. ((2, \<lparr>fi_size = 0, fi_atime = 0, fi_mtime = 0, fi_ctime = 0\<rparr>), w)),
      yfs_getdir = (\<lambda>_ w. ((0, \<lparr>di_atime = 1, di_mtime = 1, di_ctime = 1\<rparr>), w)), yfs_setattr = (\<lambda>_ _ w. (2, w)),
      yfs_read = (\<lambda>_ _ _ w. ((2, []), w)), yfs_write = (\<lambda>_ _ _ _ w. (2, w)), yfs_create = (\<lambda>_ _ i w. ((2, i), w)),
      yfs_lookup = (\<lambda>_ _ i w. ((2, i), w)), yfs_mkdir = (\<lambda>_ i _ w. ((4, i), w)),
      yfs_readdir = (\<lambda>_ w. ((0, [(''ab'', 7), (''c'', 8)]), w)), yfs_unlink = (\<lambda>_ _ w. (2, w))\<rparr>"

theorem fuse_replies_once_witness:
  "\<exists>rs w'. fuseserver_oper demo_yfs id (\<lambda>name st off. name) 5 (Q_mkdir 1 ''d'') () = Inr (rs, w') \<and> length rs = 2"
  using fuse_replies_once [of demo_yfs id "\<lambda>name st off. name" 5 "Q_mkdir 1 ''d''" "()"]
  by (simp add: yfs_codes_def replies_twice_def demo_yfs_def)

text \<open>
  C32. A directory can be listed in parts. Every entry carries the offset of the next one, and a call
  of \<open>readdir\<close> with that offset returns the entries after it, up to the size asked for, as long as the
  directory has not changed.
\<close>

theorem readdir_resumes:
  assumes "dirent_sized ds ad" "yfs_isdir Y ino w = (True, w1)" "yfs_readdir Y ino w1 = ((yfs_OK Y, dirs1 @ d # dirs2), w2)"
    and "k = dirs_size ds (dirs1 @ [d])" "k < 2 ^ 63"
  shows "dir_buf ds ad (dirs1 @ d # dirs2) =
      dirents ds ad 0 dirs1 @ ad (c_str (fst d)) (stat_zero\<lparr>st_ino := snd d\<rparr>) k @ dirents ds ad k dirs2 \<and>
    fuseserver_readdir Y ds ad ino sz (int k) w = ([Reply_buf (take (unat sz) (dirents ds ad k dirs2))], w2)"
proof -
  have k: "k = dirs_size ds dirs1 + ds (length (c_str (fst d)))" using assms(4) by (simp add: dirs_size_def)
  have b: "dir_buf ds ad (dirs1 @ d # dirs2) =
      dirents ds ad 0 dirs1 @ ad (c_str (fst d)) (stat_zero\<lparr>st_ino := snd d\<rparr>) k @ dirents ds ad k dirs2"
    by (simp add: dir_buf_dirents [OF assms(1)] dirents_append dirent_bytes_def k)
  have l: "length (dirents ds ad 0 dirs1) + length (ad (c_str (fst d)) (stat_zero\<lparr>st_ino := snd d\<rparr>) k) = k"
    using assms(1) by (simp add: length_dirents k dirent_sized_def)
  have o: "int k mod 2 ^ 64 = int k" using assms(5) by simp
  have c: "dirents ds ad k dirs2 \<noteq> [] \<longrightarrow> int k < int (length (dirents ds ad 0 dirs1 @
      ad (c_str (fst d)) (stat_zero\<lparr>st_ino := snd d\<rparr>) k @ dirents ds ad k dirs2))"
    using l by (subst of_nat_less_iff) (simp flip: add.assoc)
  have "reply_buf_limited (dir_buf ds ad (dirs1 @ d # dirs2)) (int k) sz = Reply_buf (take (unat sz) (dirents ds ad k dirs2))"
    unfolding reply_buf_limited_def o b using l c by (cases "dirents ds ad k dirs2 = []") auto
  then show ?thesis using b assms(2,3) by (simp add: fuseserver_readdir_def)
qed

theorem readdir_resumes_witness:
  "fuseserver_readdir demo_yfs id (\<lambda>name st off. name) 1 10 2 () = ([Reply_buf ''c''], ())"
  using readdir_resumes [of id "\<lambda>name st off. name" demo_yfs 1 "()" "()" "[]" "(''ab'', 7)" "[(''c'', 8)]" "()" 2 10]
  by (simp add: dirent_sized_def demo_yfs_def dirs_size_def c_str_def dirent_bytes_def)

end
