(* ===== verification/Client_Setup.thy ===== *)
theory Client_Setup
  imports Rpc_Server Iostream Extent_Cache Lock_Cache Lock_Cache_Rsm
begin

text \<open>
  The constructors of the lock and extent clients: they make an RPC client for the server and bind it,
  and the caching lock clients start an RPC server of their own whose address is their identity. The
  library functions behind \<open>make_sockaddr\<close> are parameters, as in \<open>Rpc_Util\<close>; the handlers that are
  registered are arguments.
\<close>

unbundle bit_operations_syntax

text \<open>What the first lines of both constructors do; \<open>None\<close> is a bind that has not returned yet.\<close>

definition client_connect :: "(string \<Rightarrow> u32 option) \<Rightarrow> (string \<Rightarrow> u32 option) \<Rightarrow> (string \<Rightarrow> u16) \<Rightarrow> u32 \<Rightarrow> cint \<Rightarrow>
    (nat \<Rightarrow> byte) \<Rightarrow> obs list \<Rightarrow> timespec \<Rightarrow> string \<Rightarrow> (cint \<times> rpcc \<times> cl_ev list) option result" where
  "client_connect inet gethost portno rnd lossy mem obs now addr =
     rbind (make_sockaddr_hp inet gethost portno addr) (\<lambda>d.
     rpcc_bind_call mem obs now to_max (rpcc_new rnd lossy d True))"

text \<open>The flag says whether the constructor prints that the bind failed; it goes on in any case.\<close>

definition lock_client_new :: "(cint \<times> rpcc \<times> cl_ev list) option \<Rightarrow> (bool \<times> rpcc) option" where
  "lock_client_new b = map_option (\<lambda>(ret, c, ev). (sint ret < 0, c)) b"

definition extent_client_new :: "(cint \<times> rpcc \<times> cl_ev list) option \<Rightarrow> (bool \<times> rpcc) option" where
  "extent_client_new b = map_option (\<lambda>(ret, c, ev). (ret \<noteq> 0, c)) b"

definition host_id :: "nat \<Rightarrow> string" where
  "host_id port = ''127.0.0.1:'' @ dec_string port"

definition reg_rlock :: "u32 \<Rightarrow> u32 \<Rightarrow> 's handler \<Rightarrow> 's handler \<Rightarrow> 's rpcs \<Rightarrow> 's rpcs result" where
  "reg_rlock p_revoke p_retry h_revoke h_retry s = rbind (reg1 p_revoke h_revoke s) (reg1 p_retry h_retry)"

text \<open>\<open>port\<close> is the port that the new RPC server listens on.\<close>

definition lock_client_cache_new :: "u32 \<Rightarrow> u32 \<Rightarrow> u32 \<Rightarrow> 's handler \<Rightarrow> 's handler \<Rightarrow> 's \<Rightarrow> u16 \<Rightarrow>
    (string \<times> 's rpcs \<times> 'l lock_table) result" where
  "lock_client_cache_new rnd p_revoke p_retry h_revoke h_retry app port =
     rbind (rpcs_new rnd 0 app) (\<lambda>s.
     rbind (reg_rlock p_revoke p_retry h_revoke h_retry s) (\<lambda>s.
     Inr (host_id (unat port), s, Map.empty)))"

text \<open>\<open>rand\<close> returns a number from 0 to \<open>RAND_MAX\<close>, \<open>2 ^ 31 - 1\<close>.\<close>

definition rlock_port :: "u32 \<Rightarrow> u32" where
  "rlock_port rand = (rand mod 32000) OR push_bit 10 1"

definition lock_client_cache_rsm_new :: "u32 \<Rightarrow> u32 \<Rightarrow> u32 \<Rightarrow> u32 \<Rightarrow> 's handler \<Rightarrow> 's handler \<Rightarrow> 's \<Rightarrow> bool \<Rightarrow>
    (string \<times> u32 \<times> 's rpcs \<times> ('l, 'x::zero) lock_client_rsm) result" where
  "lock_client_cache_rsm_new rand rnd p_revoke p_retry h_revoke h_retry app started =
     rbind (rpcs_new rnd 0 app) (\<lambda>s.
     rbind (reg_rlock p_revoke p_retry h_revoke h_retry s) (\<lambda>s.
     rbind (VERIFY started) (\<lambda>_.
     Inr (host_id (unat (rlock_port rand)), rlock_port rand, s, lock_client_rsm_new))))"

section \<open>Lemmas\<close>

text \<open>The port of the replicated lock client is not a privileged one and fits in 15 bits.\<close>

lemma rlock_port_range: "1024 \<le> unat (rlock_port r)" "unat (rlock_port r) < 2 ^ 15"
proof -
  have "unat (r mod 32000) < 32000" by (simp add: unat_mod)
  then have m: "unat (r mod 32000) < 2 ^ 15" by simp
  have "bit (unat (rlock_port r)) 10" by (simp add: rlock_port_def bit_simps)
  then have o: "odd (unat (rlock_port r) div 2 ^ 10)" by (simp only: bit_iff_odd not_False_eq_True)
  show "1024 \<le> unat (rlock_port r)"
  proof (rule ccontr)
    assume "\<not> 1024 \<le> unat (rlock_port r)"
    then have "unat (rlock_port r) div 2 ^ 10 = 0" by simp
    with o show False by simp
  qed
  have "take_bit 15 (unat (rlock_port r)) = unat (rlock_port r)"
    using take_bit_nat_eq_self [OF m] by (simp add: rlock_port_def unsigned_or_eq take_bit_nat_eq_self)
  then show "unat (rlock_port r) < 2 ^ 15" by (simp only: take_bit_nat_eq_self_iff)
qed

text \<open>Registration succeeds when the two procedures differ from each other and from \<open>bind\<close>.\<close>

lemma lock_client_cache_new_ok:
  assumes "p_revoke \<noteq> p_retry" "p_revoke \<noteq> rpc_bind" "p_retry \<noteq> rpc_bind"
  shows "\<exists>s. lock_client_cache_new rnd p_revoke p_retry h_revoke h_retry app port = Inr (host_id (unat port), s, Map.empty) \<and>
    procs s p_revoke = Some h_revoke \<and> procs s p_retry = Some h_retry"
  using assms by (auto simp: lock_client_cache_new_def rpcs_new_def reg_rlock_def reg1_def VERIFY_def)

lemma lock_client_cache_rsm_new_ok:
  assumes "p_revoke \<noteq> p_retry" "p_revoke \<noteq> rpc_bind" "p_retry \<noteq> rpc_bind"
  shows "\<exists>s. lock_client_cache_rsm_new rand rnd p_revoke p_retry h_revoke h_retry app True =
      Inr (host_id (unat (rlock_port rand)), rlock_port rand, s, lock_client_rsm_new) \<and>
    procs s p_revoke = Some h_revoke \<and> procs s p_retry = Some h_retry"
  using assms by (auto simp: lock_client_cache_rsm_new_def rpcs_new_def reg_rlock_def reg1_def VERIFY_def)

end
