(* ===== verification/Shared_Extents.thy ===== *)
theory Shared_Extents
  imports Lock_Cache Lock_Cache_Rsm Extent_Cache
begin

text \<open>
  Lock clients and extent caches together. Theory \<open>Extent_Cache\<close> takes it for granted that a client works
  on an extent only while the lock server has given it the extent's lock, and that it flushes the
  extent before it gives the lock back. Here the caching lock clients of src/lock_client/ do this: a
  thread works on an extent between \<open>acquire\<close> and \<open>release\<close>, the lock may stay with the client
  after that, and it is the lock client that calls \<open>dorelease\<close> on its way to the server.

  The locale \<open>flushing_cache\<close> says what this takes of a lock client; both lock clients are instances.
\<close>

section \<open>The system\<close>

text \<open>
  A lock client as seen from outside: its steps, the moments at which the server grants a lock or
  executes a release, the calls of \<open>dorelease\<close>, and which thread has which lock.
\<close>

record ('ev, 's, 'l) lock_machine =
  lm_step :: "'ev \<Rightarrow> 's \<Rightarrow> 's option"
  lm_grants :: "'ev \<Rightarrow> 's \<Rightarrow> 'l option"
  lm_frees :: "'ev \<Rightarrow> 's \<Rightarrow> 'l option"
  lm_flushes :: "'ev \<Rightarrow> 's \<Rightarrow> 'l option"
  lm_holds :: "'s \<Rightarrow> nat \<Rightarrow> 'l \<Rightarrow> bool"

record ('c, 'l, 's, 'n, 'w) share =
  sh_locks :: "('c, 'l, 's) lock_sys"
  sh_world :: 'w
  sh_cache :: "'c \<Rightarrow> ('l, 'n) extent_cache"

text \<open>An operation on an extent names the client, the thread and the extent.\<close>

datatype ('c, 'ev, 'l, 'n) share_ev =
    S_lock 'c 'ev
  | S_put 'c nat 'l 'n string
  | S_get 'c nat 'l 'n
  | S_getattr 'c nat 'l
  | S_remove 'c nat 'l

definition share_holds :: "('ev, 's, 'l) lock_machine \<Rightarrow> 'c \<Rightarrow> nat \<Rightarrow> 'l \<Rightarrow> ('c, 'l, 's, 'n, 'w) share \<Rightarrow> bool" where
  "share_holds M c t l y = lm_holds M (ls_client (sh_locks y) c) t l"

text \<open>\<open>rel\<close> is what \<open>dorelease\<close> of the client's \<open>lock_release_user\<close> does.\<close>

type_synonym ('l, 'n, 'w) release_user = "'l \<Rightarrow> ('l, 'n) extent_cache \<Rightarrow> 'w \<Rightarrow> ('l, 'n) extent_cache \<times> 'w"

fun share_step :: "extent_protocol \<Rightarrow> ('l, 'n, 'w) extent_rpc \<Rightarrow> ('l, 'n, 'w) release_user \<Rightarrow> ('ev, 's, 'l) lock_machine \<Rightarrow>
    ('c, 'ev, 'l, 'n::semiring_1) share_ev \<Rightarrow> ('c, 'l, 's, 'n, 'w) share \<Rightarrow>
    ('n ext_ret \<times> ('c, 'l, 's, 'n, 'w) share) option" where
  "share_step P rpc rel M (S_lock c ev) y =
     (case lock_sys_step (lm_step M) (lm_grants M) (lm_frees M) c ev (sh_locks y) of
        None \<Rightarrow> None
      | Some z \<Rightarrow>
          (case lm_flushes M ev (ls_client (sh_locks y) c) of
             None \<Rightarrow> Some (R_void, y\<lparr>sh_locks := z\<rparr>)
           | Some l \<Rightarrow>
               (case rel l (sh_cache y c) (sh_world y) of (k, w) \<Rightarrow>
                Some (R_void, y\<lparr>sh_locks := z, sh_world := w, sh_cache := (sh_cache y)(c := k)\<rparr>))))"
| "share_step P rpc rel M (S_put c t l now buf) y =
     (if share_holds M c t l y then
        case cache_put P now l buf (sh_cache y c) of (ret, k) \<Rightarrow>
        Some (R_status (ret = ext_OK P), y\<lparr>sh_cache := (sh_cache y)(c := k)\<rparr>)
      else None)"
| "share_step P rpc rel M (S_get c t l now) y =
     (if share_holds M c t l y then
        case cache_get P rpc now l [] (sh_cache y c) (sh_world y) of ((ret, buf), k, w) \<Rightarrow>
        Some (R_buf (if ret = ext_OK P then Some buf else None),
          y\<lparr>sh_world := w, sh_cache := (sh_cache y)(c := k)\<rparr>)
      else None)"
| "share_step P rpc rel M (S_getattr c t l) y =
     (if share_holds M c t l y then
        case cache_getattr P rpc l (ec_attr ec_blank) (sh_cache y c) (sh_world y) of ((ret, a), k, w) \<Rightarrow>
        Some (R_size (if ret = ext_OK P then Some (attr_size a) else None),
          y\<lparr>sh_world := w, sh_cache := (sh_cache y)(c := k)\<rparr>)
      else None)"
| "share_step P rpc rel M (S_remove c t l) y =
     (if share_holds M c t l y then
        case cache_remove P l (sh_cache y c) of (ret, k) \<Rightarrow>
        Some (R_status (ret = ext_OK P), y\<lparr>sh_cache := (sh_cache y)(c := k)\<rparr>)
      else None)"

definition share_start :: "'s \<Rightarrow> 'w \<Rightarrow> ('c, 'l, 's, 'n, 'w) share" where
  "share_start s w = \<lparr>sh_locks = lock_sys_start s, sh_world = w, sh_cache = (\<lambda>_. Map.empty)\<rparr>"

fun share_run :: "extent_protocol \<Rightarrow> ('l, 'n, 'w) extent_rpc \<Rightarrow> ('l, 'n, 'w) release_user \<Rightarrow> ('ev, 's, 'l) lock_machine \<Rightarrow>
    ('c, 'ev, 'l, 'n::semiring_1) share_ev list \<Rightarrow> ('c, 'l, 's, 'n, 'w) share \<Rightarrow>
    ('n ext_ret list \<times> ('c, 'l, 's, 'n, 'w) share) option" where
  "share_run P rpc rel M [] y = Some ([], y)"
| "share_run P rpc rel M (ev # evs) y =
     (case share_step P rpc rel M ev y of
        None \<Rightarrow> None
      | Some (r, y) \<Rightarrow>
          (case share_run P rpc rel M evs y of None \<Rightarrow> None | Some (rs, y) \<Rightarrow> Some (r # rs, y)))"

section \<open>What the operations should return\<close>

text \<open>One store: the last successful \<open>put\<close> or \<open>remove\<close> of an extent, by any client, counts.\<close>

fun share_store :: "('c, 'ev, 'l, 'n) share_ev \<Rightarrow> 'n ext_ret \<Rightarrow> ('l \<rightharpoonup> string) \<Rightarrow> ('l \<rightharpoonup> string)" where
  "share_store (S_put c t l now buf) (R_status True) m = m(l \<mapsto> buf)"
| "share_store (S_remove c t l) (R_status True) m = m(l := None)"
| "share_store _ _ m = m"

text \<open>A \<open>put\<close> or \<open>remove\<close> is refused only for an extent that was removed.\<close>

fun share_ret_ok :: "('c, 'ev, 'l, 'n::semiring_1) share_ev \<Rightarrow> 'n ext_ret \<Rightarrow> ('l \<rightharpoonup> string) \<Rightarrow> bool" where
  "share_ret_ok (S_lock c ev) r m = (r = R_void)"
| "share_ret_ok (S_put c t l now buf) r m = (r = R_status True \<or> r = R_status False \<and> m l = None)"
| "share_ret_ok (S_get c t l now) r m = (r = R_buf (m l))"
| "share_ret_ok (S_getattr c t l) r m = (r = R_size (map_option (\<lambda>b. of_nat (length b)) (m l)))"
| "share_ret_ok (S_remove c t l) r m = (r = R_status True \<or> r = R_status False \<and> m l = None)"

fun share_rets_ok :: "('c, 'ev, 'l, 'n::semiring_1) share_ev list \<Rightarrow> 'n ext_ret list \<Rightarrow> ('l \<rightharpoonup> string) \<Rightarrow> bool" where
  "share_rets_ok [] [] m = True"
| "share_rets_ok (ev # evs) (r # rs) m = (share_ret_ok ev r m \<and> share_rets_ok evs rs (share_store ev r m))"
| "share_rets_ok _ _ m = False"

text \<open>
  What a \<open>lock_release_user\<close> must do in \<open>dorelease\<close>: bring the extent to the server and drop it from the
  cache, as \<open>dorelease\<close> of class \<open>lock_release\<close> (include/lock_client/lock_client_cache.h) does.
\<close>

definition flushing_user :: "extent_protocol \<Rightarrow> ('l, 'n, 'w) extent_rpc \<Rightarrow> ('w \<Rightarrow> 'l \<rightharpoonup> string) \<Rightarrow>
    ('l, 'n, 'w) release_user \<Rightarrow> bool" where
  "flushing_user P rpc content rel =
     (\<forall>l k w. fst (rel l k w) = fst (dorelease P rpc l k w) \<and>
        content (snd (rel l k w)) = content (snd (dorelease P rpc l k w)))"

section \<open>The contract of a lock client that flushes\<close>

text \<open>
  \<open>flushed s l\<close> counts the places of lock \<open>l\<close> in a client from which it goes back to the server. A lock
  comes to such a place only through \<open>dorelease\<close>, and no other place gives it back.
\<close>

locale flushing_cache =
  lock_cache "lm_step M" "lm_grants M" "lm_frees M" tokens "\<lambda>s l. {t. lm_holds M s t l}" s0
  for M :: "('ev, 's, 'l) lock_machine" and tokens :: "'s \<Rightarrow> 'l \<Rightarrow> nat" and s0 :: 's +
  fixes flushed :: "'s \<Rightarrow> 'l \<Rightarrow> nat"
  assumes flushed_step: "lm_step M ev s = Some s' \<Longrightarrow> flushed s' l \<le> flushed s l \<or> lm_flushes M ev s = Some l"
    and flushed_held: "flushed s l + card {t. lm_holds M s t l} \<le> tokens s l"
    and frees_flushed: "lm_frees M ev s = Some l \<Longrightarrow> 0 < flushed s l"
    and flushes_token: "lm_step M ev s = Some s' \<Longrightarrow> lm_flushes M ev s = Some l \<Longrightarrow>
      0 < tokens s l \<and> lm_grants M ev s = None \<and> lm_frees M ev s = None"

text \<open>The extent caches, with the lock server's owners for the owners.\<close>

definition share_ext :: "('c, 'l, 's, 'n, 'w) share \<Rightarrow> ('c, 'l, 'n, 'w) ext_sys" where
  "share_ext y = \<lparr>es_world = sh_world y, es_cache = sh_cache y, es_owner = ls_owner (sh_locks y)\<rparr>"

text \<open>
  \<open>m\<close> is what the caches show, they agree with the server, and a lock on its way back has left
  nothing in the cache.
\<close>

definition share_inv :: "('ev, 's, 'l) lock_machine \<Rightarrow> 's \<Rightarrow> ('s \<Rightarrow> 'l \<Rightarrow> nat) \<Rightarrow> ('w \<Rightarrow> 'l \<rightharpoonup> string) \<Rightarrow>
    ('l \<rightharpoonup> string) \<Rightarrow> ('c, 'l, 's, 'n::semiring_1, 'w) share \<Rightarrow> bool" where
  "share_inv M s0 flushed content m y =
     (lock_sys_reach (lm_step M) (lm_grants M) (lm_frees M) s0 (sh_locks y) \<and>
      ext_inv content (share_ext y) \<and> sp_map (ext_abs content (share_ext y)) = m \<and>
      (\<forall>c l. 0 < flushed (ls_client (sh_locks y) c) l \<longrightarrow> sh_cache y c l = None))"

lemma share_ext_upd [simp]:
  "share_ext (y\<lparr>sh_cache := k\<rparr>) = (share_ext y)\<lparr>es_cache := k\<rparr>"
  "share_ext (y\<lparr>sh_world := w\<rparr>) = (share_ext y)\<lparr>es_world := w\<rparr>"
  "share_ext (y\<lparr>sh_locks := z\<rparr>) = (share_ext y)\<lparr>es_owner := ls_owner z\<rparr>"
  by (simp_all add: share_ext_def)

lemma share_ext_sel [simp]:
  "es_world (share_ext y) = sh_world y" "es_cache (share_ext y) = sh_cache y"
  "es_owner (share_ext y) = ls_owner (sh_locks y)"
  by (simp_all add: share_ext_def)

text \<open>The steps of the lock system: what becomes of the client and of the owners.\<close>

lemma lock_sys_step_cases:
  assumes "lock_sys_step cstep grants frees c ev y = Some z"
  obtains s where "cstep ev (ls_client y c) = Some s" "ls_client z = (ls_client y)(c := s)"
    and "grants ev (ls_client y c) = None" "frees ev (ls_client y c) = None" "ls_owner z = ls_owner y"
  | s l where "cstep ev (ls_client y c) = Some s" "ls_client z = (ls_client y)(c := s)"
    and "grants ev (ls_client y c) = Some l" "ls_owner y l = None" "ls_owner z = (ls_owner y)(l \<mapsto> c)"
  | s l where "cstep ev (ls_client y c) = Some s" "ls_client z = (ls_client y)(c := s)"
    and "grants ev (ls_client y c) = None" "frees ev (ls_client y c) = Some l"
    and "ls_owner z = (if ls_owner y l = Some c then (ls_owner y)(l := None) else ls_owner y)"
  using assms by (auto simp: lock_sys_step_def Let_def split: option.splits if_splits)

text \<open>The abstract store does not see the locks.\<close>

lemma spec_lock_steps:
  "spec_step (X_acquire c e) a = Some (r, a') \<Longrightarrow> sp_map a' = sp_map a"
  "spec_step (X_release c e) a = Some (r, a') \<Longrightarrow> sp_map a' = sp_map a"
  by (auto split: if_splits)

lemma acquire_store:
  assumes "ext_inv content s" "es_owner s e = None"
  shows "ext_inv content (s\<lparr>es_owner := (es_owner s)(e \<mapsto> c)\<rparr>) \<and>
    sp_map (ext_abs content (s\<lparr>es_owner := (es_owner s)(e \<mapsto> c)\<rparr>)) = sp_map (ext_abs content s)"
  using conjunct2 [OF acquire_refines [OF assms refl]] spec_lock_steps(1) [OF conjunct1 [OF acquire_refines [OF assms refl]]]
  by (intro conjI)

lemma release_store:
  assumes "extent_server P rpc content" "ext_inv content s" "es_owner s e = Some c"
    and "dorelease P rpc e (es_cache s c) (es_world s) = (k, w)"
    and "s' = s\<lparr>es_world := w, es_cache := (es_cache s)(c := k), es_owner := (es_owner s)(e := None)\<rparr>"
  shows "ext_inv content s' \<and> sp_map (ext_abs content s') = sp_map (ext_abs content s)"
  using conjunct2 [OF release_refines [OF assms]] spec_lock_steps(2) [OF conjunct1 [OF release_refines [OF assms]]]
  by (intro conjI)

lemma dorelease_user: "flushing_user P rpc content (dorelease P rpc)"
  by (simp add: flushing_user_def)

lemma dorelease_none: "k e = None \<Longrightarrow> dorelease P rpc e k w = (k, w)"
  by (simp add: dorelease_def cache_flush_def)

lemma dorelease_cache:
  assumes "dorelease P rpc e k w = (k', w')"
  shows "k' = k(e := None)"
proof (cases "k e")
  case None
  then show ?thesis using assms by (auto simp: dorelease_none)
next
  case (Some x)
  then show ?thesis using assms
    by (cases "ec_state x") (auto simp: dorelease_def cache_flush_def split: prod.splits)
qed

lemma world_content:
  assumes "es_cache s' = es_cache s" "es_owner s' = es_owner s" "content (es_world s') = content (es_world s)"
  shows "ext_inv content s' = ext_inv content s" "ext_abs content s' = ext_abs content s"
  by (simp_all add: ext_inv_def ext_abs_def assms cong: option.case_cong)

text \<open>To flush is to give the lock up and to get it back at once.\<close>

lemma flush_store:
  assumes "extent_server P rpc content" "ext_inv content s" "es_owner s e = Some c"
    and "dorelease P rpc e (es_cache s c) (es_world s) = (k, w0)" "content w = content w0"
  shows "ext_inv content (s\<lparr>es_world := w, es_cache := (es_cache s)(c := k)\<rparr>) \<and>
    sp_map (ext_abs content (s\<lparr>es_world := w, es_cache := (es_cache s)(c := k)\<rparr>)) = sp_map (ext_abs content s)"
proof -
  let ?s = "s\<lparr>es_world := w, es_cache := (es_cache s)(c := k), es_owner := (es_owner s)(e := None)\<rparr>"
  have r: "ext_inv content ?s" "sp_map (ext_abs content ?s) = sp_map (ext_abs content s)"
    using release_store [OF assms(1-4) refl] assms(5)
      world_content [of ?s "s\<lparr>es_world := w0, es_cache := (es_cache s)(c := k), es_owner := (es_owner s)(e := None)\<rparr>" content]
    by simp_all
  have "(es_owner s)(e \<mapsto> c) = es_owner s" using assms(3) by auto
  then have "?s\<lparr>es_owner := (es_owner ?s)(e \<mapsto> c)\<rparr> = s\<lparr>es_world := w, es_cache := (es_cache s)(c := k)\<rparr>"
    by simp
  with acquire_store [OF r(1), of e c] r(2) show ?thesis by simp
qed

text \<open>What an operation on an extent returns, and what it does to the store.\<close>

lemma removed_gone: "e \<in> sp_removed (ext_abs content s) \<Longrightarrow> sp_map (ext_abs content s) e = None"
  by (auto simp: ext_abs_def cache_removed_def cache_view_def split: option.splits)

lemma put_store:
  assumes "extent_server P rpc content" "ext_inv content s" "es_owner s e = Some c"
    and "cache_put P now e buf (es_cache s c) = (ret, k)" "s' = s\<lparr>es_cache := (es_cache s)(c := k)\<rparr>"
    and "r = R_status (ret = ext_OK P)" "m = sp_map (ext_abs content s)"
  shows "ext_inv content s' \<and> sp_map (ext_abs content s') = share_store (S_put c t e now buf) r m \<and>
    share_ret_ok (S_put c t e now buf) r m"
proof -
  have st: "spec_step (X_put c e now buf) (ext_abs content s) = Some (r, ext_abs content s')" and inv: "ext_inv content s'"
    unfolding assms(5,6) using put_refines [OF assms(1-4)] by (rule conjunct1, rule conjunct2)
  show ?thesis
  proof (cases "e \<in> sp_removed (ext_abs content s)")
    case True
    then have "r = R_status False" "ext_abs content s' = ext_abs content s"
      using st abs_owned(1) [OF assms(3), of content] by (simp_all add: eq_commute)
    then show ?thesis using inv assms(7) removed_gone [OF True] by simp
  next
    case False
    then have r: "r = R_status True" "ext_abs content s' = (ext_abs content s)\<lparr>sp_map := (sp_map (ext_abs content s))(e \<mapsto> buf)\<rparr>"
      using st abs_owned(1) [OF assms(3), of content] by (simp_all add: eq_commute)
    then show ?thesis using inv assms(7) by simp
  qed
qed

lemma remove_store:
  assumes "extent_server P rpc content" "ext_inv content s" "es_owner s e = Some c"
    and "cache_remove P e (es_cache s c) = (ret, k)" "s' = s\<lparr>es_cache := (es_cache s)(c := k)\<rparr>"
    and "r = R_status (ret = ext_OK P)" "m = sp_map (ext_abs content s)"
  shows "ext_inv content s' \<and> sp_map (ext_abs content s') = share_store (S_remove c t e) r m \<and>
    share_ret_ok (S_remove c t e) r m"
proof -
  have st: "spec_step (X_remove c e) (ext_abs content s) = Some (r, ext_abs content s')" and inv: "ext_inv content s'"
    unfolding assms(5,6) using remove_refines [OF assms(1-4)] by (rule conjunct1, rule conjunct2)
  show ?thesis
  proof (cases "e \<in> sp_removed (ext_abs content s)")
    case True
    then have "r = R_status False" "ext_abs content s' = ext_abs content s"
      using st abs_owned(1) [OF assms(3), of content] by (simp_all add: eq_commute)
    then show ?thesis using inv assms(7) removed_gone [OF True] by simp
  next
    case False
    then have r: "r = R_status True" "ext_abs content s' = (ext_abs content s)\<lparr>sp_map := (sp_map (ext_abs content s))(e := None),
        sp_removed := insert e (sp_removed (ext_abs content s))\<rparr>"
      using st abs_owned(1) [OF assms(3), of content] by (simp_all add: eq_commute)
    then show ?thesis using inv assms(7) by simp
  qed
qed

lemma get_store:
  assumes "extent_server P rpc content" "ext_inv content s" "es_owner s e = Some c"
    and "cache_get P rpc now e [] (es_cache s c) (es_world s) = ((ret, buf), k, w)"
    and "s' = s\<lparr>es_world := w, es_cache := (es_cache s)(c := k)\<rparr>"
    and "r = R_buf (if ret = ext_OK P then Some buf else None)" "m = sp_map (ext_abs content s)"
  shows "ext_inv content s' \<and> sp_map (ext_abs content s') = share_store (S_get c t e now) r m \<and>
    share_ret_ok (S_get c t e now) r m"
  using get_refines [OF assms(1-4)] assms(5-7) abs_owned(2) [OF assms(3), of content] by simp

lemma getattr_store:
  assumes "extent_server P rpc content" "ext_inv content s" "es_owner s e = Some c"
    and "cache_getattr P rpc e a0 (es_cache s c) (es_world s) = ((ret, a), k, w)"
    and "s' = s\<lparr>es_world := w, es_cache := (es_cache s)(c := k)\<rparr>"
    and "r = R_size (if ret = ext_OK P then Some (attr_size a) else None)" "m = sp_map (ext_abs content s)"
  shows "ext_inv content s' \<and> sp_map (ext_abs content s') = share_store (S_getattr c t e) r m \<and>
    share_ret_ok (S_getattr c t e) r m"
  using getattr_refines [OF assms(1-4)] assms(5-7) abs_owned(2) [OF assms(3), of content] by simp

text \<open>An operation leaves the other extents alone.\<close>

lemma op_other_extents:
  "cache_put P now e buf k = (ret, k') \<Longrightarrow> l \<noteq> e \<Longrightarrow> k' l = k l"
  "cache_get P rpc now e b0 k w = ((ret, buf), k', w') \<Longrightarrow> l \<noteq> e \<Longrightarrow> k' l = k l"
  "cache_getattr P rpc e a0 k w = ((ret, a), k', w') \<Longrightarrow> l \<noteq> e \<Longrightarrow> k' l = k l"
  "cache_remove P e k = (ret, k') \<Longrightarrow> l \<noteq> e \<Longrightarrow> k' l = k l"
  by (auto simp: cache_put_def cache_get_def cache_getattr_def cache_remove_def Let_def
      split: if_splits prod.splits)

section \<open>Every step keeps the store\<close>

context flushing_cache
begin

lemma holder_owner:
  assumes "lock_sys_reach (lm_step M) (lm_grants M) (lm_frees M) s0 y" "lm_holds M (ls_client y c) t l"
  shows "ls_owner y l = Some c" "flushed (ls_client y c) l = 0"
proof -
  show o: "ls_owner y l = Some c" using mutual_exclusion [OF assms(1), of t c l t c] assms(2) by simp
  have "0 < card {t. lm_holds M (ls_client y c) t l}"
    using assms(2) holders_tokens [of "ls_client y c" l] by (auto simp: card_gt_0_iff)
  then show "flushed (ls_client y c) l = 0"
    using flushed_held [of "ls_client y c" l] token_owner [OF assms(1), of c l] by (simp split: if_splits)
qed

lemma flushed_owner:
  assumes "lock_sys_reach (lm_step M) (lm_grants M) (lm_frees M) s0 y" "0 < tokens (ls_client y c) l"
  shows "ls_owner y l = Some c"
  using token_owner [OF assms(1), of c l] assms(2) by (simp split: if_splits)

text \<open>An operation of the thread that has the lock.\<close>

lemma share_inv_op:
  assumes "share_inv M s0 flushed content m y" "share_holds M c t l y"
    and "y' = y\<lparr>sh_world := w, sh_cache := (sh_cache y)(c := k)\<rparr>" "\<And>l'. l' \<noteq> l \<Longrightarrow> k l' = sh_cache y c l'"
    and "ext_inv content (share_ext y')" "sp_map (ext_abs content (share_ext y')) = m'"
  shows "share_inv M s0 flushed content m' y'"
proof -
  have reach: "lock_sys_reach (lm_step M) (lm_grants M) (lm_frees M) s0 (sh_locks y)"
    using assms(1) by (simp add: share_inv_def)
  have "flushed (ls_client (sh_locks y) c) l = 0" using holder_owner(2) [OF reach] assms(2) by (simp add: share_holds_def)
  moreover have "sh_cache y c' l' = None" if "0 < flushed (ls_client (sh_locks y) c') l'" for c' l'
    using assms(1) that by (simp add: share_inv_def)
  ultimately have "sh_cache y' c' l' = None" if "0 < flushed (ls_client (sh_locks y) c') l'" for c' l'
    using that assms(3,4) by (cases "l' = l"; cases "c' = c") auto
  then show ?thesis unfolding share_inv_def using reach assms(3,5,6) by simp
qed

text \<open>A step of a lock client, with the call of \<open>dorelease\<close> if it makes one.\<close>

lemma share_lock_flush:
  assumes "extent_server P rpc content" "share_inv M s0 flushed content m y"
    and "lock_sys_step (lm_step M) (lm_grants M) (lm_frees M) c ev (sh_locks y) = Some z"
    and "lm_flushes M ev (ls_client (sh_locks y) c) = Some l"
    and "flushing_user P rpc content rel" "rel l (sh_cache y c) (sh_world y) = (k, w)"
  shows "share_inv M s0 flushed content m (y\<lparr>sh_locks := z, sh_world := w, sh_cache := (sh_cache y)(c := k)\<rparr>)"
proof -
  note inv = assms(2) [unfolded share_inv_def]
  then have reach: "lock_sys_reach (lm_step M) (lm_grants M) (lm_frees M) s0 (sh_locks y)" by blast
  obtain s where s: "lm_step M ev (ls_client (sh_locks y) c) = Some s" "ls_client z = (ls_client (sh_locks y))(c := s)"
    using assms(3) by (cases rule: lock_sys_step_cases) auto
  note tok = flushes_token [OF s(1) assms(4)]
  have own: "ls_owner (sh_locks y) l = Some c" using flushed_owner [OF reach] tok by blast
  have z: "ls_owner z = ls_owner (sh_locks y)"
    using assms(3) tok by (cases rule: lock_sys_step_cases) auto
  obtain w0 where w0: "dorelease P rpc l (sh_cache y c) (sh_world y) = (k, w0)" "content w = content w0"
    using assms(5,6) unfolding flushing_user_def by (metis fst_conv snd_conv prod.collapse)
  have k: "k = (sh_cache y c)(l := None)" by (rule dorelease_cache [OF w0(1)])
  have "((sh_cache y)(c := k)) c' l' = None" if "0 < flushed (ls_client z c') l'" for c' l'
  proof (cases "c' = c \<and> l' \<noteq> l")
    case True
    then have "0 < flushed (ls_client (sh_locks y) c) l'" using that s flushed_step [OF s(1), of l'] assms(4) by auto
    then show ?thesis using inv True k by auto
  qed (use that inv s(2) k in \<open>auto split: if_splits\<close>)
  moreover have "lock_sys_reach (lm_step M) (lm_grants M) (lm_frees M) s0 z"
    by (rule lock_sys_reach.step [OF reach assms(3)])
  moreover have "ext_inv content ((share_ext y)\<lparr>es_world := w, es_cache := (sh_cache y)(c := k)\<rparr>) \<and>
      sp_map (ext_abs content ((share_ext y)\<lparr>es_world := w, es_cache := (sh_cache y)(c := k)\<rparr>)) = m"
    using flush_store [OF assms(1), of "share_ext y" l c k w0 w] inv own w0 by simp
  moreover have "share_ext (y\<lparr>sh_locks := z, sh_world := w, sh_cache := (sh_cache y)(c := k)\<rparr>) =
      (share_ext y)\<lparr>es_world := w, es_cache := (sh_cache y)(c := k)\<rparr>"
    by (simp add: share_ext_def z)
  ultimately show ?thesis unfolding share_inv_def by simp
qed

lemma share_lock_quiet:
  fixes rpc :: "('l, 'n::semiring_1, 'w) extent_rpc" and y :: "('c, 'l, 's, 'n, 'w) share"
  assumes "extent_server P rpc content" "share_inv M s0 flushed content m y"
    and "lock_sys_step (lm_step M) (lm_grants M) (lm_frees M) c ev (sh_locks y) = Some z"
    and "lm_flushes M ev (ls_client (sh_locks y) c) = None"
  shows "share_inv M s0 flushed content m (y\<lparr>sh_locks := z\<rparr>)"
proof -
  note inv = assms(2) [unfolded share_inv_def]
  then have reach: "lock_sys_reach (lm_step M) (lm_grants M) (lm_frees M) s0 (sh_locks y)" by blast
  obtain s where s: "lm_step M ev (ls_client (sh_locks y) c) = Some s" "ls_client z = (ls_client (sh_locks y))(c := s)"
    using assms(3) by (cases rule: lock_sys_step_cases) auto
  have flushed: "sh_cache y c' l' = None" if "0 < flushed (ls_client z c') l'" for c' l'
    using that inv s flushed_step [OF s(1), of l'] assms(4) by (cases "c' = c") auto
  have reach': "lock_sys_reach (lm_step M) (lm_grants M) (lm_frees M) s0 z"
    by (rule lock_sys_reach.step [OF reach assms(3)])
  have "ext_inv content ((share_ext y)\<lparr>es_owner := ls_owner z\<rparr>) \<and>
      sp_map (ext_abs content ((share_ext y)\<lparr>es_owner := ls_owner z\<rparr>)) = m"
    using assms(3)
  proof (cases rule: lock_sys_step_cases)
    case 1
    then have "(share_ext y)\<lparr>es_owner := ls_owner z\<rparr> = share_ext y" by (simp add: share_ext_def)
    then show ?thesis using inv by simp
  next
    case (2 s l)
    then show ?thesis using acquire_store [of content "share_ext y" l c] inv by simp
  next
    case (3 s l)
    then have f: "0 < flushed (ls_client (sh_locks y) c) l" using frees_flushed by blast
    then have own: "ls_owner (sh_locks y) l = Some c"
      using flushed_owner [OF reach, of c l] flushed_held [of "ls_client (sh_locks y) c" l] by simp
    have "dorelease P rpc l (sh_cache y c) (sh_world y) = (sh_cache y c, sh_world y)"
      using f inv by (intro dorelease_none) blast
    then show ?thesis
      using release_store [OF assms(1), of "share_ext y" l c "sh_cache y c" "sh_world y" "(share_ext y)\<lparr>es_owner := ls_owner z\<rparr>"]
        inv own 3(5) by (simp add: share_ext_def)
  qed
  then show ?thesis using flushed reach' unfolding share_inv_def by simp
qed

lemma share_op_setup:
  assumes "share_inv M s0 flushed content m y" "share_holds M c t l y"
  shows "ext_inv content (share_ext y)" "es_owner (share_ext y) l = Some c" "m = sp_map (ext_abs content (share_ext y))"
  using assms holder_owner(1) by (auto simp: share_inv_def share_holds_def)

lemma share_step_ok:
  assumes server: "extent_server P rpc content" and user: "flushing_user P rpc content rel"
    and inv: "share_inv M s0 flushed content m y" and step: "share_step P rpc rel M ev y = Some (r, y')"
  shows "share_inv M s0 flushed content (share_store ev r m) y' \<and> share_ret_ok ev r m"
proof (cases ev)
  case (S_lock c e)
  show ?thesis
  proof (cases "lm_flushes M e (ls_client (sh_locks y) c)")
    case None
    then show ?thesis using step S_lock share_lock_quiet [OF server inv _ None] by (auto split: option.splits)
  next
    case (Some l)
    then show ?thesis using step S_lock share_lock_flush [OF server inv _ Some user] by (auto split: option.splits prod.splits)
  qed
next
  case (S_put c t l now buf)
  then have h: "share_holds M c t l y" using step by (auto split: if_splits)
  obtain ret k where op: "cache_put P now l buf (sh_cache y c) = (ret, k)" by fastforce
  have y': "y' = y\<lparr>sh_world := sh_world y, sh_cache := (sh_cache y)(c := k)\<rparr>" "r = R_status (ret = ext_OK P)"
    using step S_put h op by simp_all
  have "share_ext y' = (share_ext y)\<lparr>es_cache := (es_cache (share_ext y))(c := k)\<rparr>" using y' by (simp add: share_ext_def)
  note st = put_store [OF server share_op_setup(1,2) [OF inv h] _ this y'(2) share_op_setup(3) [OF inv h],
      where now = now and buf = buf and t = t, unfolded share_ext_sel, OF op]
  then show ?thesis unfolding S_put using share_inv_op [OF inv h y'(1)] op_other_extents(1) [OF op] by blast
next
  case (S_get c t l now)
  then have h: "share_holds M c t l y" using step by (auto split: if_splits)
  obtain ret buf k w where op: "cache_get P rpc now l [] (sh_cache y c) (sh_world y) = ((ret, buf), k, w)"
    by (metis prod.exhaust)
  have y': "y' = y\<lparr>sh_world := w, sh_cache := (sh_cache y)(c := k)\<rparr>" "r = R_buf (if ret = ext_OK P then Some buf else None)"
    using step S_get h op by simp_all
  have "share_ext y' = (share_ext y)\<lparr>es_world := w, es_cache := (es_cache (share_ext y))(c := k)\<rparr>"
    using y' by (simp add: share_ext_def)
  note st = get_store [OF server share_op_setup(1,2) [OF inv h] _ this y'(2) share_op_setup(3) [OF inv h],
      where now = now and t = t, unfolded share_ext_sel, OF op]
  then show ?thesis unfolding S_get using share_inv_op [OF inv h y'(1)] op_other_extents(2) [OF op] by blast
next
  case (S_getattr c t l)
  then have h: "share_holds M c t l y" using step by (auto split: if_splits)
  obtain ret a k w where op: "cache_getattr P rpc l (ec_attr ec_blank) (sh_cache y c) (sh_world y) = ((ret, a), k, w)"
    by (metis prod.exhaust)
  have y': "y' = y\<lparr>sh_world := w, sh_cache := (sh_cache y)(c := k)\<rparr>" "r = R_size (if ret = ext_OK P then Some (attr_size a) else None)"
    using step S_getattr h op by simp_all
  have "share_ext y' = (share_ext y)\<lparr>es_world := w, es_cache := (es_cache (share_ext y))(c := k)\<rparr>"
    using y' by (simp add: share_ext_def)
  note st = getattr_store [OF server share_op_setup(1,2) [OF inv h] _ this y'(2) share_op_setup(3) [OF inv h],
      where t = t, unfolded share_ext_sel, OF op]
  then show ?thesis unfolding S_getattr using share_inv_op [OF inv h y'(1)] op_other_extents(3) [OF op] by blast
next
  case (S_remove c t l)
  then have h: "share_holds M c t l y" using step by (auto split: if_splits)
  obtain ret k where op: "cache_remove P l (sh_cache y c) = (ret, k)" by fastforce
  have y': "y' = y\<lparr>sh_world := sh_world y, sh_cache := (sh_cache y)(c := k)\<rparr>" "r = R_status (ret = ext_OK P)"
    using step S_remove h op by simp_all
  have "share_ext y' = (share_ext y)\<lparr>es_cache := (es_cache (share_ext y))(c := k)\<rparr>" using y' by (simp add: share_ext_def)
  note st = remove_store [OF server share_op_setup(1,2) [OF inv h] _ this y'(2) share_op_setup(3) [OF inv h],
      where t = t, unfolded share_ext_sel, OF op]
  then show ?thesis unfolding S_remove using share_inv_op [OF inv h y'(1)] op_other_extents(4) [OF op] by blast
qed

lemma share_start_inv: "share_inv M s0 flushed content (content w) (share_start s0 w)"
  using tokens_start flushed_held [of s0] lock_sys_reach.start [of "lm_step M" "lm_grants M" "lm_frees M" s0]
  by (auto simp: share_inv_def share_start_def ext_inv_def share_ext_def ext_abs_def lock_sys_start_def)

lemma share_run_ok:
  assumes "extent_server P rpc content" "flushing_user P rpc content rel" "share_inv M s0 flushed content m y"
    and "share_run P rpc rel M evs y = Some (rs, y')"
  shows "share_rets_ok evs rs m"
  using assms(3,4)
proof (induction evs arbitrary: y m rs)
  case (Cons ev evs)
  then obtain r y1 rs1 where r: "share_step P rpc rel M ev y = Some (r, y1)" "share_run P rpc rel M evs y1 = Some (rs1, y')" "rs = r # rs1"
    by (auto split: option.splits)
  note ok = share_step_ok [OF assms(1,2) Cons.prems(1) r(1)]
  then show ?case using Cons.IH [OF conjunct1 [OF ok] r(2)] r(3) by simp
qed simp

lemmas reads_latest = share_run_ok [OF _ _ share_start_inv]

end

section \<open>The two lock clients\<close>

text \<open>Threads that give a lock back: they have called \<open>dorelease\<close> for it.\<close>

fun pc_flushed :: "'l \<Rightarrow> 'l lock_pc \<Rightarrow> nat" where
  "pc_flushed l (L_rel l') = (if l' = l then 1 else 0)"
| "pc_flushed l (L_revoke l') = (if l' = l then 1 else 0)"
| "pc_flushed l _ = 0"

lemma pc_flushed_hold:
  "sum_list (map (pc_flushed l) xs) + length (filter (\<lambda>pc. pc = L_hold l) xs) \<le> sum_list (map (pc_token l) xs)"
proof (induction xs)
  case (Cons pc xs)
  have "pc_flushed l pc + (if pc = L_hold l then 1 else 0) \<le> pc_token l pc" by (cases pc) auto
  then show ?case using Cons.IH by auto
qed simp

lemma pc_flushed_update:
  assumes "t < length xs"
  shows "sum_list (map (pc_flushed l) (xs[t := pc])) + pc_flushed l (xs ! t) = sum_list (map (pc_flushed l) xs) + pc_flushed l pc"
  using assms elem_le_sum_list [of t "map (pc_flushed l) xs"] by (simp add: map_update sum_list_update)

lemma acq_not_flushed [simp]: "pc_flushed l (acq_pc l' out) = 0" "pc_flushed l (cache_acq_pc l' out) = 0"
  by (cases out; simp) (cases "(l', out)" rule: cache_acq_pc.cases; simp)

text \<open>The client of the plain server: \<open>release\<close> of a revoked lock, and \<open>revoke_handler\<close> for a free one.\<close>

fun cache_flushes :: "lock_protocol \<Rightarrow> bool \<Rightarrow> 'l lock_cache_ev \<Rightarrow> 'l lock_cache_run \<Rightarrow> 'l option" where
  "cache_flushes P lu (C_release t) r =
     (case cache_pc t r of
        Some (L_hold l) \<Rightarrow> (case cache_release P lu l (fst r) of Inr (None, s) \<Rightarrow> Some l | _ \<Rightarrow> None)
      | _ \<Rightarrow> None)"
| "cache_flushes P lu (C_revoke t l) r =
     (case cache_revoke P lu l (fst r) of Inr (None, s) \<Rightarrow> Some l | _ \<Rightarrow> None)"
| "cache_flushes P lu _ r = None"

definition cache_machine :: "lock_protocol \<Rightarrow> bool \<Rightarrow> ('l lock_cache_ev, 'l lock_cache_run, 'l) lock_machine" where
  "cache_machine P lu = \<lparr>lm_step = lock_cache_step P lu, lm_grants = cache_grants, lm_frees = cache_frees,
     lm_flushes = cache_flushes P lu, lm_holds = (\<lambda>r t l. cache_pc t r = Some (L_hold l))\<rparr>"

definition cache_flushed :: "'l lock_cache_run \<Rightarrow> 'l \<Rightarrow> nat" where
  "cache_flushed r l = sum_list (map (pc_flushed l) (snd r))"

lemma cache_goto_flushed:
  assumes "cache_pc t r = Some pc" "pc_flushed l pc' \<le> pc_flushed l pc"
  shows "cache_flushed (cache_goto t pc' s r) l \<le> cache_flushed r l"
proof -
  have t: "t < length (snd r)" "snd r ! t = pc" using assms(1) by (auto simp: cache_pc_def split: if_splits)
  show ?thesis using pc_flushed_update [OF t(1), of l pc'] t(2) assms(2) by (simp add: cache_flushed_def cache_goto_def)
qed

lemma cache_flushed_step:
  assumes "lock_cache_step P lu ev r = Some r'"
  shows "cache_flushed r' l \<le> cache_flushed r l \<or> cache_flushes P lu ev r = Some l"
proof (cases ev)
  case (C_retry l')
  then show ?thesis using assms by (auto simp: cache_flushed_def)
qed (use assms in \<open>auto simp: cache_acq_def split: option.splits lock_pc.splits sum.splits if_splits
      intro!: cache_goto_flushed\<close>)

lemma cache_flushed_held: "cache_flushed r l + card {t. cache_pc t r = Some (L_hold l)} \<le> cache_tokens r l"
proof -
  have "{t. cache_pc t r = Some (L_hold l)} = {t. t < length (snd r) \<and> snd r ! t = L_hold l}"
    by (auto simp: cache_pc_def split: if_splits)
  then show ?thesis using pc_flushed_hold [of l "snd r"]
    by (simp add: cache_flushed_def cache_tokens_def length_filter_conv_card)
qed

lemma cache_pc_flushed: "cache_pc t r = Some pc \<Longrightarrow> pc_flushed l pc \<le> cache_flushed r l"
  using elem_le_sum_list [of t "map (pc_flushed l) (snd r)"] by (auto simp: cache_pc_def cache_flushed_def split: if_splits)

lemma cache_pc_token: "cache_pc t r = Some pc \<Longrightarrow> pc_token l pc \<le> cache_tokens r l"
  using elem_le_sum_list [of t "map (pc_token l) (snd r)"] by (auto simp: cache_pc_def cache_tokens_def split: if_splits)

lemma cache_frees_flushed:
  assumes "cache_frees ev r = Some l"
  shows "0 < cache_flushed r l"
proof -
  obtain t pc where "cache_pc t r = Some pc" "pc = L_rel l \<or> pc = L_revoke l"
    using assms by (cases ev) (auto split: option.splits lock_pc.splits)
  then show ?thesis using cache_pc_flushed [of t r pc l] by auto
qed

lemma cache_flushes_token:
  assumes "cache_flushes P lu ev r = Some l"
  shows "0 < cache_tokens r l \<and> cache_grants ev r = None \<and> cache_frees ev r = None"
proof (cases ev)
  case (C_release t)
  then have "cache_pc t r = Some (L_hold l)" using assms by (auto split: option.splits lock_pc.splits sum.splits)
  then show ?thesis using C_release cache_pc_token [of t r "L_hold l" l] by simp
next
  case (C_revoke t l')
  then have "table_token l (fst r) = 1"
    using assms by (auto simp: cache_revoke_def table_token_def split: option.splits sum.splits if_splits)
  then show ?thesis using C_revoke by (simp add: cache_tokens_def)
qed (use assms in simp_all)

lemma cache_machine_sel:
  "lm_step (cache_machine P lu) = lock_cache_step P lu" "lm_grants (cache_machine P lu) = cache_grants"
  "lm_frees (cache_machine P lu) = cache_frees" "lm_flushes (cache_machine P lu) = cache_flushes P lu"
  "lm_holds (cache_machine P lu) r t l = (cache_pc t r = Some (L_hold l))"
  by (simp_all add: cache_machine_def)

lemmas cache_laws = cache_tokens_start cache_tokens_step cache_not_both cache_holders_le [unfolded cache_holders_def]
  cache_flushed_step cache_flushed_held cache_frees_flushed cache_flushes_token

interpretation plain_share: flushing_cache "cache_machine P lu" cache_tokens "lock_cache_start n" cache_flushed for P lu n
  by (unfold_locales; (unfold cache_machine_sel)?; rule cache_laws; assumption?)

text \<open>
  The client of the replicated server: \<open>release\<close> of a revoked lock, and the releaser. Both call \<open>dorelease\<close>
  only if there is a \<open>lock_release_user\<close> (\<open>lu\<close>).
\<close>

fun run_flushes :: "lock_protocol \<Rightarrow> bool \<Rightarrow> ('l, 'x) lock_ev \<Rightarrow> ('l, 'x) lock_client_run \<Rightarrow> 'l option" where
  "run_flushes P lu (E_release t) r =
     (case pc_at t r of
        Some (L_hold l) \<Rightarrow> (case release P l (lr_client r) of (Rel_call xid, s) \<Rightarrow> if lu then Some l else None | _ \<Rightarrow> None)
      | _ \<Rightarrow> None)"
| "run_flushes P lu E_take r =
     (case releaser_take (lr_client r) of Some ((l, xid), s) \<Rightarrow> if lu then Some l else None | None \<Rightarrow> None)"
| "run_flushes P lu _ r = None"

definition run_machine :: "lock_protocol \<Rightarrow> bool \<Rightarrow>
    (('l, 'x::{zero, one, plus}) lock_ev, ('l, 'x) lock_client_run, 'l) lock_machine" where
  "run_machine P lu = \<lparr>lm_step = lock_run_step P, lm_grants = run_grants, lm_frees = run_frees,
     lm_flushes = run_flushes P lu, lm_holds = (\<lambda>r t l. pc_at t r = Some (L_hold l))\<rparr>"

definition run_flushed :: "('l, 'x) lock_client_run \<Rightarrow> 'l \<Rightarrow> nat" where
  "run_flushed r l = sum_list (map (pc_flushed l) (lr_threads r)) + releaser_token l (lr_releaser r)"

lemma goto_flushed:
  assumes "pc_at t r = Some pc" "pc_flushed l pc' \<le> pc_flushed l pc"
  shows "run_flushed (goto t pc' s r) l \<le> run_flushed r l"
proof -
  have t: "t < length (lr_threads r)" "lr_threads r ! t = pc" using assms(1) by (auto simp: pc_at_def split: if_splits)
  show ?thesis using pc_flushed_update [OF t(1), of l pc'] t(2) assms(2) by (simp add: run_flushed_def goto_def)
qed

lemma run_flushed_step:
  assumes "lock_run_step P ev r = Some r'"
  shows "run_flushed r' l \<le> run_flushed r l \<or> run_flushes P True ev r = Some l"
proof (cases ev)
  case (E_revoke l' xid)
  then show ?thesis using assms by (auto simp: run_flushed_def)
next
  case (E_retry l' xid)
  then show ?thesis using assms by (auto simp: run_flushed_def)
next
  case E_take
  then show ?thesis using assms by (auto simp: run_flushed_def split: releaser_pc.splits option.splits)
next
  case E_take_free
  then show ?thesis using assms by (auto simp: run_flushed_def split: releaser_pc.splits)
next
  case E_take_reply
  then show ?thesis using assms by (auto simp: run_flushed_def split: releaser_pc.splits)
qed (use assms in \<open>auto simp: acq_goto_def split: option.splits lock_pc.splits rel_out.splits prod.splits if_splits
      intro!: goto_flushed\<close>)

lemma run_flushed_held: "run_flushed r l + card {t. pc_at t r = Some (L_hold l)} \<le> run_tokens r l"
proof -
  have "{t. pc_at t r = Some (L_hold l)} = {t. t < length (lr_threads r) \<and> lr_threads r ! t = L_hold l}"
    by (auto simp: pc_at_def split: if_splits)
  then show ?thesis using pc_flushed_hold [of l "lr_threads r"]
    by (simp add: run_flushed_def run_tokens_def length_filter_conv_card)
qed

lemma run_frees_flushed:
  assumes "run_frees ev r = Some l"
  shows "0 < run_flushed r l"
proof (cases ev)
  case (E_free t)
  then have "t < length (lr_threads r)" "lr_threads r ! t = L_rel l"
    using assms by (auto simp: pc_at_def split: option.splits lock_pc.splits if_splits)
  then show ?thesis using elem_le_sum_list [of t "map (pc_flushed l) (lr_threads r)"] by (simp add: run_flushed_def)
qed (use assms in \<open>auto simp: run_flushed_def split: releaser_pc.splits\<close>)

lemma run_flushes_token:
  assumes "run_flushes P lu ev r = Some l"
  shows "0 < run_tokens r l \<and> run_grants ev r = None \<and> run_frees ev r = None"
proof (cases ev)
  case (E_release t)
  then have "t < length (lr_threads r)" "lr_threads r ! t = L_hold l"
    using assms by (auto simp: pc_at_def split: option.splits lock_pc.splits if_splits prod.splits rel_out.splits)
  then show ?thesis using E_release elem_le_sum_list [of t "map (pc_token l) (lr_threads r)"] by (simp add: run_tokens_def)
next
  case E_take
  then obtain xid s where "releaser_take (lr_client r) = Some ((l, xid), s)"
    using assms by (auto split: option.splits if_splits)
  then show ?thesis using E_take take_token [of "lr_client r" l xid s l] by (simp add: run_tokens_def)
qed (use assms in simp_all)

lemma run_machine_sel:
  "lm_step (run_machine P lu) = lock_run_step P" "lm_grants (run_machine P lu) = run_grants"
  "lm_frees (run_machine P lu) = run_frees" "lm_flushes (run_machine P lu) = run_flushes P lu"
  "lm_holds (run_machine P lu) r t l = (pc_at t r = Some (L_hold l))"
  by (simp_all add: run_machine_def)

lemmas run_laws = run_tokens_start run_tokens_step run_not_both holders_le [unfolded run_holders_def]
  run_flushed_step run_flushed_held run_frees_flushed run_flushes_token

interpretation rsm_share: flushing_cache "run_machine P True" run_tokens "lock_run_start n" run_flushed for P n
  by (unfold_locales; (unfold run_machine_sel)?; rule run_laws; assumption?)

section \<open>Properties\<close>

text \<open>
  C5. Files are shared consistently: the clients of the replicated lock service, each with its cached
  locks and its extent cache. Let any number of threads acquire and release locks, let revocations,
  retries, time-outs and failures of lock RPCs come as they like, and let a thread work on an extent
  whenever it has its lock. Provided that no RPC to the extent server fails (the server stores what it
  is told, and answers), every read returns what the last successful write or removal of the extent,
  by any thread of any client, left there, the size that \<open>getattr\<close> reports is the size of that content,
  and a write or removal is refused only if the extent is gone. The times in the attributes are not
  part of the statement. src/ has no \<open>lock_release_user\<close> for this lock client: it is any user whose
  \<open>dorelease\<close> flushes the extent as class \<open>lock_release\<close> of the plain client does.
\<close>

theorem shared_extents_consistent:
  assumes "extent_server P rpc content" "flushing_user P rpc content rel"
    and "share_run P rpc rel (run_machine L True) evs (share_start (lock_run_start n) w) = Some (rs, y)"
  shows "share_rets_ok evs rs (content w)"
  using assms by (rule rsm_share.reads_latest)

text \<open>
  Client 0 writes extent 5 and keeps the lock; the server asks for it on behalf of client 1, the
  releaser flushes the extent and gives the lock back. Client 1 reads the extent and removes it.
\<close>

definition share_evs :: "(nat, (nat, nat) lock_ev, nat, int) share_ev list" where
  "share_evs =
     [S_lock 0 (E_acquire 0 5), S_lock 0 (E_grant 0), S_lock 0 (E_reply 0 0), S_put 0 0 5 100 ''abc'', S_lock 0 (E_release 0),
      S_lock 1 (E_acquire 0 5), S_lock 1 (E_reply 0 1), S_lock 0 (E_revoke 5 0), S_lock 0 E_take, S_lock 0 E_take_free,
      S_lock 1 (E_retry 5 0), S_lock 1 (E_wake 0), S_lock 1 (E_grant 0), S_lock 1 (E_reply 0 0),
      S_getattr 1 0 5, S_get 1 0 5 101, S_remove 1 0 5, S_put 1 0 5 102 ''d'']"

definition share_rs :: "int ext_ret list" where
  "share_rs = replicate 3 R_void @ [R_status True] @ replicate 10 R_void @
     [R_size (Some 3), R_buf (Some ''abc''), R_status True, R_status False]"

theorem shared_extents_consistent_witness:
  "map_option fst (share_run map_protocol map_server (dorelease map_protocol map_server) (run_machine plain_protocol True) share_evs
      (share_start (lock_run_start 1) Map.empty)) = Some share_rs \<and>
    share_rets_ok share_evs share_rs Map.empty"
proof -
  have run: "map_option fst (share_run map_protocol map_server (dorelease map_protocol map_server) (run_machine plain_protocol True) share_evs
      (share_start (lock_run_start 1) Map.empty)) = Some share_rs"
    by code_simp
  then obtain y where "share_run map_protocol map_server (dorelease map_protocol map_server) (run_machine plain_protocol True) share_evs
      (share_start (lock_run_start 1) Map.empty) = Some (share_rs, y)" by auto
  with run show ?thesis using shared_extents_consistent [OF map_server_ok dorelease_user] by blast
qed

text \<open>Without a \<open>lock_release_user\<close> client 1 finds nothing.\<close>

lemma no_release_user_stale:
  "map_option (\<lambda>(rs, y). rs ! 15) (share_run map_protocol map_server (dorelease map_protocol map_server) (run_machine plain_protocol False) share_evs
      (share_start (lock_run_start 1) Map.empty)) = Some (R_buf None)"
  by code_simp

text \<open>
  C9. Files are shared consistently by the caching clients of the plain lock server, which flush
  through class \<open>lock_release\<close>: in \<open>release\<close> of a revoked lock, and in \<open>revoke_handler\<close> for a lock that is
  free. Let any number of threads acquire and release locks, let revocations, retries and failures of
  lock RPCs come as they like, and let a thread work on an extent whenever it has its lock. Provided that
  no RPC to the extent server fails, every read returns what the last successful write or removal of
  the extent, by any thread of any client, left there, the size that \<open>getattr\<close> reports is the size of
  that content, and a write or removal is refused only if the extent is gone.
\<close>

theorem plain_extents_consistent:
  assumes "extent_server P rpc content"
    and "share_run P rpc (dorelease P rpc) (cache_machine L lu) evs (share_start (lock_cache_start n) w) = Some (rs, y)"
  shows "share_rets_ok evs rs (content w)"
  using plain_share.reads_latest [OF assms(1) dorelease_user assms(2)] .

definition plain_share_evs :: "(nat, nat lock_cache_ev, nat, int) share_ev list" where
  "plain_share_evs =
     [S_lock 0 (C_acquire 0 5), S_lock 0 (C_grant 0), S_lock 0 (C_reply 0 0), S_put 0 0 5 100 ''abc'', S_lock 0 (C_release 0),
      S_lock 1 (C_acquire 0 5), S_lock 1 (C_reply 0 1), S_lock 0 (C_revoke 1 5), S_lock 0 (C_free 1), S_lock 1 (C_retry 5),
      S_lock 1 (C_wake 0), S_lock 1 (C_send 0), S_lock 1 (C_grant 0), S_lock 0 (C_revoke_reply 1 0), S_lock 1 (C_reply 0 0),
      S_get 1 0 5 101]"

definition plain_share_rs :: "int ext_ret list" where
  "plain_share_rs = replicate 3 R_void @ [R_status True] @ replicate 11 R_void @ [R_buf (Some ''abc'')]"

theorem plain_extents_consistent_witness:
  "map_option fst (share_run map_protocol map_server (dorelease map_protocol map_server) (cache_machine plain_protocol True) plain_share_evs
      (share_start (lock_cache_start 2) Map.empty)) = Some plain_share_rs \<and>
    share_rets_ok plain_share_evs plain_share_rs Map.empty"
proof -
  have run: "map_option fst (share_run map_protocol map_server (dorelease map_protocol map_server) (cache_machine plain_protocol True) plain_share_evs
      (share_start (lock_cache_start 2) Map.empty)) = Some plain_share_rs"
    by code_simp
  then obtain y where "share_run map_protocol map_server (dorelease map_protocol map_server) (cache_machine plain_protocol True) plain_share_evs
      (share_start (lock_cache_start 2) Map.empty) = Some (plain_share_rs, y)" by auto
  with run show ?thesis using plain_extents_consistent [OF map_server_ok] by blast
qed

end
