(* ===== verification/Rpc_System.thy ===== *)
theory Rpc_System
  imports Rpc_Call Connection
begin

text \<open>
  The RPC library as a whole: many clients and a server, with connections between them. The clients'
  \<open>call1\<close>, the server's \<open>dispatch\<close>, and \<open>send\<close>, \<open>write_cb\<close> and \<open>read_cb\<close> of the connections on both sides
  run in any order; every read and write of a connection may be partial, every connection may die and
  be replaced, requests may be sent again. A client makes one call at a time, and no call ends by its time-out.

  The locale \<open>rpc_service\<close> is the contract between the stubs that marshal the arguments of a
  service, the handlers that it registers and what its methods do. Under this contract a client sees a
  service whose methods are executed one after the other, each call exactly once.
\<close>

section \<open>\<open>dispatch\<close> in two parts\<close>

text \<open>
  \<open>dispatch\<close> up to the call of the handler (src/rpc/rpc.cc); no lock is held from there on. \<open>Some\<close> is a
  request to be executed by this handler.
\<close>

definition dispatch_enter :: "u32 \<Rightarrow> (nat \<Rightarrow> byte) \<Rightarrow> (conn \<Rightarrow> conn \<Rightarrow> int) \<Rightarrow> djob_t \<Rightarrow> 's rpcs \<Rightarrow>
    (('s handler \<times> req_header \<times> unmarshall) option \<times> 's rpcs \<times> srv_out list) result" where
  "dispatch_enter fe mem compare j s =
     (let c = dj_conn j in
      rbind (unpack_req_header (unmarshall_buf (dj_buf j) (dj_sz j))) (\<lambda>(h, req).
      if \<not> u_ok req then Inr (None, s, [S_decref c])
      else if rq_srv_nonce h \<noteq> 0 \<and> rq_srv_nonce h \<noteq> s_nonce s then
        rbind (pack_reply_header \<lparr>rp_xid = rq_xid h, rp_ret = oldsrv_failure\<rparr> (marshall_new mem))
          (\<lambda>rep. Inr (None, s, [S_send c (m_bytes rep)]))
      else
        case procs s (rq_proc h) of
          None \<Rightarrow> Inl Verify_failed
        | Some f \<Rightarrow>
            rbind (dispatch_prepare fe compare c h s) (\<lambda>(stat, s, ev).
            case stat of
              NEW \<Rightarrow> Inr (Some (f, h, req), s, ev)
            | INPROGRESS \<Rightarrow> Inr (None, s, ev @ [S_decref c])
            | DONE b sz \<Rightarrow> Inr (None, s, ev @ [S_send c b, S_decref c])
            | FORGOTTEN \<Rightarrow>
                rbind (pack_reply_header \<lparr>rp_xid = rq_xid h, rp_ret = atmostonce_failure\<rparr> (marshall_new mem))
                  (\<lambda>rep. Inr (None, s, ev @ [S_send c (m_bytes rep), S_decref c])))))"

lemma dispatch_split:
  "dispatch fe mem compare dead j s =
     rbind (dispatch_enter fe mem compare j s) (\<lambda>(run, s, ev).
     case run of
       None \<Rightarrow> Inr (s, ev)
     | Some (f, h, req) \<Rightarrow>
         rbind (dispatch_new dead f (dj_conn j) h req (marshall_new mem) s) (\<lambda>(s, ev'). Inr (s, ev @ ev')))"
proof (cases "unpack_req_header (unmarshall_buf (dj_buf j) (dj_sz j))")
  case (Inl e)
  then show ?thesis by (simp add: dispatch_def dispatch_enter_def)
next
  case (Inr p)
  then obtain h req where u: "unpack_req_header (unmarshall_buf (dj_buf j) (dj_sz j)) = Inr (h, req)" by (cases p) auto
  consider "\<not> u_ok req" | "u_ok req" "rq_srv_nonce h \<noteq> 0 \<and> rq_srv_nonce h \<noteq> s_nonce s"
    | "u_ok req" "\<not> (rq_srv_nonce h \<noteq> 0 \<and> rq_srv_nonce h \<noteq> s_nonce s)" "procs s (rq_proc h) = None"
    | f where "u_ok req" "\<not> (rq_srv_nonce h \<noteq> 0 \<and> rq_srv_nonce h \<noteq> s_nonce s)" "procs s (rq_proc h) = Some f"
    by (cases "procs s (rq_proc h)") blast+
  then show ?thesis
  proof cases
    case (4 f)
    show ?thesis
    proof (cases "dispatch_prepare fe compare (dj_conn j) h s")
      case (Inl e)
      with 4 u show ?thesis by (auto simp: dispatch_def dispatch_enter_def Let_def)
    next
      case (Inr x)
      then obtain stat s1 ev where "dispatch_prepare fe compare (dj_conn j) h s = Inr (stat, s1, ev)" by (cases x) auto
      with 4 u show ?thesis by (cases stat) (auto simp: dispatch_def dispatch_enter_def Let_def rbind_assoc)
    qed
  qed (use u in \<open>auto simp: dispatch_def dispatch_enter_def Let_def rbind_assoc\<close>)
qed

section \<open>State\<close>

text \<open>The calls of a client: \<open>bind\<close>, and those of a service with requests \<open>'q\<close>.\<close>

datatype 'q rcall = Bind | Call 'q

record 'q stub =
  stub_proc :: "'q \<Rightarrow> u32"
  stub_put :: "'q \<Rightarrow> marshall \<Rightarrow> marshall result"

fun rcall_proc :: "'q stub \<Rightarrow> 'q rcall \<Rightarrow> u32" where
  "rcall_proc S Bind = rpc_bind"
| "rcall_proc S (Call q) = stub_proc S q"

fun rcall_put :: "'q stub \<Rightarrow> 'q rcall \<Rightarrow> marshall \<Rightarrow> marshall result" where
  "rcall_put S Bind = put_int 0"
| "rcall_put S (Call q) = stub_put S q"

text \<open>
  A client: its \<open>rpcc\<close>, the running \<open>call1\<close> and what it is about to send, the calls made so far and what
  \<open>call1\<close> returned for those that have returned.
\<close>

record 'q rclient =
  rc_rpcc :: rpcc
  rc_cur :: "call1_st option"
  rc_out :: "(conn \<times> byte list) list"
  rc_calls :: "'q rcall list"
  rc_rets :: "(cint \<times> unmarshall) list"

text \<open>
  A connection has two directions, \<open>ry_up\<close> to the server and \<open>ry_down\<close> to the client. On the server there are
  the jobs of the pool, the requests that threads execute and the replies that they send.
  \<open>ry_log\<close> records the executed requests: client, \<open>xid\<close>, return code and the bytes of the result.
\<close>

record ('c, 'q, 's) rpc_sys =
  ry_clt :: "'c \<Rightarrow> 'q rclient"
  ry_srv :: "'s rpcs"
  ry_up :: "conn \<Rightarrow> link"
  ry_down :: "conn \<Rightarrow> link"
  ry_jobs :: "djob_t list"
  ry_run :: "('s handler \<times> req_header \<times> unmarshall \<times> conn) list"
  ry_sends :: "(conn \<times> byte list) list"
  ry_log :: "('c \<times> u32 \<times> cint \<times> byte list) list"

datatype ('c, 'q) rpc_ev =
    Y_call 'c "'q rcall" timespec cint "nat \<Rightarrow> byte"
  | Y_transmit 'c obs
  | Y_send 'c int io_choice
  | Y_retry 'c obs
  | Y_return 'c
  | Y_up conn link_ev
  | Y_down conn link_ev
  | Y_request conn bool io_choice io_choice
  | Y_reply conn io_choice io_choice
  | Y_dispatch nat "nat \<Rightarrow> byte"
  | Y_execute nat "conn \<Rightarrow> bool" "nat \<Rightarrow> byte"
  | Y_answer nat int io_choice
  | Y_reachable bool

section \<open>Steps\<close>

definition del_at :: "nat \<Rightarrow> 'a list \<Rightarrow> 'a list" where
  "del_at i xs = take i xs @ drop (Suc i) xs"

definition clt_sends :: "cl_ev list \<Rightarrow> (conn \<times> byte list) list" where
  "clt_sends ev = concat (map (\<lambda>e. case e of Ev_send k b \<Rightarrow> [(k, b)] | _ \<Rightarrow> []) ev)"

definition srv_sends :: "srv_out list \<Rightarrow> (conn \<times> byte list) list" where
  "srv_sends ev = concat (map (\<lambda>e. case e of S_send k b \<Rightarrow> [(k, b)] | _ \<Rightarrow> []) ev)"

definition set_clt :: "'c \<Rightarrow> 'q rclient \<Rightarrow> ('c, 'q, 's) rpc_sys \<Rightarrow> ('c, 'q, 's) rpc_sys" where
  "set_clt c x y = y\<lparr>ry_clt := (ry_clt y)(c := x)\<rparr>"

text \<open>The events of a link that are not calls of \<open>send\<close> or \<open>read_cb\<close>.\<close>

fun wire_ev :: "link_ev \<Rightarrow> bool" where
  "wire_ev (K_send rnd b sz ch) = False"
| "wire_ev (K_read taken ch1 ch2) = False"
| "wire_ev _ = True"

text \<open>What \<open>bind\<close> does when its call has returned.\<close>

definition bind_return :: "cint \<times> unmarshall \<Rightarrow> rpcc \<Rightarrow> rpcc option" where
  "bind_return r c =
     (if sint (fst r) < 0 then Some c
      else
        case get_int (snd r) of
          Inl _ \<Rightarrow> None
        | Inr (n, u) \<Rightarrow>
            if \<not> unmarshall_okdone u then None
            else Some (if fst r = 0 then c\<lparr>bind_done := True, srv_nonce := n\<rparr> else c))"

fun got_replies :: "byte list list \<Rightarrow> rpcc \<Rightarrow> rpcc result" where
  "got_replies [] c = Inr c"
| "got_replies (b # bs) c = rbind (rpcc_got_pdu b (length b) c) (\<lambda>(_, c). got_replies bs c)"

definition call_step :: "'q stub \<Rightarrow> 'q rcall \<Rightarrow> timespec \<Rightarrow> cint \<Rightarrow> (nat \<Rightarrow> byte) \<Rightarrow> 'q rclient \<Rightarrow> 'q rclient option" where
  "call_step S q now to mem x =
     (if rc_cur x \<noteq> None \<or> \<not> int (length (rc_calls x)) < 2 ^ 32 - 3 then None
      else
        case rcall_put S q (marshall_new mem) of
          Inl _ \<Rightarrow> None
        | Inr m \<Rightarrow>
            if \<not> int (m_ind m) < 2 ^ 32 then None
            else
              case call1_begin now (rcall_proc S q) m unmarshall_new to (rc_rpcc x) of
                Inr (Inr st, c) \<Rightarrow> Some (x\<lparr>rc_rpcc := c, rc_cur := Some st, rc_calls := rc_calls x @ [q]\<rparr>)
              | _ \<Rightarrow> None)"

definition transmit_step :: "obs \<Rightarrow> 'q rclient \<Rightarrow> 'q rclient option" where
  "transmit_step ob x =
     (case rc_cur x of
        None \<Rightarrow> None
      | Some st \<Rightarrow>
          if rc_out x \<noteq> [] then None
          else
            case call1_transmit ob st (rc_rpcc x) of (st, c, ev) \<Rightarrow>
            Some (x\<lparr>rc_rpcc := c, rc_cur := Some st, rc_out := clt_sends ev\<rparr>))"

definition retry_step :: "obs \<Rightarrow> 'q rclient \<Rightarrow> 'q rclient option" where
  "retry_step ob x =
     (case rc_cur x of
        None \<Rightarrow> None
      | Some st \<Rightarrow> if rc_out x \<noteq> [] then None else Some (x\<lparr>rc_cur := Some (call1_retry ob st (rc_rpcc x))\<rparr>))"

definition return_step :: "'q rclient \<Rightarrow> 'q rclient option" where
  "return_step x =
     (case rc_cur x of
        None \<Rightarrow> None
      | Some st \<Rightarrow>
          if rc_out x \<noteq> [] \<or> \<not> call_done (ca_xid st) (rc_rpcc x) then None
          else
            case call1_end st (rc_rpcc x) of (r, c, ev) \<Rightarrow>
            map_option (\<lambda>c. x\<lparr>rc_rpcc := c, rc_cur := None, rc_rets := rc_rets x @ [r]\<rparr>)
              (case last (rc_calls x) of Bind \<Rightarrow> bind_return r c | Call q \<Rightarrow> Some c))"

text \<open>What a read on a link has added.\<close>

definition new_got :: "link \<Rightarrow> link \<Rightarrow> byte list list" where
  "new_got l l' = drop (length (ln_got l)) (ln_got l')"

text \<open>
  \<open>owner k\<close> is the client that opened connection \<open>k\<close>. A call is left only with its result: there is no step
  for a \<open>call1\<close> that ends by its time-out, although all calls of Paxos have one. The results below are
  about runs in which no call times out; \<open>timed_out_executed_twice\<close> of \<open>Reply_Window\<close> shows a client, with one
  call at a time, whose request is executed twice after time-outs.
\<close>

fun rpc_step :: "'q stub \<Rightarrow> (conn \<Rightarrow> 'c) \<Rightarrow> u32 \<Rightarrow> (conn \<Rightarrow> conn \<Rightarrow> int) \<Rightarrow> ('c, 'q) rpc_ev \<Rightarrow>
    ('c, 'q, 's) rpc_sys \<Rightarrow> ('c, 'q, 's) rpc_sys option" where
  "rpc_step S owner fe compare (Y_call c q now to mem) y =
     map_option (\<lambda>x. set_clt c x y) (call_step S q now to mem (ry_clt y c))"
| "rpc_step S owner fe compare (Y_transmit c ob) y =
     (if case o_conn ob of None \<Rightarrow> True | Some k \<Rightarrow> owner k = c
      then map_option (\<lambda>x. set_clt c x y) (transmit_step ob (ry_clt y c)) else None)"
| "rpc_step S owner fe compare (Y_send c rnd ch) y =
     (case rc_out (ry_clt y c) of
        [] \<Rightarrow> None
      | (k, b) # out \<Rightarrow>
          (case link_step (K_send rnd b (int (length b)) ch) (ry_up y k) of
             Some (Inr l) \<Rightarrow> Some (set_clt c ((ry_clt y c)\<lparr>rc_out := out\<rparr>) (y\<lparr>ry_up := (ry_up y)(k := l)\<rparr>))
           | _ \<Rightarrow> None))"
| "rpc_step S owner fe compare (Y_retry c ob) y = map_option (\<lambda>x. set_clt c x y) (retry_step ob (ry_clt y c))"
| "rpc_step S owner fe compare (Y_return c) y = map_option (\<lambda>x. set_clt c x y) (return_step (ry_clt y c))"
| "rpc_step S owner fe compare (Y_up k ev) y =
     (if wire_ev ev then
        case link_step ev (ry_up y k) of Some (Inr l) \<Rightarrow> Some (y\<lparr>ry_up := (ry_up y)(k := l)\<rparr>) | _ \<Rightarrow> None
      else None)"
| "rpc_step S owner fe compare (Y_down k ev) y =
     (if wire_ev ev then
        case link_step ev (ry_down y k) of Some (Inr l) \<Rightarrow> Some (y\<lparr>ry_down := (ry_down y)(k := l)\<rparr>) | _ \<Rightarrow> None
      else None)"
| "rpc_step S owner fe compare (Y_request k taken ch1 ch2) y =
     (case link_step (K_read taken ch1 ch2) (ry_up y k) of
        Some (Inr l) \<Rightarrow>
          Some (y\<lparr>ry_up := (ry_up y)(k := l),
            ry_jobs := ry_jobs y @ (if s_reachable (ry_srv y)
              then map (\<lambda>b. \<lparr>dj_buf = b, dj_sz = length b, dj_conn = k\<rparr>) (new_got (ry_up y k) l) else [])\<rparr>)
      | _ \<Rightarrow> None)"
| "rpc_step S owner fe compare (Y_reply k ch1 ch2) y =
     (case link_step (K_read True ch1 ch2) (ry_down y k) of
        Some (Inr l) \<Rightarrow>
          (case got_replies (new_got (ry_down y k) l) (rc_rpcc (ry_clt y (owner k))) of
             Inl _ \<Rightarrow> None
           | Inr c \<Rightarrow>
               Some (set_clt (owner k) ((ry_clt y (owner k))\<lparr>rc_rpcc := c\<rparr>) (y\<lparr>ry_down := (ry_down y)(k := l)\<rparr>)))
      | _ \<Rightarrow> None)"
| "rpc_step S owner fe compare (Y_dispatch i mem) y =
     (if i < length (ry_jobs y) then
        case dispatch_enter fe mem compare (ry_jobs y ! i) (ry_srv y) of
          Inl _ \<Rightarrow> None
        | Inr (r, s, ev) \<Rightarrow>
            Some (y\<lparr>ry_srv := s, ry_jobs := del_at i (ry_jobs y), ry_sends := ry_sends y @ srv_sends ev,
              ry_run := ry_run y @ (case r of None \<Rightarrow> [] | Some (f, h, req) \<Rightarrow> [(f, h, req, dj_conn (ry_jobs y ! i))])\<rparr>)
      else None)"
| "rpc_step S owner fe compare (Y_execute i dead mem) y =
     (if i < length (ry_run y) then
        case ry_run y ! i of (f, h, req, k) \<Rightarrow>
        (case f req (marshall_new mem) (s_app (ry_srv y)) of
           Inl _ \<Rightarrow> None
         | Inr (b, rep, app) \<Rightarrow>
             if \<not> int (m_ind rep) < 2 ^ 32 then None
             else
               (case dispatch_new dead f k h req (marshall_new mem) (ry_srv y) of
                  Inl _ \<Rightarrow> None
                | Inr (s, ev) \<Rightarrow>
                    Some (y\<lparr>ry_srv := s, ry_run := del_at i (ry_run y), ry_sends := ry_sends y @ srv_sends ev,
                      ry_log := ry_log y @ [(owner k, rq_xid h, b, m_content rep)]\<rparr>)))
      else None)"
| "rpc_step S owner fe compare (Y_answer i rnd ch) y =
     (if i < length (ry_sends y) then
        case ry_sends y ! i of (k, b) \<Rightarrow>
        (case link_step (K_send rnd b (int (length b)) ch) (ry_down y k) of
           Some (Inr l) \<Rightarrow> Some (y\<lparr>ry_down := (ry_down y)(k := l), ry_sends := del_at i (ry_sends y)\<rparr>)
         | _ \<Rightarrow> None)
      else None)"
| "rpc_step S owner fe compare (Y_reachable r) y = Some (y\<lparr>ry_srv := (ry_srv y)\<lparr>s_reachable := r\<rparr>\<rparr>)"

definition rclient_new :: "u32 \<Rightarrow> cint \<Rightarrow> sockaddr_in \<Rightarrow> 'q rclient" where
  "rclient_new nonce lossy d =
     \<lparr>rc_rpcc = rpcc_new nonce lossy d True, rc_cur = None, rc_out = [], rc_calls = [], rc_rets = []\<rparr>"

text \<open>\<open>cfg\<close> gives the descriptors and the values of RPC_LOSSY of the connections.\<close>

definition link_new :: "(conn \<Rightarrow> int \<times> int \<times> int \<times> int) \<Rightarrow> conn \<Rightarrow> link" where
  "link_new cfg k = (case cfg k of (fd1, lossy1, fd2, lossy2) \<Rightarrow> link_start fd1 lossy1 fd2 lossy2 (0, 0) (0, 0))"

definition rpc_sys_start :: "('c \<Rightarrow> u32) \<Rightarrow> ('c \<Rightarrow> cint) \<Rightarrow> sockaddr_in \<Rightarrow> (conn \<Rightarrow> int \<times> int \<times> int \<times> int) \<Rightarrow>
    's rpcs \<Rightarrow> ('c, 'q, 's) rpc_sys" where
  "rpc_sys_start nonce lossy d cfg s =
     \<lparr>ry_clt = (\<lambda>c. rclient_new (nonce c) (lossy c) d), ry_srv = s, ry_up = link_new cfg, ry_down = link_new cfg,
      ry_jobs = [], ry_run = [], ry_sends = [], ry_log = []\<rparr>"

fun ev_valid :: "('q \<Rightarrow> bool) \<Rightarrow> ('c, 'q) rpc_ev \<Rightarrow> bool" where
  "ev_valid valid (Y_call c (Call q) now to mem) = valid q"
| "ev_valid valid _ = True"

inductive rpc_reach :: "'q stub \<Rightarrow> ('q \<Rightarrow> bool) \<Rightarrow> (conn \<Rightarrow> 'c) \<Rightarrow> u32 \<Rightarrow> (conn \<Rightarrow> conn \<Rightarrow> int) \<Rightarrow>
    ('c, 'q, 's) rpc_sys \<Rightarrow> ('c, 'q, 's) rpc_sys \<Rightarrow> bool"
  for S :: "'q stub" and valid and owner :: "conn \<Rightarrow> 'c" and fe compare and y0 :: "('c, 'q, 's) rpc_sys" where
  start: "rpc_reach S valid owner fe compare y0 y0"
| step: "rpc_reach S valid owner fe compare y0 y \<Longrightarrow> rpc_step S owner fe compare ev y = Some y' \<Longrightarrow> ev_valid valid ev \<Longrightarrow>
    rpc_reach S valid owner fe compare y0 y'"

section \<open>What the methods do\<close>

text \<open>\<open>sem q s\<close>: the return code, the bytes of the result and the new state.\<close>

fun rcall_sem :: "u32 \<Rightarrow> ('q \<Rightarrow> 's \<Rightarrow> (cint \<times> byte list \<times> 's) result) \<Rightarrow> 'q rcall \<Rightarrow> 's \<Rightarrow>
    (cint \<times> byte list \<times> 's) result" where
  "rcall_sem sn sem Bind s = Inr (0, enc_uint sn, s)"
| "rcall_sem sn sem (Call q) s = sem q s"

text \<open>
  Executing the calls of a log one after the other, where request \<open>xid\<close> of a client is its \<open>xid\<close>-th call; \<open>None\<close>
  if the log says something else of a result.
\<close>

fun replay :: "('a \<Rightarrow> 's \<Rightarrow> (cint \<times> byte list \<times> 's) result) \<Rightarrow> ('c \<Rightarrow> 'a list) \<Rightarrow>
    ('c \<times> u32 \<times> cint \<times> byte list) list \<Rightarrow> 's \<Rightarrow> 's option" where
  "replay sem qs [] s = Some s"
| "replay sem qs ((c, xid, b, res) # es) s =
     (case sem (qs c ! (unat xid - 1)) s of
        Inl _ \<Rightarrow> None
      | Inr (b', res', s') \<Rightarrow> if b' = b \<and> res' = res then replay sem qs es s' else None)"

definition log_of :: "'c \<Rightarrow> ('c \<times> u32 \<times> cint \<times> byte list) list \<Rightarrow> u32 list" where
  "log_of c es = map (\<lambda>e. fst (snd e)) (filter (\<lambda>e. fst e = c) es)"

fun rcall_enc :: "('q \<Rightarrow> byte list) \<Rightarrow> 'q rcall \<Rightarrow> byte list" where
  "rcall_enc enc Bind = enc_uint 0"
| "rcall_enc enc (Call q) = enc q"

text \<open>
  The contract: a stub appends the encoding of its arguments; the handler of its procedure number, given
  this encoding, does what the method does and appends the encoding of its result. \<open>sinv\<close> is an
  invariant of the state of the service.
\<close>

locale rpc_service =
  fixes S :: "'q stub"
    and enc :: "'q \<Rightarrow> byte list"
    and handlers :: "u32 \<rightharpoonup> 's handler"
    and sem :: "'q \<Rightarrow> 's \<Rightarrow> (cint \<times> byte list \<times> 's) result"
    and sinv :: "'s \<Rightarrow> bool"
    and valid :: "'q \<Rightarrow> bool"
  assumes put_enc: "stub_put S q m = Inr m' \<Longrightarrow> m_inv m \<Longrightarrow> valid q \<Longrightarrow> m_inv m' \<and> m_bytes m' = m_bytes m @ enc q"
    and handler_sem: "handlers (stub_proc S q) = Some f \<Longrightarrow> valid q \<Longrightarrow> u_at u (enc q) \<Longrightarrow> sinv s \<Longrightarrow>
      f u (marshall_new mem) s = Inr (b, ret, s') \<Longrightarrow> sem q s = Inr (b, m_content ret, s') \<and> m_inv ret \<and> sinv s'"
    and not_bind: "valid q \<Longrightarrow> stub_proc S q \<noteq> rpc_bind"

section \<open>Packets of the calls\<close>

text \<open>\<open>h\<close> is the header of call number \<open>j\<close> (from 0) of a client with nonce \<open>n\<close>.\<close>

definition hdr_of :: "'q stub \<Rightarrow> u32 \<Rightarrow> u32 \<Rightarrow> 'q rcall list \<Rightarrow> nat \<Rightarrow> req_header \<Rightarrow> bool" where
  "hdr_of S sn n qs j h =
     (j < length qs \<and> rq_xid h = of_nat (Suc j) \<and> rq_proc h = rcall_proc S (qs ! j) \<and> rq_clt_nonce h = n \<and>
      (rq_srv_nonce h = 0 \<or> rq_srv_nonce h = sn) \<and> rq_xid_rep h = of_nat j)"

definition req_of :: "'q stub \<Rightarrow> ('q \<Rightarrow> byte list) \<Rightarrow> u32 \<Rightarrow> u32 \<Rightarrow> 'q rcall list \<Rightarrow> byte list \<Rightarrow> bool" where
  "req_of S enc sn n qs b = (\<exists>j h. hdr_of S sn n qs j h \<and> req_packet h (rcall_enc enc (qs ! j)) b)"

text \<open>A reply for client \<open>c\<close>: of an executed call, or of one that has returned.\<close>

definition rep_of :: "'c \<Rightarrow> nat \<Rightarrow> nat \<Rightarrow> ('c \<times> u32 \<times> cint \<times> byte list) set \<Rightarrow> byte list \<Rightarrow> bool" where
  "rep_of c nq nr es b =
     (\<exists>j r res. reply_packet \<lparr>rp_xid = of_nat (Suc j), rp_ret = r\<rparr> res b \<and> j < nq \<and>
        ((c, of_nat (Suc j), r, res) \<in> es \<or> j < nr))"

lemma hdr_of_append: "hdr_of S sn n qs j h \<Longrightarrow> hdr_of S sn n (qs @ qs') j h"
  by (auto simp: hdr_of_def nth_append)

lemma req_of_append: "req_of S enc sn n qs b \<Longrightarrow> req_of S enc sn n (qs @ qs') b"
  unfolding req_of_def by (metis hdr_of_append hdr_of_def nth_append)

lemma rep_of_mono: "rep_of c nq nr es b \<Longrightarrow> nq \<le> nq' \<Longrightarrow> nr \<le> nr' \<Longrightarrow> es \<subseteq> es' \<Longrightarrow> rep_of c nq' nr' es' b"
  unfolding rep_of_def by (meson less_le_trans subsetD)

text \<open>Framing changes only the bytes of the size.\<close>

lemma req_packet_frame:
  assumes "req_packet h args b" "pdu_ok b (int (length b))"
  shows "req_packet h args (frame b (int (length b)))"
proof -
  obtain pre where pre: "length pre = 4" "b = pre @ enc_req_header h @ args" "length b < 2 ^ 32"
    using assms(1) by (auto simp: req_packet_def)
  then have "frame b (int (length b)) = enc_uint (word_of_int (int (length b))) @ enc_req_header h @ args"
    by (simp add: frame_def)
  moreover have "length (frame b (int (length b))) = length b" using frame_length [OF assms(2)] by simp
  ultimately show ?thesis unfolding req_packet_def using pre(3)
    by (intro exI [of _ "enc_uint (word_of_int (int (length b)))"]) simp
qed

lemma reply_packet_frame:
  assumes "reply_packet h res b" "pdu_ok b (int (length b))"
  shows "reply_packet h res (frame b (int (length b)))"
proof -
  obtain pre pad where pre: "length pre = 4" "length pad = 12" "b = pre @ enc_reply_header h @ pad @ res" "length b < 2 ^ 32"
    using assms(1) by (auto simp: reply_packet_def)
  then have "frame b (int (length b)) = enc_uint (word_of_int (int (length b))) @ enc_reply_header h @ pad @ res"
    by (simp add: frame_def)
  moreover have "length (frame b (int (length b))) = length b" using frame_length [OF assms(2)] by simp
  ultimately show ?thesis unfolding reply_packet_def using pre(2,4)
    by (intro exI [of _ "enc_uint (word_of_int (int (length b)))"] exI [of _ pad]) simp
qed

lemma req_of_frame:
  "req_of S enc sn n qs b \<Longrightarrow> pdu_ok b (int (length b)) \<Longrightarrow> req_of S enc sn n qs (frame b (int (length b)))"
  unfolding req_of_def using req_packet_frame by blast

lemma rep_of_frame:
  "rep_of c nq nr es b \<Longrightarrow> pdu_ok b (int (length b)) \<Longrightarrow> rep_of c nq nr es (frame b (int (length b)))"
  unfolding rep_of_def using reply_packet_frame by blast

text \<open>What the steps of a link do to what was sent and received.\<close>

definition link_carries :: "(byte list \<Rightarrow> bool) \<Rightarrow> link \<Rightarrow> bool" where
  "link_carries P l = (link_reach l \<and> (\<forall>f \<in> set (ln_sent l). P f))"

lemma link_carries_mono: "link_carries P l \<Longrightarrow> (\<And>f. P f \<Longrightarrow> Q f) \<Longrightarrow> link_carries Q l"
  by (auto simp: link_carries_def)

lemma link_carries_wire:
  assumes "link_carries P l" "link_step ev l = Some (Inr l')" "wire_ev ev"
  shows "link_carries P l'"
proof -
  have "ln_sent l' = ln_sent l"
    using assms(2,3) by (cases ev) (auto simp: rbind_eq_Inr split: if_splits send_out.splits prod.splits)
  then show ?thesis using assms(1) link_reach.step [OF _ assms(2)] by (simp add: link_carries_def)
qed

lemma link_carries_send:
  assumes "link_carries P l" "link_step (K_send rnd b sz ch) l = Some (Inr l')" "pdu_ok b sz \<Longrightarrow> P (frame b sz)"
  shows "link_carries P l'"
proof -
  have "pdu_ok b sz" "set (ln_sent l') \<subseteq> insert (frame b sz) (set (ln_sent l))"
    using assms(2) by (auto simp: rbind_eq_Inr split: if_splits)
  then show ?thesis using assms(1,3) link_reach.step [OF _ assms(2)] unfolding link_carries_def by blast
qed

lemma link_carries_read:
  assumes "link_carries P l" "link_step (K_read taken ch1 ch2) l = Some (Inr l')"
  shows "link_carries P l'" "\<forall>f \<in> set (new_got l l'). P f"
proof -
  have "ln_sent l' = ln_sent l" using assms(2) by (auto simp: rbind_eq_Inr)
  then show l': "link_carries P l'" using assms(1) link_reach.step [OF _ assms(2)] by (simp add: link_carries_def)
  then have "set (ln_got l') \<subseteq> set (ln_sent l')"
    using link_reach_inv [of l'] by (auto simp: link_carries_def link_inv_def prefix_def)
  then have "\<forall>f \<in> set (ln_got l'). P f" using l' unfolding link_carries_def by blast
  then show "\<forall>f \<in> set (new_got l l'). P f" by (auto simp: new_got_def dest: in_set_dropD)
qed

lemma link_carries_new: "link_carries P (link_new cfg k)"
proof (cases "cfg k")
  case (fields fd1 lossy1 fd2 lossy2)
  then show ?thesis using link_reach.start [of fd1 lossy1 fd2 lossy2 "(0, 0)" "(0, 0)"]
    by (simp add: link_carries_def link_new_def) (simp add: link_start_def)
qed

section \<open>The clients\<close>

fun rcall_valid :: "('q \<Rightarrow> bool) \<Rightarrow> 'q rcall \<Rightarrow> bool" where
  "rcall_valid valid Bind = True"
| "rcall_valid valid (Call q) = valid q"

text \<open>The results that a client has got are those of the log.\<close>

definition rets_ok :: "'c \<Rightarrow> ('c \<times> u32 \<times> cint \<times> byte list) set \<Rightarrow> (cint \<times> unmarshall) list \<Rightarrow> bool" where
  "rets_ok c es rets =
     (\<forall>i < length rets. \<exists>b u res. rets ! i = (b, u) \<and> u_at u res \<and> (c, of_nat (Suc i), b, res) \<in> es)"

text \<open>Call \<open>k\<close> is the only entry of \<open>calls_\<close>, and if it is done then with its result.\<close>

definition pending_ok :: "'c \<Rightarrow> ('c \<times> u32 \<times> cint \<times> byte list) set \<Rightarrow> nat \<Rightarrow> rpcc \<Rightarrow> bool" where
  "pending_ok c es k r =
     (\<exists>ca. calls r = [(of_nat k, ca)] \<and> xid_rep_window r = [of_nat (if ca_done ca then k else k - 1)] \<and>
        (ca_done ca \<longrightarrow> (\<exists>res. (c, of_nat k, ca_intret ca, res) \<in> es \<and> u_at (ca_un ca) res)))"

text \<open>The running call, if there is one: it is the last.\<close>

definition cur_ok :: "'q stub \<Rightarrow> ('q \<Rightarrow> byte list) \<Rightarrow> u32 \<Rightarrow> u32 \<Rightarrow> (conn \<Rightarrow> 'c) \<Rightarrow> 'c \<Rightarrow>
    ('c \<times> u32 \<times> cint \<times> byte list) set \<Rightarrow> 'q rclient \<Rightarrow> bool" where
  "cur_ok S enc sn n owner c es x =
     (let r = rc_rpcc x; k = length (rc_calls x) in
      case rc_cur x of
        None \<Rightarrow> rc_out x = [] \<and> calls r = [] \<and> length (rc_rets x) = k \<and> xid_rep_window r = [of_nat k]
      | Some st \<Rightarrow>
          k = Suc (length (rc_rets x)) \<and> ca_xid st = of_nat k \<and> req_of S enc sn n (rc_calls x) (req_pdu st) \<and>
          (\<forall>a. st_ch st = Some a \<longrightarrow> owner a = c) \<and>
          pending_ok c es k r)"

definition clt_ok :: "'q stub \<Rightarrow> ('q \<Rightarrow> byte list) \<Rightarrow> ('q \<Rightarrow> bool) \<Rightarrow> u32 \<Rightarrow> u32 \<Rightarrow> (conn \<Rightarrow> 'c) \<Rightarrow> 'c \<Rightarrow> 'q rclient \<Rightarrow> bool" where
  "clt_ok S enc valid sn n owner c x =
     (let r = rc_rpcc x; k = length (rc_calls x) in
      clt_nonce r = n \<and> (srv_nonce r = 0 \<or> srv_nonce r = sn) \<and> next_xid r = of_nat (Suc k) \<and> Suc k < 2 ^ 32 - 1 \<and>
      (\<forall>a. chan r = Some a \<longrightarrow> owner a = c) \<and>
      (\<forall>a b. (a, b) \<in> set (rc_out x) \<longrightarrow> owner a = c \<and> req_of S enc sn n (rc_calls x) b) \<and>
      (request_isvalid (dup_req r) \<longrightarrow> req_of S enc sn n (rc_calls x) (rq_buf (dup_req r))) \<and>
      (\<forall>q \<in> set (rc_calls x). rcall_valid valid q))"

definition clt_inv :: "'q stub \<Rightarrow> ('q \<Rightarrow> byte list) \<Rightarrow> ('q \<Rightarrow> bool) \<Rightarrow> u32 \<Rightarrow> u32 \<Rightarrow> (conn \<Rightarrow> 'c) \<Rightarrow> 'c \<Rightarrow>
    ('c \<times> u32 \<times> cint \<times> byte list) set \<Rightarrow> 'q rclient \<Rightarrow> bool" where
  "clt_inv S enc valid sn n owner c es x =
     (clt_ok S enc valid sn n owner c x \<and> cur_ok S enc sn n owner c es x \<and> rets_ok c es (rc_rets x))"

lemma clt_okI:
  assumes "clt_nonce (rc_rpcc x) = n" "srv_nonce (rc_rpcc x) = 0 \<or> srv_nonce (rc_rpcc x) = sn"
    and "next_xid (rc_rpcc x) = of_nat (Suc (length (rc_calls x)))" "Suc (length (rc_calls x)) < 2 ^ 32 - 1"
    and "\<And>a. chan (rc_rpcc x) = Some a \<Longrightarrow> owner a = c"
    and "\<And>a b. (a, b) \<in> set (rc_out x) \<Longrightarrow> owner a = c \<and> req_of S enc sn n (rc_calls x) b"
    and "request_isvalid (dup_req (rc_rpcc x)) \<Longrightarrow> req_of S enc sn n (rc_calls x) (rq_buf (dup_req (rc_rpcc x)))"
    and "\<And>q. q \<in> set (rc_calls x) \<Longrightarrow> rcall_valid valid q"
  shows "clt_ok S enc valid sn n owner c x"
  unfolding clt_ok_def Let_def using assms(1-5,7,8) assms(6) [THEN conjunct1] assms(6) [THEN conjunct2]
  by (intro conjI allI impI ballI)

lemma clt_okD:
  assumes "clt_ok S enc valid sn n owner c x"
  shows "clt_nonce (rc_rpcc x) = n" "srv_nonce (rc_rpcc x) = 0 \<or> srv_nonce (rc_rpcc x) = sn"
    and "next_xid (rc_rpcc x) = of_nat (Suc (length (rc_calls x)))" "Suc (length (rc_calls x)) < 2 ^ 32 - 1"
    and "chan (rc_rpcc x) = Some a \<Longrightarrow> owner a = c"
    and "(a, b) \<in> set (rc_out x) \<Longrightarrow> owner a = c \<and> req_of S enc sn n (rc_calls x) b"
    and "request_isvalid (dup_req (rc_rpcc x)) \<Longrightarrow> req_of S enc sn n (rc_calls x) (rq_buf (dup_req (rc_rpcc x)))"
    and "q \<in> set (rc_calls x) \<Longrightarrow> rcall_valid valid q"
proof -
  note D = assms [unfolded clt_ok_def Let_def]
  from D show "clt_nonce (rc_rpcc x) = n" by (elim conjE)
  from D show "srv_nonce (rc_rpcc x) = 0 \<or> srv_nonce (rc_rpcc x) = sn" by (elim conjE)
  from D show "next_xid (rc_rpcc x) = of_nat (Suc (length (rc_calls x)))" by (elim conjE)
  from D show "Suc (length (rc_calls x)) < 2 ^ 32 - 1" by (elim conjE)
  from D show "chan (rc_rpcc x) = Some a \<Longrightarrow> owner a = c" by (elim conjE) simp
  from D show "(a, b) \<in> set (rc_out x) \<Longrightarrow> owner a = c \<and> req_of S enc sn n (rc_calls x) b" by (elim conjE) simp
  from D show "request_isvalid (dup_req (rc_rpcc x)) \<Longrightarrow> req_of S enc sn n (rc_calls x) (rq_buf (dup_req (rc_rpcc x)))"
    by (elim conjE) simp
  from D show "q \<in> set (rc_calls x) \<Longrightarrow> rcall_valid valid q" by (elim conjE) simp
qed

lemma rets_ok_mono: "rets_ok c es rets \<Longrightarrow> es \<subseteq> es' \<Longrightarrow> rets_ok c es' rets"
  unfolding rets_ok_def by (meson subsetD)

lemma pending_ok_mono: "pending_ok c es k r \<Longrightarrow> es \<subseteq> es' \<Longrightarrow> pending_ok c es' k r"
  unfolding pending_ok_def by blast

lemma cur_ok_mono:
  assumes "cur_ok S enc sn n owner c es x" "es \<subseteq> es'"
  shows "cur_ok S enc sn n owner c es' x"
proof (cases "rc_cur x")
  case None
  then show ?thesis using assms(1) by (simp add: cur_ok_def)
next
  case (Some st)
  then show ?thesis using assms(1) pending_ok_mono [OF _ assms(2)] unfolding cur_ok_def Let_def Some option.case by blast
qed

lemma clt_inv_mono:
  assumes "clt_inv S enc valid sn n owner c es x" "es \<subseteq> es'"
  shows "clt_inv S enc valid sn n owner c es' x"
  using assms(1) rets_ok_mono [OF _ assms(2)] cur_ok_mono [OF _ assms(2)] by (auto simp: clt_inv_def)

lemma clt_inv_new: "clt_inv S enc valid sn n owner c es (rclient_new n lossy d)"
  by (simp add: clt_inv_def clt_ok_def rclient_new_def rpcc_new_def cur_ok_def rets_ok_def request_isvalid_def request_clear_def)

text \<open>A call begins.\<close>

lemma call1_begin_inv:
  assumes "call1_begin now proc m rep to c = Inr (Inr st, c')" "m_inv m"
  shows "ca_xid st = next_xid c \<and> st_ch st = None \<and>
    c' = c\<lparr>next_xid := next_xid c + 1,
      calls := AList.update (next_xid c) \<lparr>ca_un = rep, ca_intret = 0, ca_done = False\<rparr> (calls c)\<rparr> \<and>
    req_pdu st = take 4 (m_bytes m) @ enc_req_header \<lparr>rq_xid = next_xid c, rq_proc = proc,
        rq_clt_nonce = clt_nonce c, rq_srv_nonce = srv_nonce c, rq_xid_rep = hd (xid_rep_window c)\<rparr> @ drop 24 (m_bytes m)"
proof -
  obtain f where "add_timespec now (sint to) = Inr f" "(proc = rpc_bind) = (\<not> bind_done c)" "\<not> destroy_wait c"
    using assms(1) by (auto simp: call1_begin_def Let_def rbind_eq_Inr split: if_splits)
  from call1_begin_ok [OF assms(2) this, of rep] assms(1) show ?thesis by auto
qed

lemma call_step_cases:
  assumes "call_step S q now to mem x = Some x'"
  obtains m st c where "rc_cur x = None" "int (length (rc_calls x)) < 2 ^ 32 - 3" "rcall_put S q (marshall_new mem) = Inr m"
    and "int (m_ind m) < 2 ^ 32" "call1_begin now (rcall_proc S q) m unmarshall_new to (rc_rpcc x) = Inr (Inr st, c)"
    and "x' = x\<lparr>rc_rpcc := c, rc_cur := Some st, rc_calls := rc_calls x @ [q]\<rparr>"
  using assms by (auto simp: call_step_def split: if_splits sum.splits prod.splits)

text \<open>Transmissions.\<close>

lemma get_refconn_owner:
  assumes "get_refconn k dead ch r = (k', r', ev)" "\<forall>a. chan r = Some a \<longrightarrow> owner a = c" "\<forall>a. k = Some a \<longrightarrow> owner a = c"
    and "\<forall>a. ch = Some a \<longrightarrow> owner a = c"
  shows "(\<forall>a. k' = Some a \<longrightarrow> owner a = c) \<and> (\<forall>a. chan r' = Some a \<longrightarrow> owner a = c) \<and> clt_sends ev = [] \<and>
    (\<exists>k''. r' = r\<lparr>chan := k''\<rparr>)"
  using assms by (auto simp: get_refconn_def Let_def clt_sends_def split: option.splits if_splits intro!: exI [of _ "chan r'"])

lemma take_forgot_cases:
  assumes "take_forgot r = (q, r')"
  shows "r' = r \<and> q = request_clear \<or> r' = r\<lparr>dup_req := request_clear\<rparr> \<and> q = dup_req r \<and> request_isvalid (dup_req r)"
  using assms unfolding take_forgot_def by (auto split: if_splits)

lemma clt_sends_append [simp]: "clt_sends (xs @ ys) = clt_sends xs @ clt_sends ys"
  by (simp add: clt_sends_def)

lemma call1_transmit_inv:
  assumes "call1_transmit ob st r = (st', r', ev)" "\<forall>a. chan r = Some a \<longrightarrow> owner a = c" "\<forall>a. o_conn ob = Some a \<longrightarrow> owner a = c"
    and "\<forall>a. st_ch st = Some a \<longrightarrow> owner a = c"
  shows "(\<forall>a. st_ch st' = Some a \<longrightarrow> owner a = c) \<and> ca_xid st' = ca_xid st \<and> req_pdu st' = req_pdu st \<and>
    (\<forall>a. chan r' = Some a \<longrightarrow> owner a = c) \<and> (\<exists>ch q. r' = r\<lparr>chan := ch, dup_req := q\<rparr> \<and> (q = dup_req r \<or> q = request_clear)) \<and>
    (\<forall>(a, b) \<in> set (clt_sends ev). owner a = c \<and> (b = req_pdu st \<or> request_isvalid (dup_req r) \<and> b = rq_buf (dup_req r)))"
proof (cases "transmit st")
  case False
  then show ?thesis using assms by (auto simp: call1_transmit_def clt_sends_def intro!: exI [of _ "chan r"] exI [of _ "dup_req r"])
next
  case True
  obtain k r1 ev1 where g: "get_refconn (o_conn ob) (o_dead ob) (st_ch st) r = (k, r1, ev1)" by (metis prod.exhaust)
  note o = get_refconn_owner [OF g assms(2,3,4)]
  then obtain ch where r1: "r1 = r\<lparr>chan := ch\<rparr>" by blast
  show ?thesis
  proof (cases k)
    case None
    then show ?thesis using assms(1) True g o r1
      by (auto simp: call1_transmit_def intro!: exI [of _ ch] exI [of _ "dup_req r"])
  next
    case (Some k')
    then have k': "owner k' = c" using o by simp
    show ?thesis
    proof (cases "c_reachable r1")
      case False
      then show ?thesis using assms(1) True g o r1 Some
        by (auto simp: call1_transmit_def intro!: exI [of _ ch] exI [of _ "dup_req r"])
    next
      case True
      obtain q r2 where t: "take_forgot r1 = (q, r2)" by fastforce
      have e: "st' = st\<lparr>st_ch := k, transmit := False\<rparr>" "r' = r2"
          "ev = ev1 @ (if request_isvalid q then [Ev_send k' (rq_buf q)] else []) @ [Ev_send k' (req_pdu st)]"
        using assms(1) \<open>transmit st\<close> True g Some t by (auto simp: call1_transmit_def)
      from take_forgot_cases [OF t] show ?thesis
      proof (elim disjE)
        assume "r2 = r1 \<and> q = request_clear"
        then show ?thesis using e o r1 k' Some
          by (auto simp: clt_sends_def request_isvalid_def request_clear_def intro!: exI [of _ ch] exI [of _ "dup_req r"])
      next
        assume "r2 = r1\<lparr>dup_req := request_clear\<rparr> \<and> q = dup_req r1 \<and> request_isvalid (dup_req r1)"
        then show ?thesis using e o r1 k' Some
          by (auto simp: clt_sends_def intro!: exI [of _ ch] exI [of _ request_clear])
      qed
    qed
  qed
qed

lemma cur_ok_Some:
  assumes "cur_ok S enc sn n owner c es x" "rc_cur x = Some st"
  shows "length (rc_calls x) = Suc (length (rc_rets x))" "ca_xid st = of_nat (length (rc_calls x))"
    "req_of S enc sn n (rc_calls x) (req_pdu st)" "\<forall>a. st_ch st = Some a \<longrightarrow> owner a = c"
    "pending_ok c es (length (rc_calls x)) (rc_rpcc x)"
  using assms by (auto simp: cur_ok_def Let_def)

lemma cur_ok_SomeI:
  assumes "length (rc_calls x) = Suc (length (rc_rets x))" "ca_xid st = of_nat (length (rc_calls x))"
    "req_of S enc sn n (rc_calls x) (req_pdu st)" "\<forall>a. st_ch st = Some a \<longrightarrow> owner a = c"
    "pending_ok c es (length (rc_calls x)) (rc_rpcc x)" "rc_cur x = Some st"
  shows "cur_ok S enc sn n owner c es x"
  using assms by (auto simp: cur_ok_def Let_def)

lemma transmit_step_inv:
  assumes "clt_inv S enc valid sn n owner c es x" "transmit_step ob x = Some x'" "\<forall>a. o_conn ob = Some a \<longrightarrow> owner a = c"
  shows "clt_inv S enc valid sn n owner c es x' \<and> rc_rets x' = rc_rets x \<and> rc_calls x' = rc_calls x"
proof -
  obtain st where st: "rc_cur x = Some st" "rc_out x = []" using assms(2) by (auto simp: transmit_step_def split: option.splits if_splits)
  obtain st' r' ev where t: "call1_transmit ob st (rc_rpcc x) = (st', r', ev)" by (metis prod.exhaust)
  have x': "x' = x\<lparr>rc_rpcc := r', rc_cur := Some st', rc_out := clt_sends ev\<rparr>"
    using assms(2) st t by (simp add: transmit_step_def)
  have inv: "clt_ok S enc valid sn n owner c x" "cur_ok S enc sn n owner c es x" "rets_ok c es (rc_rets x)"
    using assms(1) by (auto simp: clt_inv_def)
  note cur = cur_ok_Some [OF inv(2) st(1)]
  have "\<forall>a. chan (rc_rpcc x) = Some a \<longrightarrow> owner a = c" using clt_okD(5) [OF inv(1)] by blast
  note r = call1_transmit_inv [OF t this assms(3) cur(4)]
  then obtain ch q where r': "r' = (rc_rpcc x)\<lparr>chan := ch, dup_req := q\<rparr>" "q = dup_req (rc_rpcc x) \<or> q = request_clear" by blast
  have "clt_ok S enc valid sn n owner c x'"
  proof (rule clt_okI)
    show "owner a = c \<and> req_of S enc sn n (rc_calls x') b" if "(a, b) \<in> set (rc_out x')" for a b
      using that r cur(3) clt_okD(7) [OF inv(1)] x' by auto
    show "req_of S enc sn n (rc_calls x') (rq_buf (dup_req (rc_rpcc x')))" if "request_isvalid (dup_req (rc_rpcc x'))"
      using that r' clt_okD(7) [OF inv(1)] x' by (auto simp: request_isvalid_def request_clear_def)
  qed (use r r' x' clt_okD [OF inv(1)] in \<open>simp_all del: of_nat_Suc\<close>)
  moreover have "cur_ok S enc sn n owner c es x'"
    by (rule cur_ok_SomeI [where st = st']) (use cur r r' x' in \<open>simp_all add: pending_ok_def\<close>)
  ultimately show ?thesis using inv(3) x' by (simp add: clt_inv_def)
qed

text \<open>Steps that do not change the \<open>rpcc\<close>.\<close>

lemma clt_ok_upd:
  assumes "clt_ok S enc valid sn n owner c x"
  shows "clt_ok S enc valid sn n owner c (x\<lparr>rc_cur := cur\<rparr>)"
    and "set out \<subseteq> set (rc_out x) \<Longrightarrow> clt_ok S enc valid sn n owner c (x\<lparr>rc_out := out\<rparr>)"
proof -
  note D = clt_okD [OF assms]
  show "clt_ok S enc valid sn n owner c (x\<lparr>rc_cur := cur\<rparr>)" by (rule clt_okI) (use D in \<open>simp_all del: of_nat_Suc\<close>)
  show "clt_ok S enc valid sn n owner c (x\<lparr>rc_out := out\<rparr>)" if "set out \<subseteq> set (rc_out x)"
    by (rule clt_okI) (use D that in \<open>auto simp del: of_nat_Suc\<close>)
qed

lemma retry_step_inv:
  assumes "clt_inv S enc valid sn n owner c es x" "retry_step ob x = Some x'"
  shows "clt_inv S enc valid sn n owner c es x' \<and> rc_rets x' = rc_rets x \<and> rc_calls x' = rc_calls x"
proof -
  obtain st where st: "rc_cur x = Some st" "x' = x\<lparr>rc_cur := Some (call1_retry ob st (rc_rpcc x))\<rparr>"
    using assms(2) by (auto simp: retry_step_def split: option.splits if_splits)
  have inv: "clt_ok S enc valid sn n owner c x" "cur_ok S enc sn n owner c es x" "rets_ok c es (rc_rets x)"
    using assms(1) by (auto simp: clt_inv_def)
  have "cur_ok S enc sn n owner c es x'"
    by (rule cur_ok_SomeI [where st = "call1_retry ob st (rc_rpcc x)"])
      (use cur_ok_Some [OF inv(2) st(1)] st(2) in \<open>simp_all add: call1_retry_def\<close>)
  then show ?thesis using clt_ok_upd(1) [OF inv(1)] inv(3) st(2) by (simp add: clt_inv_def)
qed

lemma sent_inv:
  assumes "clt_inv S enc valid sn n owner c es x" "rc_out x = (k, b) # out"
  shows "clt_inv S enc valid sn n owner c es (x\<lparr>rc_out := out\<rparr>) \<and> owner k = c \<and> req_of S enc sn n (rc_calls x) b"
proof -
  have inv: "clt_ok S enc valid sn n owner c x" "cur_ok S enc sn n owner c es x" "rets_ok c es (rc_rets x)"
    using assms(1) by (auto simp: clt_inv_def)
  obtain st where st: "rc_cur x = Some st" using inv(2) assms(2) by (cases "rc_cur x") (auto simp: cur_ok_def Let_def)
  have "cur_ok S enc sn n owner c es (x\<lparr>rc_out := out\<rparr>)"
    by (rule cur_ok_SomeI [where st = st]) (use cur_ok_Some [OF inv(2) st] st in simp_all)
  moreover have "owner k = c \<and> req_of S enc sn n (rc_calls x) b"
    by (rule clt_okD(6) [OF inv(1)]) (simp add: assms(2))
  ultimately show ?thesis using clt_ok_upd(2) [OF inv(1), of out] assms(2) inv(3) by (auto simp: clt_inv_def)
qed

text \<open>The window of replies of a client with one call at a time.\<close>

lemma update_xid_rep_old: "x \<le> y \<Longrightarrow> update_xid_rep x [y] = [y]"
  by (simp add: update_xid_rep_def)

lemma update_xid_rep_next:
  assumes "Suc k < 2 ^ 32"
  shows "update_xid_rep (of_nat (Suc k)) [of_nat k] = [of_nat (Suc k)]"
proof -
  have lt: "(of_nat k :: u32) < of_nat (Suc k)" using assms u32_of_nat_less [of k "Suc k"] by simp
  have ne: "of_nat (Suc k) + 1 \<noteq> (of_nat (Suc k) :: u32)" by simp
  have eq: "of_nat k + 1 = (of_nat (Suc k) :: u32)" by simp
  have "\<not> (of_nat (Suc k) :: u32) < of_nat k" using lt by (simp only: not_less less_imp_le)
  then have i: "insert_xid (of_nat (Suc k)) [of_nat k] = [of_nat k, of_nat (Suc k) :: u32]" by (simp del: of_nat_Suc)
  have p: "pop_loop [of_nat k, of_nat (Suc k) :: u32] 1 = ([of_nat (Suc k)], 0)"
    using ne eq by (simp del: of_nat_Suc)
  have "\<not> (of_nat (Suc k) :: u32) \<le> of_nat k" using lt by (simp only: not_le)
  then have "update_xid_rep (of_nat (Suc k)) [of_nat k] = compress [of_nat k, of_nat (Suc k)] 1"
    unfolding update_xid_rep_def i list.sel by (simp only: if_False)
  also have "\<dots> = compress [of_nat (Suc k)] (0 + 1)"
    unfolding compress.simps [of "[of_nat k, of_nat (Suc k)]" 1] p by simp
  also have "\<dots> = [of_nat (Suc k)]" by (simp add: compress.simps [of _ "Suc 0"])
  finally show ?thesis .
qed

text \<open>A reply arrives.\<close>

lemma rpcc_got_pdu_reply:
  assumes "reply_packet \<lparr>rp_xid = xid, rp_ret = ret\<rparr> res b"
  shows "\<exists>u. rpcc_got_pdu b (length b) r =
    Inr (True, let r = r\<lparr>xid_rep_window := update_xid_rep (xid) (xid_rep_window r)\<rparr> in
      case find_call (xid) r of
        None \<Rightarrow> r
      | Some ca \<Rightarrow>
          if ca_done ca then r
          else r\<lparr>calls := AList.update (xid) \<lparr>ca_un = u, ca_intret = ret, ca_done = True\<rparr> (calls r)\<rparr>) \<and>
    u_at u res"
proof -
  obtain u where u: "unpack_reply_header (unmarshall_buf b (length b)) = Inr (\<lparr>rp_xid = xid, rp_ret = ret\<rparr>, u)" "u_ok u" "u_buf u = b" "u_sz u = length b"
    using reply_packet_unpack [OF assms] by blast
  define w where "w = fst (unmarshall_take_in unmarshall_new u)"
  have "fst (unmarshall_take_in v u) = w" for v
    by (simp add: w_def unmarshall_take_in_def unmarshall_take_buf_def split_def)
  moreover have "u_at w res"
    using assms u(3,4) by (auto simp: w_def reply_packet_def unmarshall_take_in_def unmarshall_take_buf_def u_at_def)
  ultimately show ?thesis using u(1,2)
    by (intro exI [of _ w]) (auto simp: rpcc_got_pdu_def Let_def split: option.split)
qed

lemma got_reply_inv:
  assumes "clt_inv S enc valid sn n owner c es x" "rep_of c (length (rc_calls x)) (length (rc_rets x)) es b"
    and "rpcc_got_pdu b (length b) (rc_rpcc x) = Inr (t, r)"
  shows "clt_inv S enc valid sn n owner c es (x\<lparr>rc_rpcc := r\<rparr>)"
proof -
  let ?k = "length (rc_calls x)"
  have inv: "clt_ok S enc valid sn n owner c x" "cur_ok S enc sn n owner c es x" "rets_ok c es (rc_rets x)"
    using assms(1) by (auto simp: clt_inv_def)
  have k: "?k < 2 ^ 32" "Suc ?k < 2 ^ 32" using clt_okD(4) [OF inv(1)] by auto
  obtain j ret res where j: "reply_packet \<lparr>rp_xid = of_nat (Suc j), rp_ret = ret\<rparr> res b" "j < ?k"
      "(c, of_nat (Suc j), ret, res) \<in> es \<or> j < length (rc_rets x)"
    using assms(2) unfolding rep_of_def by blast
  obtain u where u: "r = (let r = (rc_rpcc x)\<lparr>xid_rep_window := update_xid_rep (of_nat (Suc j)) (xid_rep_window (rc_rpcc x))\<rparr> in
      case find_call (of_nat (Suc j)) r of
        None \<Rightarrow> r
      | Some ca \<Rightarrow>
          if ca_done ca then r
          else r\<lparr>calls := AList.update (of_nat (Suc j)) \<lparr>ca_un = u, ca_intret = ret, ca_done = True\<rparr> (calls r)\<rparr>)" "u_at u res"
    using rpcc_got_pdu_reply [OF j(1), of "rc_rpcc x"] assms(3) by (auto simp del: of_nat_Suc)
  have same: "clt_ok S enc valid sn n owner c (x\<lparr>rc_rpcc := (rc_rpcc x)\<lparr>xid_rep_window := w, calls := cs\<rparr>\<rparr>)" for w cs
    by (rule clt_okI) (use clt_okD [OF inv(1)] in \<open>simp_all del: of_nat_Suc\<close>)
  have le: "(of_nat (Suc j) :: u32) \<le> of_nat i" if "j < i" "i \<le> ?k" for i
    using that k u32_of_nat_less [of i "Suc j"] by (auto simp: not_less simp del: of_nat_Suc)
  show ?thesis
  proof (cases "rc_cur x")
    case None
    then have "calls (rc_rpcc x) = []" "xid_rep_window (rc_rpcc x) = [of_nat ?k]"
      using inv(2) by (auto simp: cur_ok_def Let_def)
    then have "r = rc_rpcc x" using u(1) update_xid_rep_old [OF le [of ?k]] j(2) by (simp add: find_call_def del: of_nat_Suc)
    then show ?thesis using assms(1) by simp
  next
    case (Some st)
    note cur = cur_ok_Some [OF inv(2) Some]
    obtain ca where ca: "calls (rc_rpcc x) = [(of_nat ?k, ca)]" "xid_rep_window (rc_rpcc x) = [of_nat (if ca_done ca then ?k else ?k - 1)]"
      using cur(5) unfolding pending_ok_def by blast
    show ?thesis
    proof (cases "Suc j = ?k \<and> \<not> ca_done ca")
      case False
      have "update_xid_rep (of_nat (Suc j)) (xid_rep_window (rc_rpcc x)) = xid_rep_window (rc_rpcc x)"
        unfolding ca(2) by (rule update_xid_rep_old, rule le) (use False j(2) in auto)
      moreover have "of_nat (Suc j) = (of_nat ?k :: u32) \<longleftrightarrow> Suc j = ?k"
        using u32_of_nat_eq [of "Suc j" ?k] k(1) j(2) by (simp del: of_nat_Suc)
      ultimately have "r = rc_rpcc x" using u(1) ca(1) False by (auto simp: find_call_def simp del: of_nat_Suc)
      then show ?thesis using assms(1) by simp
    next
      case True
      then have "xid_rep_window (rc_rpcc x) = [of_nat j]" using ca(2) by (metis diff_Suc_1)
      then have "update_xid_rep (of_nat (Suc j)) (xid_rep_window (rc_rpcc x)) = [of_nat (Suc j)]"
        using update_xid_rep_next [of j] k(1) True by simp
      then have r: "r = (rc_rpcc x)\<lparr>xid_rep_window := [of_nat ?k], calls := [(of_nat ?k, \<lparr>ca_un = u, ca_intret = ret, ca_done = True\<rparr>)]\<rparr>"
        using u(1) ca(1) True by (simp add: find_call_def del: of_nat_Suc)
      have "(c, of_nat ?k, ret, res) \<in> es" using j(3) True cur(1) by auto
      then have "pending_ok c es ?k r" using r u(2) unfolding pending_ok_def by auto
      then have "cur_ok S enc sn n owner c es (x\<lparr>rc_rpcc := r\<rparr>)"
        by (intro cur_ok_SomeI [where st = st]) (use cur Some in simp_all)
      then show ?thesis using inv(3) same r by (simp add: clt_inv_def)
    qed
  qed
qed

lemma got_replies_inv:
  assumes "clt_inv S enc valid sn n owner c es x" "\<forall>b \<in> set bs. rep_of c (length (rc_calls x)) (length (rc_rets x)) es b"
    and "got_replies bs (rc_rpcc x) = Inr r"
  shows "clt_inv S enc valid sn n owner c es (x\<lparr>rc_rpcc := r\<rparr>)"
  using assms
proof (induction bs arbitrary: x)
  case (Cons b bs)
  then obtain t r1 where r1: "rpcc_got_pdu b (length b) (rc_rpcc x) = Inr (t, r1)" "got_replies bs r1 = Inr r"
    by (auto simp: rbind_eq_Inr)
  have "clt_inv S enc valid sn n owner c es (x\<lparr>rc_rpcc := r1\<rparr>)"
    by (rule got_reply_inv [OF Cons.prems(1) _ r1(1)]) (use Cons.prems(2) in simp)
  from Cons.IH [OF this] Cons.prems(2) r1(2) show ?case by simp
next
  case Nil
  then have "r = rc_rpcc x" by simp
  then show ?case using Nil.prems(1) by simp
qed

text \<open>A call returns; for \<open>bind\<close>, the log must have the right result.\<close>

lemma call1_end_inv:
  assumes "calls r = [(ca_xid st, ca)]" "ca_done ca" "xid_rep_window r = [ca_xid st]" "call1_end st r = (ret, r', ev)"
  shows "ret = (ca_intret ca, ca_un ca) \<and> (\<exists>q i. r' = r\<lparr>calls := [], dup_req := q, xid_rep_done := i\<rparr> \<and>
    (q = dup_req r \<or> rq_buf q = req_pdu st))"
proof -
  let ?r = "r\<lparr>calls := [], xid_rep_window := [ca_xid st]\<rparr>"
  have e: "ret = (ca_intret ca, ca_un ca)" "r' = (if c_lossytest r \<noteq> 0 then remember_dup st ?r else ?r)"
    using assms by (auto simp: call1_end_def find_call_def Let_def update_xid_rep_old)
  have r: "?r = r\<lparr>calls := []\<rparr>" using assms(3) by simp
  show ?thesis
  proof (cases "c_lossytest r = 0")
    case True
    then show ?thesis using e r by (intro conjI exI [of _ "dup_req r"] exI [of _ "xid_rep_done r"]) simp_all
  next
    case False
    then have "r' = remember_dup st (r\<lparr>calls := []\<rparr>)" using e r by simp
    then show ?thesis using e(1)
      by (intro conjI exI [of _ "dup_req r'"] exI [of _ "xid_rep_done r'"]) (auto simp: remember_dup_def Let_def)
  qed
qed

lemma bind_return_ok:
  assumes "bind_return (0, u) r = Some r'" "u_at u (enc_uint sn)"
  shows "r' = r\<lparr>bind_done := True, srv_nonce := sn\<rparr>"
proof -
  obtain u' where "get_int u = Inr (sn, u')"
    using u_readsD [OF int_codec.get_reads [of sn], of u "[]"] assms(2) by auto
  then show ?thesis using assms(1) by (simp add: bind_return_def split: if_splits)
qed

lemma return_step_inv:
  assumes "clt_inv S enc valid sn n owner c es x" "return_step x = Some x'"
    and bind: "\<And>b res. (c, of_nat (length (rc_calls x)), b, res) \<in> es \<Longrightarrow> last (rc_calls x) = Bind \<Longrightarrow>
      b = 0 \<and> res = enc_uint sn \<or> sint b < 0"
  shows "clt_inv S enc valid sn n owner c es x' \<and> rc_calls x' = rc_calls x \<and> length (rc_rets x') = Suc (length (rc_rets x)) \<and>
    rc_out x' = []"
proof -
  let ?k = "length (rc_calls x)"
  have inv: "clt_ok S enc valid sn n owner c x" "cur_ok S enc sn n owner c es x" "rets_ok c es (rc_rets x)"
    using assms(1) by (auto simp: clt_inv_def)
  obtain st where st: "rc_cur x = Some st" "rc_out x = []" "call_done (ca_xid st) (rc_rpcc x)"
    using assms(2) by (auto simp: return_step_def split: option.splits if_splits)
  note cur = cur_ok_Some [OF inv(2) st(1)]
  obtain ca where ca: "calls (rc_rpcc x) = [(of_nat ?k, ca)]" "xid_rep_window (rc_rpcc x) = [of_nat (if ca_done ca then ?k else ?k - 1)]"
      "ca_done ca \<longrightarrow> (\<exists>res. (c, of_nat ?k, ca_intret ca, res) \<in> es \<and> u_at (ca_un ca) res)"
    using cur(5) unfolding pending_ok_def by blast
  have fin: "ca_done ca" using st(3) cur(2) ca(1) by (simp add: call_done_def find_call_def)
  then obtain res where res: "(c, of_nat ?k, ca_intret ca, res) \<in> es" "u_at (ca_un ca) res" using ca(3) by blast
  obtain ret r' ev where e: "call1_end st (rc_rpcc x) = (ret, r', ev)" by (metis prod.exhaust)
  have "xid_rep_window (rc_rpcc x) = [ca_xid st]" using ca(2) fin cur(2) by simp
  from call1_end_inv [OF _ fin this e] ca(1) cur(2) obtain q i where
    r': "ret = (ca_intret ca, ca_un ca)" "r' = (rc_rpcc x)\<lparr>calls := [], dup_req := q, xid_rep_done := i\<rparr>"
      "q = dup_req (rc_rpcc x) \<or> rq_buf q = req_pdu st" by auto
  obtain r'' where x': "(case last (rc_calls x) of Bind \<Rightarrow> bind_return ret r' | Call q \<Rightarrow> Some r') = Some r''"
      "x' = x\<lparr>rc_rpcc := r'', rc_cur := None, rc_rets := rc_rets x @ [ret]\<rparr>"
    using assms(2) st e by (auto simp: return_step_def)
  have r'': "r'' = r' \<or> r'' = r'\<lparr>bind_done := True, srv_nonce := sn\<rparr>"
  proof (cases "last (rc_calls x)")
    case Bind
    from bind [OF res(1) Bind] show ?thesis
    proof
      assume "sint (ca_intret ca) < 0"
      then show ?thesis using x'(1) r'(1) Bind by (simp add: bind_return_def)
    qed (use x'(1) r'(1) Bind res(2) bind_return_ok [of "ca_un ca" r' r'' sn] in simp)
  qed (use x'(1) in simp)
  have "clt_ok S enc valid sn n owner c x'"
  proof (rule clt_okI)
    show "req_of S enc sn n (rc_calls x') (rq_buf (dup_req (rc_rpcc x')))" if "request_isvalid (dup_req (rc_rpcc x'))"
      using that r'' r'(2,3) x'(2) clt_okD(7) [OF inv(1)] cur(3) by auto
  qed (use r'' r'(2) x'(2) st(2) clt_okD [OF inv(1)] in \<open>auto simp del: of_nat_Suc\<close>)
  moreover have "cur_ok S enc sn n owner c es x'"
    using x'(2) r'' r'(2) st(2) cur(1) ca(2) fin by (auto simp: cur_ok_def Let_def)
  moreover have "rets_ok c es (rc_rets x')"
    unfolding rets_ok_def
  proof (intro allI impI)
    fix i assume "i < length (rc_rets x')"
    then consider "i < length (rc_rets x)" | "i = length (rc_rets x)" using x'(2) by fastforce
    then show "\<exists>b u res. rc_rets x' ! i = (b, u) \<and> u_at u res \<and> (c, of_nat (Suc i), b, res) \<in> es"
    proof cases
      case 1
      then show ?thesis using inv(3) x'(2) by (simp add: rets_ok_def nth_append del: of_nat_Suc)
    next
      case 2
      then show ?thesis using x'(2) r'(1) res cur(1) by (auto simp: nth_append simp del: of_nat_Suc)
    qed
  qed
  ultimately show ?thesis using x'(2) st(2) by (simp add: clt_inv_def)
qed

context rpc_service
begin

lemma rcall_put_enc:
  assumes "rcall_put S q (marshall_new mem) = Inr m" "rcall_valid valid q"
  shows "m_inv m \<and> m_content m = rcall_enc enc q"
proof -
  have "m_inv m \<and> m_bytes m = m_bytes (marshall_new mem) @ rcall_enc enc q"
  proof (cases q)
    case Bind
    then show ?thesis using assms m_inv_new [of mem] int_codec.put_appends [of 0] by (auto simp: m_appends_def)
  next
    case (Call p)
    then show ?thesis using assms put_enc [of p "marshall_new mem" m] m_inv_new by auto
  qed
  then show ?thesis using m_content_append [OF m_inv_new] by simp
qed

lemma call_step_inv:
  assumes "clt_inv S enc valid sn n owner c es x" "call_step S q now to mem x = Some x'" "rcall_valid valid q"
  shows "clt_inv S enc valid sn n owner c es x' \<and> rc_rets x' = rc_rets x \<and> rc_calls x' = rc_calls x @ [q] \<and> rc_cur x = None"
  using assms(2)
proof (cases rule: call_step_cases)
  case (1 m st r)
  let ?k = "length (rc_calls x)"
  let ?h = "\<lparr>rq_xid = of_nat (Suc ?k), rq_proc = rcall_proc S q, rq_clt_nonce = n,
      rq_srv_nonce = srv_nonce (rc_rpcc x), rq_xid_rep = of_nat ?k\<rparr>"
  have "clt_ok S enc valid sn n owner c x" using assms(1) by (simp add: clt_inv_def)
  note ok = clt_okD [OF this]
  have cur: "rc_out x = []" "calls (rc_rpcc x) = []" "length (rc_rets x) = ?k" "xid_rep_window (rc_rpcc x) = [of_nat ?k]"
    using assms(1) 1(1) by (auto simp: clt_inv_def cur_ok_def Let_def)
  have m: "m_inv m" "m_content m = rcall_enc enc q" using rcall_put_enc [OF 1(3) assms(3)] by auto
  have len: "length (m_bytes m) = m_ind m" "24 \<le> m_ind m" using m(1) by (auto simp: length_m_bytes elim: m_invE)
  note b = call1_begin_inv [OF 1(5) m(1)]
  have pdu: "req_pdu st = take 4 (m_bytes m) @ enc_req_header ?h @ rcall_enc enc q"
    using b m(2) ok(1,3) cur(4) by (simp add: m_content_def del: of_nat_Suc)
  have "length (req_pdu st) = m_ind m"
  proof -
    have "m_ind m = 24 + length (rcall_enc enc q)" using m_ind_content [OF m(1)] m(2) by simp
    then show ?thesis using pdu len by simp
  qed
  then have "length (req_pdu st) < 2 ^ 32" using 1(4) by simp
  then have "req_packet ?h (rcall_enc enc q) (req_pdu st)"
    unfolding req_packet_def using pdu len by (intro exI [of _ "take 4 (m_bytes m)"]) simp
  then have req: "req_of S enc sn n (rc_calls x @ [q]) (req_pdu st)"
    unfolding req_of_def using ok(2) by (intro exI [of _ ?k] exI [of _ ?h]) (simp add: hdr_of_def del: of_nat_Suc)
  have "clt_ok S enc valid sn n owner c x'"
    by (rule clt_okI) (use ok cur(1) 1(2,6) b assms(3) req_of_append [of S enc sn n "rc_calls x" _ "[q]"] in auto)
  moreover have "cur_ok S enc sn n owner c es x'"
    using 1(6) b cur req ok(3) by (simp add: cur_ok_def pending_ok_def Let_def del: of_nat_Suc)
  moreover have "rets_ok c es (rc_rets x')" using assms(1) 1(6) by (simp add: clt_inv_def)
  ultimately show ?thesis using 1(1,6) by (simp add: clt_inv_def)
qed

end

end
