(* ===== verification/Rpc_Dispatch_Inv.thy ===== *)
theory Rpc_Dispatch_Inv
  imports Rpc_System
begin

text \<open>
  The invariant of the server of theory \<open>Rpc_System\<close>: its reply windows, the requests that run and the log of
  those executed agree, and \<open>dispatch\<close> and the end of a handler keep this.
\<close>

section \<open>The server\<close>

text \<open>The server's requests, seen as in theory \<open>Reply_Window\<close>: first those of the log, then the running ones.\<close>

definition run_key :: "'s handler \<times> req_header \<times> unmarshall \<times> conn \<Rightarrow> u32 \<times> u32" where
  "run_key e = (case e of (f, h, req, k) \<Rightarrow> (rq_clt_nonce h, rq_xid h))"

definition srv_abs :: "('c \<Rightarrow> u32) \<Rightarrow> reply_windows \<Rightarrow> ('c \<times> u32 \<times> cint \<times> byte list) list \<Rightarrow>
    ('s handler \<times> req_header \<times> unmarshall \<times> conn) list \<Rightarrow> srv" where
  "srv_abs nonce ws es run =
     \<lparr>srv_windows = ws, srv_execs = map (\<lambda>e. (nonce (fst e), fst (snd e))) es @ map run_key run\<rparr>"

text \<open>
  The outcomes that a client may see: those of the log, and the error for a request that found an empty
  window with a higher number at its front.
\<close>

definition refused :: "u32 \<Rightarrow> ('c \<times> u32 \<times> cint \<times> byte list) set" where
  "refused fe = {(c, xid, b, res). xid < fe \<and> b = atmostonce_failure \<and> res = []}"

definition outcomes :: "u32 \<Rightarrow> ('c \<times> u32 \<times> cint \<times> byte list) list \<Rightarrow> ('c \<times> u32 \<times> cint \<times> byte list) set" where
  "outcomes fe es = set es \<union> refused fe"

text \<open>A reply that is kept is that of the log; an entry without a reply is of a running request.\<close>

definition kept_ok :: "'c \<Rightarrow> nat \<Rightarrow> ('c \<times> u32 \<times> cint \<times> byte list) list \<Rightarrow> reply_t \<Rightarrow> bool" where
  "kept_ok c nq es r =
     (\<exists>j b res. j < nq \<and> rt_xid r = of_nat (Suc j) \<and> (c, rt_xid r, b, res) \<in> set es \<and>
        reply_packet \<lparr>rp_xid = rt_xid r, rp_ret = b\<rparr> res (rt_buf r))"

definition windows_inv :: "('c \<Rightarrow> u32) \<Rightarrow> ('c \<Rightarrow> nat) \<Rightarrow> reply_windows \<Rightarrow> ('c \<times> u32 \<times> cint \<times> byte list) list \<Rightarrow>
    ('s handler \<times> req_header \<times> unmarshall \<times> conn) list \<Rightarrow> bool" where
  "windows_inv nonce nq ws es run =
     (\<forall>c w r. ws (nonce c) = Some w \<and> r \<in> set w \<longrightarrow>
        (if rt_cb_present r then kept_ok c (nq c) es r else (nonce c, rt_xid r) \<in> run_key ` set run))"

definition run_ok :: "'q stub \<Rightarrow> ('q \<Rightarrow> byte list) \<Rightarrow> u32 \<Rightarrow> ('c \<Rightarrow> u32) \<Rightarrow> (conn \<Rightarrow> 'c) \<Rightarrow> (u32 \<rightharpoonup> 's handler) \<Rightarrow>
    ('c \<Rightarrow> 'q rcall list) \<Rightarrow> srv \<Rightarrow> 's handler \<times> req_header \<times> unmarshall \<times> conn \<Rightarrow> bool" where
  "run_ok S enc sn nonce owner hs qs a e =
     (case e of (f, h, req, k) \<Rightarrow>
      \<exists>j. hdr_of S sn (nonce (owner k)) (qs (owner k)) j h \<and> hs (rq_proc h) = Some f \<and>
        u_at req (rcall_enc enc (qs (owner k) ! j)) \<and> has_reply (nonce (owner k)) (rq_xid h) False a)"

lemma has_reply_iff:
  "has_reply n xid p a \<longleftrightarrow> (\<exists>w r. srv_windows a n = Some w \<and> r \<in> set w \<and> rt_xid r = xid \<and> rt_cb_present r = p)"
  by (auto simp: has_reply_def list_ex_iff split: option.splits)

lemma seq_inv_cong:
  "seq_inv fe n k a \<Longrightarrow> srv_windows b n = srv_windows a n \<Longrightarrow> client_execs n b = client_execs n a \<Longrightarrow> seq_inv fe n k b"
  by (simp add: seq_inv_def)

lemma seq_inv_execs:
  assumes "seq_inv fe n k a"
  obtains m where "client_execs n a = map of_nat [seq_first fe..<Suc m]" "m \<le> k" "k < 2 ^ 32" "distinct (client_execs n a)"
    and "\<And>xid. has_reply n xid False a \<Longrightarrow> xid = of_nat m"
    and "seq_first fe \<le> m \<Longrightarrow> \<exists>p. has_reply n (of_nat m) p a"
proof -
  obtain m fin where m: "client_execs n a = map of_nat [seq_first fe..<Suc m]" "Suc k < 2 ^ 32"
      "m = k \<or> Suc m = k \<and> (m < seq_first fe \<or> fin)"
      "seq_window (seq_first fe) m fin (case srv_windows a n of None \<Rightarrow> [] | Some w \<Rightarrow> w)"
    using assms unfolding seq_inv_def by blast
  have "inj_on (of_nat :: nat \<Rightarrow> u32) (set [seq_first fe..<Suc m])"
  proof (rule inj_onI)
    fix x y assume "x \<in> set [seq_first fe..<Suc m]" "y \<in> set [seq_first fe..<Suc m]" "(of_nat x :: u32) = of_nat y"
    then show "x = y" using m(2,3) u32_of_nat_eq [of x y] by auto
  qed
  then have d: "distinct (client_execs n a)" unfolding m(1) by (simp only: distinct_map) simp
  have f: "xid = of_nat m" if "has_reply n xid False a" for xid
    using that m(4) by (auto simp: has_reply_iff seq_window_def split: if_splits)
  have e: "\<exists>p. has_reply n (of_nat m) p a" if "seq_first fe \<le> m"
    using that m(4) by (cases "srv_windows a n") (auto simp: has_reply_iff seq_window_def split: if_splits)
  show thesis by (rule that [of m]) (use m d f e in auto)
qed

lemma client_execs_abs:
  assumes "inj nonce"
  shows "client_execs (nonce c) (srv_abs nonce ws es run) =
    log_of c es @ map (snd \<circ> run_key) (filter (\<lambda>e. fst (run_key e) = nonce c) run)"
proof -
  have "filter (\<lambda>e. fst e = nonce c) (map (\<lambda>e. (nonce (fst e), fst (snd e))) es) =
      map (\<lambda>e. (nonce (fst e), fst (snd e))) (filter (\<lambda>e. fst e = c) es)"
    using assms by (induction es) (auto dest: injD)
  then show ?thesis by (simp add: client_execs_def srv_abs_def log_of_def filter_map comp_def)
qed

text \<open>The first part of \<open>dispatch\<close> on the packet of a request.\<close>

definition enter_sends :: "conn \<Rightarrow> u32 \<Rightarrow> rpcstate_t \<Rightarrow> (conn \<times> byte list) list \<Rightarrow> bool" where
  "enter_sends k xid st out =
     (case st of
        DONE b sz \<Rightarrow> out = [(k, b)]
      | FORGOTTEN \<Rightarrow> (\<exists>rb. out = [(k, rb)] \<and> reply_packet \<lparr>rp_xid = xid, rp_ret = atmostonce_failure\<rparr> [] rb)
      | _ \<Rightarrow> out = [])"

lemma srv_sends_simps [simp]:
  "srv_sends [] = []" "srv_sends (S_send k b # ev) = (k, b) # srv_sends ev" "srv_sends (S_decref k # ev) = srv_sends ev"
  "srv_sends (S_incref k # ev) = srv_sends ev" "srv_sends (ev @ ev') = srv_sends ev @ srv_sends ev'"
  by (simp_all add: srv_sends_def)

lemma save_conn_cases:
  assumes "save_conn compare n k s = (s', ev)"
  shows "srv_sends ev = [] \<and> (s' = s \<or> s' = s\<lparr>conns := (conns s)(n \<mapsto> k)\<rparr>)"
  using assms by (auto simp: save_conn_def split: option.splits if_splits)

lemma prepare_cases:
  assumes "dispatch_prepare fe compare k h s = Inr (st, s', ev)" "rq_clt_nonce h \<noteq> 0"
  obtains ws cs where "checkduplicate_and_update fe (rq_clt_nonce h) (rq_xid h) (rq_xid_rep h)
      (create_window (rq_clt_nonce h) (reply_window s)) = Inr (st, ws)"
    and "s' = s\<lparr>reply_window := ws, conns := cs\<rparr>" "cs = conns s \<or> cs = (conns s)(rq_clt_nonce h \<mapsto> k)" "srv_sends ev = []"
proof -
  let ?s = "s\<lparr>reply_window := create_window (rq_clt_nonce h) (reply_window s)\<rparr>"
  obtain s1 ev1 where s1: "save_conn compare (rq_clt_nonce h) k ?s = (s1, ev1)" by fastforce
  note sc = save_conn_cases [OF s1]
  obtain ws where ws: "checkduplicate_and_update fe (rq_clt_nonce h) (rq_xid h) (rq_xid_rep h) (reply_window s1) = Inr (st, ws)"
      "s' = s1\<lparr>reply_window := ws\<rparr>" "ev = ev1"
    using assms s1 by (auto simp: dispatch_prepare_def Let_def rbind_eq_Inr)
  have "conns s1 = conns s \<or> conns s1 = (conns s)(rq_clt_nonce h \<mapsto> k)" "reply_window s1 = reply_window ?s"
      "s' = s\<lparr>reply_window := ws, conns := conns s1\<rparr>"
    using sc ws(2) by auto
  then show thesis using that [of ws "conns s1"] ws sc by simp
qed

lemma error_reply_packet:
  assumes "pack_reply_header h (marshall_new mem) = Inr m"
  shows "reply_packet h [] (m_bytes m)"
proof -
  have "m_ind (marshall_new mem) < 2 ^ 32" by (simp add: marshall_new_def)
  then obtain m' where "pack_reply_header h (marshall_new mem) = Inr m'" "reply_packet h [] (m_bytes m')"
    using packed_reply_packet [OF m_inv_new, of mem "[]" h] by auto
  then show ?thesis using assms by simp
qed

lemma dispatch_enter_cases:
  assumes "dispatch_enter fe mem compare j s = Inr (r, s', ev)" "req_packet h args (dj_buf j)" "dj_sz j = length (dj_buf j)"
    and "rq_srv_nonce h = 0 \<or> rq_srv_nonce h = s_nonce s" "rq_clt_nonce h \<noteq> 0"
  obtains f u st ws cs where "procs s (rq_proc h) = Some f" "u_at u args"
    and "checkduplicate_and_update fe (rq_clt_nonce h) (rq_xid h) (rq_xid_rep h)
      (create_window (rq_clt_nonce h) (reply_window s)) = Inr (st, ws)"
    and "s' = s\<lparr>reply_window := ws, conns := cs\<rparr>" "cs = conns s \<or> cs = (conns s)(rq_clt_nonce h \<mapsto> dj_conn j)"
    and "r = (if st = NEW then Some (f, h, u) else None)" "enter_sends (dj_conn j) (rq_xid h) st (srv_sends ev)"
proof -
  obtain u where u: "unpack_req_header (unmarshall_buf (dj_buf j) (dj_sz j)) = Inr (h, u)" "u_at u args"
    using req_packet_unpack [OF assms(2)] assms(3) by auto
  have ok: "u_ok u" "\<not> (rq_srv_nonce h \<noteq> 0 \<and> rq_srv_nonce h \<noteq> s_nonce s)" using u(2) assms(4) by (auto simp: u_at_def)
  obtain f where f: "procs s (rq_proc h) = Some f"
    using assms(1) u(1) ok by (cases "procs s (rq_proc h)") (auto simp: dispatch_enter_def Let_def)
  obtain st s1 ev1 where p: "dispatch_prepare fe compare (dj_conn j) h s = Inr (st, s1, ev1)"
    using assms(1) u(1) ok f by (cases "dispatch_prepare fe compare (dj_conn j) h s") (auto simp: dispatch_enter_def Let_def)
  have st: "s' = s1 \<and> r = (if st = NEW then Some (f, h, u) else None) \<and>
      (srv_sends ev1 = [] \<longrightarrow> enter_sends (dj_conn j) (rq_xid h) st (srv_sends ev))"
    using assms(1) u(1) ok f p
    by (cases st) (auto simp: dispatch_enter_def Let_def enter_sends_def rbind_eq_Inr intro: error_reply_packet)
  from p assms(5) show thesis
  proof (rule prepare_cases)
    fix ws cs
    assume "checkduplicate_and_update fe (rq_clt_nonce h) (rq_xid h) (rq_xid_rep h)
        (create_window (rq_clt_nonce h) (reply_window s)) = Inr (st, ws)"
      "s1 = s\<lparr>reply_window := ws, conns := cs\<rparr>" "cs = conns s \<or> cs = (conns s)(rq_clt_nonce h \<mapsto> dj_conn j)" "srv_sends ev1 = []"
    then show thesis using that [OF f u(2)] st by blast
  qed
qed

text \<open>What \<open>checkduplicate_and_update\<close> does to the entries of the window.\<close>

lemma scan_state:
  "scan xid xid_rep w = Inr (Some st, w') \<Longrightarrow> \<exists>r \<in> set w. rt_xid r = xid \<and> st = reply_state r"
  by (induction xid xid_rep w arbitrary: w' rule: scan.induct) (auto simp: rbind_eq_Inr split: if_splits list.splits)

definition check_ok :: "u32 \<Rightarrow> u32 \<Rightarrow> reply_t list \<Rightarrow> rpcstate_t \<Rightarrow> reply_t list \<Rightarrow> bool" where
  "check_ok fe xid w st w' =
     (set w' \<subseteq> set w \<union> (if st = NEW then {reply_t_new xid} else {}) \<and>
      (\<forall>r \<in> set w. \<not> rt_cb_present r \<longrightarrow> r \<in> set w') \<and> (st = NEW \<longrightarrow> reply_t_new xid \<in> set w') \<and>
      (case st of
         DONE b sz \<Rightarrow> \<exists>r \<in> set w. rt_xid r = xid \<and> rt_cb_present r \<and> rt_buf r = b
       | FORGOTTEN \<Rightarrow> front_xid fe w > xid
       | _ \<Rightarrow> True))"

lemma checkduplicate_window:
  assumes "checkduplicate_and_update fe n xid xid_rep ws = Inr (st, ws')" "ws n = Some w"
  shows "\<exists>w'. ws' = ws(n \<mapsto> w') \<and> check_ok fe xid w st w'"
proof (cases "front_xid fe w > xid")
  case True
  then show ?thesis using assms checkduplicate_Some [of ws n w fe xid xid_rep, OF assms(2)] by (auto simp: check_ok_def fun_upd_idem intro!: exI [of _ w])
next
  case False
  then obtain r w1 where r: "scan xid xid_rep w = Inr (r, w1)"
      "(st, ws') = (case r of Some st \<Rightarrow> (st, ws(n \<mapsto> w1)) | None \<Rightarrow> (NEW, ws(n \<mapsto> insert_reply (reply_t_new xid) w1)))"
    using assms checkduplicate_Some [of ws n w fe xid xid_rep, OF assms(2)] by (auto simp: rbind_eq_Inr split: prod.splits)
  note sub = scan_subset [OF r(1)] and keep = scan_keeps [OF r(1)]
  show ?thesis
  proof (cases r)
    case None
    then show ?thesis using r sub keep by (auto simp: check_ok_def intro!: exI [of _ "insert_reply (reply_t_new xid) w1"])
  next
    case (Some st')
    then have st': "st' = st" "ws' = ws(n \<mapsto> w1)" using r(2) by auto
    obtain q where "q \<in> set w" "rt_xid q = xid" "st = reply_state q" using scan_state [of xid xid_rep w st w1] r(1) Some st' by auto
    then show ?thesis using sub keep st'(2)
      by (intro exI [of _ w1]) (auto simp: check_ok_def reply_state_def split: if_splits)
  qed
qed

text \<open>The invariant of the server; \<open>qs\<close> are the calls of the clients.\<close>

definition srv_inv :: "u32 \<Rightarrow> 'q stub \<Rightarrow> ('q \<Rightarrow> byte list) \<Rightarrow> u32 \<Rightarrow> ('c \<Rightarrow> u32) \<Rightarrow> (conn \<Rightarrow> 'c) \<Rightarrow> (u32 \<rightharpoonup> 's handler) \<Rightarrow> ('s \<Rightarrow> bool) \<Rightarrow>
    ('c \<Rightarrow> 'q rcall list) \<Rightarrow> 's rpcs \<Rightarrow> ('c \<times> u32 \<times> cint \<times> byte list) list \<Rightarrow>
    ('s handler \<times> req_header \<times> unmarshall \<times> conn) list \<Rightarrow> bool" where
  "srv_inv fe S enc sn nonce owner hs sinv qs s es run =
     (let a = srv_abs nonce (reply_window s) es run in
      procs s = hs \<and> s_nonce s = sn \<and> sinv (s_app s) \<and> (\<forall>n k. conns s n = Some k \<longrightarrow> nonce (owner k) = n) \<and>
      (\<forall>c. seq_inv fe (nonce c) (length (qs c)) a) \<and> windows_inv nonce (\<lambda>c. length (qs c)) (reply_window s) es run \<and>
      (\<forall>e \<in> set run. run_ok S enc sn nonce owner hs qs a e))"

lemma srv_invD:
  assumes "srv_inv fe S enc sn nonce owner hs sinv qs s es run"
  shows "procs s = hs" "s_nonce s = sn" "sinv (s_app s)" "conns s n = Some k \<Longrightarrow> nonce (owner k) = n"
    and "seq_inv fe (nonce c) (length (qs c)) (srv_abs nonce (reply_window s) es run)"
    and "windows_inv nonce (\<lambda>c. length (qs c)) (reply_window s) es run"
    and "e \<in> set run \<Longrightarrow> run_ok S enc sn nonce owner hs qs (srv_abs nonce (reply_window s) es run) e"
  using assms by (simp_all add: srv_inv_def Let_def)

lemma srv_invI:
  assumes "procs s = hs" "s_nonce s = sn" "sinv (s_app s)" "\<And>n k. conns s n = Some k \<Longrightarrow> nonce (owner k) = n"
    and "\<And>c. seq_inv fe (nonce c) (length (qs c)) (srv_abs nonce (reply_window s) es run)"
    and "windows_inv nonce (\<lambda>c. length (qs c)) (reply_window s) es run"
    and "\<And>e. e \<in> set run \<Longrightarrow> run_ok S enc sn nonce owner hs qs (srv_abs nonce (reply_window s) es run) e"
  shows "srv_inv fe S enc sn nonce owner hs sinv qs s es run"
  using assms by (simp add: srv_inv_def Let_def)

lemma windows_invD:
  assumes "windows_inv nonce nq ws es run" "ws (nonce c) = Some w" "r \<in> set w"
  shows "rt_cb_present r \<Longrightarrow> kept_ok c (nq c) es r" "\<not> rt_cb_present r \<Longrightarrow> (nonce c, rt_xid r) \<in> run_key ` set run"
  using assms by (auto simp: windows_inv_def)

lemma windows_invI:
  assumes "\<And>c w r. ws (nonce c) = Some w \<Longrightarrow> r \<in> set w \<Longrightarrow> rt_cb_present r \<Longrightarrow> kept_ok c (nq c) es r"
    and "\<And>c w r. ws (nonce c) = Some w \<Longrightarrow> r \<in> set w \<Longrightarrow> \<not> rt_cb_present r \<Longrightarrow> (nonce c, rt_xid r) \<in> run_key ` set run"
  shows "windows_inv nonce nq ws es run"
  using assms by (simp add: windows_inv_def)

lemma run_ok_has_reply:
  assumes "run_ok S enc sn nonce owner hs qs a (f, h, req, k)"
    and "has_reply (nonce (owner k)) (rq_xid h) False a \<Longrightarrow> has_reply (nonce (owner k)) (rq_xid h) False b"
  shows "run_ok S enc sn nonce owner hs qs b (f, h, req, k)"
  using assms by (auto simp: run_ok_def)

lemma front_forgotten:
  assumes "seq_inv fe n k a" "srv_windows a n = Some w \<or> srv_windows a n = None \<and> w = []" "front_xid fe w > of_nat (Suc i)"
    and "i < k"
  shows "Suc i < k \<or> of_nat (Suc i) < fe"
proof -
  have w: "(case srv_windows a n of None \<Rightarrow> [] | Some w \<Rightarrow> w) = w" using assms(2) by auto
  obtain m fin where m: "Suc k < 2 ^ 32" "m = k \<or> Suc m = k \<and> (m < seq_first fe \<or> fin)" "seq_window (seq_first fe) m fin w"
    using assms(1) [unfolded seq_inv_def w] by blast
  have lt: "Suc i < 2 ^ 32" "m < 2 ^ 32" "m - 1 < 2 ^ 32" using m(1,2) assms(4) by auto
  consider "w = []" | r where "w = [r]" "rt_xid r = of_nat m" "m = seq_first fe" | q r where "w = [q, r]" "rt_xid q = of_nat (m - 1)"
    using m(3) by (auto simp: seq_window_def split: if_splits)
  then show ?thesis
  proof cases
    case 1
    then show ?thesis using assms(3) by (simp add: front_xid_def del: of_nat_Suc)
  next
    case 2
    then have "Suc i < m" using assms(3) u32_of_nat_less [OF lt(1,2)] by (simp add: front_xid_def del: of_nat_Suc)
    then show ?thesis using seq_first_less [OF lt(1)] 2(3) by (simp del: of_nat_Suc)
  next
    case 3
    then have "of_nat (Suc i) < (of_nat (m - 1) :: u32)" using assms(3) by (simp add: front_xid_def del: of_nat_Suc)
    then have "Suc i < m - 1" using u32_of_nat_less [OF lt(1,3)] by blast
    then show ?thesis using m(2) by auto
  qed
qed

lemma create_window_cases: "create_window n ws = ws \<and> ws n \<noteq> None \<or> create_window n ws = ws(n \<mapsto> []) \<and> ws n = None"
  by (auto simp: create_window_def split: option.splits)

text \<open>A request is taken up.\<close>

lemma rep_of_kept:
  assumes "kept_ok c nq es r"
  shows "rep_of c nq nr (outcomes fe es) (rt_buf r)"
proof -
  obtain j b res where "j < nq" "rt_xid r = of_nat (Suc j)" "(c, rt_xid r, b, res) \<in> set es"
      "reply_packet \<lparr>rp_xid = rt_xid r, rp_ret = b\<rparr> res (rt_buf r)"
    using assms unfolding kept_ok_def by blast
  then show ?thesis unfolding rep_of_def outcomes_def by (intro exI [of _ j] exI [of _ b] exI [of _ res]) (simp del: of_nat_Suc)
qed

lemma enter_windows:
  assumes "windows_inv nonce nq ws es run" "inj nonce" "check_ok fe xid w st w'"
    and "ws (nonce c) = Some w \<or> ws (nonce c) = None \<and> w = []" "ws' = ws(nonce c \<mapsto> w')"
    and "st = NEW \<Longrightarrow> (nonce c, xid) \<in> run_key ` set run'" "set run \<subseteq> set run'"
  shows "windows_inv nonce nq ws' es run'"
proof (rule windows_invI)
  fix d v r assume v: "ws' (nonce d) = Some v" "r \<in> set v"
  have old: "ws (nonce d) = Some v' \<Longrightarrow> r \<in> set v' \<Longrightarrow> rt_cb_present r \<Longrightarrow> kept_ok d (nq d) es r"
      "ws (nonce d) = Some v' \<Longrightarrow> r \<in> set v' \<Longrightarrow> \<not> rt_cb_present r \<Longrightarrow> (nonce d, rt_xid r) \<in> run_key ` set run'" for v'
    using windows_invD [OF assms(1), of d v' r] assms(7) by auto
  have "ws (nonce d) = Some v \<or> d = c \<and> (ws (nonce c) = Some w \<and> r \<in> set w \<or> st = NEW \<and> r = reply_t_new xid)"
  proof (cases "d = c")
    case True
    then have "v = w'" using v(1) assms(5) by simp
    then show ?thesis using v(2) assms(3,4) True by (auto simp: check_ok_def split: if_splits)
  next
    case False
    then show ?thesis using v(1) assms(2,5) by (auto dest: injD split: if_splits)
  qed
  then show "kept_ok d (nq d) es r" if "rt_cb_present r"
    using that old(1) v(2) by (auto simp: reply_t_new_def)
  show "(nonce d, rt_xid r) \<in> run_key ` set run'" if "\<not> rt_cb_present r"
    using \<open>ws (nonce d) = Some v \<or> _\<close> that old(2) v(2) assms(6) by (auto simp: reply_t_new_def)
qed

lemma enter_running:
  assumes "inj nonce" "check_ok fe xid w st w'" "ws (nonce c) = Some w \<or> ws (nonce c) = None \<and> w = []" "ws' = ws(nonce c \<mapsto> w')"
    and "has_reply (nonce d) x False (srv_abs nonce ws es run)"
  shows "has_reply (nonce d) x False (srv_abs nonce ws' es' run')"
proof -
  obtain v r where v: "ws (nonce d) = Some v" "r \<in> set v" "rt_xid r = x" "\<not> rt_cb_present r"
    using assms(5) by (auto simp: has_reply_iff srv_abs_def)
  show ?thesis
  proof (cases "d = c")
    case True
    then have "r \<in> set w'" using v assms(2,3) by (auto simp: check_ok_def)
    then show ?thesis using v True assms(4) by (auto simp: has_reply_iff srv_abs_def)
  next
    case False
    then have "nonce d \<noteq> nonce c" using assms(1) by (auto dest: injD)
    then show ?thesis using v assms(4) by (auto simp: has_reply_iff srv_abs_def)
  qed
qed

lemma enter_sends_ok:
  assumes "enter_sends k xid st out" "check_ok fe xid w st w'" "xid = of_nat (Suc i)" "i < nq"
    and "st = FORGOTTEN \<Longrightarrow> i < nr \<or> of_nat (Suc i) < fe" "\<And>r. r \<in> set w \<Longrightarrow> rt_cb_present r \<Longrightarrow> kept_ok (owner k) nq es r"
  shows "\<forall>(k', b) \<in> set out. k' = k \<and> rep_of (owner k) nq nr (outcomes fe es) b"
proof (cases st)
  case (DONE b sz)
  then obtain r where "r \<in> set w" "rt_cb_present r" "rt_buf r = b" using assms(2) by (auto simp: check_ok_def)
  then show ?thesis using assms(1,6) DONE rep_of_kept [of "owner k" nq es r nr fe] by (auto simp: enter_sends_def)
next
  case FORGOTTEN
  then obtain rb where "out = [(k, rb)]" "reply_packet \<lparr>rp_xid = xid, rp_ret = atmostonce_failure\<rparr> [] rb"
    using assms(1) by (auto simp: enter_sends_def)
  then show ?thesis using assms(3-5) FORGOTTEN unfolding rep_of_def outcomes_def refused_def
    by (auto simp del: of_nat_Suc intro!: exI [of _ i] exI [of _ atmostonce_failure] exI [of _ "[]"])
qed (use assms(1) in \<open>auto simp: enter_sends_def\<close>)

lemma dispatch_inv:
  assumes inv: "srv_inv fe S enc sn nonce owner hs sinv qs s es run" and nonce: "inj nonce" "\<And>c. nonce c \<noteq> 0"
    and enter: "dispatch_enter fe mem compare j s = Inr (r, s', ev)"
    and req: "req_of S enc sn (nonce (owner (dj_conn j))) (qs (owner (dj_conn j))) (dj_buf j)" "dj_sz j = length (dj_buf j)"
    and nr: "length (qs (owner (dj_conn j))) \<le> Suc nr"
  shows "srv_inv fe S enc sn nonce owner hs sinv qs s' es
      (run @ (case r of None \<Rightarrow> [] | Some (f, h, req) \<Rightarrow> [(f, h, req, dj_conn j)])) \<and> s_app s' = s_app s \<and>
    (\<forall>(k, b) \<in> set (srv_sends ev). k = dj_conn j \<and> rep_of (owner k) (length (qs (owner k))) nr (outcomes fe es) b)"
proof -
  let ?k = "dj_conn j" and ?c = "owner (dj_conn j)" and ?n = "nonce (owner (dj_conn j))" and ?ws = "reply_window s"
  obtain i h where h: "hdr_of S sn ?n (qs ?c) i h" "req_packet h (rcall_enc enc (qs ?c ! i)) (dj_buf j)"
    using req(1) unfolding req_of_def by blast
  then have hf: "i < length (qs ?c)" "rq_xid h = of_nat (Suc i)" "rq_clt_nonce h = ?n" "rq_xid_rep h = of_nat i"
      "rq_srv_nonce h = 0 \<or> rq_srv_nonce h = s_nonce s"
    using srv_invD(2) [OF inv] by (auto simp: hdr_of_def)
  have n0: "rq_clt_nonce h \<noteq> 0" using hf(3) nonce(2) by simp
  from enter h(2) req(2) hf(5) n0 show ?thesis
  proof (rule dispatch_enter_cases)
    fix f u st ws cs
    assume f: "procs s (rq_proc h) = Some f" and u: "u_at u (rcall_enc enc (qs ?c ! i))"
      and chk: "checkduplicate_and_update fe (rq_clt_nonce h) (rq_xid h) (rq_xid_rep h) (create_window (rq_clt_nonce h) ?ws) = Inr (st, ws)"
      and s': "s' = s\<lparr>reply_window := ws, conns := cs\<rparr>" and cs: "cs = conns s \<or> cs = (conns s)(rq_clt_nonce h \<mapsto> ?k)"
      and r: "r = (if st = NEW then Some (f, h, u) else None)" and out: "enter_sends ?k (rq_xid h) st (srv_sends ev)"
    let ?run = "run @ (if st = NEW then [(f, h, u, ?k)] else [])"
    have run: "(run @ (case r of None \<Rightarrow> [] | Some (f, h, req) \<Rightarrow> [(f, h, req, dj_conn j)])) = ?run" using r by simp
    obtain w where w: "create_window ?n ?ws ?n = Some w" "?ws ?n = Some w \<or> ?ws ?n = None \<and> w = []"
      using create_window_cases [of ?n ?ws] by auto
    obtain w' where w': "ws = (create_window ?n ?ws)(?n \<mapsto> w')" "check_ok fe (rq_xid h) w st w'"
      using checkduplicate_window [OF chk [unfolded hf(3)] w(1)] by blast
    have ws: "ws = ?ws(?n \<mapsto> w')" using w'(1) create_window_cases [of ?n ?ws] by auto
    have "srv_request fe ?n (of_nat (Suc i)) (of_nat i) (srv_abs nonce ?ws es run) = Inr (st, srv_abs nonce ws es ?run)"
      using chk hf by (simp add: srv_request_def srv_abs_def run_key_def del: of_nat_Suc)
    note req' = this
    have seq: "seq_inv fe (nonce d) (length (qs d)) (srv_abs nonce ws es ?run)" for d
    proof (cases "d = ?c")
      case True
      from seq_request [OF srv_invD(5) [OF inv, of ?c], of "Suc i"] hf(1) req' True show ?thesis
        by (simp del: of_nat_Suc)
    next
      case False
      then have "nonce d \<noteq> ?n" using nonce(1) by (auto dest: injD)
      with seq_other [OF srv_invD(5) [OF inv, of d], of ?n "Arrive (of_nat (Suc i)) (of_nat i)" "srv_abs nonce ws es ?run"] req'
      show ?thesis by (simp del: of_nat_Suc)
    qed
    have "srv_inv fe S enc sn nonce owner hs sinv qs s' es ?run"
    proof (rule srv_invI)
      show "nonce (owner k) = n" if "conns s' n = Some k" for n k
        using that s' cs srv_invD(4) [OF inv] hf(3) by (auto split: if_splits)
      show "windows_inv nonce (\<lambda>c. length (qs c)) (reply_window s') es ?run"
        using enter_windows [OF srv_invD(6) [OF inv] nonce(1) w'(2) w(2) ws, of ?run] s' hf(3)
        by (auto simp: run_key_def)
      show "run_ok S enc sn nonce owner hs qs (srv_abs nonce (reply_window s') es ?run) e" if "e \<in> set ?run" for e
      proof (cases "e \<in> set run")
        case True
        obtain f' h' u' k' where e: "e = (f', h', u', k')" by (cases e) auto
        have s'': "reply_window s' = ws" using s' by simp
        show ?thesis unfolding e s''
          by (rule run_ok_has_reply [OF srv_invD(7) [OF inv True, unfolded e]]) (rule enter_running [OF nonce(1) w'(2) w(2) ws])
      next
        case False
        then have e: "st = NEW" "e = (f, h, u, ?k)" using that by (auto split: if_splits)
        then have "reply_t_new (rq_xid h) \<in> set w'" using w'(2) by (simp add: check_ok_def)
        then have "has_reply ?n (rq_xid h) False (srv_abs nonce ws es ?run)"
          using ws by (auto simp: has_reply_iff srv_abs_def reply_t_new_def intro!: bexI [of _ "reply_t_new (rq_xid h)"])
        then show ?thesis using e h(1) f u s' srv_invD(1) [OF inv] by (auto simp: run_ok_def)
      qed
    qed (use s' seq srv_invD(1-3) [OF inv] in simp_all)
    moreover have "\<forall>(k', b) \<in> set (srv_sends ev). k' = ?k \<and> rep_of ?c (length (qs ?c)) nr (outcomes fe es) b"
    proof (rule enter_sends_ok [OF out w'(2) hf(2,1)])
      show "i < nr \<or> of_nat (Suc i) < fe" if "st = FORGOTTEN"
        using front_forgotten [where w = w and i = i, OF srv_invD(5) [OF inv, of ?c]] w(2) w'(2) hf(1,2) nr that
        by (auto simp add: check_ok_def srv_abs_def del: of_nat_Suc)
      show "kept_ok ?c (length (qs ?c)) es q" if "q \<in> set w" "rt_cb_present q" for q
        using windows_invD(1) [OF srv_invD(6) [OF inv], of ?c w q] w(2) that by auto
    qed
    ultimately show ?thesis unfolding run using s' by auto
  qed
qed

text \<open>A request is executed.\<close>

lemma dispatch_new_cases:
  assumes "dispatch_new dead f k h req (marshall_new mem) s = Inr (s', ev)" "f req (marshall_new mem) (s_app s) = Inr (b, rep, app)"
    and "rq_clt_nonce h \<noteq> 0"
  obtains m c where "pack_reply_header \<lparr>rp_xid = rq_xid h, rp_ret = b\<rparr> rep = Inr m"
    and "s_app s' = app" "procs s' = procs s" "s_nonce s' = s_nonce s" "conns s' = conns s"
    and "reply_window s' = add_reply (rq_clt_nonce h) (rq_xid h) (m_bytes m) (length (m_bytes m)) (reply_window s)"
    and "srv_sends ev = [(c, m_bytes m)]" "c = k \<or> conns s (rq_clt_nonce h) = Some c"
proof -
  let ?s = "if counting s \<noteq> 0 then updatestat (rq_proc h) s else s"
  have s: "s_app ?s = s_app s" "procs ?s = procs s" "s_nonce ?s = s_nonce s" "conns ?s = conns s" "reply_window ?s = reply_window s"
    by simp_all
  obtain m where m: "pack_reply_header \<lparr>rp_xid = rq_xid h, rp_ret = b\<rparr> rep = Inr m"
    using assms(1,2) s(1) by (auto simp: dispatch_new_def Let_def rbind_eq_Inr split: if_splits)
  let ?s2 = "?s\<lparr>s_app := app, reply_window := add_reply (rq_clt_nonce h) (rq_xid h) (m_bytes m) (length (m_bytes m)) (reply_window s)\<rparr>"
  have "rq_clt_nonce h > 0" using assms(3) by (simp add: word_gt_0)
  then obtain c ev1 where c: "latest_conn dead (rq_clt_nonce h) k ?s2 = Inr (c, ev1)" "s' = ?s2" "ev = ev1 @ [S_send c (m_bytes m), S_decref c]"
    using assms(1,2) m by (auto simp: dispatch_new_def Let_def rbind_eq_Inr split: if_splits)
  have "srv_sends ev1 = [] \<and> (c = k \<or> conns s (rq_clt_nonce h) = Some c)"
    using c(1) s(4) by (auto simp: latest_conn_def split: if_splits option.splits)
  then show thesis using that [OF m, of c] c(2,3) s by simp
qed

lemma set_reply_elems:
  assumes "r \<in> set (set_reply x b sz w)" "distinct (map rt_xid w)"
  shows "r \<in> set w \<and> rt_xid r \<noteq> x \<or> rt_xid r = x \<and> rt_cb_present r \<and> rt_buf r = b"
  using assms
proof (induction w)
  case (Cons q w)
  show ?case
  proof (cases "rt_xid q = x")
    case True
    have "rt_xid p \<noteq> x" if "p \<in> set w" for p using Cons.prems(2) True that by (metis distinct.simps(2) image_eqI list.simps(9) set_map)
    then show ?thesis using Cons.prems(1) True by auto
  next
    case False
    then show ?thesis using Cons by auto
  qed
qed (simp add: reply_t_new_def)

lemma seq_inv_window_distinct:
  assumes "seq_inv fe n k a" "srv_windows a n = Some w"
  shows "distinct (map rt_xid w)"
proof -
  obtain m fin where m: "Suc k < 2 ^ 32" "m = k \<or> Suc m = k \<and> (m < seq_first fe \<or> fin)" "seq_window (seq_first fe) m fin w"
    using assms(1) [unfolded seq_inv_def assms(2) option.case] by blast
  have "(of_nat (m - 1) :: u32) \<noteq> of_nat m" if "m \<noteq> 0" using that u32_of_nat_eq [of "m - 1" m] m(1,2) by auto
  then show ?thesis using m(3) by (auto simp: seq_window_def seq_first_def split: if_splits)
qed

lemma split_nth: "i < length xs \<Longrightarrow> xs = take i xs @ xs ! i # drop (Suc i) xs"
  by (simp add: id_take_nth_drop)

lemma filter_del_at: "i < length xs \<Longrightarrow> \<not> P (xs ! i) \<Longrightarrow> filter P (del_at i xs) = filter P xs"
  by (subst (2) split_nth [of i xs]) (simp_all add: del_at_def)

lemma filter_del_at_only:
  assumes "i < length xs" "filter P xs = [xs ! i]" "P (xs ! i)"
  shows "filter P (del_at i xs) = []"
proof -
  have "filter P (take i xs) @ xs ! i # filter P (drop (Suc i) xs) = [xs ! i]"
    using assms split_nth [OF assms(1)] by (metis filter.simps(2) filter_append)
  then show ?thesis by (auto simp: del_at_def append_eq_Cons_conv)
qed

lemma set_del_at: "set (del_at i xs) \<subseteq> set xs"
  by (auto simp: del_at_def dest: in_set_takeD in_set_dropD)

lemma in_del_at: "x \<in> set xs \<Longrightarrow> x \<noteq> xs ! i \<Longrightarrow> i < length xs \<Longrightarrow> x \<in> set (del_at i xs)"
  using split_nth [of i xs] by (metis Un_iff del_at_def list.set_intros(2) set_ConsD set_append)

lemma run_ok_nonce: "run_ok S enc sn nonce owner hs qs a (f, h, req, k) \<Longrightarrow> rq_clt_nonce h = nonce (owner k)"
  by (auto simp: run_ok_def hdr_of_def)

text \<open>A client has at most one running request.\<close>

lemma run_alone:
  assumes inv: "srv_inv fe S enc sn nonce owner hs sinv qs s es run" and "inj nonce" "i < length run" "run ! i = (f, h, req, k)"
  shows "filter (\<lambda>e. fst (run_key e) = nonce (owner k)) run = [run ! i]"
proof -
  let ?n = "nonce (owner k)" and ?a = "srv_abs nonce (reply_window s) es run"
  let ?l = "filter (\<lambda>e. fst (run_key e) = nonce (owner k)) run"
  obtain m where m: "distinct (client_execs ?n ?a)" "\<And>xid. has_reply ?n xid False ?a \<Longrightarrow> xid = of_nat m"
    using seq_inv_execs [OF srv_invD(5) [OF inv, of "owner k"]] by metis
  have x: "snd (run_key e) = of_nat m" if "e \<in> set ?l" for e
  proof -
    obtain f' h' req' k' where e: "e = (f', h', req', k')" by (cases e) auto
    have ok: "run_ok S enc sn nonce owner hs qs ?a (f', h', req', k')" using srv_invD(7) [OF inv, of e] that e by simp
    then have "has_reply ?n (rq_xid h') False ?a"
      using that e run_ok_nonce [OF ok] by (auto simp: run_ok_def run_key_def)
    then show ?thesis using m(2) e by (auto simp: run_key_def)
  qed
  have "distinct (map (snd \<circ> run_key) ?l)" using m(1) by (simp add: client_execs_abs [OF assms(2)])
  moreover have "map (snd \<circ> run_key) ?l = replicate (length ?l) (of_nat m)"
    unfolding map_replicate_const [symmetric] by (rule map_cong [OF refl]) (simp only: comp_apply x)
  ultimately have "length ?l \<le> 1" by (cases "length ?l"; cases "length ?l - 1") auto
  moreover have "run ! i \<in> set ?l"
    using assms(4) nth_mem [OF assms(3)] srv_invD(7) [OF inv, of "run ! i"] run_ok_nonce [of S enc sn nonce owner hs qs ?a f h req k]
    by (auto simp: run_key_def)
  ultimately show ?thesis by (cases ?l) auto
qed

text \<open>The log grows by one.\<close>

lemma log_of_snoc: "log_of c (es @ [(d, xid, b, res)]) = log_of c es @ (if d = c then [xid] else [])"
  by (simp add: log_of_def)

lemma kept_ok_mono: "kept_ok c nq es r \<Longrightarrow> nq \<le> nq' \<Longrightarrow> set es \<subseteq> set es' \<Longrightarrow> kept_ok c nq' es' r"
  unfolding kept_ok_def by (meson less_le_trans subsetD)

lemma execute_seq:
  assumes inv: "srv_inv fe S enc sn nonce owner hs sinv qs s es run" and "inj nonce" "i < length run" "run ! i = (f, h, req, k)"
    and "ws = add_reply (nonce (owner k)) (rq_xid h) rb sz (reply_window s)"
  shows "seq_inv fe (nonce d) (length (qs d)) (srv_abs nonce ws (es @ [(owner k, rq_xid h, b, res)]) (del_at i run))"
    (is "seq_inv _ _ _ ?b")
proof -
  let ?a = "srv_abs nonce (reply_window s) es run"
  have ok: "run_ok S enc sn nonce owner hs qs ?a (f, h, req, k)"
    using srv_invD(7) [OF inv, of "run ! i"] assms(3,4) by (metis nth_mem)
  have key: "run_key (run ! i) = (nonce (owner k), rq_xid h)" using run_ok_nonce [OF ok] assms(4) by (simp add: run_key_def)
  show ?thesis
  proof (cases "d = owner k")
    case True
    have fin: "seq_inv fe (nonce d) (length (qs d)) (?a\<lparr>srv_windows := ws\<rparr>)"
      using seq_finish [OF srv_invD(5) [OF inv, of d], of "rq_xid h" rb sz] ok True assms(5) by (auto simp: run_ok_def srv_abs_def)
    have only: "filter (\<lambda>e. fst (run_key e) = nonce d) run = [run ! i]" using run_alone [OF assms(1-4)] True by simp
    have "client_execs (nonce d) ?b = client_execs (nonce d) ?a"
      unfolding client_execs_abs [OF assms(2)] only filter_del_at_only [OF assms(3) only key [THEN arg_cong, of fst, simplified True [symmetric], simplified]]
      using True key by (simp add: log_of_snoc)
    then show ?thesis by (intro seq_inv_cong [OF fin]) (simp_all add: srv_abs_def client_execs_def)
  next
    case False
    then have n: "nonce d \<noteq> nonce (owner k)" using assms(2) by (auto dest: injD)
    then have "filter (\<lambda>e. fst (run_key e) = nonce d) (del_at i run) = filter (\<lambda>e. fst (run_key e) = nonce d) run"
      using key by (intro filter_del_at [OF assms(3)]) simp
    then have "client_execs (nonce d) ?b = client_execs (nonce d) ?a"
      unfolding client_execs_abs [OF assms(2)] using False by (simp add: log_of_snoc)
    then show ?thesis using n assms(5) by (intro seq_inv_cong [OF srv_invD(5) [OF inv, of d]]) (simp_all add: srv_abs_def add_reply_def)
  qed
qed

lemma execute_windows:
  assumes inv: "srv_inv fe S enc sn nonce owner hs sinv qs s es run" and "inj nonce" "i < length run" "run ! i = (f, h, req, k)"
    and "ws = add_reply (nonce (owner k)) (rq_xid h) rb sz (reply_window s)"
    and "set es \<subseteq> set es'" "(owner k, rq_xid h, b, res) \<in> set es'" "reply_packet \<lparr>rp_xid = rq_xid h, rp_ret = b\<rparr> res rb"
    and "j < length (qs (owner k))" "rq_xid h = of_nat (Suc j)"
  shows "windows_inv nonce (\<lambda>c. length (qs c)) ws es' (del_at i run)"
proof -
  let ?a = "srv_abs nonce (reply_window s) es run" and ?c = "owner k"
  note old = windows_invD [OF srv_invD(6) [OF inv]]
  have ok: "run_ok S enc sn nonce owner hs qs ?a (f, h, req, k)"
    using srv_invD(7) [OF inv, of "run ! i"] assms(3,4) by (metis nth_mem)
  obtain w where w: "reply_window s (nonce ?c) = Some w" using ok by (auto simp: run_ok_def has_reply_iff srv_abs_def)
  have ws: "ws = (reply_window s)(nonce ?c \<mapsto> set_reply (rq_xid h) rb sz w)" using assms(5) w by (simp add: add_reply_def)
  have dist: "distinct (map rt_xid w)"
    using seq_inv_window_distinct [OF srv_invD(5) [OF inv, of ?c]] w by (simp add: srv_abs_def)
  have elem: "d \<noteq> ?c \<and> reply_window s (nonce d) = Some v \<or> d = ?c \<and> (r \<in> set w \<and> rt_xid r \<noteq> rq_xid h \<or>
      rt_xid r = rq_xid h \<and> rt_cb_present r \<and> rt_buf r = rb)" if "ws (nonce d) = Some v" "r \<in> set v" for d v r
    using that ws set_reply_elems [OF _ dist, of r "rq_xid h" rb sz] assms(2)
    by (cases "d = ?c") (auto simp: inj_eq)
  show ?thesis
  proof (rule windows_invI)
    fix d v r assume v: "ws (nonce d) = Some v" "r \<in> set v" "rt_cb_present r"
    from elem [OF v(1,2)] show "kept_ok d (length (qs d)) es' r"
    proof (elim disjE conjE)
      assume "d = ?c" "rt_xid r = rq_xid h" "rt_buf r = rb"
      then show ?thesis using assms(7-10) unfolding kept_ok_def
        by (intro exI [of _ j] exI [of _ b] exI [of _ res]) (simp del: of_nat_Suc)
    qed (use old(1) v w kept_ok_mono [OF _ order_refl assms(6)] in blast)+
  next
    fix d v r assume v: "ws (nonce d) = Some v" "r \<in> set v" "\<not> rt_cb_present r"
    have "d \<noteq> ?c"
    proof
      assume "d = ?c"
      then have r: "r \<in> set w" "rt_xid r \<noteq> rq_xid h" using elem [OF v(1,2)] v(3) by auto
      have "has_reply (nonce ?c) (rt_xid r) False ?a" "has_reply (nonce ?c) (rq_xid h) False ?a"
        using r(1) v(3) w ok by (auto simp: has_reply_iff srv_abs_def run_ok_def)
      then show False using seq_inv_execs [OF srv_invD(5) [OF inv, of ?c]] r(2) by metis
    qed
    then have n: "(nonce d, rt_xid r) \<in> run_key ` set run" "nonce d \<noteq> nonce ?c"
      using elem [OF v(1,2)] old(2) v(2,3) assms(2) by (auto dest: injD)
    then obtain e where e: "e \<in> set run" "run_key e = (nonce d, rt_xid r)" by auto
    have "fst (run_key (run ! i)) = nonce ?c" using run_ok_nonce [OF ok] assms(4) by (simp add: run_key_def)
    then have "e \<noteq> run ! i" using e(2) n(2) by auto
    then have "e \<in> set (del_at i run)" by (rule in_del_at [OF e(1) _ assms(3)])
    then show "(nonce d, rt_xid r) \<in> run_key ` set (del_at i run)" using e(2) by (simp add: rev_image_eqI)
  qed
qed

section \<open>The log\<close>

definition log_ok :: "u32 \<Rightarrow> ('c \<Rightarrow> 'q rcall list) \<Rightarrow> ('c \<times> u32 \<times> cint \<times> byte list) list \<Rightarrow> bool" where
  "log_ok sn qs es =
     (\<forall>c xid b res. (c, xid, b, res) \<in> set es \<longrightarrow>
        (\<exists>j. xid = of_nat (Suc j) \<and> j < length (qs c) \<and> (qs c ! j = Bind \<longrightarrow> b = 0 \<and> res = enc_uint sn)))"

lemma unat_number: "Suc j < 2 ^ 32 \<Longrightarrow> unat (of_nat (Suc j) :: u32) - 1 = j"
  by (simp add: unat_of_nat del: of_nat_Suc)

lemma replay_snoc:
  assumes "replay sm qs es s = Some s1" "sm (qs c ! (unat xid - 1)) s1 = Inr (b, res, s2)"
  shows "replay sm qs (es @ [(c, xid, b, res)]) s = Some s2"
  using assms by (induction sm qs es s rule: replay.induct) (auto split: sum.splits if_splits)

lemma replay_calls:
  assumes "\<And>c xid b res. (c, xid, b, res) \<in> set es \<Longrightarrow> qs' c ! (unat xid - 1) = qs c ! (unat xid - 1)"
  shows "replay sm qs' es s = replay sm qs es s"
  using assms
proof (induction es arbitrary: s)
  case (Cons e es)
  obtain c xid b res where e: "e = (c, xid, b, res)" by (cases e) auto
  have "qs' c ! (unat xid - 1) = qs c ! (unat xid - 1)" using Cons.prems [of c xid b res] e by simp
  moreover have "replay sm qs' es s' = replay sm qs es s'" for s'
  proof (rule Cons.IH)
    fix c xid b res assume "(c, xid, b, res) \<in> set es"
    then have "(c, xid, b, res) \<in> set (e # es)" by simp
    then show "qs' c ! (unat xid - 1) = qs c ! (unat xid - 1)" by (rule Cons.prems)
  qed
  ultimately show ?case unfolding e by (simp split: sum.split)
qed simp

text \<open>The handlers that the server has: those of the service and \<open>bind\<close>.\<close>

definition with_bind :: "u32 \<Rightarrow> (u32 \<rightharpoonup> 's handler) \<Rightarrow> u32 \<rightharpoonup> 's handler" where
  "with_bind sn hs = hs(rpc_bind \<mapsto> h1_fn get_int put_int (rpcbind sn))"

context rpc_service
begin

lemma rcall_handler:
  assumes "with_bind sn handlers (rcall_proc S q) = Some f" "rcall_valid valid q" "u_at u (rcall_enc enc q)" "sinv s"
    and "f u (marshall_new mem) s = Inr (b, ret, s')"
  shows "rcall_sem sn sem q s = Inr (b, m_content ret, s') \<and> m_inv ret \<and> sinv s'"
proof (cases q)
  case Bind
  then have f: "f = h1_fn get_int put_int (rpcbind sn)" using assms(1) by (simp add: with_bind_def)
  have "rpcbind sn 0 s = Inr (0, sn, s)" by (simp add: rpcbind_def)
  then obtain ret' where "f u (marshall_new mem) s = Inr (0, ret', s)" "m_inv ret'" "m_content ret' = enc_uint sn"
    using bind_method.fn_exact [where u = u and a = 0 and meth = "rpcbind sn" and s = s and b = 0 and r = sn and s' = s and mem = mem]
      assms(3) f Bind by auto
  then show ?thesis using assms(4,5) Bind by simp
next
  case (Call p)
  then have "handlers (stub_proc S p) = Some f" using assms(1,2) not_bind [of p] by (simp add: with_bind_def)
  from handler_sem [OF this _ _ assms(4,5)] assms(2,3) Call show ?thesis by simp
qed

lemma execute_inv:
  assumes inv: "srv_inv fe S enc sn nonce owner (with_bind sn handlers) sinv qs s es run" and nonce: "inj nonce" "\<And>c. nonce c \<noteq> 0"
    and i: "i < length run" "run ! i = (f, h, req, k)"
    and run: "f req (marshall_new mem) (s_app s) = Inr (b, rep, app)" "m_ind rep < 2 ^ 32"
    and new: "dispatch_new dead f k h req (marshall_new mem) s = Inr (s', ev)"
    and calls: "\<And>c q. q \<in> set (qs c) \<Longrightarrow> rcall_valid valid q" "\<And>c. Suc (length (qs c)) < 2 ^ 32"
    and log: "log_ok sn qs es" "replay (rcall_sem sn sem) qs es app0 = Some (s_app s)"
    and es': "es' = es @ [(owner k, rq_xid h, b, m_content rep)]"
  shows "srv_inv fe S enc sn nonce owner (with_bind sn handlers) sinv qs s' es' (del_at i run) \<and> log_ok sn qs es' \<and>
    replay (rcall_sem sn sem) qs es' app0 = Some (s_app s') \<and>
    (\<forall>(k', b') \<in> set (srv_sends ev). rep_of (owner k') (length (qs (owner k'))) nr (outcomes fe es') b')"
proof -
  let ?a = "srv_abs nonce (reply_window s) es run" and ?c = "owner k"
  have ok: "run_ok S enc sn nonce owner (with_bind sn handlers) qs ?a (f, h, req, k)"
    using srv_invD(7) [OF inv, of "run ! i"] i by (metis nth_mem)
  obtain j where j: "hdr_of S sn (nonce ?c) (qs ?c) j h" "with_bind sn handlers (rq_proc h) = Some f" "u_at req (rcall_enc enc (qs ?c ! j))"
    using ok by (auto simp: run_ok_def)
  have h: "j < length (qs ?c)" "rq_xid h = of_nat (Suc j)" "rq_proc h = rcall_proc S (qs ?c ! j)" "rq_clt_nonce h = nonce ?c"
    using j(1) by (auto simp: hdr_of_def)
  have j32: "Suc j < 2 ^ 32" using h(1) calls(2) [of ?c] by simp
  have c: "rcall_sem sn sem (qs ?c ! j) (s_app s) = Inr (b, m_content rep, app)" "m_inv rep" "sinv app"
    using rcall_handler [where q = "qs ?c ! j" and f = f and u = req and s = "s_app s" and mem = mem and b = b and ret = rep and s' = app,
        OF _ _ j(3) srv_invD(3) [OF inv] run(1)] j(2) h(1,3) calls(1) [of "qs ?c ! j" ?c] by auto
  have n0: "rq_clt_nonce h \<noteq> 0" using h(4) nonce(2) by simp
  from new run(1) n0 show ?thesis
  proof (rule dispatch_new_cases)
    fix m a
    assume m: "pack_reply_header \<lparr>rp_xid = rq_xid h, rp_ret = b\<rparr> rep = Inr m"
      and s': "s_app s' = app" "procs s' = procs s" "s_nonce s' = s_nonce s" "conns s' = conns s"
      and ws: "reply_window s' = add_reply (rq_clt_nonce h) (rq_xid h) (m_bytes m) (length (m_bytes m)) (reply_window s)"
      and ev: "srv_sends ev = [(a, m_bytes m)]" "a = k \<or> conns s (rq_clt_nonce h) = Some a"
    have rb: "reply_packet \<lparr>rp_xid = rq_xid h, rp_ret = b\<rparr> (m_content rep) (m_bytes m)"
      using packed_reply_packet [OF c(2) refl run(2), of "\<lparr>rp_xid = rq_xid h, rp_ret = b\<rparr>"] m by auto
    have es: "set es \<subseteq> set es'" "(?c, rq_xid h, b, m_content rep) \<in> set es'" using es' by auto
    note ws' = ws [unfolded h(4)]
    have "srv_inv fe S enc sn nonce owner (with_bind sn handlers) sinv qs s' es' (del_at i run)"
    proof (rule srv_invI)
      show "seq_inv fe (nonce d) (length (qs d)) (srv_abs nonce (reply_window s') es' (del_at i run))" for d
        unfolding es' by (rule execute_seq [OF inv nonce(1) i ws'])
      show "windows_inv nonce (\<lambda>c. length (qs c)) (reply_window s') es' (del_at i run)"
        by (rule execute_windows [OF inv nonce(1) i ws' es rb h(1,2)])
      show "run_ok S enc sn nonce owner (with_bind sn handlers) qs (srv_abs nonce (reply_window s') es' (del_at i run)) e"
        if e: "e \<in> set (del_at i run)" for e
      proof -
        obtain f' h' u' k' where e': "e = (f', h', u', k')" by (cases e) auto
        have old: "run_ok S enc sn nonce owner (with_bind sn handlers) qs ?a (f', h', u', k')"
          using srv_invD(7) [OF inv, of e] e e' set_del_at [of i run] by auto
        have "filter (\<lambda>e. fst (run_key e) = nonce ?c) (del_at i run) = []"
          using filter_del_at_only [OF i(1) run_alone [OF inv nonce(1) i]] i(2) h(4) by (simp add: run_key_def)
        then have "nonce (owner k') \<noteq> nonce ?c" using e e' run_ok_nonce [OF old] by (auto simp: filter_empty_conv run_key_def)
        then show ?thesis unfolding e' using ws'
          by (intro run_ok_has_reply [OF old]) (simp add: has_reply_iff srv_abs_def add_reply_def)
      qed
    qed (use s' c(3) srv_invD(1,2,4) [OF inv] in auto)
    moreover have "log_ok sn qs es'"
      using log(1) c(1) h(1,2) unfolding log_ok_def es' by (auto simp del: of_nat_Suc)
    moreover have "replay (rcall_sem sn sem) qs es' app0 = Some (s_app s')"
      unfolding es' s'(1) by (rule replay_snoc [OF log(2)]) (unfold h(2) unat_number [OF j32], rule c(1))
    moreover have "owner a = ?c" using ev(2) srv_invD(4) [OF inv] h(4) nonce(1) by (auto dest: injD)
    then have "\<forall>(k', b') \<in> set (srv_sends ev). rep_of (owner k') (length (qs (owner k'))) nr (outcomes fe es') b'"
      using ev(1) rb es(2) h(1,2) unfolding rep_of_def outcomes_def by (auto simp del: of_nat_Suc)
    ultimately show ?thesis by blast
  qed
qed

end

end
