(* ===== verification/Rpc_Exactly_Once.thy ===== *)
theory Rpc_Exactly_Once
  imports Rpc_Dispatch_Inv
begin

text \<open>
  The invariant of the whole RPC system of theory \<open>Rpc_System\<close>, and what it shows: every call of a client
  with one call at a time is executed exactly once, in order, and returns the result of its execution.
\<close>

section \<open>The system\<close>

definition sys_calls :: "('c, 'q, 's) rpc_sys \<Rightarrow> 'c \<Rightarrow> 'q rcall list" where
  "sys_calls y c = rc_calls (ry_clt y c)"

definition sys_req :: "'q stub \<Rightarrow> ('q \<Rightarrow> byte list) \<Rightarrow> u32 \<Rightarrow> ('c \<Rightarrow> u32) \<Rightarrow> (conn \<Rightarrow> 'c) \<Rightarrow> ('c, 'q, 's) rpc_sys \<Rightarrow>
    conn \<Rightarrow> byte list \<Rightarrow> bool" where
  "sys_req S enc sn nonce owner y k b = req_of S enc sn (nonce (owner k)) (sys_calls y (owner k)) b"

definition sys_rep :: "u32 \<Rightarrow> (conn \<Rightarrow> 'c) \<Rightarrow> ('c, 'q, 's) rpc_sys \<Rightarrow> conn \<Rightarrow> byte list \<Rightarrow> bool" where
  "sys_rep fe owner y k b =
     rep_of (owner k) (length (sys_calls y (owner k))) (length (rc_rets (ry_clt y (owner k)))) (outcomes fe (ry_log y)) b"

definition net_inv :: "u32 \<Rightarrow> 'q stub \<Rightarrow> ('q \<Rightarrow> byte list) \<Rightarrow> u32 \<Rightarrow> ('c \<Rightarrow> u32) \<Rightarrow> (conn \<Rightarrow> 'c) \<Rightarrow> ('c, 'q, 's) rpc_sys \<Rightarrow> bool" where
  "net_inv fe S enc sn nonce owner y =
     ((\<forall>k. link_carries (sys_req S enc sn nonce owner y k) (ry_up y k)) \<and>
      (\<forall>k. link_carries (sys_rep fe owner y k) (ry_down y k)) \<and>
      (\<forall>j \<in> set (ry_jobs y). dj_sz j = length (dj_buf j) \<and> sys_req S enc sn nonce owner y (dj_conn j) (dj_buf j)) \<and>
      (\<forall>k b. (k, b) \<in> set (ry_sends y) \<longrightarrow> sys_rep fe owner y k b))"

definition rpc_inv :: "u32 \<Rightarrow> 'q stub \<Rightarrow> ('q \<Rightarrow> byte list) \<Rightarrow> ('q \<Rightarrow> bool) \<Rightarrow> u32 \<Rightarrow> ('c \<Rightarrow> u32) \<Rightarrow> (conn \<Rightarrow> 'c) \<Rightarrow> (u32 \<rightharpoonup> 's handler) \<Rightarrow>
    ('s \<Rightarrow> bool) \<Rightarrow> ('q \<Rightarrow> 's \<Rightarrow> (cint \<times> byte list \<times> 's) result) \<Rightarrow> 's \<Rightarrow> ('c, 'q, 's) rpc_sys \<Rightarrow> bool" where
  "rpc_inv fe S enc valid sn nonce owner hs sinv sem app0 y =
     ((\<forall>c. clt_inv S enc valid sn (nonce c) owner c (outcomes fe (ry_log y)) (ry_clt y c)) \<and>
      srv_inv fe S enc sn nonce owner hs sinv (sys_calls y) (ry_srv y) (ry_log y) (ry_run y) \<and>
      log_ok sn (sys_calls y) (ry_log y) \<and>
      replay (rcall_sem sn sem) (sys_calls y) (ry_log y) app0 = Some (s_app (ry_srv y)) \<and>
      net_inv fe S enc sn nonce owner y)"

text \<open>What is on the network stays right when calls, results and log grow.\<close>

definition grows :: "('c, 'q, 's) rpc_sys \<Rightarrow> ('c, 'q, 's) rpc_sys \<Rightarrow> bool" where
  "grows y y' =
     (set (ry_log y) \<subseteq> set (ry_log y') \<and>
      (\<forall>c. prefix (sys_calls y c) (sys_calls y' c) \<and> length (rc_rets (ry_clt y c)) \<le> length (rc_rets (ry_clt y' c))))"

lemma sys_req_grows: "grows y y' \<Longrightarrow> sys_req S enc sn nonce owner y k b \<Longrightarrow> sys_req S enc sn nonce owner y' k b"
  unfolding grows_def sys_req_def prefix_def by (metis req_of_append)

lemma outcomes_mono: "set es \<subseteq> set es' \<Longrightarrow> outcomes fe es \<subseteq> outcomes fe es'"
  by (auto simp: outcomes_def)

lemma sys_rep_grows: "grows y y' \<Longrightarrow> sys_rep fe owner y k b \<Longrightarrow> sys_rep fe owner y' k b"
  unfolding grows_def sys_rep_def by (meson prefix_length_le rep_of_mono outcomes_mono)

lemma net_inv_grows:
  assumes "net_inv fe S enc sn nonce owner y" "grows y y'"
    and "\<And>k. link_carries (sys_req S enc sn nonce owner y' k) (ry_up y k) \<Longrightarrow> link_carries (sys_req S enc sn nonce owner y' k) (ry_up y' k)"
    and "\<And>k. link_carries (sys_rep fe owner y' k) (ry_down y k) \<Longrightarrow> link_carries (sys_rep fe owner y' k) (ry_down y' k)"
    and "\<And>j. j \<in> set (ry_jobs y') \<Longrightarrow> j \<in> set (ry_jobs y) \<or>
      dj_sz j = length (dj_buf j) \<and> sys_req S enc sn nonce owner y' (dj_conn j) (dj_buf j)"
    and "\<And>k b. (k, b) \<in> set (ry_sends y') \<Longrightarrow> (k, b) \<in> set (ry_sends y) \<or> sys_rep fe owner y' k b"
  shows "net_inv fe S enc sn nonce owner y'"
proof -
  note old = assms(1) [unfolded net_inv_def] and q = sys_req_grows [OF assms(2), of S enc sn nonce owner] and p = sys_rep_grows [OF assms(2), of fe owner]
  have "link_carries (sys_req S enc sn nonce owner y' k) (ry_up y' k)" for k
    by (rule assms(3), rule link_carries_mono [where P = "sys_req S enc sn nonce owner y k"]) (use old q in blast)+
  moreover have "link_carries (sys_rep fe owner y' k) (ry_down y' k)" for k
    by (rule assms(4), rule link_carries_mono [where P = "sys_rep fe owner y k"]) (use old p in blast)+
  ultimately show ?thesis unfolding net_inv_def using old q p assms(5,6) by blast
qed

lemma set_clt_sel [simp]:
  "ry_srv (set_clt c x y) = ry_srv y" "ry_up (set_clt c x y) = ry_up y" "ry_down (set_clt c x y) = ry_down y"
  "ry_jobs (set_clt c x y) = ry_jobs y" "ry_run (set_clt c x y) = ry_run y" "ry_sends (set_clt c x y) = ry_sends y"
  "ry_log (set_clt c x y) = ry_log y" "ry_clt (set_clt c x y) = (ry_clt y)(c := x)"
  by (simp_all add: set_clt_def)

text \<open>A step of a client that keeps its calls.\<close>

lemma client_step_inv:
  assumes "rpc_inv fe S enc valid sn nonce owner hs sinv sem app0 y"
    and "clt_inv S enc valid sn (nonce c) owner c (outcomes fe (ry_log y)) x" "rc_calls x = rc_calls (ry_clt y c)"
    and "length (rc_rets (ry_clt y c)) \<le> length (rc_rets x)"
  shows "rpc_inv fe S enc valid sn nonce owner hs sinv sem app0 (set_clt c x y)"
proof -
  have calls: "sys_calls (set_clt c x y) = sys_calls y" using assms(3) by (auto simp: sys_calls_def)
  have "net_inv fe S enc sn nonce owner y" using assms(1) by (simp add: rpc_inv_def)
  moreover have "grows y (set_clt c x y)" using assms(4) calls by (simp add: grows_def)
  ultimately have "net_inv fe S enc sn nonce owner (set_clt c x y)" by (rule net_inv_grows) simp_all
  moreover have "clt_inv S enc valid sn (nonce d) owner d (outcomes fe (ry_log y)) (ry_clt (set_clt c x y) d)" for d
    using assms(1,2) by (simp add: rpc_inv_def)
  ultimately show ?thesis using assms(1) calls by (simp add: rpc_inv_def)
qed

lemma link_step_inv:
  assumes "rpc_inv fe S enc valid sn nonce owner hs sinv sem app0 y"
  shows "link_carries (sys_req S enc sn nonce owner y k) l \<Longrightarrow>
      rpc_inv fe S enc valid sn nonce owner hs sinv sem app0 (y\<lparr>ry_up := (ry_up y)(k := l)\<rparr>)"
    and "link_carries (sys_rep fe owner y k) l \<Longrightarrow>
      rpc_inv fe S enc valid sn nonce owner hs sinv sem app0 (y\<lparr>ry_down := (ry_down y)(k := l)\<rparr>)"
  using assms by (auto simp: rpc_inv_def net_inv_def sys_calls_def [abs_def] sys_req_def [abs_def] sys_rep_def [abs_def])

text \<open>A client that has no running call has the reply of its last one, so the server keeps that reply.\<close>

lemma last_call_replied:
  assumes inv: "srv_inv fe S enc sn nonce owner hs sinv qs s es run" and "inj nonce"
    and "rets_ok c (outcomes fe es) rets" "length rets = length (qs c)" "seq_first fe \<le> length (qs c)"
  shows "has_reply (nonce c) (of_nat (length (qs c))) True (srv_abs nonce (reply_window s) es run)"
proof -
  let ?k = "length (qs c)" and ?a = "srv_abs nonce (reply_window s) es run"
  let ?run = "map (snd \<circ> run_key) (filter (\<lambda>e. fst (run_key e) = nonce c) run)"
  obtain m where m: "client_execs (nonce c) ?a = map of_nat [seq_first fe..<Suc m]" "m \<le> ?k" "?k < 2 ^ 32" "distinct (client_execs (nonce c) ?a)"
      "seq_first fe \<le> m \<Longrightarrow> \<exists>p. has_reply (nonce c) (of_nat m) p ?a"
    using seq_inv_execs [OF srv_invD(5) [OF inv, of c]] by metis
  obtain k' where k': "?k = Suc k'" using assms(5) by (cases ?k) (auto simp: seq_first_def)
  then have "k' < length rets" using assms(4) by simp
  then obtain b u res where "(c, of_nat (Suc k'), b, res) \<in> outcomes fe es" using assms(3) unfolding rets_ok_def by blast
  moreover have "\<not> of_nat (Suc k') < fe" using seq_first_less [OF m(3), of fe] assms(5) k' by (simp del: of_nat_Suc)
  ultimately have "(c, of_nat (Suc k'), b, res) \<in> set es" by (simp add: outcomes_def refused_def del: of_nat_Suc)
  then have log: "of_nat ?k \<in> set (log_of c es)"
    unfolding k' log_of_def set_map set_filter by (intro image_eqI [of _ _ "(c, of_nat (Suc k'), b, res)"]) (simp_all del: of_nat_Suc)
  then have "of_nat ?k \<in> set (client_execs (nonce c) ?a)" by (simp add: client_execs_abs [OF assms(2)])
  then have "(of_nat ?k :: u32) \<in> of_nat ` {seq_first fe..<Suc m}" unfolding m(1) by (simp only: set_map set_upt)
  then obtain i where i: "(of_nat ?k :: u32) = of_nat i" "i \<in> {seq_first fe..<Suc m}" by (rule imageE)
  then have k: "m = ?k" using u32_of_nat_eq [of ?k i] m(2,3) by auto
  then obtain w r where w: "reply_window s (nonce c) = Some w" "r \<in> set w" "rt_xid r = of_nat ?k"
    using m(5) assms(5) by (auto simp: has_reply_iff srv_abs_def)
  have "rt_cb_present r"
  proof (rule ccontr)
    assume "\<not> rt_cb_present r"
    then have "(nonce c, of_nat ?k) \<in> run_key ` set run" using windows_invD(2) [OF srv_invD(6) [OF inv] w(1,2)] w(3) by simp
    then obtain e where "e \<in> set run" "run_key e = (nonce c, of_nat ?k)" by auto
    then have "of_nat ?k \<in> set ?run" unfolding set_map set_filter by (intro image_eqI [of _ _ e]) simp_all
    then show False using log m(4) by (auto simp: client_execs_abs [OF assms(2)])
  qed
  then show ?thesis using w by (auto simp: has_reply_iff srv_abs_def)
qed

text \<open>The server does not mind new calls.\<close>

lemma srv_inv_call:
  assumes inv: "srv_inv fe S enc sn nonce owner hs sinv qs s es run" and "inj nonce"
    and "rets_ok c (outcomes fe es) rets" "length rets = length (qs c)" "Suc (length (qs c)) < 2 ^ 32 - 1"
  shows "srv_inv fe S enc sn nonce owner hs sinv (qs(c := qs c @ [q])) s es run"
proof (rule srv_invI)
  let ?qs = "qs(c := qs c @ [q])"
  have pre: "\<exists>xs. ?qs d = qs d @ xs" for d by simp
  show "seq_inv fe (nonce d) (length (?qs d)) (srv_abs nonce (reply_window s) es run)" for d
  proof (cases "d = c")
    case True
    then show ?thesis
      using seq_issue [OF srv_invD(5) [OF inv, of c]] last_call_replied [OF inv assms(2-4)] assms(5) by fastforce
  qed (use srv_invD(5) [OF inv, of d] in simp)
  show "windows_inv nonce (\<lambda>c. length (?qs c)) (reply_window s) es run"
  proof (rule windows_invI)
    fix d w r assume w: "reply_window s (nonce d) = Some w" "r \<in> set w"
    show "kept_ok d (length (?qs d)) es r" if "rt_cb_present r"
      by (rule kept_ok_mono [OF windows_invD(1) [OF srv_invD(6) [OF inv] w that]]) simp_all
    show "(nonce d, rt_xid r) \<in> run_key ` set run" if "\<not> rt_cb_present r"
      by (rule windows_invD(2) [OF srv_invD(6) [OF inv] w that])
  qed
  show "run_ok S enc sn nonce owner hs ?qs (srv_abs nonce (reply_window s) es run) e" if e: "e \<in> set run" for e
  proof -
    obtain f h req k where e': "e = (f, h, req, k)" by (cases e) auto
    obtain xs where xs: "?qs (owner k) = qs (owner k) @ xs" using pre by blast
    obtain j where j: "hdr_of S sn (nonce (owner k)) (qs (owner k)) j h" "hs (rq_proc h) = Some f"
        "u_at req (rcall_enc enc (qs (owner k) ! j))" "has_reply (nonce (owner k)) (rq_xid h) False (srv_abs nonce (reply_window s) es run)"
      using srv_invD(7) [OF inv e] e' by (auto simp: run_ok_def)
    then have "j < length (qs (owner k))" by (simp add: hdr_of_def)
    then show ?thesis unfolding e' run_ok_def prod.case xs
      using j hdr_of_append [OF j(1)] by (intro exI [of _ j]) (simp add: nth_append)
  qed
qed (use srv_invD [OF inv] in auto)

lemma log_ok_call:
  assumes "log_ok sn qs es"
  shows "log_ok sn (qs(c := qs c @ [q])) es"
  unfolding log_ok_def
proof (intro allI impI)
  fix d xid b res assume "(d, xid, b, res) \<in> set es"
  then obtain j where j: "xid = of_nat (Suc j)" "j < length (qs d)" "qs d ! j = Bind \<longrightarrow> b = 0 \<and> res = enc_uint sn"
    using assms unfolding log_ok_def by blast
  then show "\<exists>j. xid = of_nat (Suc j) \<and> j < length ((qs(c := qs c @ [q])) d) \<and>
      ((qs(c := qs c @ [q])) d ! j = Bind \<longrightarrow> b = 0 \<and> res = enc_uint sn)"
    by (intro exI [of _ j]) (auto simp: nth_append simp del: of_nat_Suc)
qed

lemma replay_call:
  assumes "log_ok sn qs es" "\<And>d. Suc (length (qs d)) < 2 ^ 32"
  shows "replay sm (qs(c := qs c @ [q])) es s = replay sm qs es s"
proof (rule replay_calls)
  fix d xid b res assume "(d, xid, b, res) \<in> set es"
  then obtain j where j: "xid = of_nat (Suc j)" "j < length (qs d)" using assms(1) unfolding log_ok_def by blast
  then have "unat xid - 1 = j" using unat_number [of j] assms(2) [of d] by simp
  then show "(qs(c := qs c @ [q])) d ! (unat xid - 1) = qs d ! (unat xid - 1)" using j(2) by (auto simp: nth_append)
qed

text \<open>New jobs, sent replies and \<open>s_reachable\<close>.\<close>

lemma server_net_inv:
  assumes "rpc_inv fe S enc valid sn nonce owner hs sinv sem app0 y"
  shows "\<forall>j \<in> set js. dj_sz j = length (dj_buf j) \<and> sys_req S enc sn nonce owner y (dj_conn j) (dj_buf j) \<Longrightarrow>
      rpc_inv fe S enc valid sn nonce owner hs sinv sem app0 (y\<lparr>ry_jobs := ry_jobs y @ js\<rparr>)"
    and "rpc_inv fe S enc valid sn nonce owner hs sinv sem app0 (y\<lparr>ry_sends := del_at i (ry_sends y)\<rparr>)"
    and "rpc_inv fe S enc valid sn nonce owner hs sinv sem app0 (y\<lparr>ry_srv := (ry_srv y)\<lparr>s_reachable := r\<rparr>\<rparr>)"
proof -
  note d = rpc_inv_def net_inv_def sys_calls_def [abs_def] sys_req_def [abs_def] sys_rep_def [abs_def]
  show "rpc_inv fe S enc valid sn nonce owner hs sinv sem app0 (y\<lparr>ry_jobs := ry_jobs y @ js\<rparr>)"
    if "\<forall>j \<in> set js. dj_sz j = length (dj_buf j) \<and> sys_req S enc sn nonce owner y (dj_conn j) (dj_buf j)"
    using assms that unfolding d by auto
  show "rpc_inv fe S enc valid sn nonce owner hs sinv sem app0 (y\<lparr>ry_sends := del_at i (ry_sends y)\<rparr>)"
    using assms set_del_at [of i "ry_sends y"] unfolding d by auto
  show "rpc_inv fe S enc valid sn nonce owner hs sinv sem app0 (y\<lparr>ry_srv := (ry_srv y)\<lparr>s_reachable := r\<rparr>\<rparr>)"
    using assms unfolding d srv_inv_def Let_def by simp
qed

lemma send_step_inv:
  assumes inv: "rpc_inv fe S enc valid sn nonce owner hs sinv sem app0 y" and out: "rc_out (ry_clt y c) = (k, b) # out"
    and l: "link_step (K_send rnd b (int (length b)) ch) (ry_up y k) = Some (Inr l)"
  shows "rpc_inv fe S enc valid sn nonce owner hs sinv sem app0
    (set_clt c ((ry_clt y c)\<lparr>rc_out := out\<rparr>) (y\<lparr>ry_up := (ry_up y)(k := l)\<rparr>))"
proof -
  have c: "clt_inv S enc valid sn (nonce c) owner c (outcomes fe (ry_log y)) (ry_clt y c)" using inv by (simp add: rpc_inv_def)
  note s = sent_inv [OF c out]
  have "link_carries (sys_req S enc sn nonce owner y k) (ry_up y k)" using inv by (simp add: rpc_inv_def net_inv_def)
  from link_carries_send [OF this l] s have "link_carries (sys_req S enc sn nonce owner y k) l"
    by (simp add: sys_req_def sys_calls_def req_of_frame)
  from link_step_inv(1) [OF inv this] show ?thesis by (rule client_step_inv) (use s in simp_all)
qed

lemma answer_step_inv:
  assumes inv: "rpc_inv fe S enc valid sn nonce owner hs sinv sem app0 y" and i: "i < length (ry_sends y)" "ry_sends y ! i = (k, b)"
    and l: "link_step (K_send rnd b (int (length b)) ch) (ry_down y k) = Some (Inr l)"
  shows "rpc_inv fe S enc valid sn nonce owner hs sinv sem app0 (y\<lparr>ry_down := (ry_down y)(k := l), ry_sends := del_at i (ry_sends y)\<rparr>)"
proof -
  have net: "net_inv fe S enc sn nonce owner y" using inv by (simp add: rpc_inv_def)
  then have "sys_rep fe owner y k b" using nth_mem [OF i(1)] i(2) by (simp add: net_inv_def)
  moreover have "link_carries (sys_rep fe owner y k) (ry_down y k)" using net by (simp add: net_inv_def)
  ultimately have "link_carries (sys_rep fe owner y k) l"
    using link_carries_send [OF _ l] by (simp add: sys_rep_def rep_of_frame)
  from server_net_inv(2) [OF link_step_inv(2) [OF inv this], of i] show ?thesis by simp
qed

lemma request_step_inv:
  assumes inv: "rpc_inv fe S enc valid sn nonce owner hs sinv sem app0 y"
    and l: "link_step (K_read taken ch1 ch2) (ry_up y k) = Some (Inr l)"
    and js: "js = [] \<or> js = map (\<lambda>b. \<lparr>dj_buf = b, dj_sz = length b, dj_conn = k\<rparr>) (new_got (ry_up y k) l)"
  shows "rpc_inv fe S enc valid sn nonce owner hs sinv sem app0 (y\<lparr>ry_up := (ry_up y)(k := l), ry_jobs := ry_jobs y @ js\<rparr>)"
proof -
  have "link_carries (sys_req S enc sn nonce owner y k) (ry_up y k)" using inv by (simp add: rpc_inv_def net_inv_def)
  note r = link_carries_read [OF this l]
  let ?y = "y\<lparr>ry_up := (ry_up y)(k := l)\<rparr>"
  have "\<forall>j \<in> set js. dj_sz j = length (dj_buf j) \<and> sys_req S enc sn nonce owner ?y (dj_conn j) (dj_buf j)"
    using js r(2) by (auto simp: sys_req_def sys_calls_def)
  from server_net_inv(1) [OF link_step_inv(1) [OF inv r(1)] this] show ?thesis by simp
qed

lemma reply_step_inv:
  assumes inv: "rpc_inv fe S enc valid sn nonce owner hs sinv sem app0 y"
    and l: "link_step (K_read True ch1 ch2) (ry_down y k) = Some (Inr l)"
    and r: "got_replies (new_got (ry_down y k) l) (rc_rpcc (ry_clt y (owner k))) = Inr r"
  shows "rpc_inv fe S enc valid sn nonce owner hs sinv sem app0
    (set_clt (owner k) ((ry_clt y (owner k))\<lparr>rc_rpcc := r\<rparr>) (y\<lparr>ry_down := (ry_down y)(k := l)\<rparr>))"
proof -
  have "link_carries (sys_rep fe owner y k) (ry_down y k)" using inv by (simp add: rpc_inv_def net_inv_def)
  note d = link_carries_read [OF this l]
  have c: "clt_inv S enc valid sn (nonce (owner k)) owner (owner k) (outcomes fe (ry_log y)) (ry_clt y (owner k))"
    using inv by (simp add: rpc_inv_def)
  have "clt_inv S enc valid sn (nonce (owner k)) owner (owner k) (outcomes fe (ry_log y)) ((ry_clt y (owner k))\<lparr>rc_rpcc := r\<rparr>)"
    by (rule got_replies_inv [OF c _ r]) (use d(2) in \<open>simp add: sys_rep_def sys_calls_def\<close>)
  then show ?thesis by (intro client_step_inv [OF link_step_inv(2) [OF inv d(1)]]) simp_all
qed

lemma bind_logged:
  assumes "rpc_inv fe S enc valid sn nonce owner hs sinv sem app0 y"
    and "(c, of_nat (length (rc_calls (ry_clt y c))), b, res) \<in> outcomes fe (ry_log y)" "last (rc_calls (ry_clt y c)) = Bind"
  shows "b = 0 \<and> res = enc_uint sn \<or> sint b < 0"
proof (cases "(c, of_nat (length (rc_calls (ry_clt y c))), b, res) \<in> set (ry_log y)")
  case False
  then show ?thesis using assms(2) by (simp add: outcomes_def refused_def atmostonce_failure_def)
next
  case True
  have "log_ok sn (sys_calls y) (ry_log y)" using assms(1) by (simp add: rpc_inv_def)
  then obtain j where j: "of_nat (length (rc_calls (ry_clt y c))) = (of_nat (Suc j) :: u32)" "j < length (rc_calls (ry_clt y c))"
      "rc_calls (ry_clt y c) ! j = Bind \<longrightarrow> b = 0 \<and> res = enc_uint sn"
    using True unfolding log_ok_def sys_calls_def by blast
  have "clt_ok S enc valid sn (nonce c) owner c (ry_clt y c)" using assms(1) by (simp add: rpc_inv_def clt_inv_def)
  then have "length (rc_calls (ry_clt y c)) < 2 ^ 32" using clt_okD(4) by fastforce
  then have "length (rc_calls (ry_clt y c)) = Suc j" using j(1,2) u32_of_nat_eq [of "length (rc_calls (ry_clt y c))" "Suc j"] by simp
  then have "last (rc_calls (ry_clt y c)) = rc_calls (ry_clt y c) ! j" using j(2) last_conv_nth [of "rc_calls (ry_clt y c)"] by fastforce
  then show ?thesis using j(3) assms(3) by simp
qed

lemma return_inv:
  assumes inv: "rpc_inv fe S enc valid sn nonce owner hs sinv sem app0 y" and step: "return_step (ry_clt y c) = Some x"
  shows "rpc_inv fe S enc valid sn nonce owner hs sinv sem app0 (set_clt c x y)"
proof -
  have c: "clt_inv S enc valid sn (nonce c) owner c (outcomes fe (ry_log y)) (ry_clt y c)" using inv by (simp add: rpc_inv_def)
  note x = return_step_inv [OF c step bind_logged [OF inv]]
  show ?thesis by (rule client_step_inv [OF inv]) (use x in simp_all)
qed

context rpc_service
begin

text \<open>The invariant of the system for this service.\<close>

lemma call_inv:
  assumes inv: "rpc_inv fe S enc valid sn nonce owner hs sinv sem app0 y" and "inj nonce"
    and step: "call_step S q now to mem (ry_clt y c) = Some x" "rcall_valid valid q"
  shows "rpc_inv fe S enc valid sn nonce owner hs sinv sem app0 (set_clt c x y)"
proof -
  let ?y = "set_clt c x y"
  have c: "clt_inv S enc valid sn (nonce d) owner d (outcomes fe (ry_log y)) (ry_clt y d)" for d using inv by (simp add: rpc_inv_def)
  note x = call_step_inv [OF c step]
  have calls: "sys_calls ?y = (sys_calls y)(c := sys_calls y c @ [q])" using x by (auto simp: sys_calls_def)
  have len: "Suc (length (sys_calls y d)) < 2 ^ 32 - 1" for d
    using c [of d] clt_okD(4) by (auto simp: clt_inv_def sys_calls_def)
  have rets: "rets_ok c (outcomes fe (ry_log y)) (rc_rets (ry_clt y c))" "length (rc_rets (ry_clt y c)) = length (sys_calls y c)"
    using c [of c] x by (auto simp: clt_inv_def cur_ok_def Let_def sys_calls_def)
  have "net_inv fe S enc sn nonce owner y" using inv by (simp add: rpc_inv_def)
  moreover have "grows y ?y" using x calls by (simp add: grows_def)
  ultimately have "net_inv fe S enc sn nonce owner ?y" by (rule net_inv_grows) simp_all
  moreover have "srv_inv fe S enc sn nonce owner hs sinv (sys_calls ?y) (ry_srv y) (ry_log y) (ry_run y)"
    unfolding calls by (rule srv_inv_call [where c = c and qs = "sys_calls y", OF _ assms(2) rets len])
      (use inv in \<open>simp add: rpc_inv_def\<close>)
  moreover have "log_ok sn (sys_calls ?y) (ry_log y)"
    unfolding calls by (rule log_ok_call) (use inv in \<open>simp add: rpc_inv_def\<close>)
  moreover have "replay (rcall_sem sn sem) (sys_calls ?y) (ry_log y) app0 = Some (s_app (ry_srv y))"
  proof -
    have "log_ok sn (sys_calls y) (ry_log y)" using inv by (simp add: rpc_inv_def)
    moreover have "Suc (length (sys_calls y d)) < 2 ^ 32" for d using len [of d] by simp
    ultimately have "replay (rcall_sem sn sem) (sys_calls ?y) (ry_log y) app0 = replay (rcall_sem sn sem) (sys_calls y) (ry_log y) app0"
      unfolding calls by (rule replay_call)
    then show ?thesis using inv by (simp add: rpc_inv_def)
  qed
  ultimately show ?thesis using c x by (simp add: rpc_inv_def)
qed

lemma rpc_dispatch_inv:
  assumes inv: "rpc_inv fe S enc valid sn nonce owner hs sinv sem app0 y" and nonce: "inj nonce" "\<And>c. nonce c \<noteq> 0"
    and i: "i < length (ry_jobs y)" and enter: "dispatch_enter fe mem compare (ry_jobs y ! i) (ry_srv y) = Inr (r, s, ev)"
    and y': "y' = y\<lparr>ry_srv := s, ry_jobs := del_at i (ry_jobs y), ry_sends := ry_sends y @ srv_sends ev,
      ry_run := ry_run y @ (case r of None \<Rightarrow> [] | Some (f, h, req) \<Rightarrow> [(f, h, req, dj_conn (ry_jobs y ! i))])\<rparr>"
  shows "rpc_inv fe S enc valid sn nonce owner hs sinv sem app0 y'"
proof -
  let ?j = "ry_jobs y ! i" let ?c = "owner (dj_conn ?j)"
  have net: "net_inv fe S enc sn nonce owner y" using inv by (simp add: rpc_inv_def)
  then have job: "dj_sz ?j = length (dj_buf ?j)" "req_of S enc sn (nonce ?c) (sys_calls y ?c) (dj_buf ?j)"
    using nth_mem [OF i] by (auto simp: net_inv_def sys_req_def)
  have c: "clt_inv S enc valid sn (nonce ?c) owner ?c (outcomes fe (ry_log y)) (ry_clt y ?c)" using inv by (simp add: rpc_inv_def)
  then have nr: "length (sys_calls y ?c) \<le> Suc (length (rc_rets (ry_clt y ?c)))"
    by (auto simp: clt_inv_def cur_ok_def sys_calls_def Let_def split: option.splits)
  have srv: "srv_inv fe S enc sn nonce owner hs sinv (sys_calls y) (ry_srv y) (ry_log y) (ry_run y)" using inv by (simp add: rpc_inv_def)
  note d = dispatch_inv [OF srv nonce enter job(2,1) nr]
  have calls: "sys_calls y' = sys_calls y" using y' by (simp add: sys_calls_def [abs_def])
  have "grows y y'" using y' calls by (simp add: grows_def)
  then have "net_inv fe S enc sn nonce owner y'"
    by (rule net_inv_grows [OF net]) (use y' d calls set_del_at [of i "ry_jobs y"] in \<open>auto simp: sys_rep_def\<close>)
  then show ?thesis using inv d y' unfolding rpc_inv_def calls by simp
qed

lemma rpc_execute_inv:
  assumes inv: "rpc_inv fe S enc valid sn nonce owner (with_bind sn handlers) sinv sem app0 y" and nonce: "inj nonce" "\<And>c. nonce c \<noteq> 0"
    and i: "i < length (ry_run y)" "ry_run y ! i = (f, h, req, k)"
    and run: "f req (marshall_new mem) (s_app (ry_srv y)) = Inr (b, rep, app)" "int (m_ind rep) < 2 ^ 32"
    and new: "dispatch_new dead f k h req (marshall_new mem) (ry_srv y) = Inr (s, ev)"
    and y': "y' = y\<lparr>ry_srv := s, ry_run := del_at i (ry_run y), ry_sends := ry_sends y @ srv_sends ev,
      ry_log := ry_log y @ [(owner k, rq_xid h, b, m_content rep)]\<rparr>"
  shows "rpc_inv fe S enc valid sn nonce owner (with_bind sn handlers) sinv sem app0 y'"
proof -
  have c: "clt_inv S enc valid sn (nonce d) owner d (outcomes fe (ry_log y)) (ry_clt y d)" for d using inv by (simp add: rpc_inv_def)
  have valid: "rcall_valid valid q" if "q \<in> set (sys_calls y d)" for d q
    using clt_okD(8) [of S enc valid sn "nonce d" owner d "ry_clt y d" q] c [of d] that by (simp add: clt_inv_def sys_calls_def)
  have len: "Suc (length (sys_calls y d)) < 2 ^ 32" for d
    using clt_okD(4) [of S enc valid sn "nonce d" owner d "ry_clt y d"] c [of d] by (simp add: clt_inv_def sys_calls_def)
  have o: "srv_inv fe S enc sn nonce owner (with_bind sn handlers) sinv (sys_calls y) (ry_srv y) (ry_log y) (ry_run y)"
      "log_ok sn (sys_calls y) (ry_log y)" "replay (rcall_sem sn sem) (sys_calls y) (ry_log y) app0 = Some (s_app (ry_srv y))"
      "net_inv fe S enc sn nonce owner y"
    using inv by (auto simp: rpc_inv_def)
  have "m_ind rep < 2 ^ 32" using run(2) by simp
  then have e: "srv_inv fe S enc sn nonce owner (with_bind sn handlers) sinv (sys_calls y) s (ry_log y') (del_at i (ry_run y)) \<and>
      log_ok sn (sys_calls y) (ry_log y') \<and> replay (rcall_sem sn sem) (sys_calls y) (ry_log y') app0 = Some (s_app s) \<and>
      (\<forall>(k', b') \<in> set (srv_sends ev). rep_of (owner k') (length (sys_calls y (owner k'))) nr (outcomes fe (ry_log y')) b')" for nr
    by (rule execute_inv [OF o(1) nonce i run(1) _ new _ len o(2,3)]) (use valid y' in auto)
  have calls: "sys_calls y' = sys_calls y" using y' by (simp add: sys_calls_def [abs_def])
  have "grows y y'" using y' calls by (auto simp: grows_def)
  then have "net_inv fe S enc sn nonce owner y'"
    by (rule net_inv_grows [OF o(4)]) (use y' e calls in \<open>auto simp: sys_rep_def\<close>)
  moreover have "clt_inv S enc valid sn (nonce d) owner d (outcomes fe (ry_log y')) (ry_clt y' d)" for d
    using clt_inv_mono [OF c [of d] outcomes_mono, of "ry_log y'"] y' by (simp add: subset_iff)
  ultimately show ?thesis using e y' unfolding rpc_inv_def calls by simp
qed

lemma rpc_step_inv:
  assumes inv: "rpc_inv fe S enc valid sn nonce owner (with_bind sn handlers) sinv sem app0 y" and nonce: "inj nonce" "\<And>c. nonce c \<noteq> 0"
    and step: "rpc_step S owner fe compare ev y = Some y'" and valid: "ev_valid valid ev"
  shows "rpc_inv fe S enc valid sn nonce owner (with_bind sn handlers) sinv sem app0 y'"
proof -
  have clt: "clt_inv S enc valid sn (nonce c) owner c (outcomes fe (ry_log y)) (ry_clt y c)" for c using inv by (simp add: rpc_inv_def)
  have carry: "link_carries (sys_req S enc sn nonce owner y k) (ry_up y k)" "link_carries (sys_rep fe owner y k) (ry_down y k)" for k
    using inv by (simp_all add: rpc_inv_def net_inv_def)
  show ?thesis
  proof (cases ev)
    case (Y_call c q now to mem)
    then obtain x where x: "call_step S q now to mem (ry_clt y c) = Some x" "y' = set_clt c x y" using step by auto
    moreover have "rcall_valid valid q" using valid Y_call by (cases q) simp_all
    ultimately show ?thesis using call_inv [OF inv nonce(1)] by simp
  next
    case (Y_transmit c ob)
    then obtain x where x: "transmit_step ob (ry_clt y c) = Some x" "y' = set_clt c x y" "\<forall>a. o_conn ob = Some a \<longrightarrow> owner a = c"
      using step by (auto split: if_splits option.splits)
    show ?thesis unfolding x(2) by (rule client_step_inv [OF inv]) (use transmit_step_inv [OF clt x(1,3)] in simp_all)
  next
    case (Y_send c rnd ch)
    then show ?thesis using step send_step_inv [OF inv] by (auto split: list.splits option.splits sum.splits)
  next
    case (Y_retry c ob)
    then obtain x where x: "retry_step ob (ry_clt y c) = Some x" "y' = set_clt c x y" using step by auto
    show ?thesis unfolding x(2) by (rule client_step_inv [OF inv]) (use retry_step_inv [OF clt x(1)] in simp_all)
  next
    case (Y_return c)
    then show ?thesis using step return_inv [OF inv] by auto
  next
    case (Y_up k e)
    then show ?thesis using step link_step_inv(1) [OF inv link_carries_wire [OF carry(1)]] by (auto split: if_splits option.splits sum.splits)
  next
    case (Y_down k e)
    then show ?thesis using step link_step_inv(2) [OF inv link_carries_wire [OF carry(2)]] by (auto split: if_splits option.splits sum.splits)
  next
    case (Y_request k taken ch1 ch2)
    then obtain l where l: "link_step (K_read taken ch1 ch2) (ry_up y k) = Some (Inr l)"
      "y' = y\<lparr>ry_up := (ry_up y)(k := l), ry_jobs := ry_jobs y @ (if s_reachable (ry_srv y)
        then map (\<lambda>b. \<lparr>dj_buf = b, dj_sz = length b, dj_conn = k\<rparr>) (new_got (ry_up y k) l) else [])\<rparr>"
      using step by (auto simp del: link_step.simps split: option.splits sum.splits)
    show ?thesis unfolding l(2) by (rule request_step_inv [OF inv l(1)]) simp
  next
    case (Y_reply k ch1 ch2)
    then obtain l r where "link_step (K_read True ch1 ch2) (ry_down y k) = Some (Inr l)"
      "got_replies (new_got (ry_down y k) l) (rc_rpcc (ry_clt y (owner k))) = Inr r"
      "y' = set_clt (owner k) ((ry_clt y (owner k))\<lparr>rc_rpcc := r\<rparr>) (y\<lparr>ry_down := (ry_down y)(k := l)\<rparr>)"
      using step by (auto simp del: link_step.simps split: option.splits sum.splits)
    then show ?thesis using reply_step_inv [OF inv] by blast
  next
    case (Y_dispatch i mem)
    then show ?thesis using step rpc_dispatch_inv [OF inv nonce] by (auto split: if_splits sum.splits)
  next
    case (Y_execute i dead mem)
    then show ?thesis using step rpc_execute_inv [OF inv nonce] by (auto split: if_splits sum.splits prod.splits)
  next
    case (Y_answer i rnd ch)
    then show ?thesis using step answer_step_inv [OF inv] by (auto simp del: link_step.simps split: if_splits option.splits sum.splits prod.splits)
  next
    case (Y_reachable r)
    then show ?thesis using step server_net_inv(3) [OF inv] by auto
  qed
qed

lemma rpc_start_inv:
  assumes "procs s = with_bind (s_nonce s) handlers" "reply_window s = Map.empty" "conns s = Map.empty" "sinv (s_app s)"
  shows "rpc_inv fe S enc valid (s_nonce s) nonce owner (with_bind (s_nonce s) handlers) sinv sem (s_app s)
    (rpc_sys_start nonce lossy d cfg s)"
proof -
  let ?y = "rpc_sys_start nonce lossy d cfg s"
  have calls: "sys_calls ?y = (\<lambda>c. [])" by (simp add: sys_calls_def [abs_def] rpc_sys_start_def rclient_new_def)
  have y: "ry_srv ?y = s" "ry_log ?y = []" "ry_run ?y = []" "ry_jobs ?y = []" "ry_sends ?y = []"
    "\<And>c. ry_clt ?y c = rclient_new (nonce c) (lossy c) d" "ry_up ?y = link_new cfg" "ry_down ?y = link_new cfg"
    by (simp_all add: rpc_sys_start_def)
  have "seq_inv fe (nonce c) 0 (srv_abs nonce Map.empty [] [])" for c
    by (rule seq_invI [where m = 0 and fin = False]) (auto simp: srv_abs_def client_execs_def seq_window_def seq_first_def)
  then have "srv_inv fe S enc (s_nonce s) nonce owner (with_bind (s_nonce s) handlers) sinv (\<lambda>c. []) s [] []"
    using assms by (intro srv_invI) (simp_all add: windows_inv_def)
  then show ?thesis unfolding rpc_inv_def calls y net_inv_def
    by (simp add: clt_inv_new log_ok_def link_carries_new)
qed

lemma rpc_reach_inv:
  assumes "rpc_reach S valid owner fe compare y0 y"
    and "rpc_inv fe S enc valid sn nonce owner (with_bind sn handlers) sinv sem app0 y0"
    and "inj nonce" "\<And>c. nonce c \<noteq> 0"
  shows "rpc_inv fe S enc valid sn nonce owner (with_bind sn handlers) sinv sem app0 y"
  using assms(1)
proof induction
  case start
  show ?case by (rule assms(2))
next
  case (step y ev y')
  show ?case by (rule rpc_step_inv [OF step.IH assms(3,4) step.hyps(2,3)])
qed

text \<open>
  What the invariant says of the log: every client's calls, from the first that is not refused, are in it
  once each, in order, without gaps.
\<close>

lemma rpc_inv_log:
  assumes inv: "rpc_inv fe S enc valid sn nonce owner hs sinv sem app0 y" and "inj nonce"
  obtains m where "log_of c (ry_log y) = map of_nat [seq_first fe..<Suc m]" "length (rc_rets (ry_clt y c)) \<le> m"
    "m \<le> length (sys_calls y c)"
proof -
  let ?a = "srv_abs nonce (reply_window (ry_srv y)) (ry_log y) (ry_run y)" and ?rets = "rc_rets (ry_clt y c)"
  have srv: "srv_inv fe S enc sn nonce owner hs sinv (sys_calls y) (ry_srv y) (ry_log y) (ry_run y)"
    and rets: "rets_ok c (outcomes fe (ry_log y)) ?rets" and "cur_ok S enc sn (nonce c) owner c (outcomes fe (ry_log y)) (ry_clt y c)"
    using inv by (simp_all add: rpc_inv_def clt_inv_def)
  then have nr: "length ?rets \<le> length (sys_calls y c)" by (auto simp: cur_ok_def sys_calls_def Let_def split: option.splits)
  obtain m where m: "client_execs (nonce c) ?a = map of_nat [seq_first fe..<Suc m]" "m \<le> length (sys_calls y c)" "length (sys_calls y c) < 2 ^ 32"
    using seq_inv_execs [OF srv_invD(5) [OF srv, of c]] by metis
  define m' where "m' = length (log_of c (ry_log y))"
  obtain ys where ys: "map of_nat [seq_first fe..<Suc m] = log_of c (ry_log y) @ ys"
    using m(1) [unfolded client_execs_abs [OF assms(2)], symmetric] by blast
  have le: "m' \<le> Suc m - seq_first fe" using arg_cong [OF ys, of length] by (simp add: m'_def del: upt_Suc)
  have "log_of c (ry_log y) = take m' (map of_nat [seq_first fe..<Suc m])" unfolding ys m'_def by simp
  then have log: "log_of c (ry_log y) = map of_nat [seq_first fe..<seq_first fe + m']"
    using take_upt [of "seq_first fe" m' "Suc m"] le by (cases "m' = 0") (simp_all add: take_map del: upt_Suc)
  have few: "length ?rets < seq_first fe + m'"
  proof (rule ccontr)
    let ?i = "seq_first fe + m' - 1"
    assume less: "\<not> length ?rets < seq_first fe + m'"
    have i: "Suc ?i = seq_first fe + m'" by (simp add: seq_first_def)
    then have lt: "Suc ?i < 2 ^ 32" "1 \<le> Suc ?i" using less nr m(3) by auto
    have "?i < length ?rets" using less i by linarith
    then obtain b u res where "(c, of_nat (Suc ?i), b, res) \<in> outcomes fe (ry_log y)"
      using rets unfolding rets_ok_def by blast
    moreover have "\<not> of_nat (Suc ?i) < fe" using seq_first_less [OF lt, of fe] i by linarith
    ultimately have "of_nat (Suc ?i) \<in> set (log_of c (ry_log y))"
      unfolding log_of_def outcomes_def refused_def by (force simp del: of_nat_Suc)
    then have "of_nat (Suc ?i) \<in> (of_nat :: nat \<Rightarrow> u32) ` {seq_first fe..<seq_first fe + m'}" unfolding log by (simp only: set_map set_upt)
    then obtain j where "(of_nat (Suc ?i) :: u32) = of_nat j" "j \<in> {seq_first fe..<seq_first fe + m'}" by (rule imageE)
    then show False using u32_of_nat_eq [of "Suc ?i" j] lt(1) i by auto
  qed
  show ?thesis
  proof (cases "m' = 0")
    case True
    then show ?thesis using that [of "length ?rets"] log few nr by simp
  next
    case False
    then show ?thesis using that [of "seq_first fe + m' - 1"] log few le m(2) by (simp add: seq_first_def)
  qed
qed

text \<open>
  The calls of each client, from the first that is not refused, are executed exactly once, in order; a call that
  has returned has the result of its execution, or was refused.
\<close>

theorem service_exactly_once:
  assumes "rpc_reach S valid owner fe compare (rpc_sys_start nonce lossy d cfg s) y"
    and "inj nonce" "\<And>c. nonce c \<noteq> 0"
    and "procs s = with_bind (s_nonce s) handlers" "reply_window s = Map.empty" "conns s = Map.empty" "sinv (s_app s)"
  shows "replay (rcall_sem (s_nonce s) sem) (sys_calls y) (ry_log y) (s_app s) = Some (s_app (ry_srv y)) \<and>
    (\<forall>c. (\<exists>m. log_of c (ry_log y) = map of_nat [seq_first fe..<Suc m] \<and> length (rc_rets (ry_clt y c)) \<le> m \<and>
        m \<le> length (sys_calls y c)) \<and>
      rets_ok c (outcomes fe (ry_log y)) (rc_rets (ry_clt y c)))"
proof -
  have inv: "rpc_inv fe S enc valid (s_nonce s) nonce owner (with_bind (s_nonce s) handlers) sinv sem (s_app s) y"
    by (rule rpc_reach_inv [OF assms(1) rpc_start_inv [OF assms(4-7)] assms(2,3)])
  have "rets_ok c (outcomes fe (ry_log y)) (rc_rets (ry_clt y c))" for c using inv by (simp add: rpc_inv_def clt_inv_def)
  moreover have "replay (rcall_sem (s_nonce s) sem) (sys_calls y) (ry_log y) (s_app s) = Some (s_app (ry_srv y))"
    using inv by (simp add: rpc_inv_def)
  ultimately show ?thesis using rpc_inv_log [OF inv assms(2)] by metis
qed

end

end
