(* ===== verification/Paxos_Rpc.thy ===== *)
theory Paxos_Rpc
  imports Paxos Rpc_Exactly_Once
begin

text \<open>
  The acceptor as a service of the RPC library (src/paxos/paxos.cc): the server \<open>pxs\<close> that the constructor of
  \<open>acceptor\<close> makes, its three registered methods and the calls with which proposers reach them. They meet the
  contract \<open>rpc_service\<close>, so what \<open>Rpc_Exactly_Once\<close> shows of every service holds for Paxos messages.
\<close>

section \<open>The methods\<close>

definition px_preparereq :: u32 where "px_preparereq = 0x11001"
definition px_acceptreq :: u32 where "px_acceptreq = 0x11002"
definition px_decidereq :: u32 where "px_decidereq = 0x11003"

datatype px_call = Prepare string preparearg | Accept string acceptarg | Decide string decidearg

fun px_proc :: "px_call \<Rightarrow> u32" where
  "px_proc (Prepare me arg) = px_preparereq"
| "px_proc (Accept me arg) = px_acceptreq"
| "px_proc (Decide me arg) = px_decidereq"

fun px_put :: "px_call \<Rightarrow> marshall \<Rightarrow> marshall result" where
  "px_put (Prepare me arg) = put_pair put_string put_preparearg (me, arg)"
| "px_put (Accept me arg) = put_pair put_string put_acceptarg (me, arg)"
| "px_put (Decide me arg) = put_pair put_string put_decidearg (me, arg)"

definition px_stub :: "px_call stub" where
  "px_stub = \<lparr>stub_proc = px_proc, stub_put = px_put\<rparr>"

text \<open>
  The handlers declare their argument and result without initialising numbers and flags; strings are empty.
  \<open>raw\<close> is what these hold.
\<close>

record raw =
  raw_num :: "nat \<Rightarrow> u32"
  raw_flag :: "nat \<Rightarrow> bool"

definition preparearg_raw :: "raw \<Rightarrow> preparearg" where
  "preparearg_raw w = \<lparr>pa_instance = raw_num w 0, pa_n = prop_t (raw_num w 1) []\<rparr>"

definition prepareres_raw :: "raw \<Rightarrow> prepareres" where
  "prepareres_raw w = \<lparr>pr_oldinstance = raw_flag w 0, pr_accept = raw_flag w 1, pr_n_a = prop_t (raw_num w 2) [], pr_v_a = []\<rparr>"

definition acceptarg_raw :: "raw \<Rightarrow> acceptarg" where
  "acceptarg_raw w = \<lparr>aa_instance = raw_num w 3, aa_n = prop_t (raw_num w 4) [], aa_v = []\<rparr>"

definition decidearg_raw :: "raw \<Rightarrow> decidearg" where
  "decidearg_raw w = \<lparr>da_instance = raw_num w 5, da_v = []\<rparr>"

text \<open>The state is the acceptor with the calls of \<open>paxos_commit\<close> that it has made. \<open>decidereq\<close> does not set its result.\<close>

type_synonym px_state = "acceptor \<times> upcalls"

definition prepare_meth :: "raw \<Rightarrow> string \<Rightarrow> preparearg \<Rightarrow> px_state \<Rightarrow> (cint \<times> prepareres \<times> px_state) result" where
  "prepare_meth w src arg s =
     (case preparereq arg (prepareres_raw w) (fst s) of (ret, r, a) \<Rightarrow> Inr (word_of_int ret, r, (a, snd s)))"

definition accept_meth :: "string \<Rightarrow> acceptarg \<Rightarrow> px_state \<Rightarrow> (cint \<times> bool \<times> px_state) result" where
  "accept_meth src arg s =
     (case acceptreq arg (fst s) of (ret, r, a) \<Rightarrow> Inr (word_of_int ret, r, (a, snd s)))"

definition decide_meth :: "raw \<Rightarrow> string \<Rightarrow> decidearg \<Rightarrow> px_state \<Rightarrow> (cint \<times> cint \<times> px_state) result" where
  "decide_meth w src arg s =
     rbind (decidereq arg (fst s)) (\<lambda>(ret, a, us). Inr (word_of_int ret, raw_num w 6, (a, snd s @ us)))"

definition px_handlers :: "raw \<Rightarrow> u32 \<rightharpoonup> px_state handler" where
  "px_handlers w =
     [px_preparereq \<mapsto> h2_fn (get_string []) (get_preparearg (preparearg_raw w)) put_prepareres (prepare_meth w),
      px_acceptreq \<mapsto> h2_fn (get_string []) (get_acceptarg (acceptarg_raw w)) put_bool accept_meth,
      px_decidereq \<mapsto> h2_fn (get_string []) (get_decidearg (decidearg_raw w)) put_int (decide_meth w)]"

text \<open>The part of the constructor of \<open>acceptor\<close> that makes the server.\<close>

definition pxs_new :: "u32 \<Rightarrow> cint \<Rightarrow> raw \<Rightarrow> acceptor \<Rightarrow> px_state rpcs result" where
  "pxs_new rnd cnt w a =
     rbind (rpcs_new rnd cnt (a, [])) (\<lambda>pxs.
     rbind (reg1 px_preparereq
       (h2_fn (get_string []) (get_preparearg (preparearg_raw w)) put_prepareres (prepare_meth w)) pxs) (\<lambda>pxs.
     rbind (reg1 px_acceptreq (h2_fn (get_string []) (get_acceptarg (acceptarg_raw w)) put_bool accept_meth) pxs) (\<lambda>pxs.
     reg1 px_decidereq (h2_fn (get_string []) (get_decidearg (decidearg_raw w)) put_int (decide_meth w)) pxs)))"

section \<open>The contract\<close>

fun px_enc :: "px_call \<Rightarrow> byte list" where
  "px_enc (Prepare me arg) = enc_pair enc_string enc_preparearg (me, arg)"
| "px_enc (Accept me arg) = enc_pair enc_string enc_acceptarg (me, arg)"
| "px_enc (Decide me arg) = enc_pair enc_string enc_decidearg (me, arg)"

text \<open>What the calls do, and when their strings have a size that the wire format can express.\<close>

fun px_sem :: "raw \<Rightarrow> px_call \<Rightarrow> px_state \<Rightarrow> (cint \<times> byte list \<times> px_state) result" where
  "px_sem w (Prepare me arg) (a, us) =
     (case preparereq arg (prepareres_raw w) a of (ret, r, a) \<Rightarrow> Inr (word_of_int ret, enc_prepareres r, (a, us)))"
| "px_sem w (Accept me arg) (a, us) =
     (case acceptreq arg a of (ret, r, a) \<Rightarrow> Inr (word_of_int ret, enc_bool r, (a, us)))"
| "px_sem w (Decide me arg) (a, us) =
     rbind (decidereq arg a) (\<lambda>(ret, a, us'). Inr (word_of_int ret, enc_uint (raw_num w 6), (a, us @ us')))"

fun px_valid :: "px_call \<Rightarrow> bool" where
  "px_valid (Prepare me arg) = (wire_size me \<and> prop_fits (pa_n arg))"
| "px_valid (Accept me arg) = (wire_size me \<and> prop_fits (aa_n arg) \<and> wire_size (aa_v arg))"
| "px_valid (Decide me arg) = (wire_size me \<and> wire_size (da_v arg))"

definition px_fits :: "px_state \<Rightarrow> bool" where
  "px_fits s =
     (wire_size (acc_me (fst s)) \<and> prop_fits (n_a (fst s)) \<and> wire_size (v_a (fst s)) \<and>
      (\<forall>i v. acc_values (fst s) i = Some v \<longrightarrow> wire_size v))"

interpretation accept_args: codec "put_pair put_string put_acceptarg"
  "get_pair (get_string []) (get_acceptarg a0)" "enc_pair enc_string enc_acceptarg"
  "\<lambda>p. wire_size (fst p) \<and> prop_fits (aa_n (snd p)) \<and> wire_size (aa_v (snd p))" for a0
  by (rule codec_pair [OF string_codec.codec_axioms acceptarg_codec.codec_axioms])

interpretation accept_method: remote_method "put_pair put_string put_acceptarg"
  "get_pair (get_string []) (get_acceptarg a0)" "enc_pair enc_string enc_acceptarg"
  "\<lambda>p. wire_size (fst p) \<and> prop_fits (aa_n (snd p)) \<and> wire_size (aa_v (snd p))"
  put_bool get_bool enc_bool "\<lambda>_. True" for a0
  by unfold_locales

interpretation decide_args: codec "put_pair put_string put_decidearg"
  "get_pair (get_string []) (get_decidearg a0)" "enc_pair enc_string enc_decidearg"
  "\<lambda>p. wire_size (fst p) \<and> wire_size (da_v (snd p))" for a0
  by (rule codec_pair [OF string_codec.codec_axioms decidearg_codec.codec_axioms])

interpretation decide_method: remote_method "put_pair put_string put_decidearg"
  "get_pair (get_string []) (get_decidearg a0)" "enc_pair enc_string enc_decidearg"
  "\<lambda>p. wire_size (fst p) \<and> wire_size (da_v (snd p))"
  put_int get_int enc_uint "\<lambda>_. True" for a0
  by unfold_locales

lemma put_appendsD:
  assumes "m_appends f e" "f m = Inr m'" "m_inv m"
  shows "m_inv m' \<and> m_bytes m' = m_bytes m @ e"
  using assms by (auto simp: m_appends_def)

lemma px_put_enc:
  assumes "px_put q m = Inr m'" "m_inv m" "px_valid q"
  shows "m_inv m' \<and> m_bytes m' = m_bytes m @ px_enc q"
proof (cases q)
  case (Prepare me arg)
  then show ?thesis using put_appendsD [OF prepare_args.put_appends [of "(me, arg)"]] assms by simp
next
  case (Accept me arg)
  then show ?thesis using put_appendsD [OF accept_args.put_appends [of "(me, arg)"]] assms by simp
next
  case (Decide me arg)
  then show ?thesis using put_appendsD [OF decide_args.put_appends [of "(me, arg)"]] assms by simp
qed

text \<open>The methods keep the sizes, and their results have one.\<close>

lemma prepare_fits:
  assumes "prepare_meth w src arg s = Inr (b, r, s')" "px_fits s"
  shows "prop_fits (pr_n_a r) \<and> wire_size (pr_v_a r)" "px_fits s'"
  using assms by (auto simp: prepare_meth_def preparereq_def prepareres_raw_def px_fits_def acceptor_value_def value_at_def
      logprop_def wire_size_def split: if_splits option.splits)

lemma accept_fits:
  assumes "accept_meth src arg s = Inr (b, r, s')" "px_fits s" "prop_fits (aa_n arg)" "wire_size (aa_v arg)"
  shows "px_fits s'"
  using assms by (auto simp: accept_meth_def acceptreq_def px_fits_def logaccept_def split: if_splits)

lemma decide_fits:
  assumes "decide_meth w src arg s = Inr (b, r, s')" "px_fits s"
  shows "px_fits s'"
  using assms by (auto simp: decide_meth_def decidereq_def VERIFY_def rbind_eq_Inr px_fits_def commit_wo_def loginstance_def
      wire_size_def Let_def split: if_splits)

lemma px_procs [simp]:
  "px_handlers w px_preparereq =
     Some (h2_fn (get_string []) (get_preparearg (preparearg_raw w)) put_prepareres (prepare_meth w))"
  "px_handlers w px_acceptreq = Some (h2_fn (get_string []) (get_acceptarg (acceptarg_raw w)) put_bool accept_meth)"
  "px_handlers w px_decidereq = Some (h2_fn (get_string []) (get_decidearg (decidearg_raw w)) put_int (decide_meth w))"
  by (simp_all add: px_handlers_def px_preparereq_def px_acceptreq_def px_decidereq_def)

lemma px_handler_sem:
  assumes "px_handlers w (px_proc q) = Some f" "px_valid q" "u_at u (px_enc q)" "px_fits s"
    and f: "f u (marshall_new mem) s = Inr (b, ret, s')"
  shows "px_sem w q s = Inr (b, m_content ret, s') \<and> m_inv ret \<and> px_fits s'"
proof (cases q)
  case (Prepare me arg)
  have "h1_fn (get_pair (get_string []) (get_preparearg (preparearg_raw w))) put_prepareres
      (\<lambda>(src, arg). prepare_meth w src arg) u (marshall_new mem) s = Inr (b, ret, s')"
    using f assms(1) Prepare by (simp add: h2_pair)
  from prepare_method.fn_sem [OF _ _ this, of "(me, arg)"] obtain r where
    r: "prepare_meth w me arg s = Inr (b, r, s')"
      "prop_fits (pr_n_a r) \<and> wire_size (pr_v_a r) \<Longrightarrow> m_inv ret \<and> m_content ret = enc_prepareres r"
    using assms(2,3) Prepare by auto
  show ?thesis using r prepare_fits [OF r(1) assms(4)] Prepare
    by (cases s) (auto simp: prepare_meth_def split: prod.splits)
next
  case (Accept me arg)
  have "h1_fn (get_pair (get_string []) (get_acceptarg (acceptarg_raw w))) put_bool
      (\<lambda>(src, arg). accept_meth src arg) u (marshall_new mem) s = Inr (b, ret, s')"
    using f assms(1) Accept by (simp add: h2_pair)
  from accept_method.fn_sem [OF _ _ this, of "(me, arg)"] obtain r where
    r: "accept_meth me arg s = Inr (b, r, s')" "m_inv ret \<and> m_content ret = enc_bool r"
    using assms(2,3) Accept by auto
  show ?thesis using r accept_fits [OF r(1) assms(4)] assms(2) Accept
    by (cases s) (auto simp: accept_meth_def split: prod.splits)
next
  case (Decide me arg)
  have "h1_fn (get_pair (get_string []) (get_decidearg (decidearg_raw w))) put_int
      (\<lambda>(src, arg). decide_meth w src arg) u (marshall_new mem) s = Inr (b, ret, s')"
    using f assms(1) Decide by (simp add: h2_pair)
  from decide_method.fn_sem [OF _ _ this, of "(me, arg)"] obtain r where
    r: "decide_meth w me arg s = Inr (b, r, s')" "m_inv ret \<and> m_content ret = enc_uint r"
    using assms(2,3) Decide by auto
  show ?thesis using r decide_fits [OF r(1) assms(4)] Decide
    by (cases s) (auto simp: decide_meth_def rbind_eq_Inr)
qed

interpretation px_service: rpc_service px_stub px_enc "px_handlers w" "px_sem w" px_fits px_valid for w
proof
  show "stub_put px_stub q m = Inr m' \<Longrightarrow> m_inv m \<Longrightarrow> px_valid q \<Longrightarrow> m_inv m' \<and> m_bytes m' = m_bytes m @ px_enc q" for q m m'
    using px_put_enc by (simp add: px_stub_def)
  show "px_handlers w (stub_proc px_stub q) = Some f \<Longrightarrow> px_valid q \<Longrightarrow> u_at u (px_enc q) \<Longrightarrow> px_fits s \<Longrightarrow>
      f u (marshall_new mem) s = Inr (b, ret, s') \<Longrightarrow> px_sem w q s = Inr (b, m_content ret, s') \<and> m_inv ret \<and> px_fits s'"
    for q f u s mem b ret s'
    using px_handler_sem by (simp add: px_stub_def)
  show "px_valid q \<Longrightarrow> stub_proc px_stub q \<noteq> rpc_bind" for q
    by (cases q) (simp_all add: px_stub_def px_preparereq_def px_acceptreq_def px_decidereq_def rpc_bind_def)
qed

lemma with_bind_px:
  "with_bind rnd (px_handlers w) = [rpc_bind \<mapsto> h1_fn get_int put_int (rpcbind rnd),
      px_preparereq \<mapsto> h2_fn (get_string []) (get_preparearg (preparearg_raw w)) put_prepareres (prepare_meth w),
      px_acceptreq \<mapsto> h2_fn (get_string []) (get_acceptarg (acceptarg_raw w)) put_bool accept_meth,
      px_decidereq \<mapsto> h2_fn (get_string []) (get_decidearg (decidearg_raw w)) put_int (decide_meth w)]"
  unfolding with_bind_def px_handlers_def px_preparereq_def px_acceptreq_def px_decidereq_def rpc_bind_def
  by (rule ext) auto

lemma pxs_new_ok:
  "\<exists>s. pxs_new rnd cnt w a = Inr s \<and> s_nonce s = rnd \<and> procs s = with_bind rnd (px_handlers w) \<and>
     reply_window s = Map.empty \<and> conns s = Map.empty \<and> s_app s = (a, [])"
  unfolding with_bind_px
  by (simp add: pxs_new_def rpcs_new_def reg1_def VERIFY_def px_preparereq_def px_acceptreq_def px_decidereq_def rpc_bind_def)

section \<open>Execution of concrete runs\<close>

text \<open>Code equations for new buffers that leave the end, which short messages do not reach, as it is.\<close>

fun upt_map :: "(nat \<Rightarrow> 'a) \<Rightarrow> nat \<Rightarrow> 'a list \<Rightarrow> 'a list" where
  "upt_map f 0 xs = xs"
| "upt_map f (Suc n) xs = upt_map f n (f n # xs)"

fun has_length :: "nat \<Rightarrow> 'a list \<Rightarrow> bool" where
  "has_length 0 xs = True"
| "has_length (Suc n) [] = False"
| "has_length (Suc n) (x # xs) = has_length n xs"

lemma upt_map: "upt_map f n xs = map f [0..<n] @ xs"
  by (induction n arbitrary: xs) simp_all

lemma has_length: "has_length n xs \<longleftrightarrow> n \<le> length xs"
  by (induction n xs rule: has_length.induct) simp_all

definition capa_rest :: nat where
  "capa_rest = 976"

definition mem_rest :: "(nat \<Rightarrow> byte) \<Rightarrow> byte list" where
  "mem_rest mem = map mem [48..<DEFAULT_RPC_SZ]"

declare capa_rest_def [code del] mem_rest_def [code del]

lemma marshall_new_code [code]:
  "marshall_new mem =
     \<lparr>m_mem = mem, m_buf = Some (upt_map mem 48 (mem_rest mem)), m_capa = 48 + capa_rest, m_ind = RPC_HEADER_SZ\<rparr>"
proof -
  have "[0..<DEFAULT_RPC_SZ] = [0..<48] @ [48..<DEFAULT_RPC_SZ]"
    using upt_add_eq_append [of 0 48 976] by (simp add: DEFAULT_RPC_SZ_def del: upt_rec_numeral)
  then show ?thesis
    by (simp add: upt_map marshall_new_def mem_rest_def capa_rest_def DEFAULT_RPC_SZ_def del: upt_rec_numeral)
qed

lemma marshall_poke_code [code]:
  "marshall_poke i p m =
     (case m_buf m of
        None \<Rightarrow> Inl Undefined
      | Some b \<Rightarrow>
          let n = i + length p in
          if has_length n b then Inr (m\<lparr>m_buf := Some (take i b @ p @ drop n b)\<rparr>) else Inl Undefined)"
  by (simp add: has_length marshall_poke_def Let_def split: option.split)

fun rpc_exec :: "'q stub \<Rightarrow> (conn \<Rightarrow> 'c) \<Rightarrow> u32 \<Rightarrow> (conn \<Rightarrow> conn \<Rightarrow> int) \<Rightarrow> ('c, 'q) rpc_ev list \<Rightarrow>
    ('c, 'q, 's) rpc_sys \<Rightarrow> ('c, 'q, 's) rpc_sys option" where
  "rpc_exec S owner fe compare [] y = Some y"
| "rpc_exec S owner fe compare (ev # evs) y =
     (case rpc_step S owner fe compare ev y of None \<Rightarrow> None | Some y \<Rightarrow> rpc_exec S owner fe compare evs y)"

lemma rpc_exec_reach:
  assumes "rpc_exec S owner fe compare evs y = Some y'" "list_all (ev_valid valid) evs" "rpc_reach S valid owner fe compare y0 y"
  shows "rpc_reach S valid owner fe compare y0 y'"
  using assms
  by (induction S owner fe compare evs y rule: rpc_exec.induct) (auto intro: rpc_reach.step split: option.splits)

section \<open>Properties\<close>

text \<open>
  C4. Exactly once, from the stubs of the clients to the state of the acceptor, over connections that lose,
  break up and delay. Any number of clients call the methods of an acceptor; requests are sent again over other
  connections, arrive again and are answered again. Then the state of the acceptor is the one that executing the
  calls of the log one after the other gives, each with the code and the bytes of result that the log has for it;
  every client's calls are in the log once each, in the order in which it made them and without gaps, up
  to its last or last but one; and every call that returned is in the log, and returned exactly that code and
  these bytes. The exception is the undefined \<open>front()\<close> of an empty reply window: if it reads \<open>fe\<close>, the calls with
  numbers below \<open>fe\<close> are not executed, are not in the log, and return \<open>atmostonce_failure\<close>.

  Conditions: the clients have different nonces, none of them 0; a client makes one call at a time, and no
  call ends by its time-out (lemma \<open>timed_out_executed_twice\<close> shows that the statement fails otherwise); the strings of
  calls and state have sizes that the wire format can express; a client makes fewer than \<open>2\<^sup>3\<^sup>2 - 3\<close> calls.
\<close>

theorem rpc_exactly_once:
  assumes "pxs_new sn cnt w a = Inr s" "px_fits (a, [])"
    and "inj nonce" "\<And>c. nonce c \<noteq> 0"
    and "rpc_reach px_stub px_valid owner fe compare (rpc_sys_start nonce lossy d cfg s) y"
  shows "replay (rcall_sem sn (px_sem w)) (sys_calls y) (ry_log y) (a, []) = Some (s_app (ry_srv y)) \<and>
    (\<forall>c. (\<exists>m. log_of c (ry_log y) = map of_nat [seq_first fe..<Suc m] \<and> length (rc_rets (ry_clt y c)) \<le> m \<and>
        m \<le> length (sys_calls y c)) \<and>
      rets_ok c (set (ry_log y) \<union> {(c, xid, b, res). xid < fe \<and> b = atmostonce_failure \<and> res = []})
        (rc_rets (ry_clt y c)))"
proof -
  have s: "s_nonce s = sn" "procs s = with_bind sn (px_handlers w)" "reply_window s = Map.empty" "conns s = Map.empty" "s_app s = (a, [])"
    using pxs_new_ok [of sn cnt w a] assms(1) by auto
  show ?thesis
    using px_service.service_exactly_once [OF assms(5,3,4)] s assms(2) by (simp add: outcomes_def refused_def)
qed

text \<open>
  A client binds and prepares; the second request goes out on connection 3 and, when that is dead, on 4. Both
  copies arrive before either is dispatched.
\<close>

definition demo_obs :: "conn \<Rightarrow> obs" where
  "demo_obs k = \<lparr>o_env = (\<lambda>c. c), o_conn = Some k, o_dead = (\<lambda>a. a < k), o_now = \<lparr>tv_sec = 100, tv_nsec = 0\<rparr>,
     o_wakes = [], o_dead_after = (\<lambda>a. a < 4)\<rparr>"

definition demo_raw :: raw where
  "demo_raw = \<lparr>raw_num = (\<lambda>_. 0), raw_flag = (\<lambda>_. False)\<rparr>"

definition demo_pxs :: "px_state rpcs" where
  "demo_pxs = (case pxs_new 77 0 demo_raw (acceptor_init False ''a'' []) of Inr s \<Rightarrow> s)"

definition demo_start :: "(unit, px_call, px_state) rpc_sys" where
  "demo_start = rpc_sys_start (\<lambda>_. 5) (\<lambda>_. 0) \<lparr>s_addr = 0, sin_port = 0\<rparr> (\<lambda>_. (5, 0, 6, 0)) demo_pxs"

definition demo_evs :: "(unit, px_call) rpc_ev list" where
  "demo_evs = [Y_call () Bind \<lparr>tv_sec = 100, tv_nsec = 0\<rparr> 1000 (\<lambda>_. 0),
      Y_transmit () (demo_obs 3), Y_send () 0 (Io_some 50), Y_up 3 K_finish, Y_request 3 True (Io_some 3) (Io_some 50),
      Y_dispatch 0 (\<lambda>_. 0), Y_execute 0 (\<lambda>_. False) (\<lambda>_. 0),
      Y_answer 0 0 (Io_some 50), Y_down 3 K_finish, Y_reply 3 (Io_some 3) (Io_some 50), Y_return (),
      Y_call () (Call (Prepare ''b'' \<lparr>pa_instance = 1, pa_n = prop_t 1 ''b''\<rparr>)) \<lparr>tv_sec = 100, tv_nsec = 0\<rparr> 1000 (\<lambda>_. 0),
      Y_transmit () (demo_obs 3), Y_send () 0 (Io_some 50), Y_up 3 K_finish, Y_request 3 True (Io_some 3) (Io_some 50),
      Y_retry () (demo_obs 4),
      Y_transmit () (demo_obs 4), Y_send () 0 (Io_some 50), Y_up 4 K_finish, Y_request 4 True (Io_some 3) (Io_some 50),
      Y_dispatch 0 (\<lambda>_. 0), Y_execute 0 (\<lambda>_. False) (\<lambda>_. 0), Y_dispatch 0 (\<lambda>_. 0),
      Y_answer 0 0 (Io_some 50), Y_down 3 K_finish, Y_reply 3 (Io_some 3) (Io_some 50), Y_return ()]"

definition demo_run :: "(unit, px_call, px_state) rpc_sys option" where
  "demo_run = rpc_exec px_stub (\<lambda>_. ()) 0 (\<lambda>_ _. 0) demo_evs demo_start"

theorem rpc_exactly_once_witness:
  "\<exists>y. demo_run = Some y \<and> log_of () (ry_log y) = [1, 2] \<and> map fst (rc_rets (ry_clt y ())) = [0, 0] \<and>
    map fst (ry_sends y) = [4] \<and> n_h (fst (s_app (ry_srv y))) = prop_t 1 ''b'' \<and>
    replay (rcall_sem 77 (px_sem demo_raw)) (sys_calls y) (ry_log y) (acceptor_init False ''a'' [], []) = Some (s_app (ry_srv y)) \<and>
    rets_ok () (set (ry_log y)) (rc_rets (ry_clt y ()))"
proof -
  have "case demo_run of None \<Rightarrow> False | Some y \<Rightarrow> log_of () (ry_log y) = [1, 2] \<and> map fst (rc_rets (ry_clt y ())) = [0, 0] \<and>
      map fst (ry_sends y) = [4] \<and> n_h (fst (s_app (ry_srv y))) = prop_t 1 ''b''"
    by code_simp
  then obtain y where y: "demo_run = Some y" "log_of () (ry_log y) = [1, 2]" "map fst (rc_rets (ry_clt y ())) = [0, 0]"
      "map fst (ry_sends y) = [4]" "n_h (fst (s_app (ry_srv y))) = prop_t 1 ''b''"
    by (auto split: option.splits)
  have "list_all (ev_valid px_valid) demo_evs" by (simp add: demo_evs_def wire_size_def)
  from rpc_exec_reach [OF y(1) [unfolded demo_run_def] this rpc_reach.start]
  have r: "rpc_reach px_stub px_valid (\<lambda>_. ()) 0 (\<lambda>_ _. 0)
      (rpc_sys_start (\<lambda>_. 5) (\<lambda>_. 0) \<lparr>s_addr = 0, sin_port = 0\<rparr> (\<lambda>_. (5, 0, 6, 0)) demo_pxs) y"
    unfolding demo_start_def .
  have s: "pxs_new 77 0 demo_raw (acceptor_init False ''a'' []) = Inr demo_pxs"
    using pxs_new_ok [of 77 0 demo_raw "acceptor_init False ''a'' []"] by (auto simp: demo_pxs_def)
  have "px_fits (acceptor_init False ''a'' [], [])" by (simp add: px_fits_def acceptor_init_def wire_size_def)
  note x = rpc_exactly_once [OF s this _ _ r]
  have "rets_ok () (set (ry_log y)) (rc_rets (ry_clt y ()))"
    by (rule rets_ok_mono [OF x [THEN conjunct2, rule_format, of "()", THEN conjunct2]]) (auto simp: inj_def)
  then show ?thesis using x [THEN conjunct1] y by (intro exI [of _ y]) (simp add: inj_def)
qed

end
