(* ===== verification/Spec2Isabelle.thy ===== *)
theory Spec2Isabelle
  imports Codec Paxos_Recovery Paxos_Run Reply_Window Rpc_Util Thr_Pool Rpc_Client Rpc_Server Rpc_Call Handle_Mgr Config Rsm_Service Extent_Cache Lock_Cache Lock_Cache_Rsm Connection Fuse Client_Setup
    Shared_Extents Paxos_Rpc
begin

text \<open>
  YFS is a distributed file system. This development models its C++ sources and proves what makes them
  correct, and where they are not, exhibits it.

  \<^bold>\<open>The program.\<close> At the bottom is an RPC library (src/rpc, include/rpc): \<open>marshall\<close> and \<open>unmarshall\<close> turn
  values into bytes, \<open>connection\<close> sends them as PDUs over TCP, \<open>PollMgr\<close> has one thread that watches
  the sockets, \<open>rpcc\<close> makes calls and repeats them until they are answered, \<open>rpcs\<close> runs registered
  methods at most once on the threads of a \<open>ThrPool\<close>. On it stands a replicated state machine: \<open>config\<close>
  (src/rsm/config.cc) agrees on views through Paxos (src/paxos, with its log in src/log), \<open>rsm\<close> makes a
  primary execute requests at all members of the view, \<open>rsm_client\<close> finds the primary; \<open>handle_mgr\<close>
  (src/util/handle.cc) shares the RPC clients between them. Above are the clients of the lock server and
  of the extent server (src/lock_client, src/extent_client), which cache locks and extents, and the FUSE
  server (src/util/fuse.cc), which answers the kernel through \<open>yfs_client\<close>.

  \<^bold>\<open>How it is modelled.\<close> A struct or class is a record, an enum a datatype, a function or method a
  definition of nearly the same name. Machine integers are words where their width matters, lists stand
  for buffers, maps for \<open>std::map\<close>. A step that can fail has a result in \<open>fault + 'a\<close>: a failed \<open>VERIFY\<close>,
  an \<open>exit\<close>, or an access outside an object. Code between two points where a mutex is given up is one
  definition; threads are step functions on a record of where each thread is, and reachable states are an
  inductive predicate over them. What comes from outside (the clock, the network, system calls, what
  other threads did meanwhile) is an argument: an observation, a list of them, or functions on a world
  \<open>'w\<close>.

  \<^bold>\<open>The theories.\<close>
  \<^item> \<open>Prelude\<close>: machine types, faults and their sequencing, bytes and characters.
  \<^item> \<open>Marshall\<close>, \<open>Codec\<close>: include/rpc/marshall.h and its part of rpc.cc. The locale \<open>codec\<close> is the contract of a
    pair of operators; every pair is an interpretation. Round trips of values and headers; buffers grow
    without writing outside; \<open>get\<close> of a string leaves its buffer exactly when the length field makes the
    end of the string pass \<open>2 ^ 32\<close>.
  \<^item> \<open>Rpc_Util\<close>: times and addresses of rpc.cc. Exactness of \<open>add_timespec\<close> up to its one bad case.
  \<^item> \<open>Thr_Pool\<close>: include/rpc/fifo.h, src/rpc/thr_pool.cc. The queue keeps the order (locale \<open>fifo_queue\<close>); a pool
    that is destroyed runs every accepted job once and stops.
  \<^item> \<open>Pollmgr\<close>: src/rpc/pollmgr.cc. The locale \<open>aio\<close> is what \<open>PollMgr\<close> needs of its two implementations on
    \<open>select\<close> and \<open>epoll\<close>. Well-formedness of all reachable states; if waits end only by broadcasts, a removed
    descriptor is not called again and the removal returns; a spurious wakeup breaks this.
  \<^item> \<open>Connection\<close>: src/rpc/connection.cc. However the system cuts reads and writes, the PDUs arrive as
    sent, in order and once; a size field from -3 to -1 overflows the receive buffer, one from 0 to 3 makes
    the count of the second read wrap around.
  \<^item> \<open>Reply_Window\<close>, \<open>Rpc_Server\<close>: class \<open>rpcs\<close>. At-most-once execution for a client that makes each call after
    the one before was answered; runs in which concurrent calls or time-outs break it.
  \<^item> \<open>Rpc_Client\<close>: class \<open>rpcc\<close>. The window of answered calls represents a set of them; a call that has not
    returned is never acknowledged; \<open>call1\<close> returns.
  \<^item> \<open>Rpc_Call\<close>: client and server together (locale \<open>remote_method\<close>): a call runs the registered method on
    exactly the arguments and returns exactly its result; a repeated request is not run again while its
    reply is kept.
  \<^item> \<open>Rpc_System\<close>, \<open>Rpc_Dispatch_Inv\<close>, \<open>Rpc_Exactly_Once\<close>: clients, server and the connections between them as
    one system whose steps are those of \<open>call1\<close>, \<open>got_pdu\<close>, \<open>dispatch\<close>, the handlers and the links of
    \<open>Connection\<close>. The locale \<open>rpc_service\<close> is what a service promises: its stubs, its handlers and what
    its methods do. For every such service, if clients make one call at a time and no call ends by its
    time-out, calls are executed exactly once, in order, and return the results of their execution.
    \<open>Paxos_Rpc\<close>: the acceptor is such a service.
  \<^item> \<open>Handle_Mgr\<close>: src/util/handle.cc. No handle points to a deleted entry.
  \<^item> \<open>Iostream\<close>, \<open>Paxos_Protocol\<close>, \<open>Paxos\<close>: streams, messages, acceptor, proposer and log.
    \<open>Paxos_Recovery\<close>: an acceptor read back from its log behaves as before. \<open>Paxos_Cluster\<close>, \<open>Paxos_Safety\<close>:
    a cluster with a network that loses, delays, reorders and repeats messages; agreement when accept
    requests reach only acceptors that still work on the instance, and a run that disagrees without this
    (locale \<open>quorum_system\<close>). \<open>Paxos_Run\<close>: \<open>proposer::run\<close> is a sequence of steps of that cluster.
  \<^item> \<open>Config\<close>: src/rsm/config.cc. A commit of the acceptor and its upcall into \<open>config\<close> are separate steps. The
    view is a committed value, the last one if upcalls come in order and none is open; an upcall that is
    overtaken sets the view back. Views change by one node.
  \<^item> \<open>Rsm_Protocol\<close>, \<open>Rsm\<close>, \<open>Rsm_Client\<close>, \<open>Rsm_Safety\<close>, \<open>Rsm_Service\<close>: src/rsm. The members of a view execute the
    same requests; a state transfer gives the primary's state; a call through \<open>rsm_client\<close> is a call of the
    method on the replicated state if the RPC of the client is not lost, and a lost reply makes the client
    have it executed twice; a backup that serves clients makes the members diverge.
  \<^item> \<open>Lock_Client\<close>, \<open>Lock_Cache\<close>, \<open>Lock_Cache_Rsm\<close>: src/lock_client. The locale \<open>lock_cache\<close> accounts for the
    locks granted to a client; both caching clients keep it, and mutual exclusion follows.
  \<^item> \<open>Extent_Cache\<close>: src/extent_client. With locks held as demanded, and no failing call to the server, the
    contents and sizes that clients see are those of one store.
  \<^item> \<open>Shared_Extents\<close>: lock clients and extent caches together. The locale \<open>flushing_cache\<close> adds to \<open>lock_cache\<close>
    that an extent is flushed before its lock is given back; both caching clients do this, and then, if no
    call to the extent server fails, reads return what was last written by any client.
  \<^item> \<open>Client_Setup\<close>: the constructors of the lock and extent clients.
  \<^item> \<open>Fuse\<close>: src/util/fuse.cc. Every handler replies once but for two error paths; directories can be listed
    in parts.

  \<^bold>\<open>Bounds and fuel.\<close> The loop of \<open>rsm_client::invoke\<close> may run for ever: its definition takes the number of
  rounds, and the theorem on it says that one round is enough when nothing is lost. The loop of
  \<open>rpcc::call1\<close> takes one observation per iteration; that it returns is proved with the number of
  iterations that the timeout allows. The poll thread reaches the top of its loop within
  \<open>poll_distance\<close> of its own steps, at most four per descriptor. All other recursions are total. A PDU
  has more than 4 bytes and at most \<open>MAX_PDU\<close>, as those of the RPC library have. In \<open>Rpc_System\<close>
  a client makes fewer than \<open>2 ^ 32 - 3\<close> calls, one at a time, and messages are shorter than \<open>2 ^ 32\<close> bytes,
  so that numbers of calls and sizes do not wrap around.

  \<^bold>\<open>What is assumed.\<close> The lock server, the extent server and \<open>yfs_client\<close> are not part of the sources; the
  theorems on their clients name what they rely on (a server that grants a lock only while nobody has
  it; a store that returns what was put, with no call that fails; \<open>flushing_user\<close>, what a
  \<open>lock_release_user\<close> does, of which src/ has one for the plain lock client only). \<open>front()\<close> of an empty
  \<open>std::list\<close>, which \<open>checkduplicate_and_update\<close> evaluates for the first request of a client, is undefined:
  it is the arbitrary number \<open>fe\<close>. Proposals for Paxos are not empty and their counter does not wrap
  around (\<open>start_ok\<close>); the callers in \<open>config\<close> propose views that have the node itself. Allocation succeeds. A condition variable wakes its waiters at
  any time, except in the two results on the removal of a descriptor, which are about broadcasts.
  The pipe of the poll manager never fills up.

  \<^bold>\<open>What is not modelled.\<close> Initialisation and destruction of mutexes and condition variables; the wrappers
  method_thread.h and slock.h, whose effect is the atomicity of the steps; logging; gettime.cc, which is
  for macOS only; the random seed; the programs under src/test; the signals of \<open>fifo\<close>. In \<open>Rpc_System\<close>, a
  call that ends by a timeout: its steps are those of calls that wait until they are answered.
\<close>

end
